(* ===== verification/Airy_Prelude.thy ===== *)
theory Airy_Prelude
  imports Main "HOL-Library.Word"
begin

section \<open>Shared vocabulary of the commons development\<close>

text \<open>
  What every component theory uses: names for the machine types of the C code, the fact
  collections the component proofs feed to \<open>simp\<close> and \<open>auto\<close>, and the generic lemmas on
  lists, cyclic probing and bounded searches.

  Conventions of the whole development:
  \<^item> \<open>size_t\<close> counters that are bounded by an allocation are \<open>nat\<close>; every integer whose
    wrap-around the code can reach is a \<open>word\<close> of its width;
  \<^item> a NUL-terminated string is a HOL \<open>string\<close> holding the bytes before the NUL;
  \<^item> raw text (buffers that are walked byte by byte) is a \<open>byte list\<close>;
  \<^item> a pointer that may be NULL is an \<open>option\<close>;
  \<^item> the current time, random numbers and the outcome of an allocation are arguments.
\<close>

unbundle bit_operations_syntax

type_synonym byte = "8 word"
type_synonym u32 = "32 word"
type_synonym u64 = "64 word"
type_synonym cstr = string
type_synonym airy_err = int
type_synonym addr = nat

named_theorems model_simps \<open>unfolding rules that component proofs share\<close>

subsection \<open>Lists\<close>

lemma nth_upd: "xs[i := x] ! j = (if i = j \<and> i < length xs then x else xs ! j)"
  by (cases "i < length xs") (auto simp: nth_list_update list_update_beyond)

lemma length_filter_update:
  assumes "i < length xs"
  shows "length (filter P (xs[i := x])) + (if P (xs ! i) then 1 else 0) =
         length (filter P xs) + (if P x then 1 else 0)"
proof -
  have *: "xs = take i xs @ xs ! i # drop (Suc i) xs"
    using assms by (rule id_take_nth_drop)
  have "length (filter P (xs[i := x])) =
        length (filter P (take i xs @ x # drop (Suc i) xs))"
    using assms by (simp add: upd_conv_take_nth_drop)
  moreover have "length (filter P xs) =
        length (filter P (take i xs @ xs ! i # drop (Suc i) xs))"
    using * by simp
  ultimately show ?thesis by simp
qed

lemma length_filter_lt:
  "\<exists>i < length xs. \<not> P (xs ! i) \<Longrightarrow> length (filter P xs) < length xs"
  by (metis length_filter_less nth_mem)

lemma length_filter_ltD:
  "length (filter P xs) < length xs \<Longrightarrow> \<exists>i < length xs. \<not> P (xs ! i)"
  by (metis filter_True in_set_conv_nth less_not_refl)

lemma distinct_map_filterI:
  assumes "\<And>p q. p < length xs \<Longrightarrow> q < length xs \<Longrightarrow> P (xs ! p) \<Longrightarrow> P (xs ! q) \<Longrightarrow>
             f (xs ! p) = f (xs ! q) \<Longrightarrow> p = q"
  shows "distinct (map f (filter P xs))"
  using assms
proof (induction xs)
  case (Cons x xs)
  have "distinct (map f (filter P xs))"
  proof (rule Cons.IH)
    fix p q
    assume "p < length xs" "q < length xs" "P (xs ! p)" "P (xs ! q)" "f (xs ! p) = f (xs ! q)"
    then show "p = q" using Cons.prems [of "Suc p" "Suc q"] by simp
  qed
  moreover have "f x \<noteq> f (xs ! q)" if "P x" "q < length xs" "P (xs ! q)" for q
    using that Cons.prems [of 0 "Suc q"] by auto
  ultimately show ?case by (auto simp: in_set_conv_nth)
qed simp

subsection \<open>Cyclic walks\<close>

text \<open>Slot number \<open>i\<close> of the walk that starts at \<open>s\<close> in a ring of \<open>n\<close> slots.\<close>

definition ring :: "nat \<Rightarrow> nat \<Rightarrow> nat \<Rightarrow> nat" where
  "ring n s i = (s + i) mod n"

lemma ring_less [simp]: "0 < n \<Longrightarrow> ring n s i < n"
  by (simp add: ring_def)

lemma ring_0 [simp]: "s < n \<Longrightarrow> ring n s 0 = s"
  by (simp add: ring_def)

lemma ring_Suc: "(ring n s i + 1) mod n = ring n s (Suc i)"
  by (simp add: ring_def mod_Suc_eq)

lemma ring_surj:
  assumes "s < n" "p < n"
  obtains i where "i < n" "ring n s i = p"
proof (cases "s \<le> p")
  case True
  with assms show ?thesis by (intro that [of "p - s"]) (auto simp: ring_def)
next
  case False
  with assms show ?thesis by (intro that [of "n - s + p"]) (auto simp: ring_def)
qed

lemma ring_inj_le:
  assumes "i \<le> j" "j < n" "ring n s i = ring n s j"
  shows "i = j"
proof -
  have "n dvd (s + j) - (s + i)"
    using assms(1,3) unfolding ring_def by (metis add_le_mono le_refl mod_eq_dvd_iff_nat)
  then have "n dvd j - i" by simp
  moreover have "j - i < n" using assms(2) by simp
  ultimately have "j - i = 0" by (meson dvd_imp_le leD neq0_conv)
  with assms(1) show ?thesis by simp
qed

lemma ring_inj: "i < n \<Longrightarrow> j < n \<Longrightarrow> ring n s i = ring n s j \<Longrightarrow> i = j"
  using ring_inj_le [of i j n s] ring_inj_le [of j i n s] by (cases "i \<le> j") auto

subsection \<open>Linked lists\<close>

text \<open>The nodes from \<open>p\<close> on, in order; \<open>m\<close> gives the next pointer of every live node.\<close>

fun hchain :: "(addr \<rightharpoonup> addr option) \<Rightarrow> addr option \<Rightarrow> addr list \<Rightarrow> bool" where
  "hchain m p [] = (p = None)"
| "hchain m p (a # as) = (p = Some a \<and> (\<exists>n. m a = Some n \<and> hchain m n as))"

lemma hchain_cong: "(\<And>a. a \<in> set as \<Longrightarrow> m' a = m a) \<Longrightarrow> hchain m' p as = hchain m p as"
  by (induction as arbitrary: p) auto

lemma hchain_live: "hchain m p as \<Longrightarrow> a \<in> set as \<Longrightarrow> m a \<noteq> None"
  by (induction as arbitrary: p) auto

lemma hchain_append:
  "hchain m p as \<Longrightarrow> a \<notin> set as \<Longrightarrow> distinct as \<Longrightarrow> as \<noteq> [] \<Longrightarrow>
     hchain (m(last as \<mapsto> Some a, a \<mapsto> None)) p (as @ [a])"
proof (induction as arbitrary: p)
  case (Cons b bs)
  show ?case
  proof (cases "bs = []")
    case True
    with Cons.prems show ?thesis by auto
  next
    case False
    with Cons show ?thesis by auto
  qed
qed simp

subsection \<open>Casts between word sizes\<close>

lemma unat_ucast_small:
  fixes w :: "'a::len word"
  assumes "unat w < 2 ^ LENGTH('b::len)"
  shows "unat (ucast w :: 'b word) = unat w"
  using assms by (simp add: unsigned_ucast_eq take_bit_nat_eq_self)

lemma unat_ucast_up:
  fixes w :: "'a::len word"
  assumes "LENGTH('a) \<le> LENGTH('b::len)"
  shows "unat (ucast w :: 'b word) = unat w"
proof (rule unat_ucast_small)
  have "unat w < 2 ^ LENGTH('a)" by simp
  also have "\<dots> \<le> 2 ^ LENGTH('b)" using assms by (simp add: power_increasing)
  finally show "unat w < 2 ^ LENGTH('b)" .
qed

lemma byte_lt: "unat (x :: byte) < 256"
proof -
  have "unat x < 2 ^ LENGTH(8)" by (rule unsigned_less)
  then show ?thesis by simp
qed

lemma unat_of_nat32: "n < 2 ^ 32 \<Longrightarrow> unat (of_nat n :: u32) = n"
  by (simp add: unat_of_nat)

lemma u32_lt: "unat (x :: u32) < 4294967296"
proof -
  have "unat x < 2 ^ LENGTH(32)" by (rule unsigned_less)
  then show ?thesis by simp
qed

subsection \<open>Decimal output\<close>

text \<open>What \<open>%u\<close> and \<open>%d\<close> print.\<close>

fun dec_nat :: "nat \<Rightarrow> string" where
  "dec_nat n = (if n < 10 then [char_of (48 + n)] else dec_nat (n div 10) @ [char_of (48 + n mod 10)])"

definition dec_int :: "int \<Rightarrow> string" where
  "dec_int i = (if i < 0 then CHR ''-'' # dec_nat (nat (- i)) else dec_nat (nat i))"

declare dec_nat.simps [simp del]

subsection \<open>Runs of a state machine\<close>

text \<open>The outputs and the final state of a list of operations.\<close>

fun runs :: "('s \<Rightarrow> 'op \<Rightarrow> 'o \<times> 's) \<Rightarrow> 's \<Rightarrow> 'op list \<Rightarrow> 'o list \<times> 's" where
  "runs step s [] = ([], s)"
| "runs step s (op # ops) =
     (let (r, s') = step s op; (rs, s'') = runs step s' ops in (r # rs, s''))"

lemma runs_append:
  "runs step s (ops @ ops') =
     (let (rs, s') = runs step s ops; (rs', s'') = runs step s' ops' in (rs @ rs', s''))"
  by (induction ops arbitrary: s) (auto simp: split_beta Let_def)

lemma runs_length [simp]: "length (fst (runs step s ops)) = length ops"
  by (induction ops arbitrary: s) (auto simp: split_beta Let_def)

text \<open>A property that the allowed operations keep, in every state that has it.\<close>

locale machine_invariant =
  fixes step :: "'s \<Rightarrow> 'op \<Rightarrow> 'o \<times> 's" and inv :: "'s \<Rightarrow> bool" and allowed :: "'op \<Rightarrow> bool"
  assumes step_inv: "inv s \<Longrightarrow> allowed op \<Longrightarrow> inv (snd (step s op))"
begin

lemma run_inv: "inv s \<Longrightarrow> list_all allowed ops \<Longrightarrow> inv (snd (runs step s ops))"
  by (induction ops arbitrary: s) (auto simp: split_beta Let_def dest: step_inv)

lemma run_outputs:
  assumes "\<And>s op. inv s \<Longrightarrow> allowed op \<Longrightarrow> P (fst (step s op))"
  shows "inv s \<Longrightarrow> list_all allowed ops \<Longrightarrow> list_all P (fst (runs step s ops))"
  by (induction ops arbitrary: s) (auto simp: split_beta Let_def dest: step_inv assms)

end

end
