(* ===== verification/Err_Codes.thy ===== *)
theory Err_Codes
  imports Airy_Prelude
begin

section \<open>Error codes\<close>

text \<open>
  The error codes the modelled components return, with the values of
  \<open>include/airy_types.h\<close> and \<open>utils/error/error_codes.h\<close>. \<open>AIRY_ERROR (code, msg)\<close>
  pushes a message on the error stack and returns \<open>AIRY_ERR_NEG (code)\<close>; the message stack is
  diagnostics only, so a component model keeps the returned code.
\<close>

definition AIRY_SUCCESS :: airy_err where "AIRY_SUCCESS = 0"
definition AIRY_EPERM :: airy_err where "AIRY_EPERM = - 1"
definition AIRY_ENOENT :: airy_err where "AIRY_ENOENT = - 2"
definition AIRY_ENOMEM :: airy_err where "AIRY_ENOMEM = - 12"
definition AIRY_EACCES :: airy_err where "AIRY_EACCES = - 13"
definition AIRY_EINVAL :: airy_err where "AIRY_EINVAL = - 22"
definition AIRY_ECONNRESET :: airy_err where "AIRY_ECONNRESET = - 104"
definition AIRY_ENOTCONN :: airy_err where "AIRY_ENOTCONN = - 107"
definition AIRY_ETIMEDOUT :: airy_err where "AIRY_ETIMEDOUT = - 110"
definition AIRY_ECONNREFUSED :: airy_err where "AIRY_ECONNREFUSED = - 111"
definition AIRY_EEXIST :: airy_err where "AIRY_EEXIST = - 17"
definition AIRY_EPROTONOSUPPORT :: airy_err where "AIRY_EPROTONOSUPPORT = - 93"
definition AIRY_ENOTINIT :: airy_err where "AIRY_ENOTINIT = - 9"
definition AIRY_ENOSPC :: airy_err where "AIRY_ENOSPC = - 28"
definition AIRY_EBUSY :: airy_err where "AIRY_EBUSY = - 16"
definition AIRY_ECANCELED :: airy_err where "AIRY_ECANCELED = - 125"

definition AIRY_ERR_UNKNOWN :: airy_err where "AIRY_ERR_UNKNOWN = - 99"
definition AIRY_ERR_INVALID_PARAM :: airy_err where "AIRY_ERR_INVALID_PARAM = - 36"
definition AIRY_ERR_NULL_POINTER :: airy_err where "AIRY_ERR_NULL_POINTER = - 3"
definition AIRY_ERR_OUT_OF_MEMORY :: airy_err where "AIRY_ERR_OUT_OF_MEMORY = - 59"
definition AIRY_ERR_NOT_FOUND :: airy_err where "AIRY_ERR_NOT_FOUND = - 6"
definition AIRY_ERR_TIMEOUT :: airy_err where "AIRY_ERR_TIMEOUT = - 8"
definition AIRY_ERR_PERMISSION_DENIED :: airy_err where "AIRY_ERR_PERMISSION_DENIED = - 39"
definition AIRY_ERR_PARSE_ERROR :: airy_err where "AIRY_ERR_PARSE_ERROR = - 55"
definition AIRY_ERR_OVERFLOW :: airy_err where "AIRY_ERR_OVERFLOW = - 60"
definition AIRY_ERR_NOT_IMPLEMENTED :: airy_err where "AIRY_ERR_NOT_IMPLEMENTED = - 30"
definition AIRY_ERR_GENERIC_FAIL :: airy_err where "AIRY_ERR_GENERIC_FAIL = - 31"
definition AIRY_ERR_STATE_ERROR :: airy_err where "AIRY_ERR_STATE_ERROR = - 56"
definition AIRY_ERR_SYS_THREAD :: airy_err where "AIRY_ERR_SYS_THREAD = - 120"
definition AIRY_ERR_SYS_DEADLOCK :: airy_err where "AIRY_ERR_SYS_DEADLOCK = - 103"
definition AIRY_ERR_SYS_MUTEX :: airy_err where "AIRY_ERR_SYS_MUTEX = - 105"
definition AIRY_ERR_SYS_CONDITION :: airy_err where "AIRY_ERR_SYS_CONDITION = - 121"
definition AIRY_ERR_SYS_SOCKET :: airy_err where "AIRY_ERR_SYS_SOCKET = - 109"
definition AIRY_ERR_SYS_PIPE :: airy_err where "AIRY_ERR_SYS_PIPE = - 122"
definition AIRY_ERR_KERN_BASE :: airy_err where "AIRY_ERR_KERN_BASE = - 200"
definition AIRY_ERR_KERN_IPC :: airy_err where "AIRY_ERR_KERN_IPC = - 201"
definition AIRY_ERR_KERN_INTERRUPT :: airy_err where "AIRY_ERR_KERN_INTERRUPT = - 208"
definition AIRY_ERR_SVC_NOT_READY :: airy_err where "AIRY_ERR_SVC_NOT_READY = - 301"
definition AIRY_ERR_SVC_BUSY :: airy_err where "AIRY_ERR_SVC_BUSY = - 302"
definition AIRY_ERR_SVC_STOPPED :: airy_err where "AIRY_ERR_SVC_STOPPED = - 303"
definition AIRY_ERR_SVC_CONFIG :: airy_err where "AIRY_ERR_SVC_CONFIG = - 304"
definition AIRY_ERR_SVC_DEPENDENCY :: airy_err where "AIRY_ERR_SVC_DEPENDENCY = - 305"
definition AIRY_ERR_SVC_HEALTH :: airy_err where "AIRY_ERR_SVC_HEALTH = - 306"
definition AIRY_ERR_SVC_LOADBALANCE :: airy_err where "AIRY_ERR_SVC_LOADBALANCE = - 307"
definition AIRY_ERR_LLM_NO_PROVIDER :: airy_err where "AIRY_ERR_LLM_NO_PROVIDER = - 401"
definition AIRY_ERR_LLM_PROVIDER_FAIL :: airy_err where "AIRY_ERR_LLM_PROVIDER_FAIL = - 402"
definition AIRY_ERR_LLM_RATE_LIMIT :: airy_err where "AIRY_ERR_LLM_RATE_LIMIT = - 403"
definition AIRY_ERR_LLM_INVALID_MODEL :: airy_err where "AIRY_ERR_LLM_INVALID_MODEL = - 405"
definition AIRY_ERR_LLM_AUTH_FAIL :: airy_err where "AIRY_ERR_LLM_AUTH_FAIL = - 406"
definition AIRY_ERR_EXEC_SANDBOX :: airy_err where "AIRY_ERR_EXEC_SANDBOX = - 505"
definition AIRY_ERR_EXEC_PERMISSION :: airy_err where "AIRY_ERR_EXEC_PERMISSION = - 506"
definition AIRY_ERR_EXEC_ENV :: airy_err where "AIRY_ERR_EXEC_ENV = - 508"
definition AIRY_ERR_MEM_CORRUPT :: airy_err where "AIRY_ERR_MEM_CORRUPT = - 606"
definition AIRY_ERR_SEC_VIOLATION :: airy_err where "AIRY_ERR_SEC_VIOLATION = - 701"
definition AIRY_ERR_CUPOLAS_CERT_EXPIRED :: airy_err where "AIRY_ERR_CUPOLAS_CERT_EXPIRED = - 726"
definition AIRY_ERR_PROTOCOL :: airy_err where "AIRY_ERR_PROTOCOL = - 900"
definition AIRY_ERR_CHECKSUM :: airy_err where "AIRY_ERR_CHECKSUM = - 901"
definition AIRY_EIPC_MAGIC :: airy_err where "AIRY_EIPC_MAGIC = 41"
definition AIRY_EIPC_FROZEN :: airy_err where "AIRY_EIPC_FROZEN = 53"
definition AIRY_FAULT_CAP_FORGED :: airy_err where "AIRY_FAULT_CAP_FORGED = 0x1001"
definition AIRY_FAULT_VM_FAULT :: airy_err where "AIRY_FAULT_VM_FAULT = 0x1006"

lemmas err_codes =
  AIRY_SUCCESS_def AIRY_EPERM_def AIRY_ENOENT_def AIRY_ENOMEM_def AIRY_EACCES_def AIRY_EINVAL_def
  AIRY_ECONNRESET_def AIRY_ENOTCONN_def AIRY_ETIMEDOUT_def AIRY_ECONNREFUSED_def
  AIRY_ERR_UNKNOWN_def AIRY_ERR_INVALID_PARAM_def AIRY_ERR_NULL_POINTER_def
  AIRY_ERR_OUT_OF_MEMORY_def AIRY_ERR_NOT_FOUND_def AIRY_ERR_TIMEOUT_def
  AIRY_ERR_PERMISSION_DENIED_def AIRY_ERR_PARSE_ERROR_def AIRY_ERR_OVERFLOW_def
  AIRY_ERR_NOT_IMPLEMENTED_def AIRY_ERR_GENERIC_FAIL_def AIRY_ERR_STATE_ERROR_def
  AIRY_ERR_SYS_THREAD_def AIRY_ERR_SYS_DEADLOCK_def AIRY_ERR_SYS_SOCKET_def
  AIRY_ERR_SYS_PIPE_def AIRY_ERR_KERN_BASE_def AIRY_ERR_KERN_IPC_def AIRY_ERR_KERN_INTERRUPT_def
  AIRY_ERR_SVC_NOT_READY_def AIRY_ERR_SVC_BUSY_def AIRY_ERR_SVC_STOPPED_def AIRY_ERR_SVC_CONFIG_def
  AIRY_ERR_SVC_DEPENDENCY_def AIRY_ERR_SVC_HEALTH_def AIRY_ERR_SVC_LOADBALANCE_def
  AIRY_ERR_LLM_NO_PROVIDER_def AIRY_ERR_LLM_PROVIDER_FAIL_def AIRY_ERR_LLM_RATE_LIMIT_def
  AIRY_ERR_LLM_INVALID_MODEL_def AIRY_ERR_LLM_AUTH_FAIL_def AIRY_ERR_EXEC_SANDBOX_def
  AIRY_ERR_EXEC_PERMISSION_def AIRY_ERR_EXEC_ENV_def AIRY_ERR_MEM_CORRUPT_def
  AIRY_ERR_SEC_VIOLATION_def AIRY_ERR_CUPOLAS_CERT_EXPIRED_def AIRY_ERR_PROTOCOL_def
  AIRY_ERR_CHECKSUM_def AIRY_EIPC_MAGIC_def AIRY_EIPC_FROZEN_def AIRY_FAULT_CAP_FORGED_def
  AIRY_FAULT_VM_FAULT_def AIRY_EEXIST_def AIRY_EPROTONOSUPPORT_def AIRY_ENOTINIT_def AIRY_ENOSPC_def
  AIRY_EBUSY_def AIRY_ECANCELED_def AIRY_ERR_SYS_MUTEX_def AIRY_ERR_SYS_CONDITION_def

text \<open>\<open>AIRY_ERR_NEG\<close>: positive magnitudes are negated, everything else is kept.\<close>

definition AIRY_ERR_NEG :: "airy_err \<Rightarrow> airy_err" where
  "AIRY_ERR_NEG code = (if code > 0 then - code else code)"

definition AIRY_ERR_FAIL :: "airy_err \<Rightarrow> bool" where
  "AIRY_ERR_FAIL err \<longleftrightarrow> err < 0"

lemma AIRY_ERR_NEG_le_0: "AIRY_ERR_NEG code \<le> 0"
  by (simp add: AIRY_ERR_NEG_def)

end
