(* ===== verification/Hindex.thy ===== *)
theory Hindex
  imports Err_Codes
begin

section \<open>String index: open addressing with tombstones (\<open>utils/ds/hindex.c\<close>)\<close>

text \<open>
  The hash index that maps NUL-terminated keys to caller-supplied indices: djb2, linear
  probing, tombstones and same-capacity compaction. The model keeps the slot array, the three
  slot states and the two counters. The two allocations of \<open>hindex_put\<close> (the new table of the
  compaction and the copy of the key) succeed or fail as the arguments say. The two unbounded
  probe loops return \<open>None\<close> when the C loop would not stop; the invariant rules that out.

  Shown: the invariant (counters, distinct keys, unbroken probe chains) is kept by every
  operation, and the operations refine a finite map.
\<close>

subsection \<open>Data\<close>

datatype hindex_state = HINDEX_EMPTY | HINDEX_LIVE | HINDEX_DEAD

record hindex_ent =
  he_key :: "cstr option"
  he_index :: u64
  he_state :: hindex_state

record hindex =
  hi_ents :: "hindex_ent list option"
  hi_cap :: nat
  hi_cnt :: nat
  hi_used :: nat

definition hindex_zero_ent :: hindex_ent where
  "hindex_zero_ent = \<lparr>he_key = None, he_index = 0, he_state = HINDEX_EMPTY\<rparr>"

subsection \<open>Operations\<close>

definition hindex_hash :: "cstr \<Rightarrow> u64" where
  "hindex_hash s = foldl (\<lambda>h c. (push_bit 5 h + h) + of_char c) 5381 s"

definition hindex_home :: "nat \<Rightarrow> cstr \<Rightarrow> nat" where
  "hindex_home cap key = unat (hindex_hash key) mod cap"

fun hindex_scan_loop :: "hindex_ent list \<Rightarrow> nat \<Rightarrow> cstr \<Rightarrow> nat \<Rightarrow> nat \<Rightarrow> nat option" where
  "hindex_scan_loop es cap key 0 pos = None"
| "hindex_scan_loop es cap key (Suc r) pos =
     (let e = es ! pos in
      if he_state e = HINDEX_EMPTY then None
      else if he_state e = HINDEX_LIVE \<and> he_key e = Some key then Some pos
      else hindex_scan_loop es cap key r ((pos + 1) mod cap))"

definition hindex_scan :: "hindex_ent list \<Rightarrow> nat \<Rightarrow> cstr \<Rightarrow> nat option" where
  "hindex_scan es cap key = hindex_scan_loop es cap key cap (hindex_home cap key)"

definition hindex_init :: "bool \<Rightarrow> hindex option \<Rightarrow> nat \<Rightarrow> airy_err \<times> hindex option" where
  "hindex_init calloc_ok h cap =
     (case h of
        None \<Rightarrow> (AIRY_ERR_INVALID_PARAM, None)
      | Some t \<Rightarrow>
          if cap = 0 then (AIRY_ERR_INVALID_PARAM, Some t)
          else if \<not> calloc_ok then
            (AIRY_ERR_OUT_OF_MEMORY, Some (t\<lparr>hi_ents := None, hi_cap := 0, hi_cnt := 0, hi_used := 0\<rparr>))
          else
            (AIRY_SUCCESS,
             Some (t\<lparr>hi_ents := Some (replicate cap hindex_zero_ent), hi_cap := cap,
                     hi_cnt := 0, hi_used := 0\<rparr>)))"

definition hindex_free :: "hindex option \<Rightarrow> hindex option" where
  "hindex_free h =
     (case h of
        None \<Rightarrow> None
      | Some t \<Rightarrow>
          (case hi_ents t of
             None \<Rightarrow> Some t
           | Some es \<Rightarrow> Some (t\<lparr>hi_ents := None, hi_cap := 0, hi_cnt := 0, hi_used := 0\<rparr>)))"

text \<open>
  The probe loops \<open>while (state == LIVE)\<close> and \<open>while (state != EMPTY)\<close>: \<open>go\<close> is the loop
  condition. After \<open>cap\<close> slots the walk has visited every slot and would repeat for ever.
\<close>

fun hindex_probe :: "(hindex_state \<Rightarrow> bool) \<Rightarrow> hindex_ent list \<Rightarrow> nat \<Rightarrow> nat \<Rightarrow> nat \<Rightarrow> nat option" where
  "hindex_probe go es cap 0 pos = None"
| "hindex_probe go es cap (Suc r) pos =
     (if go (he_state (es ! pos)) then hindex_probe go es cap r ((pos + 1) mod cap) else Some pos)"

fun hindex_pack_loop ::
  "hindex_ent list \<Rightarrow> nat \<Rightarrow> hindex_ent list \<Rightarrow> nat \<Rightarrow> (hindex_ent list \<times> nat) option" where
  "hindex_pack_loop [] cap neu live = Some (neu, live)"
| "hindex_pack_loop (e # old) cap neu live =
     (if he_state e \<noteq> HINDEX_LIVE then hindex_pack_loop old cap neu live
      else (case hindex_probe (\<lambda>s. s = HINDEX_LIVE) neu cap cap (hindex_home cap (the (he_key e))) of
              None \<Rightarrow> None
            | Some pos \<Rightarrow> hindex_pack_loop old cap (neu[pos := e]) (live + 1)))"

definition hindex_pack :: "bool \<Rightarrow> hindex \<Rightarrow> hindex_ent list \<Rightarrow> (airy_err \<times> hindex) option" where
  "hindex_pack calloc_ok t es =
     (if \<not> calloc_ok then Some (AIRY_ERR_OUT_OF_MEMORY, t)
      else (case hindex_pack_loop es (hi_cap t) (replicate (hi_cap t) hindex_zero_ent) 0 of
              None \<Rightarrow> None
            | Some (neu, live) \<Rightarrow>
                Some (AIRY_SUCCESS, t\<lparr>hi_ents := Some neu, hi_cnt := live, hi_used := live\<rparr>)))"

text \<open>The tail of \<open>hindex_put\<close>, from the copy of the key on.\<close>

definition hindex_place :: "bool \<Rightarrow> hindex \<Rightarrow> cstr \<Rightarrow> u64 \<Rightarrow> (airy_err \<times> hindex) option" where
  "hindex_place strdup_ok t key ix =
     (if \<not> strdup_ok then Some (AIRY_ERR_OUT_OF_MEMORY, t)
      else
        (let es = the (hi_ents t) in
         case hindex_probe (\<lambda>s. s \<noteq> HINDEX_EMPTY) es (hi_cap t) (hi_cap t) (hindex_home (hi_cap t) key) of
           None \<Rightarrow> None
         | Some pos \<Rightarrow>
             Some (AIRY_SUCCESS,
                   t\<lparr>hi_ents := Some (es[pos := (es ! pos)\<lparr>he_key := Some key, he_index := ix,
                                                          he_state := HINDEX_LIVE\<rparr>]),
                     hi_cnt := hi_cnt t + 1, hi_used := hi_used t + 1\<rparr>)))"

definition hindex_put_table ::
  "bool \<Rightarrow> bool \<Rightarrow> hindex \<Rightarrow> hindex_ent list \<Rightarrow> cstr \<Rightarrow> u64 \<Rightarrow> (airy_err \<times> hindex) option" where
  "hindex_put_table calloc_ok strdup_ok t es key ix =
     (case hindex_scan es (hi_cap t) key of
        Some found \<Rightarrow>
          Some (AIRY_SUCCESS, t\<lparr>hi_ents := Some (es[found := (es ! found)\<lparr>he_index := ix\<rparr>])\<rparr>)
      | None \<Rightarrow>
          if hi_used t * 4 \<ge> hi_cap t * 3 then
            (case (if hi_used t > hi_cnt t then hindex_pack calloc_ok t es else Some (AIRY_SUCCESS, t)) of
               None \<Rightarrow> None
             | Some (rc, t') \<Rightarrow>
                 if rc \<noteq> AIRY_SUCCESS then Some (AIRY_ERR_OUT_OF_MEMORY, t')
                 else if hi_used t' * 4 \<ge> hi_cap t' * 3 then Some (AIRY_ERR_OUT_OF_MEMORY, t')
                 else hindex_place strdup_ok t' key ix)
          else hindex_place strdup_ok t key ix)"

definition hindex_put ::
  "bool \<Rightarrow> bool \<Rightarrow> hindex option \<Rightarrow> cstr option \<Rightarrow> u64 \<Rightarrow> (airy_err \<times> hindex option) option" where
  "hindex_put calloc_ok strdup_ok h key ix =
     (case h of
        None \<Rightarrow> Some (AIRY_ERR_INVALID_PARAM, None)
      | Some t \<Rightarrow>
          (case (hi_ents t, key) of
             (Some es, Some k) \<Rightarrow>
               map_option (map_prod id Some) (hindex_put_table calloc_ok strdup_ok t es k ix)
           | _ \<Rightarrow> Some (AIRY_ERR_INVALID_PARAM, Some t)))"

text \<open>The result is the \<open>ssize_t\<close> the code returns: the stored \<open>size_t\<close> read as signed, or -1.\<close>

definition hindex_get :: "hindex option \<Rightarrow> cstr option \<Rightarrow> int" where
  "hindex_get h key =
     (case h of
        None \<Rightarrow> - 1
      | Some t \<Rightarrow>
          (case (hi_ents t, key) of
             (Some es, Some k) \<Rightarrow>
               if hi_cnt t = 0 then - 1
               else (case hindex_scan es (hi_cap t) k of
                       None \<Rightarrow> - 1
                     | Some pos \<Rightarrow> sint (he_index (es ! pos)))
           | _ \<Rightarrow> - 1))"

definition hindex_del :: "hindex option \<Rightarrow> cstr option \<Rightarrow> hindex option" where
  "hindex_del h key =
     (case h of
        None \<Rightarrow> None
      | Some t \<Rightarrow>
          (case (hi_ents t, key) of
             (Some es, Some k) \<Rightarrow>
               if hi_cnt t = 0 then Some t
               else (case hindex_scan es (hi_cap t) k of
                       None \<Rightarrow> Some t
                     | Some pos \<Rightarrow>
                         Some (t\<lparr>hi_ents := Some (es[pos := \<lparr>he_key = None, he_index = 0,
                                                             he_state = HINDEX_DEAD\<rparr>]),
                                 hi_cnt := hi_cnt t - 1\<rparr>))
           | _ \<Rightarrow> Some t))"


subsection \<open>Invariant and abstraction\<close>

abbreviation he_live :: "hindex_ent \<Rightarrow> bool" where
  "he_live e \<equiv> he_state e = HINDEX_LIVE"

abbreviation he_occupied :: "hindex_ent \<Rightarrow> bool" where
  "he_occupied e \<equiv> he_state e \<noteq> HINDEX_EMPTY"

definition he_matches :: "cstr \<Rightarrow> hindex_ent \<Rightarrow> bool" where
  "he_matches k e \<longleftrightarrow> he_state e = HINDEX_LIVE \<and> he_key e = Some k"

text \<open>Slot \<open>p\<close> is reached from \<open>s\<close> by a walk over occupied slots.\<close>

definition chained :: "hindex_ent list \<Rightarrow> nat \<Rightarrow> nat \<Rightarrow> bool" where
  "chained es s p \<longleftrightarrow>
     (\<exists>d < length es. p = ring (length es) s d \<and>
        (\<forall>i < d. he_occupied (es ! ring (length es) s i)))"

definition ents_wf :: "hindex_ent list \<Rightarrow> bool" where
  "ents_wf es \<longleftrightarrow>
     0 < length es \<and>
     (\<forall>p < length es. he_live (es ! p) \<longleftrightarrow> he_key (es ! p) \<noteq> None) \<and>
     (\<forall>p < length es. \<forall>q < length es. he_live (es ! p) \<and> he_live (es ! q) \<and>
        he_key (es ! p) = he_key (es ! q) \<longrightarrow> p = q) \<and>
     (\<forall>p < length es. he_live (es ! p) \<longrightarrow>
        chained es (hindex_home (length es) (the (he_key (es ! p)))) p)"

definition hindex_inv :: "hindex \<Rightarrow> bool" where
  "hindex_inv t \<longleftrightarrow>
     (case hi_ents t of
        None \<Rightarrow> False
      | Some es \<Rightarrow> ents_wf es \<and> hi_cap t = length es \<and>
          hi_cnt t = length (filter he_live es) \<and>
          hi_used t = length (filter he_occupied es))"

definition ents_map :: "hindex_ent list \<Rightarrow> cstr \<rightharpoonup> u64" where
  "ents_map es k = map_option he_index (find (he_matches k) es)"

definition hindex_abs :: "hindex \<Rightarrow> cstr \<rightharpoonup> u64" where
  "hindex_abs t = (case hi_ents t of None \<Rightarrow> Map.empty | Some es \<Rightarrow> ents_map es)"

lemma home_less [simp]: "0 < n \<Longrightarrow> hindex_home n k < n"
  by (simp add: hindex_home_def)

lemma ents_wfD:
  assumes "ents_wf es"
  shows "0 < length es"
    and "p < length es \<Longrightarrow> he_live (es ! p) \<longleftrightarrow> he_key (es ! p) \<noteq> None"
    and "p < length es \<Longrightarrow> q < length es \<Longrightarrow> he_live (es ! p) \<Longrightarrow> he_live (es ! q) \<Longrightarrow>
         he_key (es ! p) = he_key (es ! q) \<Longrightarrow> p = q"
    and "p < length es \<Longrightarrow> he_live (es ! p) \<Longrightarrow>
         chained es (hindex_home (length es) (the (he_key (es ! p)))) p"
  using assms unfolding ents_wf_def by blast+

text \<open>With distinct keys, the map reads off any matching slot.\<close>

lemma ents_map_at:
  assumes "ents_wf es" "p < length es" "he_matches k (es ! p)"
  shows "ents_map es k = Some (he_index (es ! p))"
proof -
  obtain e where e: "find (he_matches k) es = Some e"
    using assms(2,3) by (cases "find (he_matches k) es") (auto simp: find_None_iff)
  then obtain q where "q < length es" "he_matches k (es ! q)" "e = es ! q"
    by (auto simp: find_Some_iff)
  then have "q = p" using assms ents_wfD(3) [OF assms(1)] by (auto simp: he_matches_def)
  with e \<open>e = es ! q\<close> show ?thesis by (simp add: ents_map_def)
qed

lemma ents_map_None:
  "ents_map es k = None \<longleftrightarrow> (\<forall>p < length es. \<not> he_matches k (es ! p))"
  by (auto simp: ents_map_def find_None_iff in_set_conv_nth)

lemma ents_mapI:
  assumes "ents_wf es"
    and "\<And>k. m k = None \<Longrightarrow> \<forall>p < length es. \<not> he_matches k (es ! p)"
    and "\<And>k i. m k = Some i \<Longrightarrow> \<exists>p < length es. he_matches k (es ! p) \<and> he_index (es ! p) = i"
  shows "ents_map es = m"
proof
  fix k
  show "ents_map es k = m k"
  proof (cases "m k")
    case None
    with assms(2) [OF None] show ?thesis by (simp add: ents_map_None)
  next
    case (Some i)
    from assms(3) [OF Some] obtain p where "p < length es" "he_matches k (es ! p)" "he_index (es ! p) = i"
      by blast
    with ents_map_at [OF assms(1)] Some show ?thesis by simp
  qed
qed

subsection \<open>Scanning\<close>

lemma scan_loop_Some:
  assumes "hindex_scan_loop es n k r pos = Some p" "pos < n"
  shows "p < n \<and> he_matches k (es ! p)"
  using assms
  by (induction r arbitrary: pos) (auto simp: Let_def he_matches_def split: if_splits)

lemma scan_loop_None:
  assumes "hindex_scan_loop es n k r (ring n s i) = None"
  shows "(\<forall>j < r. \<not> he_matches k (es ! ring n s (i + j))) \<or>
         (\<exists>j < r. \<not> he_occupied (es ! ring n s (i + j)) \<and>
              (\<forall>l < j. \<not> he_matches k (es ! ring n s (i + l))))"
  using assms
proof (induction r arbitrary: i)
  case (Suc r)
  show ?case
  proof (cases "he_occupied (es ! ring n s i)")
    case True
    with Suc.prems have nm: "\<not> he_matches k (es ! ring n s i)"
      and rest: "hindex_scan_loop es n k r (ring n s (Suc i)) = None"
      by (auto simp: Let_def he_matches_def ring_Suc [simplified] split: if_splits)
    from Suc.IH [OF rest] nm True show ?thesis
      by (auto simp: All_less_Suc2 Ex_less_Suc2)
  next
    case False
    then show ?thesis by (auto simp: Ex_less_Suc2)
  qed
qed simp

lemma hindex_scan_Some:
  assumes "ents_wf es" "hindex_scan es (length es) k = Some p"
  shows "p < length es" "he_matches k (es ! p)"
  using scan_loop_Some assms home_less ents_wfD(1) [OF assms(1)]
  unfolding hindex_scan_def by blast+

lemma hindex_scan_None:
  assumes wf: "ents_wf es" and none: "hindex_scan es (length es) k = None"
  shows "p < length es \<Longrightarrow> \<not> he_matches k (es ! p)"
proof
  assume p: "p < length es" and m: "he_matches k (es ! p)"
  let ?n = "length es" and ?s = "hindex_home (length es) k"
  have s: "?s < ?n" using ents_wfD(1) [OF wf] by simp
  from m have live: "he_live (es ! p)" and k: "he_key (es ! p) = Some k"
    by (auto simp: he_matches_def)
  from ents_wfD(4) [OF wf p live] k obtain d where d: "d < ?n" "p = ring ?n ?s d"
    "\<forall>i < d. he_occupied (es ! ring ?n ?s i)" by (auto simp: chained_def)
  from none s have "hindex_scan_loop es ?n k ?n (ring ?n ?s 0) = None"
    by (simp add: hindex_scan_def)
  from scan_loop_None [OF this] show False
  proof
    assume "\<forall>j < ?n. \<not> he_matches k (es ! ring ?n ?s (0 + j))"
    with d m show False by auto
  next
    assume "\<exists>j < ?n. \<not> he_occupied (es ! ring ?n ?s (0 + j)) \<and>
              (\<forall>l < j. \<not> he_matches k (es ! ring ?n ?s (0 + l)))"
    then obtain j where j: "j < ?n" "\<not> he_occupied (es ! ring ?n ?s j)"
      "\<forall>l < j. \<not> he_matches k (es ! ring ?n ?s l)" by auto
    show False
    proof (cases "d < j")
      case True with j(3) d(2) m show False by auto
    next
      case False
      then consider "d = j" | "j < d" by linarith
      then show False using j(2) d(2,3) live by cases auto
    qed
  qed
qed

text \<open>The scan computes the map.\<close>

lemma hindex_scan_map:
  assumes "ents_wf es"
  shows "map_option (\<lambda>p. he_index (es ! p)) (hindex_scan es (length es) k) = ents_map es k"
proof (cases "hindex_scan es (length es) k")
  case None
  then have "ents_map es k = None"
    using hindex_scan_None [OF assms None] by (simp add: ents_map_None)
  with None show ?thesis by simp
next
  case (Some p)
  with hindex_scan_Some [OF assms Some] ents_map_at [OF assms] show ?thesis by simp
qed


subsection \<open>Probing and placing\<close>

lemma probe_Some:
  assumes "hindex_probe go es n r (ring n s i) = Some p"
  shows "\<exists>j < r. p = ring n s (i + j) \<and> \<not> go (he_state (es ! p)) \<and>
           (\<forall>l < j. go (he_state (es ! ring n s (i + l))))"
  using assms
proof (induction r arbitrary: i)
  case (Suc r)
  show ?case
  proof (cases "go (he_state (es ! ring n s i))")
    case True
    with Suc.prems have "hindex_probe go es n r (ring n s (Suc i)) = Some p"
      by (simp add: ring_Suc [simplified])
    from Suc.IH [OF this] True show ?thesis
      by (auto simp: All_less_Suc2 Ex_less_Suc2)
  next
    case False
    with Suc.prems show ?thesis by (auto simp: Ex_less_Suc2)
  qed
qed simp

lemma probe_None:
  assumes "hindex_probe go es n r (ring n s i) = None"
  shows "\<forall>j < r. go (he_state (es ! ring n s (i + j)))"
  using assms
proof (induction r arbitrary: i)
  case (Suc r)
  then have go: "go (he_state (es ! ring n s i))"
    and "hindex_probe go es n r (ring n s (Suc i)) = None"
    by (auto simp: ring_Suc [simplified] split: if_splits)
  from Suc.IH [OF this(2)] go show ?case by (auto simp: All_less_Suc2)
qed simp

lemma probe_from:
  assumes "s < n" "\<exists>p < n. \<not> go (he_state (es ! p))"
  obtains j where "j < n" "hindex_probe go es n n s = Some (ring n s j)"
    "\<not> go (he_state (es ! ring n s j))" "\<forall>l < j. go (he_state (es ! ring n s l))"
proof -
  have "hindex_probe go es n n (ring n s 0) \<noteq> None"
  proof
    assume "hindex_probe go es n n (ring n s 0) = None"
    from probe_None [OF this] have all: "\<forall>j < n. go (he_state (es ! ring n s j))" by simp
    from assms(2) obtain p where "p < n" "\<not> go (he_state (es ! p))" by blast
    with ring_surj [OF assms(1)] all show False by metis
  qed
  then obtain p where p: "hindex_probe go es n n (ring n s 0) = Some p" by blast
  from probe_Some [OF this] p assms(1) that show ?thesis by auto
qed

lemma chained_update:
  assumes "chained es s q" "he_occupied e"
  shows "chained (es[p := e]) s q"
  using assms unfolding chained_def by (force simp: nth_upd)

lemma he_matches_live: "he_matches k e \<Longrightarrow> he_live e" "he_matches k e \<Longrightarrow> he_key e = Some k"
  by (auto simp: he_matches_def)

lemma ents_wf_place:
  assumes wf: "ents_wf es" and j: "j < length es"
    and free: "\<not> he_occupied (es ! ring (length es) (hindex_home (length es) k) j)"
    and occ: "\<forall>l < j. he_occupied (es ! ring (length es) (hindex_home (length es) k) l)"
    and fresh: "\<forall>p < length es. \<not> he_matches k (es ! p)"
    and e: "he_matches k e"
  shows "ents_wf (es[ring (length es) (hindex_home (length es) k) j := e])"
    (is "ents_wf (es[?p := e])")
proof -
  have n: "0 < length es" using ents_wfD(1) [OF wf] .
  have p: "?p < length es" using n by simp
  have le: "he_live e" "he_key e = Some k" using e by (auto simp: he_matches_def)
  have other: "he_key (es ! q) \<noteq> Some k" if "q < length es" "he_live (es ! q)" for q
    using fresh that by (auto simp: he_matches_def)
  have keys: "\<forall>q < length es. he_live (es[?p := e] ! q) \<longleftrightarrow> he_key (es[?p := e] ! q) \<noteq> None"
    using ents_wfD(2) [OF wf] le by (auto simp: nth_upd)
  have dist: "\<forall>q < length es. \<forall>r < length es.
      he_live (es[?p := e] ! q) \<and> he_live (es[?p := e] ! r) \<and>
      he_key (es[?p := e] ! q) = he_key (es[?p := e] ! r) \<longrightarrow> q = r"
    using ents_wfD(3) [OF wf] other le by (auto simp: nth_upd split: if_splits) force
  have "chained (es[?p := e]) (hindex_home (length es) (the (he_key (es[?p := e] ! q)))) q"
    if q: "q < length es" "he_live (es[?p := e] ! q)" for q
  proof (cases "q = ?p")
    case True
    have "\<forall>l < j. he_occupied (es[?p := e] ! ring (length es) (hindex_home (length es) k) l)"
      using occ le(1) by (auto simp: nth_upd)
    with True p le j show ?thesis by (auto simp: chained_def)
  next
    case False
    with q have "chained es (hindex_home (length es) (the (he_key (es ! q)))) q"
      using ents_wfD(4) [OF wf q(1)] by simp
    with False le(1) show ?thesis by (auto intro!: chained_update)
  qed
  with keys dist n show ?thesis unfolding ents_wf_def length_list_update by blast
qed

lemma ents_map_place:
  assumes wf': "ents_wf (es[p := e])" and wf: "ents_wf es" and p: "p < length es"
    and old: "\<not> he_live (es ! p)" and e: "he_matches k e"
    and fresh: "\<forall>q < length es. \<not> he_matches k (es ! q)"
  shows "ents_map (es[p := e]) = (ents_map es)(k \<mapsto> he_index e)"
proof (rule ents_mapI [OF wf'])
  fix k' assume "((ents_map es)(k \<mapsto> he_index e)) k' = None"
  then have "k' \<noteq> k" "\<forall>q < length es. \<not> he_matches k' (es ! q)"
    by (auto simp: ents_map_None split: if_splits)
  with e show "\<forall>q < length (es[p := e]). \<not> he_matches k' (es[p := e] ! q)"
    by (auto simp: nth_upd he_matches_def)
next
  fix k' i assume m: "((ents_map es)(k \<mapsto> he_index e)) k' = Some i"
  show "\<exists>q < length (es[p := e]). he_matches k' (es[p := e] ! q) \<and> he_index (es[p := e] ! q) = i"
  proof (cases "k' = k")
    case True
    with m p e show ?thesis by (intro exI [of _ p]) auto
  next
    case False
    with m have mi: "ents_map es k' = Some i" by simp
    then obtain q where q: "q < length es" "he_matches k' (es ! q)"
      using ents_map_None [of es k'] by auto
    with ents_map_at [OF wf q] mi have "he_index (es ! q) = i" by simp
    moreover have "q \<noteq> p" using q(2) old by (auto simp: he_matches_def)
    ultimately show ?thesis using q by (intro exI [of _ q]) auto
  qed
qed


lemma hindex_invD:
  assumes "hindex_inv t"
  obtains es where "hi_ents t = Some es" "ents_wf es" "hi_cap t = length es"
    "hi_cnt t = length (filter he_live es)" "hi_used t = length (filter he_occupied es)"
  using assms by (auto simp: hindex_inv_def split: option.splits)

lemma hindex_place_ok:
  assumes inv: "hindex_inv t" and es: "hi_ents t = Some es"
    and room: "hi_used t < hi_cap t" and fresh: "\<forall>p < length es. \<not> he_matches k (es ! p)"
  shows "\<exists>t'. hindex_place True t k ix = Some (AIRY_SUCCESS, t') \<and> hindex_inv t' \<and>
           hindex_abs t' = (hindex_abs t)(k \<mapsto> ix) \<and> hi_cap t' = hi_cap t"
proof -
  from inv es have wf: "ents_wf es" and cap: "hi_cap t = length es"
    and cnt: "hi_cnt t = length (filter he_live es)"
    and used: "hi_used t = length (filter he_occupied es)"
    by (auto simp: hindex_inv_def)
  let ?n = "length es" and ?s = "hindex_home (length es) k"
  have n: "0 < ?n" using ents_wfD(1) [OF wf] .
  from room cap used have "\<exists>p < ?n. \<not> he_occupied (es ! p)"
    using length_filter_ltD [of he_occupied es] by simp
  then obtain j where j: "j < ?n"
    and pr: "hindex_probe (\<lambda>s. s \<noteq> HINDEX_EMPTY) es ?n ?n ?s = Some (ring ?n ?s j)"
    and free: "\<not> he_occupied (es ! ring ?n ?s j)"
    and occ: "\<forall>l < j. he_occupied (es ! ring ?n ?s l)"
    using probe_from [of ?s ?n "\<lambda>s. s \<noteq> HINDEX_EMPTY" es] n by (metis home_less)
  let ?p = "ring ?n ?s j"
  let ?e = "(es ! ?p)\<lparr>he_key := Some k, he_index := ix, he_state := HINDEX_LIVE\<rparr>"
  have p: "?p < ?n" using n by simp
  have e: "he_matches k ?e" by (simp add: he_matches_def)
  have wf': "ents_wf (es[?p := ?e])"
    using free occ by (intro ents_wf_place [OF wf j _ _ fresh e]) auto
  have map': "ents_map (es[?p := ?e]) = (ents_map es)(k \<mapsto> ix)"
    using ents_map_place [OF wf' wf p _ e fresh] free by simp
  have "length (filter he_live (es[?p := ?e])) = length (filter he_live es) + 1"
    "length (filter he_occupied (es[?p := ?e])) = length (filter he_occupied es) + 1"
    using length_filter_update [OF p, of he_live ?e] length_filter_update [OF p, of he_occupied ?e] free
    by simp_all
  with wf' map' es cap cnt used pr show ?thesis
    by (auto simp: hindex_place_def hindex_inv_def hindex_abs_def Let_def)
qed

subsection \<open>Compaction\<close>

definition no_dead :: "hindex_ent list \<Rightarrow> bool" where
  "no_dead es \<longleftrightarrow> (\<forall>p < length es. he_occupied (es ! p) \<longrightarrow> he_live (es ! p))"

lemma ents_wf_zero: "0 < n \<Longrightarrow> ents_wf (replicate n hindex_zero_ent)"
  by (auto simp: ents_wf_def hindex_zero_ent_def)

lemma ents_map_zero: "ents_map (replicate n hindex_zero_ent) = Map.empty"
  by (auto simp: fun_eq_iff ents_map_None he_matches_def hindex_zero_ent_def)

lemma pack_loop_ok:
  assumes "ents_wf neu" "no_dead neu" "live = length (filter he_live neu)"
    and "live + length (filter he_live old) \<le> length neu"
    and "\<forall>e \<in> set old. he_live e \<longrightarrow> (\<exists>k. he_key e = Some k \<and> ents_map neu k = None)"
    and "distinct (map he_key (filter he_live old))"
  shows "\<exists>neu' live'. hindex_pack_loop old (length neu) neu live = Some (neu', live') \<and>
     ents_wf neu' \<and> no_dead neu' \<and> length neu' = length neu \<and>
     live' = length (filter he_live neu') \<and> live' = live + length (filter he_live old) \<and>
     (\<forall>k i. ents_map neu' k = Some i \<longleftrightarrow>
        ents_map neu k = Some i \<or> (\<exists>e \<in> set old. he_matches k e \<and> he_index e = i))"
  using assms
proof (induction old arbitrary: neu live)
  case Nil
  then show ?case by simp
next
  case (Cons e old)
  show ?case
  proof (cases "he_live e")
    case False
    with Cons.prems Cons.IH [of neu live] show ?thesis by (auto simp: he_matches_def)
  next
    case True
    let ?n = "length neu"
    from Cons.prems(5) True obtain k where k: "he_key e = Some k" and fr: "ents_map neu k = None"
      by auto
    let ?s = "hindex_home ?n k"
    have n: "0 < ?n" using ents_wfD(1) [OF Cons.prems(1)] .
    have e: "he_matches k e" using True k by (simp add: he_matches_def)
    have fresh: "\<forall>p < ?n. \<not> he_matches k (neu ! p)" using fr by (simp add: ents_map_None)
    have "\<exists>p < ?n. \<not> he_live (neu ! p)"
      using Cons.prems(3,4) True length_filter_ltD [of he_live neu] by simp
    then obtain j where j: "j < ?n"
      and pr: "hindex_probe (\<lambda>s. s = HINDEX_LIVE) neu ?n ?n ?s = Some (ring ?n ?s j)"
      and nl: "\<not> he_live (neu ! ring ?n ?s j)"
      and lv: "\<forall>l < j. he_live (neu ! ring ?n ?s l)"
      using probe_from [of ?s ?n "\<lambda>s. s = HINDEX_LIVE" neu] n by (metis home_less)
    let ?p = "ring ?n ?s j" and ?neu = "neu[ring ?n ?s j := e]"
    have p: "?p < ?n" using n by simp
    have free: "\<not> he_occupied (neu ! ?p)" using nl Cons.prems(2) p by (auto simp: no_dead_def)
    have occ: "\<forall>l < j. he_occupied (neu ! ring ?n ?s l)" using lv by auto
    have wf': "ents_wf ?neu" by (rule ents_wf_place [OF Cons.prems(1) j free occ fresh e])
    have map': "ents_map ?neu = (ents_map neu)(k \<mapsto> he_index e)"
      by (rule ents_map_place [OF wf' Cons.prems(1) p nl e fresh])
    have nd': "no_dead ?neu" using Cons.prems(2) True by (auto simp: no_dead_def nth_upd)
    have cnt': "live + 1 = length (filter he_live ?neu)"
      using length_filter_update [OF p, of he_live e] nl True Cons.prems(3) by simp
    have keys': "\<forall>e' \<in> set old. he_live e' \<longrightarrow> (\<exists>k'. he_key e' = Some k' \<and> ents_map ?neu k' = None)"
    proof (intro ballI impI)
      fix e' assume e': "e' \<in> set old" "he_live e'"
      with Cons.prems(5) obtain k' where k': "he_key e' = Some k'" "ents_map neu k' = None" by auto
      have "he_key e \<notin> he_key ` set (filter he_live old)" using Cons.prems(6) True by simp
      with e' k k' have "k' \<noteq> k" by force
      with k' show "\<exists>k'. he_key e' = Some k' \<and> ents_map ?neu k' = None" by (simp add: map')
    qed
    from Cons.IH [OF wf' nd' cnt' _ keys'] Cons.prems(4,6) True
    obtain neu' live' where
      r: "hindex_pack_loop old ?n ?neu (live + 1) = Some (neu', live')" and
      R: "ents_wf neu'" "no_dead neu'" "length neu' = ?n" "live' = length (filter he_live neu')"
         "live' = live + 1 + length (filter he_live old)"
         "\<forall>k i. ents_map neu' k = Some i \<longleftrightarrow>
            ents_map ?neu k = Some i \<or> (\<exists>e \<in> set old. he_matches k e \<and> he_index e = i)"
      by auto
    have "\<forall>k' i. ents_map neu' k' = Some i \<longleftrightarrow>
        ents_map neu k' = Some i \<or> (\<exists>e' \<in> set (e # old). he_matches k' e' \<and> he_index e' = i)"
      using R(6) fr e by (auto simp: map' he_matches_def split: if_splits)
    with r R pr True k show ?thesis by auto
  qed
qed


lemma hindex_pack_ok:
  assumes inv: "hindex_inv t" and es: "hi_ents t = Some es"
  shows "\<exists>t'. hindex_pack True t es = Some (AIRY_SUCCESS, t') \<and> hindex_inv t' \<and>
           hindex_abs t' = hindex_abs t \<and> hi_cap t' = hi_cap t \<and>
           hi_cnt t' = hi_cnt t \<and> hi_used t' = hi_cnt t"
proof -
  from inv es have wf: "ents_wf es" and cap: "hi_cap t = length es"
    and cnt: "hi_cnt t = length (filter he_live es)" by (auto simp: hindex_inv_def)
  let ?z = "replicate (length es) hindex_zero_ent"
  have n: "0 < length es" using ents_wfD(1) [OF wf] .
  have nd: "no_dead ?z" "filter he_live ?z = []" by (auto simp: no_dead_def hindex_zero_ent_def)
  have keys: "\<forall>e \<in> set es. he_live e \<longrightarrow> (\<exists>k. he_key e = Some k \<and> ents_map ?z k = None)"
    using ents_wfD(2) [OF wf] by (auto simp: in_set_conv_nth ents_map_zero)
  have dist: "distinct (map he_key (filter he_live es))"
    by (rule distinct_map_filterI) (rule ents_wfD(3) [OF wf])
  have "\<exists>neu' live'. hindex_pack_loop es (length ?z) ?z 0 = Some (neu', live') \<and>
     ents_wf neu' \<and> no_dead neu' \<and> length neu' = length ?z \<and>
     live' = length (filter he_live neu') \<and> live' = 0 + length (filter he_live es) \<and>
     (\<forall>k i. ents_map neu' k = Some i \<longleftrightarrow>
        ents_map ?z k = Some i \<or> (\<exists>e \<in> set es. he_matches k e \<and> he_index e = i))"
    by (rule pack_loop_ok) (use n nd keys dist in \<open>simp_all add: ents_wf_zero\<close>)
  then obtain neu live where r: "hindex_pack_loop es (length es) ?z 0 = Some (neu, live)"
    and R: "ents_wf neu" "no_dead neu" "length neu = length es" "live = length (filter he_live neu)"
      "live = length (filter he_live es)"
      "\<forall>k i. ents_map neu k = Some i \<longleftrightarrow> (\<exists>e \<in> set es. he_matches k e \<and> he_index e = i)"
    by (auto simp: ents_map_zero)
  have occ: "filter he_occupied neu = filter he_live neu"
    using R(2) by (intro filter_cong) (auto simp: no_dead_def in_set_conv_nth)
  have "ents_map es = ents_map neu"
  proof (rule ents_mapI [OF wf])
    fix k assume "ents_map neu k = None"
    then have "\<forall>e \<in> set es. \<not> he_matches k e" by (metis R(6) option.distinct(1))
    then show "\<forall>p < length es. \<not> he_matches k (es ! p)" by auto
  next
    fix k i assume "ents_map neu k = Some i"
    then obtain e where "e \<in> set es" "he_matches k e" "he_index e = i" using R(6) by blast
    then show "\<exists>p < length es. he_matches k (es ! p) \<and> he_index (es ! p) = i"
      by (auto simp: in_set_conv_nth)
  qed
  with r R occ cap cnt es show ?thesis
    by (auto simp: hindex_pack_def hindex_inv_def hindex_abs_def)
qed

subsection \<open>The operations refine a finite map\<close>

lemma hindex_overwrite_ok:
  assumes inv: "hindex_inv t" and es: "hi_ents t = Some es"
    and f: "hindex_scan es (length es) k = Some p"
  shows "hindex_inv (t\<lparr>hi_ents := Some (es[p := (es ! p)\<lparr>he_index := ix\<rparr>])\<rparr>)"
    and "hindex_abs (t\<lparr>hi_ents := Some (es[p := (es ! p)\<lparr>he_index := ix\<rparr>])\<rparr>) = (hindex_abs t)(k \<mapsto> ix)"
proof -
  from inv es have wf: "ents_wf es" and cap: "hi_cap t = length es"
    and cnt: "hi_cnt t = length (filter he_live es)"
    and used: "hi_used t = length (filter he_occupied es)" by (auto simp: hindex_inv_def)
  let ?e = "(es ! p)\<lparr>he_index := ix\<rparr>" and ?es = "es[p := (es ! p)\<lparr>he_index := ix\<rparr>]"
  from hindex_scan_Some [OF wf f] have p: "p < length es" and m: "he_matches k (es ! p)" .
  have st: "he_state (?es ! q) = he_state (es ! q)" "he_key (?es ! q) = he_key (es ! q)" for q
    by (auto simp: nth_upd)
  have ch: "chained ?es s q = chained es s q" for s q by (simp add: chained_def st)
  have wf': "ents_wf ?es" using wf unfolding ents_wf_def length_list_update st ch .
  have "length (filter he_live ?es) = length (filter he_live es)"
    "length (filter he_occupied ?es) = length (filter he_occupied es)"
    using length_filter_update [OF p, of he_live ?e] length_filter_update [OF p, of he_occupied ?e]
    by (auto split: if_splits)
  with wf' cap cnt used show "hindex_inv (t\<lparr>hi_ents := Some ?es\<rparr>)" by (simp add: hindex_inv_def)
  have "ents_map ?es = (ents_map es)(k \<mapsto> ix)"
  proof (rule ents_mapI [OF wf'])
    fix k' assume "((ents_map es)(k \<mapsto> ix)) k' = None"
    then have "k' \<noteq> k" "\<forall>q < length es. \<not> he_matches k' (es ! q)"
      by (auto simp: ents_map_None split: if_splits)
    then show "\<forall>q < length ?es. \<not> he_matches k' (?es ! q)" by (simp add: he_matches_def st)
  next
    fix k' i assume a: "((ents_map es)(k \<mapsto> ix)) k' = Some i"
    show "\<exists>q < length ?es. he_matches k' (?es ! q) \<and> he_index (?es ! q) = i"
    proof (cases "k' = k")
      case True
      with a p m show ?thesis by (intro exI [of _ p]) (auto simp: he_matches_def)
    next
      case False
      with a have mi: "ents_map es k' = Some i" by simp
      then obtain q where q: "q < length es" "he_matches k' (es ! q)"
        using ents_map_None [of es k'] by auto
      with ents_map_at [OF wf q] mi have "he_index (es ! q) = i" by simp
      moreover have "q \<noteq> p" using q(2) m False by (auto simp: he_matches_def)
      ultimately show ?thesis using q by (intro exI [of _ q]) auto
    qed
  qed
  with es show "hindex_abs (t\<lparr>hi_ents := Some ?es\<rparr>) = (hindex_abs t)(k \<mapsto> ix)"
    by (simp add: hindex_abs_def)
qed

lemma hindex_scan_fresh:
  assumes "hindex_inv t" "hi_ents t = Some es"
  shows "hindex_scan es (hi_cap t) k = None \<longleftrightarrow> hindex_abs t k = None"
  using assms hindex_scan_map [of es k] by (auto simp: hindex_inv_def hindex_abs_def)

text \<open>A fresh key, once there is room and the key can be copied, is placed.\<close>

lemma hindex_place_cases:
  assumes "hindex_inv t" "hi_used t * 4 < hi_cap t * 3" "hindex_abs t k = None"
  shows "\<exists>rc t'. hindex_place d t k ix = Some (rc, t') \<and> hindex_inv t' \<and> hi_cap t' = hi_cap t \<and>
           (if d then rc = AIRY_SUCCESS \<and> hindex_abs t' = (hindex_abs t)(k \<mapsto> ix)
            else rc = AIRY_ERR_OUT_OF_MEMORY \<and> t' = t)"
proof (cases d)
  case True
  from assms(1) obtain es where es: "hi_ents t = Some es" by (rule hindex_invD)
  with assms(3) have fresh: "\<forall>p < length es. \<not> he_matches k (es ! p)"
    by (simp add: hindex_abs_def ents_map_None)
  from assms(2) have "hi_used t < hi_cap t" by simp
  from hindex_place_ok [OF assms(1) es this fresh, of ix] True show ?thesis by auto
next
  case False
  with assms(1) show ?thesis by (simp add: hindex_place_def)
qed

definition hindex_has_room :: "bool \<Rightarrow> hindex \<Rightarrow> bool" where
  "hindex_has_room calloc_ok t \<longleftrightarrow>
     hi_used t * 4 < hi_cap t * 3 \<or> hi_cnt t * 4 < hi_cap t * 3 \<and> calloc_ok"

lemma hindex_put_table_ok:
  assumes inv: "hindex_inv t" and es: "hi_ents t = Some es"
  shows "\<exists>rc t'. hindex_put_table c d t es k ix = Some (rc, t') \<and> hindex_inv t' \<and>
     hi_cap t' = hi_cap t \<and>
     (if hindex_abs t k \<noteq> None \<or> d \<and> hindex_has_room c t
      then rc = AIRY_SUCCESS \<and> hindex_abs t' = (hindex_abs t)(k \<mapsto> ix)
      else rc = AIRY_ERR_OUT_OF_MEMORY \<and> hindex_abs t' = hindex_abs t)"
proof (cases "hindex_scan es (hi_cap t) k")
  case (Some p)
  with es inv have "hindex_scan es (length es) k = Some p" by (auto simp: hindex_inv_def)
  note ok = hindex_overwrite_ok [OF inv es this, of ix]
  from Some hindex_scan_fresh [OF inv es, of k] have "hindex_abs t k \<noteq> None" by auto
  with Some ok es show ?thesis by (auto simp: hindex_put_table_def)
next
  case None
  with hindex_scan_fresh [OF inv es] have fr: "hindex_abs t k = None" by simp
  show ?thesis
  proof (cases "hi_used t * 4 < hi_cap t * 3")
    case True
    with hindex_place_cases [OF inv True fr, of d ix] None fr inv show ?thesis
      by (cases d) (auto simp: hindex_put_table_def hindex_has_room_def)
  next
    case full: False
    have cu: "hi_cnt t \<le> hi_used t"
    proof -
      from inv es have "hi_cnt t = length (filter he_live es)"
        "hi_used t = length (filter he_occupied es)" by (auto simp: hindex_inv_def)
      moreover have "filter he_live es = filter he_live (filter he_occupied es)"
        by (simp add: filter_filter) (metis hindex_state.distinct(1))
      ultimately show ?thesis by (metis length_filter_le)
    qed
    show ?thesis
    proof (cases "c \<and> hi_cnt t < hi_used t")
      case True
      with hindex_pack_ok [OF inv es] obtain t' where
        pk: "hindex_pack c t es = Some (AIRY_SUCCESS, t')" and t': "hindex_inv t'"
        "hindex_abs t' = hindex_abs t" "hi_cap t' = hi_cap t" "hi_cnt t' = hi_cnt t" "hi_used t' = hi_cnt t"
        by auto
      show ?thesis
      proof (cases "hi_cnt t * 4 < hi_cap t * 3")
        case room: True
        with hindex_place_cases [OF t'(1), of k d ix] t' pk None full fr True show ?thesis
          by (cases d) (auto simp: hindex_put_table_def hindex_has_room_def)
      next
        case False
        with t' pk None full fr True show ?thesis
          by (auto simp: hindex_put_table_def hindex_has_room_def)
      qed
    next
      case False
      then have nr: "\<not> hindex_has_room c t" using full cu by (auto simp: hindex_has_room_def)
      from False have "(\<not> c \<and> hi_cnt t < hi_used t) \<or> \<not> hi_cnt t < hi_used t" by blast
      with nr None full fr inv show ?thesis
        by (auto simp: hindex_put_table_def hindex_pack_def err_codes)
    qed
  qed
qed


lemma hindex_put_Some:
  "hi_ents t = Some es \<Longrightarrow>
   hindex_put c d (Some t) (Some k) ix = map_option (map_prod id Some) (hindex_put_table c d t es k ix)"
  by (simp add: hindex_put_def)

lemma hindex_cnt_0:
  assumes "hindex_inv t" "hi_cnt t = 0"
  shows "hindex_abs t = Map.empty"
proof -
  from assms(1) obtain es where es: "hi_ents t = Some es" "hi_cnt t = length (filter he_live es)"
    by (rule hindex_invD)
  with assms(2) have "\<forall>e \<in> set es. \<not> he_live e" by (simp add: filter_empty_conv)
  then have "\<forall>k. \<forall>p < length es. \<not> he_matches k (es ! p)" by (auto simp: he_matches_def)
  with es show ?thesis by (auto simp: hindex_abs_def ents_map_None fun_eq_iff)
qed

text \<open>A fresh table is empty and well formed.\<close>

lemma hindex_init_ok:
  assumes "0 < cap"
  shows "\<exists>t'. hindex_init True (Some t) cap = (AIRY_SUCCESS, Some t') \<and> hindex_inv t' \<and>
           hindex_abs t' = Map.empty \<and> hi_cap t' = cap"
proof -
  have "filter he_live (replicate cap hindex_zero_ent) = []"
    "filter he_occupied (replicate cap hindex_zero_ent) = []"
    by (auto simp: hindex_zero_ent_def)
  with assms show ?thesis
    by (auto simp: hindex_init_def hindex_inv_def hindex_abs_def ents_wf_zero ents_map_zero)
qed

lemma hindex_get_ok:
  assumes "hindex_inv t"
  shows "hindex_get (Some t) (Some k) = (case hindex_abs t k of None \<Rightarrow> - 1 | Some i \<Rightarrow> sint i)"
proof (cases "hi_cnt t = 0")
  case True
  from assms obtain es where es: "hi_ents t = Some es" by (rule hindex_invD)
  with True hindex_cnt_0 [OF assms True] show ?thesis by (simp add: hindex_get_def)
next
  case False
  from assms obtain es where es: "hi_ents t = Some es" "ents_wf es" "hi_cap t = length es"
    by (rule hindex_invD)
  have "hindex_abs t k = map_option (\<lambda>p. he_index (es ! p)) (hindex_scan es (length es) k)"
    using hindex_scan_map [OF es(2)] es(1) by (simp add: hindex_abs_def)
  with False es show ?thesis by (cases "hindex_scan es (length es) k") (auto simp: hindex_get_def)
qed

text \<open>Deleting leaves a tombstone: the chains through the slot stay unbroken.\<close>

lemma ents_wf_tomb:
  assumes "ents_wf es"
  shows "ents_wf (es[p := \<lparr>he_key = None, he_index = 0, he_state = HINDEX_DEAD\<rparr>])"
    (is "ents_wf (es[p := ?d])")
proof -
  have keys: "\<forall>q < length es. he_live (es[p := ?d] ! q) \<longleftrightarrow> he_key (es[p := ?d] ! q) \<noteq> None"
    using ents_wfD(2) [OF assms] by (auto simp: nth_upd)
  have dist: "\<forall>q < length es. \<forall>r < length es.
      he_live (es[p := ?d] ! q) \<and> he_live (es[p := ?d] ! r) \<and>
      he_key (es[p := ?d] ! q) = he_key (es[p := ?d] ! r) \<longrightarrow> q = r"
    using ents_wfD(3) [OF assms] by (simp add: nth_upd)
  have "chained (es[p := ?d]) (hindex_home (length es) (the (he_key (es[p := ?d] ! q)))) q"
    if "q < length es" "he_live (es[p := ?d] ! q)" for q
  proof -
    from that have "es[p := ?d] ! q = es ! q" by (auto simp: nth_upd split: if_splits)
    with that ents_wfD(4) [OF assms] show ?thesis by (auto intro!: chained_update)
  qed
  with keys dist ents_wfD(1) [OF assms] show ?thesis unfolding ents_wf_def length_list_update by blast
qed

lemma ents_map_tomb:
  assumes wf: "ents_wf es" and p: "p < length es" "he_matches k (es ! p)"
  shows "ents_map (es[p := \<lparr>he_key = None, he_index = 0, he_state = HINDEX_DEAD\<rparr>]) = (ents_map es)(k := None)"
    (is "ents_map (es[p := ?d]) = _")
proof (rule ents_mapI [OF ents_wf_tomb [OF wf]])
  fix k' assume a: "((ents_map es)(k := None)) k' = None"
  have "q = p" if "q < length es" "he_matches k (es ! q)" for q
    using ents_wfD(3) [OF wf that(1) p(1)] that p by (simp add: he_matches_def)
  with a show "\<forall>q < length (es[p := ?d]). \<not> he_matches k' (es[p := ?d] ! q)"
    by (auto simp: nth_upd ents_map_None he_matches_def split: if_splits)
next
  fix k' i assume "((ents_map es)(k := None)) k' = Some i"
  then have ne: "k' \<noteq> k" and mi: "ents_map es k' = Some i" by (auto split: if_splits)
  then obtain q where q: "q < length es" "he_matches k' (es ! q)"
    using ents_map_None [of es k'] by auto
  with ents_map_at [OF wf q] mi have "he_index (es ! q) = i" by simp
  moreover have "q \<noteq> p" using q(2) p(2) ne by (auto simp: he_matches_def)
  ultimately show "\<exists>q < length (es[p := ?d]). he_matches k' (es[p := ?d] ! q) \<and> he_index (es[p := ?d] ! q) = i"
    using q by (intro exI [of _ q]) auto
qed

lemma hindex_del_ok:
  assumes inv: "hindex_inv t"
  shows "\<exists>t'. hindex_del (Some t) (Some k) = Some t' \<and> hindex_inv t' \<and>
           hindex_abs t' = (hindex_abs t)(k := None) \<and> hi_cap t' = hi_cap t"
proof -
  from inv obtain es where es: "hi_ents t = Some es" "ents_wf es" "hi_cap t = length es"
    "hi_cnt t = length (filter he_live es)" "hi_used t = length (filter he_occupied es)"
    by (rule hindex_invD)
  let ?d = "\<lparr>he_key = None, he_index = 0, he_state = HINDEX_DEAD\<rparr> :: hindex_ent"
  show ?thesis
  proof (cases "hi_cnt t = 0 \<or> hindex_scan es (length es) k = None")
    case True
    then have "hindex_abs t k = None"
      using hindex_cnt_0 [OF inv] hindex_scan_fresh [OF inv es(1), of k] es(3) by auto
    then have "(hindex_abs t)(k := None) = hindex_abs t" by (auto simp: fun_eq_iff)
    with True es inv show ?thesis by (auto simp: hindex_del_def)
  next
    case False
    then obtain p where sc: "hindex_scan es (length es) k = Some p" and c: "hi_cnt t \<noteq> 0" by auto
    from hindex_scan_Some [OF es(2) sc] have p: "p < length es" "he_matches k (es ! p)" .
    have "length (filter he_live (es[p := ?d])) = length (filter he_live es) - 1"
      "length (filter he_occupied (es[p := ?d])) = length (filter he_occupied es)"
      using length_filter_update [OF p(1), of he_live ?d]
        length_filter_update [OF p(1), of he_occupied ?d] p(2)
      by (auto simp: he_matches_def)
    with sc c es ents_wf_tomb [OF es(2)] ents_map_tomb [OF es(2) p] show ?thesis
      by (auto simp: hindex_del_def hindex_inv_def hindex_abs_def)
  qed
qed

lemma hindex_free_ok: "hindex_free (Some t) = Some t' \<Longrightarrow> hi_ents t' = None"
  by (auto simp: hindex_free_def split: option.splits)

subsection \<open>The contract of the index\<close>

text \<open>
  What \<open>hindex.h\<close> promises a client that serialises its calls, for a table of \<open>cap\<close> slots that holds
  the finite map \<open>m\<close>. A put carries the outcomes of its two allocations: the rebuilt table of a
  compaction (\<open>c\<close>) and the copy of the key (\<open>d\<close>). Overwriting a stored key always succeeds. A new
  key is accepted only if it can be copied and fewer than three quarters of the slots are taken, and
  it is refused, as out of memory, only if one of these fails or the compaction cannot be allocated.
\<close>

datatype index_op = IPut bool bool cstr u64 | IDel cstr

definition index_room :: "nat \<Rightarrow> (cstr \<rightharpoonup> u64) \<Rightarrow> bool" where
  "index_room cap m \<longleftrightarrow> card (dom m) * 4 < cap * 3"

fun index_permits :: "nat \<Rightarrow> (cstr \<rightharpoonup> u64) \<Rightarrow> index_op \<Rightarrow> airy_err \<Rightarrow> bool" where
  "index_permits cap m (IPut c d k i) rc \<longleftrightarrow>
     (if rc = AIRY_SUCCESS then m k \<noteq> None \<or> d \<and> index_room cap m
      else rc = AIRY_ERR_OUT_OF_MEMORY \<and> m k = None \<and> \<not> (c \<and> d \<and> index_room cap m))"
| "index_permits cap m (IDel k) rc \<longleftrightarrow> rc = AIRY_SUCCESS"

fun index_effect :: "(cstr \<rightharpoonup> u64) \<Rightarrow> index_op \<Rightarrow> airy_err \<Rightarrow> (cstr \<rightharpoonup> u64)" where
  "index_effect m (IPut c d k i) rc = (if rc = AIRY_SUCCESS then m(k \<mapsto> i) else m)"
| "index_effect m (IDel k) rc = m(k := None)"

fun index_trace :: "nat \<Rightarrow> (cstr \<rightharpoonup> u64) \<Rightarrow> index_op list \<Rightarrow> airy_err list \<Rightarrow> (cstr \<rightharpoonup> u64) \<Rightarrow> bool" where
  "index_trace cap m [] [] m' \<longleftrightarrow> m' = m"
| "index_trace cap m (op # ops) (rc # rcs) m' \<longleftrightarrow>
     index_permits cap m op rc \<and> index_trace cap (index_effect m op rc) ops rcs m'"
| "index_trace cap m _ _ m' \<longleftrightarrow> False"

fun index_run :: "('t \<Rightarrow> index_op \<Rightarrow> (airy_err \<times> 't) option) \<Rightarrow> 't \<Rightarrow> index_op list \<Rightarrow> (airy_err list \<times> 't) option" where
  "index_run step t [] = Some ([], t)"
| "index_run step t (op # ops) =
     (case step t op of
        None \<Rightarrow> None
      | Some (rc, t1) \<Rightarrow> map_option (\<lambda>(rcs, t2). (rc # rcs, t2)) (index_run step t1 ops))"

locale string_index =
  fixes inv :: "'t \<Rightarrow> bool"
    and capacity :: "'t \<Rightarrow> nat"
    and contents :: "'t \<Rightarrow> cstr \<rightharpoonup> u64"
    and get :: "'t \<Rightarrow> cstr \<Rightarrow> int"
    and step :: "'t \<Rightarrow> index_op \<Rightarrow> (airy_err \<times> 't) option"
  assumes get_law: "inv t \<Longrightarrow> get t k = (case contents t k of None \<Rightarrow> - 1 | Some i \<Rightarrow> sint i)"
    and step_law: "inv t \<Longrightarrow> \<exists>rc t'. step t op = Some (rc, t') \<and> inv t' \<and> capacity t' = capacity t \<and>
      index_permits (capacity t) (contents t) op rc \<and> contents t' = index_effect (contents t) op rc"
begin

lemma run_law:
  "inv t \<Longrightarrow> \<exists>rcs t'. index_run step t ops = Some (rcs, t') \<and> inv t' \<and>
     index_trace (capacity t) (contents t) ops rcs (contents t')"
proof (induction ops arbitrary: t)
  case (Cons op ops)
  from step_law [OF Cons.prems, of op] obtain rc t1 where
    t1: "step t op = Some (rc, t1)" "inv t1" "capacity t1 = capacity t"
    "index_permits (capacity t) (contents t) op rc" "contents t1 = index_effect (contents t) op rc" by blast
  from Cons.IH [OF t1(2)] obtain rcs t' where
    "index_run step t1 ops = Some (rcs, t')" "inv t'"
    "index_trace (capacity t) (index_effect (contents t) op rc) ops rcs (contents t')" unfolding t1(3,5) by blast
  with t1(1,4) show ?case by (intro exI [of _ "rc # rcs"] exI [of _ t']) simp
qed simp

lemma run_lookup:
  assumes "inv t"
  shows "\<exists>rcs t' m. index_run step t ops = Some (rcs, t') \<and> inv t' \<and>
    index_trace (capacity t) (contents t) ops rcs m \<and>
    (\<forall>k. get t' k = (case m k of None \<Rightarrow> - 1 | Some i \<Rightarrow> sint i))"
  using run_law [OF assms, of ops] get_law by blast

end

text \<open>The calls of a client on one table; \<open>hindex_del\<close> returns nothing, its success is nominal.\<close>

fun hindex_step :: "hindex \<Rightarrow> index_op \<Rightarrow> (airy_err \<times> hindex) option" where
  "hindex_step t (IPut c d k i) =
     (case hindex_put c d (Some t) (Some k) i of Some (rc, Some t') \<Rightarrow> Some (rc, t') | _ \<Rightarrow> None)"
| "hindex_step t (IDel k) = map_option (Pair AIRY_SUCCESS) (hindex_del (Some t) (Some k))"

lemma ents_map_card:
  assumes wf: "ents_wf es"
  shows "card (dom (ents_map es)) = length (filter he_live es)"
proof -
  let ?S = "{p. p < length es \<and> he_live (es ! p)}" and ?key = "\<lambda>p. the (he_key (es ! p))"
  have match: "he_matches k (es ! p) \<longleftrightarrow> he_live (es ! p) \<and> ?key p = k" if "p < length es" for p k
    using ents_wfD(2) [OF wf that] by (auto simp: he_matches_def)
  have "inj_on ?key ?S"
    using ents_wfD(2,3) [OF wf] by (intro inj_onI) (auto simp: option.expand)
  moreover have "dom (ents_map es) = ?key ` ?S"
    using ents_map_None [of es] match by (auto simp: dom_def image_iff)
  ultimately show ?thesis by (simp add: card_image length_filter_conv_card)
qed

lemma hindex_room:
  assumes "hindex_inv t"
  shows "card (dom (hindex_abs t)) = hi_cnt t" "hi_cnt t \<le> hi_used t"
proof -
  from assms obtain es where es: "hi_ents t = Some es" "ents_wf es"
    "hi_cnt t = length (filter he_live es)" "hi_used t = length (filter he_occupied es)" by (rule hindex_invD)
  then show "card (dom (hindex_abs t)) = hi_cnt t" by (simp add: hindex_abs_def ents_map_card)
  have "length (filter he_live es) \<le> length (filter he_occupied es)" by (induction es) auto
  then show "hi_cnt t \<le> hi_used t" using es(3,4) by simp
qed

interpretation hx: string_index hindex_inv hi_cap hindex_abs "\<lambda>t k. hindex_get (Some t) (Some k)" hindex_step
proof (unfold_locales, goal_cases)
  case (1 t k)
  then show ?case by (rule hindex_get_ok)
next
  case (2 t op)
  show ?case
  proof (cases op)
    case (IPut c d k i)
    from 2 obtain es where es: "hi_ents t = Some es" by (rule hindex_invD)
    from hindex_put_table_ok [OF 2 es, of c d k i] obtain rc t' where
      r: "hindex_put_table c d t es k i = Some (rc, t')" "hindex_inv t'" "hi_cap t' = hi_cap t"
      "if hindex_abs t k \<noteq> None \<or> d \<and> hindex_has_room c t
       then rc = AIRY_SUCCESS \<and> hindex_abs t' = (hindex_abs t)(k \<mapsto> i)
       else rc = AIRY_ERR_OUT_OF_MEMORY \<and> hindex_abs t' = hindex_abs t" by blast
    then have "hindex_step t op = Some (rc, t')" by (simp add: IPut hindex_put_Some [OF es])
    moreover have "index_permits (hi_cap t) (hindex_abs t) op rc"
      using r(4) hindex_room [OF 2] by (auto simp: IPut hindex_has_room_def index_room_def err_codes split: if_splits)
    moreover have "hindex_abs t' = index_effect (hindex_abs t) op rc"
      using r(4) by (auto simp: IPut err_codes split: if_splits)
    ultimately show ?thesis using r(2,3) by blast
  next
    case (IDel k)
    with hindex_del_ok [OF 2, of k] show ?thesis by auto
  qed
qed

subsection \<open>Properties\<close>

text \<open>
  C7: \<open>hindex_put\<close> always returns. It succeeds exactly when the key is already present, or the key
  can be copied and the load limit of three quarters leaves room, possibly after a compaction. On
  success the map gains exactly that binding; otherwise it reports out of memory and no key is
  lost. The invariant holds either way.
\<close>

theorem hindex_put_refines:
  assumes "hindex_inv t"
  shows "\<exists>rc t'. hindex_put c d (Some t) (Some k) ix = Some (rc, Some t') \<and> hindex_inv t' \<and>
     hi_cap t' = hi_cap t \<and>
     (if hindex_abs t k \<noteq> None \<or>
         d \<and> (hi_used t * 4 < hi_cap t * 3 \<or> hi_cnt t * 4 < hi_cap t * 3 \<and> c)
      then rc = AIRY_SUCCESS \<and> hindex_abs t' = (hindex_abs t)(k \<mapsto> ix)
      else rc = AIRY_ERR_OUT_OF_MEMORY \<and> hindex_abs t' = hindex_abs t)"
proof -
  from assms obtain es where es: "hi_ents t = Some es" by (rule hindex_invD)
  from hindex_put_table_ok [OF assms es, of c d k ix] show ?thesis
    by (auto simp: hindex_put_Some [OF es] hindex_has_room_def)
qed

definition hindex_demo :: hindex where
  "hindex_demo = \<lparr>hi_ents = Some (replicate 2 hindex_zero_ent), hi_cap = 2, hi_cnt = 0, hi_used = 0\<rparr>"

lemma hindex_demo_inv: "hindex_inv hindex_demo" "hindex_abs hindex_demo = Map.empty"
proof -
  have "hindex_init True (Some t) 2 = (AIRY_SUCCESS, Some t') \<Longrightarrow> hindex_inv t' \<and> hindex_abs t' = Map.empty" for t t'
    using hindex_init_ok [of 2 t] by auto
  from this [of hindex_demo hindex_demo] show "hindex_inv hindex_demo" "hindex_abs hindex_demo = Map.empty"
    by (simp_all add: hindex_init_def hindex_demo_def)
qed

theorem hindex_put_refines_witness:
  "hindex_inv hindex_demo \<and>
   (\<exists>t'. hindex_put True True (Some hindex_demo) (Some ''a'') 7 = Some (AIRY_SUCCESS, Some t') \<and>
         hindex_inv t' \<and> hindex_abs t' = [''a'' \<mapsto> 7])"
  using hindex_put_refines [OF hindex_demo_inv(1), of True True "''a''" 7] hindex_demo_inv
  by (auto simp: hindex_demo_def)

text \<open>
  C17: every sequence of puts and deletions, whatever their allocations give, returns on every call
  and answers as a table of bounded load over a finite map: overwriting a stored key always
  succeeds, a new key is accepted only when it could be copied and fewer than three quarters of the
  slots are taken, and refused only when one of these fails or the compaction could not be allocated;
  a refusal changes nothing. Afterwards a lookup returns the index last stored under the key (read
  as a signed size), or -1 when there is none: deletions and compactions never hide other keys.
\<close>

theorem hindex_run_lookup:
  assumes "hindex_inv t"
  shows "\<exists>rcs t' m. index_run hindex_step t ops = Some (rcs, t') \<and> hindex_inv t' \<and>
    index_trace (hi_cap t) (hindex_abs t) ops rcs m \<and>
    (\<forall>k. hindex_get (Some t') (Some k) = (case m k of None \<Rightarrow> - 1 | Some i \<Rightarrow> sint i))"
  by (rule hx.run_lookup) (rule assms)

theorem hindex_run_lookup_witness:
  "\<exists>t'. index_run hindex_step hindex_demo
      [IPut True True ''a'' 7, IPut True False ''b'' 8, IPut True True ''b'' 9, IPut True True ''c'' 1,
       IDel ''a'', IPut False False ''b'' 5] =
    Some ([AIRY_SUCCESS, AIRY_ERR_OUT_OF_MEMORY, AIRY_SUCCESS, AIRY_ERR_OUT_OF_MEMORY,
           AIRY_SUCCESS, AIRY_SUCCESS], t') \<and>
    hindex_get (Some t') (Some ''a'') = - 1 \<and> hindex_get (Some t') (Some ''b'') = 5 \<and>
    hindex_get (Some t') (Some ''c'') = - 1"
proof -
  have "hi_cap hindex_demo = 2" by (simp add: hindex_demo_def)
  with hindex_run_lookup [OF hindex_demo_inv(1), of "[IPut True True ''a'' 7, IPut True False ''b'' 8,
      IPut True True ''b'' 9, IPut True True ''c'' 1, IDel ''a'', IPut False False ''b'' 5]"]
  obtain rcs t' m where r: "index_run hindex_step hindex_demo [IPut True True ''a'' 7, IPut True False ''b'' 8,
      IPut True True ''b'' 9, IPut True True ''c'' 1, IDel ''a'', IPut False False ''b'' 5] = Some (rcs, t')"
    and tr: "index_trace 2 Map.empty [IPut True True ''a'' 7, IPut True False ''b'' 8,
      IPut True True ''b'' 9, IPut True True ''c'' 1, IDel ''a'', IPut False False ''b'' 5] rcs m"
    and get: "\<forall>k. hindex_get (Some t') (Some k) = (case m k of None \<Rightarrow> - 1 | Some i \<Rightarrow> sint i)"
    unfolding hindex_demo_inv(2) by auto
  from tr have "rcs = [AIRY_SUCCESS, AIRY_ERR_OUT_OF_MEMORY, AIRY_SUCCESS, AIRY_ERR_OUT_OF_MEMORY,
      AIRY_SUCCESS, AIRY_SUCCESS] \<and> m = [''b'' \<mapsto> 5]"
    by (cases rcs rule: list.exhaust) (auto simp: index_room_def err_codes split: if_splits elim!: index_trace.elims)
  with r get show ?thesis by auto
qed

end
