(* ===== verification/Cache_Common.thy ===== *)
theory Cache_Common
  imports Err_Codes "HOL-Library.Monad_Syntax"
begin

section \<open>LRU cache with expiry (\<open>utils/cache/cache_common.c\<close>)\<close>

text \<open>
  The cache links every entry into two containers, a hash-bucket chain and the doubly linked LRU
  list, and unlinks it from both before freeing it. The model keeps that structure: entries live
  at addresses of a heap, the containers are pointers into it, \<open>malloc\<close> answers with the argument
  \<open>na\<close> (\<open>None\<close> when it fails), and reading or writing through a pointer to a freed or never
  allocated address makes the whole operation \<open>None\<close>, as does a loop that never stops. The
  single mutex makes each call one step.

  Shown: no operation ever touches freed memory or fails to stop, the two containers always
  hold the same entries, and the operations refine a bounded recency list.
\<close>

subsection \<open>Data\<close>

definition HASH_SIZE :: nat where "HASH_SIZE = 1024"

record ('k, 'v) cache_entry =
  ce_key :: 'k
  ce_value :: 'v
  ce_timestamp :: int
  ce_prev :: "addr option"
  ce_next :: "addr option"
  ce_hnext :: "addr option"

record ('k, 'v) cache_config =
  cc_capacity :: nat
  cc_ttl_sec :: int
  cc_hash_func :: "'k \<Rightarrow> nat"
  cc_compare_func :: "'k \<Rightarrow> 'k \<Rightarrow> int"
  cc_key_copy_func :: "bool \<Rightarrow> 'k \<Rightarrow> 'k option" \<comment> \<open>the first argument: whether its allocation succeeds\<close>
  cc_value_copy_func :: "bool \<Rightarrow> 'v \<Rightarrow> 'v option"

record ('k, 'v) cache_impl =
  ci_heap :: "addr \<rightharpoonup> ('k, 'v) cache_entry"
  ci_buckets :: "addr option list"
  ci_lru_head :: "addr option"
  ci_lru_tail :: "addr option"
  ci_capacity :: nat
  ci_size :: nat
  ci_ttl_sec :: int
  ci_hits :: u64
  ci_misses :: u64
  ci_evictions :: u64
  ci_manager :: "('k, 'v) cache_config"

record cache_stats =
  cs_entries :: nat
  cs_capacity :: nat
  cs_hits :: u64
  cs_misses :: u64
  cs_evictions :: u64
  cs_hit_rate :: "(u64 \<times> u64) option" \<comment> \<open>the quotient, as numerator and denominator\<close>

subsection \<open>String callbacks and default configuration\<close>

text \<open>\<open>char\<close> is signed on the supported x86-64 and Windows targets, so each byte is sign-extended.\<close>

definition cache_string_hash :: "cstr \<Rightarrow> nat" where
  "cache_string_hash s =
     unat (foldl (\<lambda>h c. push_bit 5 h + h + (scast (of_char c :: byte) :: u32)) (5381 :: u32) s) mod HASH_SIZE"

text \<open>\<open>strcmp\<close>, of which C only fixes the sign: a proper prefix is smaller.\<close>

fun cache_string_compare :: "cstr \<Rightarrow> cstr \<Rightarrow> int" where
  "cache_string_compare [] [] = 0"
| "cache_string_compare (a # as) [] = 1"
| "cache_string_compare [] (b # bs) = - 1"
| "cache_string_compare (a # as) (b # bs) =
     (if a = b then cache_string_compare as bs else sgn (of_char a - of_char b))"

definition cache_string_copy :: "bool \<Rightarrow> cstr \<Rightarrow> cstr option" where
  "cache_string_copy alloc_ok s = (if alloc_ok then Some s else None)"

definition cache_create_default_config :: "(cstr, cstr) cache_config" where
  "cache_create_default_config =
     \<lparr>cc_capacity = 1000, cc_ttl_sec = 3600,
      cc_hash_func = cache_string_hash, cc_compare_func = cache_string_compare,
      cc_key_copy_func = cache_string_copy, cc_value_copy_func = cache_string_copy\<rparr>"

subsection \<open>Heap access\<close>

definition rd :: "('k, 'v) cache_impl \<Rightarrow> addr \<Rightarrow> ('k, 'v) cache_entry option" where
  "rd c a = ci_heap c a"

definition wr ::
  "('k, 'v) cache_impl \<Rightarrow> addr \<Rightarrow> (('k, 'v) cache_entry \<Rightarrow> ('k, 'v) cache_entry) \<Rightarrow> ('k, 'v) cache_impl option"
where
  "wr c a f = (case ci_heap c a of None \<Rightarrow> None | Some e \<Rightarrow> Some (c\<lparr>ci_heap := (ci_heap c)(a \<mapsto> f e)\<rparr>))"

subsection \<open>Entries and the LRU list\<close>

definition cache_entry_create ::
  "('k, 'v) cache_config \<Rightarrow> addr option \<Rightarrow> bool \<Rightarrow> bool \<Rightarrow> int \<Rightarrow> 'k \<Rightarrow> 'v \<Rightarrow>
   (addr \<times> ('k, 'v) cache_entry) option"
where
  "cache_entry_create mgr na ck cv now key val =
     (case na of
        None \<Rightarrow> None
      | Some a \<Rightarrow>
          (case cc_key_copy_func mgr ck key of
             None \<Rightarrow> None
           | Some k \<Rightarrow>
               (case cc_value_copy_func mgr cv val of
                  None \<Rightarrow> None
                | Some v \<Rightarrow>
                    Some (a, \<lparr>ce_key = k, ce_value = v, ce_timestamp = now,
                              ce_prev = None, ce_next = None, ce_hnext = None\<rparr>))))"

definition cache_entry_free :: "('k, 'v) cache_impl \<Rightarrow> addr \<Rightarrow> ('k, 'v) cache_impl option" where
  "cache_entry_free c a =
     (case ci_heap c a of
        None \<Rightarrow> None
      | Some e \<Rightarrow> Some (c\<lparr>ci_heap := (ci_heap c)(a := None)\<rparr>))"

definition lru_remove :: "('k, 'v) cache_impl \<Rightarrow> addr \<Rightarrow> ('k, 'v) cache_impl option" where
  "lru_remove c entry = do {
     e0 \<leftarrow> rd c entry;
     c1 \<leftarrow> (case ce_prev e0 of None \<Rightarrow> Some c | Some p \<Rightarrow> wr c p (\<lambda>e. e\<lparr>ce_next := ce_next e0\<rparr>));
     e1 \<leftarrow> rd c1 entry;
     c2 \<leftarrow> (case ce_next e1 of None \<Rightarrow> Some c1 | Some n \<Rightarrow> wr c1 n (\<lambda>e. e\<lparr>ce_prev := ce_prev e1\<rparr>));
     e2 \<leftarrow> rd c2 entry;
     let c3 = (if ci_lru_head c2 = Some entry then c2\<lparr>ci_lru_head := ce_next e2\<rparr> else c2);
     let c4 = (if ci_lru_tail c3 = Some entry then c3\<lparr>ci_lru_tail := ce_prev e2\<rparr> else c3);
     wr c4 entry (\<lambda>e. e\<lparr>ce_prev := None, ce_next := None\<rparr>)
   }"

definition lru_move_to_head :: "('k, 'v) cache_impl \<Rightarrow> addr \<Rightarrow> ('k, 'v) cache_impl option" where
  "lru_move_to_head c entry =
     (if ci_lru_head c = Some entry then Some c
      else do {
        c1 \<leftarrow> lru_remove c entry;
        c2 \<leftarrow> wr c1 entry (\<lambda>e. e\<lparr>ce_next := ci_lru_head c1\<rparr>);
        c3 \<leftarrow> (case ci_lru_head c2 of
                None \<Rightarrow> Some c2
              | Some h \<Rightarrow> wr c2 h (\<lambda>e. e\<lparr>ce_prev := Some entry\<rparr>));
        let c4 = c3\<lparr>ci_lru_head := Some entry\<rparr>;
        Some (if ci_lru_tail c4 = None then c4\<lparr>ci_lru_tail := Some entry\<rparr> else c4)
      })"

subsection \<open>Bucket chains\<close>

text \<open>The loop of \<open>bucket_find\<close>, from the entry \<open>p\<close> on.\<close>

partial_function (option) bucket_find_from ::
  "('k, 'v) cache_impl \<Rightarrow> addr option \<Rightarrow> 'k \<Rightarrow> addr option option" where
  "bucket_find_from c p key =
     (case p of
        None \<Rightarrow> Some None
      | Some a \<Rightarrow>
          (case ci_heap c a of
             None \<Rightarrow> None
           | Some e \<Rightarrow>
               if cc_compare_func (ci_manager c) (ce_key e) key = 0 then Some (Some a)
               else bucket_find_from c (ce_hnext e) key))"

definition bucket_find :: "('k, 'v) cache_impl \<Rightarrow> nat \<Rightarrow> 'k \<Rightarrow> addr option option" where
  "bucket_find c idx key =
     (if idx < length (ci_buckets c) then bucket_find_from c (ci_buckets c ! idx) key else None)"

text \<open>The \<open>cache_entry_t **link\<close> of \<open>bucket_unlink\<close> points into the bucket array or at an \<open>hnext\<close>.\<close>

datatype hlink = LBucket nat | LNext addr

fun rd_link :: "('k, 'v) cache_impl \<Rightarrow> hlink \<Rightarrow> addr option option" where
  "rd_link c (LBucket i) = (if i < length (ci_buckets c) then Some (ci_buckets c ! i) else None)"
| "rd_link c (LNext a) = map_option ce_hnext (ci_heap c a)"

fun wr_link :: "('k, 'v) cache_impl \<Rightarrow> hlink \<Rightarrow> addr option \<Rightarrow> ('k, 'v) cache_impl option" where
  "wr_link c (LBucket i) v =
     (if i < length (ci_buckets c) then Some (c\<lparr>ci_buckets := (ci_buckets c)[i := v]\<rparr>) else None)"
| "wr_link c (LNext a) v = wr c a (\<lambda>e. e\<lparr>ce_hnext := v\<rparr>)"

partial_function (option) bucket_unlink_from ::
  "('k, 'v) cache_impl \<Rightarrow> hlink \<Rightarrow> addr \<Rightarrow> ('k, 'v) cache_impl option" where
  "bucket_unlink_from c link entry =
     (case rd_link c link of
        None \<Rightarrow> None
      | Some None \<Rightarrow> Some c
      | Some (Some a) \<Rightarrow>
          if a = entry then
            (case ci_heap c entry of None \<Rightarrow> None | Some e \<Rightarrow> wr_link c link (ce_hnext e))
          else bucket_unlink_from c (LNext a) entry)"

definition bucket_unlink :: "('k, 'v) cache_impl \<Rightarrow> nat \<Rightarrow> addr \<Rightarrow> ('k, 'v) cache_impl option" where
  "bucket_unlink c idx entry = bucket_unlink_from c (LBucket idx) entry"

definition entry_reap :: "('k, 'v) cache_impl \<Rightarrow> nat \<Rightarrow> addr \<Rightarrow> ('k, 'v) cache_impl option" where
  "entry_reap c idx entry = do {
     c1 \<leftarrow> bucket_unlink c idx entry;
     c2 \<leftarrow> lru_remove c1 entry;
     c3 \<leftarrow> cache_entry_free c2 entry;
     Some (c3\<lparr>ci_size := ci_size c3 - 1\<rparr>)
   }"

definition evict_lru :: "('k, 'v) cache_impl \<Rightarrow> ('k, 'v) cache_impl option" where
  "evict_lru c =
     (case ci_lru_tail c of
        None \<Rightarrow> Some c
      | Some victim \<Rightarrow> do {
          e \<leftarrow> rd c victim;
          c1 \<leftarrow> entry_reap c (cc_hash_func (ci_manager c) (ce_key e)) victim;
          Some (c1\<lparr>ci_evictions := ci_evictions c1 + 1\<rparr>)
        })"

text \<open>\<open>while (size > capacity) evict_lru\<close>, shared by \<open>cache_put\<close> and \<open>cache_set_capacity\<close>.\<close>

partial_function (option) evict_loop :: "('k, 'v) cache_impl \<Rightarrow> ('k, 'v) cache_impl option" where
  "evict_loop c =
     (if ci_size c > ci_capacity c
      then (case evict_lru c of None \<Rightarrow> None | Some c' \<Rightarrow> evict_loop c')
      else Some c)"

subsection \<open>Interface\<close>

definition cache_create ::
  "bool \<Rightarrow> bool \<Rightarrow> ('k, 'v) cache_config \<Rightarrow> ('k, 'v) cache_impl option" where
  "cache_create alloc_ok mutex_ok mgr =
     (if \<not> alloc_ok \<or> \<not> mutex_ok then None
      else Some \<lparr>ci_heap = Map.empty, ci_buckets = replicate HASH_SIZE None,
                 ci_lru_head = None, ci_lru_tail = None,
                 ci_capacity = cc_capacity mgr, ci_size = 0, ci_ttl_sec = cc_ttl_sec mgr,
                 ci_hits = 0, ci_misses = 0, ci_evictions = 0, ci_manager = mgr\<rparr>)"

text \<open>The inner loop of \<open>cache_drain\<close>: free a bucket chain from \<open>p\<close> on.\<close>

partial_function (option) drain_chain ::
  "('k, 'v) cache_impl \<Rightarrow> addr option \<Rightarrow> ('k, 'v) cache_impl option" where
  "drain_chain c p =
     (case p of
        None \<Rightarrow> Some c
      | Some a \<Rightarrow>
          (case ci_heap c a of
             None \<Rightarrow> None
           | Some e \<Rightarrow>
               (case cache_entry_free c a of None \<Rightarrow> None | Some c' \<Rightarrow> drain_chain c' (ce_hnext e))))"

fun drain_buckets :: "('k, 'v) cache_impl \<Rightarrow> nat list \<Rightarrow> ('k, 'v) cache_impl option" where
  "drain_buckets c [] = Some c"
| "drain_buckets c (i # is) =
     (case drain_chain c (ci_buckets c ! i) of
        None \<Rightarrow> None
      | Some c' \<Rightarrow> drain_buckets (c'\<lparr>ci_buckets := (ci_buckets c')[i := None]\<rparr>) is)"

definition cache_drain :: "('k, 'v) cache_impl \<Rightarrow> ('k, 'v) cache_impl option" where
  "cache_drain c = do {
     c1 \<leftarrow> drain_buckets c [0..<HASH_SIZE];
     Some (c1\<lparr>ci_lru_head := None, ci_lru_tail := None, ci_size := 0\<rparr>)
   }"

text \<open>
  \<open>cache_get\<close> past its NULL guards: return code, copied value, cache after the call. A copy that is
  not allocated (\<open>cv\<close> false) leaves the caller's pointer NULL, and the call still returns 1.
\<close>

definition cache_get_impl ::
  "bool \<Rightarrow> int \<Rightarrow> ('k, 'v) cache_impl \<Rightarrow> 'k \<Rightarrow> (int \<times> 'v option \<times> ('k, 'v) cache_impl) option" where
  "cache_get_impl cv now c key = do {
     let idx = cc_hash_func (ci_manager c) key;
     r \<leftarrow> bucket_find c idx key;
     (case r of
        None \<Rightarrow> Some (0, None, c\<lparr>ci_misses := ci_misses c + 1\<rparr>)
      | Some entry \<Rightarrow> do {
          e \<leftarrow> rd c entry;
          if ci_ttl_sec c > 0 \<and> now - ce_timestamp e > ci_ttl_sec c then do {
            c1 \<leftarrow> entry_reap c idx entry;
            Some (0, None, c1\<lparr>ci_misses := ci_misses c1 + 1\<rparr>)
          } else do {
            c1 \<leftarrow> lru_move_to_head c entry;
            Some (1, cc_value_copy_func (ci_manager c) cv (ce_value e), c1\<lparr>ci_hits := ci_hits c1 + 1\<rparr>)
          }
        })
   }"

definition cache_get ::
  "bool \<Rightarrow> int \<Rightarrow> ('k, 'v) cache_impl option \<Rightarrow> 'k option \<Rightarrow> bool \<Rightarrow>
   (int \<times> 'v option \<times> ('k, 'v) cache_impl option) option" where
  "cache_get cv now cache key out_given =
     (case (cache, key) of
        (Some c, Some k) \<Rightarrow>
          if \<not> out_given then Some (AIRY_EINVAL, None, Some c)
          else map_option (map_prod id (map_prod id Some)) (cache_get_impl cv now c k)
      | _ \<Rightarrow> Some (AIRY_EINVAL, None, cache))"

text \<open>Hooking a new entry into its bucket and the head of the list.\<close>

definition cache_link :: "('k, 'v) cache_impl \<Rightarrow> nat \<Rightarrow> addr \<Rightarrow> ('k, 'v) cache_entry \<Rightarrow> ('k, 'v) cache_impl option" where
  "cache_link c idx a e =
     (if idx < length (ci_buckets c) then do {
        let c1 = c\<lparr>ci_heap := (ci_heap c)(a \<mapsto> e\<lparr>ce_hnext := ci_buckets c ! idx\<rparr>)\<rparr>;
        let c2 = c1\<lparr>ci_buckets := (ci_buckets c1)[idx := Some a]\<rparr>;
        c3 \<leftarrow> lru_move_to_head c2 a;
        Some (c3\<lparr>ci_size := ci_size c3 + 1\<rparr>)
      } else None)"

text \<open>\<open>na\<close>, \<open>ck\<close> and \<open>cv\<close>: what allocating the entry, the copy of the key and the copy of the value gave.\<close>

definition cache_put_impl ::
  "addr option \<Rightarrow> bool \<Rightarrow> bool \<Rightarrow> int \<Rightarrow> ('k, 'v) cache_impl \<Rightarrow> 'k \<Rightarrow> 'v option \<Rightarrow> ('k, 'v) cache_impl option" where
  "cache_put_impl na ck cv now c key val =
     (if ci_capacity c = 0 then Some c
      else do {
        let idx = cc_hash_func (ci_manager c) key;
        r \<leftarrow> bucket_find c idx key;
        c1 \<leftarrow> (case r of None \<Rightarrow> Some c | Some existing \<Rightarrow> entry_reap c idx existing);
        c2 \<leftarrow> (case val of
                None \<Rightarrow> Some c1
              | Some v \<Rightarrow>
                  (case cache_entry_create (ci_manager c1) na ck cv now key v of
                     None \<Rightarrow> Some c1
                   | Some (a, e) \<Rightarrow> cache_link c1 idx a e));
        evict_loop c2
      })"

definition cache_put ::
  "addr option \<Rightarrow> bool \<Rightarrow> bool \<Rightarrow> int \<Rightarrow> ('k, 'v) cache_impl option \<Rightarrow> 'k option \<Rightarrow> 'v option \<Rightarrow>
   ('k, 'v) cache_impl option option" where
  "cache_put na ck cv now cache key val =
     (case (cache, key) of
        (Some c, Some k) \<Rightarrow> map_option Some (cache_put_impl na ck cv now c k val)
      | _ \<Rightarrow> Some cache)"

definition cache_delete ::
  "addr option \<Rightarrow> bool \<Rightarrow> bool \<Rightarrow> int \<Rightarrow> ('k, 'v) cache_impl option \<Rightarrow> 'k option \<Rightarrow> ('k, 'v) cache_impl option option" where
  "cache_delete na ck cv now cache key = cache_put na ck cv now cache key None"

definition cache_clear :: "('k, 'v) cache_impl option \<Rightarrow> ('k, 'v) cache_impl option option" where
  "cache_clear cache = (case cache of None \<Rightarrow> Some None | Some c \<Rightarrow> map_option Some (cache_drain c))"

text \<open>\<open>cache_destroy\<close> drains the cache and frees it: only a fault can make it fail.\<close>

definition cache_destroy :: "('k, 'v) cache_impl option \<Rightarrow> unit option" where
  "cache_destroy cache = (case cache of None \<Rightarrow> Some () | Some c \<Rightarrow> map_option (\<lambda>_. ()) (cache_drain c))"

definition cache_get_size :: "('k, 'v) cache_impl option \<Rightarrow> nat" where
  "cache_get_size cache = (case cache of None \<Rightarrow> 0 | Some c \<Rightarrow> ci_size c)"

definition cache_get_capacity :: "('k, 'v) cache_impl option \<Rightarrow> nat" where
  "cache_get_capacity cache = (case cache of None \<Rightarrow> 0 | Some c \<Rightarrow> ci_capacity c)"

definition cache_get_stats :: "('k, 'v) cache_impl option \<Rightarrow> cache_stats option" where
  "cache_get_stats cache =
     (case cache of
        None \<Rightarrow> None
      | Some c \<Rightarrow>
          Some \<lparr>cs_entries = ci_size c, cs_capacity = ci_capacity c, cs_hits = ci_hits c,
                cs_misses = ci_misses c, cs_evictions = ci_evictions c,
                cs_hit_rate = (if ci_hits c + ci_misses c > 0
                               then Some (ci_hits c, ci_hits c + ci_misses c) else None)\<rparr>)"

definition cache_set_capacity :: "('k, 'v) cache_impl option \<Rightarrow> nat \<Rightarrow> ('k, 'v) cache_impl option option" where
  "cache_set_capacity cache cap =
     (case cache of None \<Rightarrow> Some None | Some c \<Rightarrow> map_option Some (evict_loop (c\<lparr>ci_capacity := cap\<rparr>)))"

definition cache_get_ttl :: "('k, 'v) cache_impl option \<Rightarrow> int" where
  "cache_get_ttl cache = (case cache of None \<Rightarrow> 0 | Some c \<Rightarrow> ci_ttl_sec c)"

definition cache_set_ttl :: "('k, 'v) cache_impl option \<Rightarrow> int \<Rightarrow> ('k, 'v) cache_impl option" where
  "cache_set_ttl cache ttl = map_option (\<lambda>c. c\<lparr>ci_ttl_sec := ttl\<rparr>) cache"

definition cache_create_string_cache :: "bool \<Rightarrow> bool \<Rightarrow> nat \<Rightarrow> int \<Rightarrow> (cstr, cstr) cache_impl option" where
  "cache_create_string_cache alloc_ok mutex_ok cap ttl =
     cache_create alloc_ok mutex_ok (cache_create_default_config\<lparr>cc_capacity := cap, cc_ttl_sec := ttl\<rparr>)"


subsection \<open>Three views of the heap\<close>

text \<open>
  The list pointers, the chain pointer and the payload of the entries are separate views, so that
  an operation on one container is seen at once to leave the other alone.
\<close>

definition lk :: "('k, 'v) cache_impl \<Rightarrow> addr \<rightharpoonup> addr option \<times> addr option" where
  "lk c a = map_option (\<lambda>e. (ce_prev e, ce_next e)) (ci_heap c a)"

definition hn :: "('k, 'v) cache_impl \<Rightarrow> addr \<rightharpoonup> addr option" where
  "hn c a = map_option ce_hnext (ci_heap c a)"

definition dt :: "('k, 'v) cache_impl \<Rightarrow> addr \<rightharpoonup> 'k \<times> 'v \<times> int" where
  "dt c a = map_option (\<lambda>e. (ce_key e, ce_value e, ce_timestamp e)) (ci_heap c a)"

text \<open>Everything an LRU-list operation must not change.\<close>

definition same_rest :: "('k, 'v) cache_impl \<Rightarrow> ('k, 'v) cache_impl \<Rightarrow> bool" where
  "same_rest c c' \<longleftrightarrow> hn c' = hn c \<and> dt c' = dt c \<and> ci_buckets c' = ci_buckets c \<and>
     ci_capacity c' = ci_capacity c \<and> ci_size c' = ci_size c \<and> ci_ttl_sec c' = ci_ttl_sec c \<and>
     ci_hits c' = ci_hits c \<and> ci_misses c' = ci_misses c \<and> ci_evictions c' = ci_evictions c \<and>
     ci_manager c' = ci_manager c"

lemma same_rest_refl [simp]: "same_rest c c"
  by (simp add: same_rest_def)

lemma same_rest_trans: "same_rest a b \<Longrightarrow> same_rest b c \<Longrightarrow> same_rest a c"
  by (simp add: same_rest_def)

lemma view_upd [simp]:
  "lk (c\<lparr>ci_lru_head := x_ci_lru_head\<rparr>) = lk c"
  "lk (c\<lparr>ci_lru_tail := x_ci_lru_tail\<rparr>) = lk c"
  "lk (c\<lparr>ci_capacity := x_ci_capacity\<rparr>) = lk c"
  "lk (c\<lparr>ci_size := x_ci_size\<rparr>) = lk c"
  "lk (c\<lparr>ci_ttl_sec := x_ci_ttl_sec\<rparr>) = lk c"
  "lk (c\<lparr>ci_hits := x_ci_hits\<rparr>) = lk c"
  "lk (c\<lparr>ci_misses := x_ci_misses\<rparr>) = lk c"
  "lk (c\<lparr>ci_evictions := x_ci_evictions\<rparr>) = lk c"
  "lk (c\<lparr>ci_buckets := x_ci_buckets\<rparr>) = lk c"
  "hn (c\<lparr>ci_lru_head := x_ci_lru_head\<rparr>) = hn c"
  "hn (c\<lparr>ci_lru_tail := x_ci_lru_tail\<rparr>) = hn c"
  "hn (c\<lparr>ci_capacity := x_ci_capacity\<rparr>) = hn c"
  "hn (c\<lparr>ci_size := x_ci_size\<rparr>) = hn c"
  "hn (c\<lparr>ci_ttl_sec := x_ci_ttl_sec\<rparr>) = hn c"
  "hn (c\<lparr>ci_hits := x_ci_hits\<rparr>) = hn c"
  "hn (c\<lparr>ci_misses := x_ci_misses\<rparr>) = hn c"
  "hn (c\<lparr>ci_evictions := x_ci_evictions\<rparr>) = hn c"
  "hn (c\<lparr>ci_buckets := x_ci_buckets\<rparr>) = hn c"
  "dt (c\<lparr>ci_lru_head := x_ci_lru_head\<rparr>) = dt c"
  "dt (c\<lparr>ci_lru_tail := x_ci_lru_tail\<rparr>) = dt c"
  "dt (c\<lparr>ci_capacity := x_ci_capacity\<rparr>) = dt c"
  "dt (c\<lparr>ci_size := x_ci_size\<rparr>) = dt c"
  "dt (c\<lparr>ci_ttl_sec := x_ci_ttl_sec\<rparr>) = dt c"
  "dt (c\<lparr>ci_hits := x_ci_hits\<rparr>) = dt c"
  "dt (c\<lparr>ci_misses := x_ci_misses\<rparr>) = dt c"
  "dt (c\<lparr>ci_evictions := x_ci_evictions\<rparr>) = dt c"
  "dt (c\<lparr>ci_buckets := x_ci_buckets\<rparr>) = dt c"
  by (simp_all add: lk_def hn_def dt_def fun_eq_iff)

lemma same_rest_ends [simp]:
  "same_rest c (c\<lparr>ci_lru_head := h\<rparr>)" "same_rest c (c\<lparr>ci_lru_tail := t\<rparr>)"
  "same_rest c (c\<lparr>ci_lru_head := h, ci_lru_tail := t\<rparr>)"
  by (simp_all add: same_rest_def)

lemma lkD: "lk c a = Some (p, n) \<Longrightarrow> \<exists>e. ci_heap c a = Some e \<and> ce_prev e = p \<and> ce_next e = n"
  by (auto simp: lk_def)

lemma wr_next:
  assumes "lk c a = Some (p, n)"
  shows "\<exists>c'. wr c a (\<lambda>e. e\<lparr>ce_next := n'\<rparr>) = Some c' \<and> lk c' = (lk c)(a \<mapsto> (p, n')) \<and>
           same_rest c c' \<and> ci_lru_head c' = ci_lru_head c \<and> ci_lru_tail c' = ci_lru_tail c"
  using assms by (auto simp: lk_def wr_def same_rest_def hn_def dt_def fun_eq_iff)

lemma wr_prev:
  assumes "lk c a = Some (p, n)"
  shows "\<exists>c'. wr c a (\<lambda>e. e\<lparr>ce_prev := p'\<rparr>) = Some c' \<and> lk c' = (lk c)(a \<mapsto> (p', n)) \<and>
           same_rest c c' \<and> ci_lru_head c' = ci_lru_head c \<and> ci_lru_tail c' = ci_lru_tail c"
  using assms by (auto simp: lk_def wr_def same_rest_def hn_def dt_def fun_eq_iff)

lemma wr_clear:
  assumes "lk c a = Some (p, n)"
  shows "\<exists>c'. wr c a (\<lambda>e. e\<lparr>ce_prev := None, ce_next := None\<rparr>) = Some c' \<and>
           lk c' = (lk c)(a \<mapsto> (None, None)) \<and>
           same_rest c c' \<and> ci_lru_head c' = ci_lru_head c \<and> ci_lru_tail c' = ci_lru_tail c"
  using assms by (auto simp: lk_def wr_def same_rest_def hn_def dt_def fun_eq_iff)

subsection \<open>Doubly linked segments\<close>

definition first :: "addr list \<Rightarrow> addr option \<Rightarrow> addr option" where
  "first xs nx = (case xs of [] \<Rightarrow> nx | b # _ \<Rightarrow> Some b)"

definition lastp :: "addr option \<Rightarrow> addr list \<Rightarrow> addr option" where
  "lastp pr xs = (if xs = [] then pr else Some (last xs))"

fun dseg :: "(addr \<rightharpoonup> addr option \<times> addr option) \<Rightarrow> addr option \<Rightarrow> addr list \<Rightarrow> addr option \<Rightarrow> bool" where
  "dseg m pr [] nx = True"
| "dseg m pr (a # as) nx = (m a = Some (pr, first as nx) \<and> dseg m (Some a) as nx)"

lemma first_simps [simp]: "first [] nx = nx" "first (x # xs) nx = Some x"
  "first (xs @ ys) nx = first xs (first ys nx)"
  by (auto simp: first_def split: list.splits)

lemma lastp_simps [simp]: "lastp pr [] = pr" "lastp pr (xs @ [x]) = Some x" "lastp pr (x # xs) = lastp (Some x) xs"
  by (auto simp: lastp_def)

lemma lastp_append: "lastp pr (xs @ ys) = lastp (lastp pr xs) ys"
  by (simp add: lastp_def)

lemma dseg_append [simp]:
  "dseg m pr (xs @ ys) nx \<longleftrightarrow> dseg m pr xs (first ys nx) \<and> dseg m (lastp pr xs) ys nx"
  by (induction xs arbitrary: pr) auto

lemma dseg_upd_notin [simp]: "a \<notin> set xs \<Longrightarrow> dseg (m(a := v)) pr xs nx = dseg m pr xs nx"
  by (induction xs arbitrary: pr) auto

definition lru_ok :: "('k, 'v) cache_impl \<Rightarrow> addr list \<Rightarrow> bool" where
  "lru_ok c ps \<longleftrightarrow> dseg (lk c) None ps None \<and> distinct ps \<and>
     ci_lru_head c = first ps None \<and> ci_lru_tail c = lastp None ps"

text \<open>
  The effect of \<open>lru_remove\<close> on a listed entry, as a chain of three pointer writes; the four
  combinations of neighbours are four straight evaluations.
\<close>

lemma lru_remove_lk:
  assumes a: "lk c a = Some (p, n)"
    and p: "\<And>b. p = Some b \<Longrightarrow> b \<noteq> a \<and> lk c b = Some (pp b, Some a)"
    and n: "\<And>b. n = Some b \<Longrightarrow> b \<noteq> a \<and> lk c b = Some (Some a, nn b)"
    and pn: "p = None \<or> n = None \<or> p \<noteq> n"
  shows "\<exists>c'. lru_remove c a = Some c' \<and> same_rest c c' \<and>
     lk c' = (let m1 = (case p of None \<Rightarrow> lk c | Some b \<Rightarrow> (lk c)(b \<mapsto> (pp b, n)));
                  m2 = (case n of None \<Rightarrow> m1 | Some b \<Rightarrow> m1(b \<mapsto> (p, nn b)))
              in m2(a \<mapsto> (None, None))) \<and>
     ci_lru_head c' = (if ci_lru_head c = Some a then n else ci_lru_head c) \<and>
     ci_lru_tail c' = (if ci_lru_tail c = Some a then p else ci_lru_tail c)"
proof -
  obtain e0 where e0: "ci_heap c a = Some e0" "ce_prev e0 = p" "ce_next e0 = n"
    using lkD [OF a] by blast
  obtain c1 where c1: "(case ce_prev e0 of None \<Rightarrow> Some c | Some b \<Rightarrow> wr c b (\<lambda>e. e\<lparr>ce_next := ce_next e0\<rparr>)) = Some c1"
    and m1: "lk c1 = (case p of None \<Rightarrow> lk c | Some b \<Rightarrow> (lk c)(b \<mapsto> (pp b, n)))"
    and r1: "same_rest c c1" "ci_lru_head c1 = ci_lru_head c" "ci_lru_tail c1 = ci_lru_tail c"
    using wr_next [of c "the p" "pp (the p)" "Some a" n] p e0 by (cases p) auto
  have a1: "lk c1 a = Some (p, n)" using a m1 p by (auto split: option.splits)
  obtain e1 where e1: "ci_heap c1 a = Some e1" "ce_prev e1 = p" "ce_next e1 = n"
    using lkD [OF a1] by blast
  have n1: "\<And>b. n = Some b \<Longrightarrow> lk c1 b = Some (Some a, nn b)"
    using n pn m1 by (auto split: option.splits)
  obtain c2 where c2: "(case ce_next e1 of None \<Rightarrow> Some c1 | Some b \<Rightarrow> wr c1 b (\<lambda>e. e\<lparr>ce_prev := ce_prev e1\<rparr>)) = Some c2"
    and m2: "lk c2 = (case n of None \<Rightarrow> lk c1 | Some b \<Rightarrow> (lk c1)(b \<mapsto> (p, nn b)))"
    and r2: "same_rest c1 c2" "ci_lru_head c2 = ci_lru_head c" "ci_lru_tail c2 = ci_lru_tail c"
    using wr_prev [of c1 "the n" "Some a" "nn (the n)" p] n1 e1 r1 by (cases n) auto
  have a2: "lk c2 a = Some (p, n)" using a1 m2 n by (auto split: option.splits)
  obtain e2 where e2: "ci_heap c2 a = Some e2" "ce_prev e2 = p" "ce_next e2 = n"
    using lkD [OF a2] by blast
  define c3 where "c3 = (if ci_lru_head c2 = Some a then c2\<lparr>ci_lru_head := n\<rparr> else c2)"
  define c4 where "c4 = (if ci_lru_tail c3 = Some a then c3\<lparr>ci_lru_tail := p\<rparr> else c3)"
  have r4: "same_rest c2 c4" "lk c4 = lk c2"
    "ci_lru_head c4 = (if ci_lru_head c = Some a then n else ci_lru_head c)"
    "ci_lru_tail c4 = (if ci_lru_tail c = Some a then p else ci_lru_tail c)"
    using r2 by (auto simp: c3_def c4_def)
  obtain c5 where c5: "wr c4 a (\<lambda>e. e\<lparr>ce_prev := None, ce_next := None\<rparr>) = Some c5"
    and m5: "lk c5 = (lk c4)(a \<mapsto> (None, None))" and r5: "same_rest c4 c5"
    "ci_lru_head c5 = ci_lru_head c4" "ci_lru_tail c5 = ci_lru_tail c4"
    using wr_clear [of c4 a p n] a2 r4 by auto
  have "lru_remove c a = Some c5"
    using e0 c1 e1 c2 e2 c5 [unfolded c4_def c3_def]
    by (simp add: lru_remove_def rd_def Let_def split: if_splits)
  moreover have "same_rest c c5"
    using r1(1) r2(1) r4(1) r5(1) by (meson same_rest_trans)
  ultimately show ?thesis using m1 m2 m5 r4 r5 by (cases n) (auto simp: Let_def)
qed


lemma lru_okD:
  assumes "lru_ok c (xs @ a # ys)"
  shows "lk c a = Some (lastp None xs, first ys None)" "a \<notin> set xs" "a \<notin> set ys" "set xs \<inter> set ys = {}"
    "distinct xs" "distinct ys" "dseg (lk c) None xs (Some a)" "dseg (lk c) (Some a) ys None"
    "ci_lru_head c = first xs (Some a)" "ci_lru_tail c = lastp (Some a) ys"
  using assms by (auto simp: lru_ok_def lastp_append)

lemma lru_remove_ok:
  assumes ok: "lru_ok c (xs @ a # ys)"
  shows "\<exists>c'. lru_remove c a = Some c' \<and> lru_ok c' (xs @ ys) \<and> lk c' a = Some (None, None) \<and> same_rest c c'"
proof -
  note D = lru_okD [OF ok]
  define pp where "pp = (\<lambda>b::addr. lastp None (butlast xs))"
  define nn where "nn = (\<lambda>b::addr. first (tl ys) None)"
  have p: "b \<noteq> a \<and> lk c b = Some (pp b, Some a)" if "lastp None xs = Some b" for b
    using that D(2,7) by (cases xs rule: rev_cases) (auto simp: pp_def)
  have n: "b \<noteq> a \<and> lk c b = Some (Some a, nn b)" if "first ys None = Some b" for b
    using that D(3,8) by (cases ys) (auto simp: nn_def)
  have pn: "lastp None xs = None \<or> first ys None = None \<or> lastp None xs \<noteq> first ys None"
    using D(4) by (cases xs rule: rev_cases; cases ys) auto
  from lru_remove_lk [OF D(1), of pp nn, OF p n pn] obtain c' where
    c': "lru_remove c a = Some c'" "same_rest c c'" and
    m: "lk c' = (let m1 = (case lastp None xs of None \<Rightarrow> lk c | Some b \<Rightarrow> (lk c)(b \<mapsto> (pp b, first ys None)));
                     m2 = (case first ys None of None \<Rightarrow> m1 | Some b \<Rightarrow> m1(b \<mapsto> (lastp None xs, nn b)))
                 in m2(a \<mapsto> (None, None)))" and
    ht: "ci_lru_head c' = (if ci_lru_head c = Some a then first ys None else ci_lru_head c)"
        "ci_lru_tail c' = (if ci_lru_tail c = Some a then lastp None xs else ci_lru_tail c)"
    by auto
  have "dseg (lk c') None (xs @ ys) None"
    using D by (cases xs rule: rev_cases; cases ys) (auto simp: m Let_def pp_def nn_def)
  moreover have "ci_lru_head c' = first (xs @ ys) None"
    using D(2,9) ht(1) by (cases xs) auto
  moreover have "ci_lru_tail c' = lastp None (xs @ ys)"
    using D(3,10) ht(2) by (cases ys rule: rev_cases) (auto simp: lastp_append)
  moreover have "lk c' a = Some (None, None)" by (simp add: m Let_def)
  ultimately show ?thesis using c' D(4,5,6) by (auto simp: lru_ok_def)
qed

lemma lru_head_in: "lru_ok c ps \<Longrightarrow> ci_lru_head c = Some a \<Longrightarrow> a \<in> set ps"
  by (cases ps) (simp_all add: lru_ok_def)

lemma lru_tail_in: "lru_ok c ps \<Longrightarrow> ci_lru_tail c = Some a \<Longrightarrow> a \<in> set ps"
  by (cases ps rule: rev_cases) (simp_all add: lru_ok_def)

text \<open>Removing a detached entry changes nothing in the list.\<close>

lemma lru_remove_detached:
  assumes ok: "lru_ok c ps" and a: "lk c a = Some (None, None)" "a \<notin> set ps"
  shows "\<exists>c'. lru_remove c a = Some c' \<and> lru_ok c' ps \<and> lk c' a = Some (None, None) \<and> same_rest c c'"
proof -
  have "ci_lru_head c \<noteq> Some a" "ci_lru_tail c \<noteq> Some a"
    using lru_head_in [OF ok] lru_tail_in [OF ok] a(2) by blast+
  with lru_remove_lk [OF a(1), of "\<lambda>_. None" "\<lambda>_. None", simplified] obtain c' where
    c': "lru_remove c a = Some c'" "same_rest c c'" "lk c' = (lk c)(a \<mapsto> (None, None))"
    "ci_lru_head c' = ci_lru_head c" "ci_lru_tail c' = ci_lru_tail c"
    by auto
  with ok a(2) show ?thesis by (auto simp: lru_ok_def)
qed

lemma lru_push_ok:
  assumes ok: "lru_ok c ps" and a: "lk c a = Some (None, None)" "a \<notin> set ps"
  shows "\<exists>c'. do { c2 \<leftarrow> wr c a (\<lambda>e. e\<lparr>ce_next := ci_lru_head c\<rparr>);
               c3 \<leftarrow> (case ci_lru_head c2 of
                       None \<Rightarrow> Some c2
                     | Some h \<Rightarrow> wr c2 h (\<lambda>e. e\<lparr>ce_prev := Some a\<rparr>));
               let c4 = c3\<lparr>ci_lru_head := Some a\<rparr>;
               Some (if ci_lru_tail c4 = None then c4\<lparr>ci_lru_tail := Some a\<rparr> else c4) } = Some c' \<and>
           lru_ok c' (a # ps) \<and> same_rest c c'"
proof -
  have hd: "ci_lru_head c = first ps None" and tl: "ci_lru_tail c = lastp None ps"
    and ds: "dseg (lk c) None ps None" and di: "distinct ps"
    using ok by (auto simp: lru_ok_def)
  obtain c2 where c2: "wr c a (\<lambda>e. e\<lparr>ce_next := ci_lru_head c\<rparr>) = Some c2"
    and m2: "lk c2 = (lk c)(a \<mapsto> (None, ci_lru_head c))" "same_rest c c2"
      "ci_lru_head c2 = ci_lru_head c" "ci_lru_tail c2 = ci_lru_tail c"
    using wr_next [OF a(1)] by blast
  show ?thesis
  proof (cases ps)
    case Nil
    with c2 m2 hd tl show ?thesis
      by (auto simp: lru_ok_def intro: same_rest_trans)
  next
    case (Cons h ps')
    with ds have h: "lk c h = Some (None, first ps' None)" by simp
    with Cons a(2) m2(1) have "lk c2 h = Some (None, first ps' None)" by auto
    then obtain c3 where c3: "wr c2 h (\<lambda>e. e\<lparr>ce_prev := Some a\<rparr>) = Some c3"
      and m3: "lk c3 = (lk c2)(h \<mapsto> (Some a, first ps' None))" "same_rest c2 c3"
        "ci_lru_head c3 = ci_lru_head c2" "ci_lru_tail c3 = ci_lru_tail c2"
      using wr_prev by blast
    let ?c' = "c3\<lparr>ci_lru_head := Some a\<rparr>"
    have lk': "lk ?c' = lk c3" "same_rest c3 ?c'" by simp_all
    have "dseg (lk c3) None (a # ps) None"
      using ds di a(2) Cons by (auto simp: m2 m3 hd)
    with lk' m2 m3 tl di a(2) Cons have "lru_ok ?c' (a # ps)"
      by (auto simp: lru_ok_def lastp_def)
    moreover have "same_rest c ?c'" using m2(2) m3(2) lk'(2) by (meson same_rest_trans)
    ultimately show ?thesis using c2 c3 m2 m3 hd tl Cons by (auto simp: lastp_def Let_def)
  qed
qed

lemma lru_move_to_head_ok:
  assumes ok: "lru_ok c (xs @ a # ys)"
  shows "\<exists>c'. lru_move_to_head c a = Some c' \<and> lru_ok c' (a # xs @ ys) \<and> same_rest c c'"
proof (cases xs)
  case Nil
  with ok have "ci_lru_head c = Some a" by (simp add: lru_ok_def)
  with ok Nil show ?thesis by (simp add: lru_move_to_head_def)
next
  case (Cons x xs')
  then have "ci_lru_head c \<noteq> Some a" using lru_okD(2,9) [OF ok] by auto
  moreover from lru_remove_ok [OF ok] obtain c1 where c1: "lru_remove c a = Some c1"
    "lru_ok c1 (xs @ ys)" "lk c1 a = Some (None, None)" "same_rest c c1" by blast
  moreover have "a \<notin> set (xs @ ys)" using lru_okD(2,3) [OF ok] by simp
  with lru_push_ok [OF c1(2,3)] obtain c' where "lru_ok c' (a # xs @ ys)" "same_rest c1 c'"
    "do { c2 \<leftarrow> wr c1 a (\<lambda>e. e\<lparr>ce_next := ci_lru_head c1\<rparr>);
               c3 \<leftarrow> (case ci_lru_head c2 of
                       None \<Rightarrow> Some c2
                     | Some h \<Rightarrow> wr c2 h (\<lambda>e. e\<lparr>ce_prev := Some a\<rparr>));
               let c4 = c3\<lparr>ci_lru_head := Some a\<rparr>;
               Some (if ci_lru_tail c4 = None then c4\<lparr>ci_lru_tail := Some a\<rparr> else c4) } = Some c'"
    by auto
  ultimately show ?thesis using same_rest_trans by (fastforce simp: lru_move_to_head_def)
qed

lemma lru_move_to_head_new:
  assumes ok: "lru_ok c ps" and a: "lk c a = Some (None, None)" "a \<notin> set ps"
  shows "\<exists>c'. lru_move_to_head c a = Some c' \<and> lru_ok c' (a # ps) \<and> same_rest c c'"
proof -
  have "ci_lru_head c \<noteq> Some a"
    using lru_head_in [OF ok] a(2) by blast
  moreover from lru_remove_detached [OF ok a] obtain c1 where c1: "lru_remove c a = Some c1"
    "lru_ok c1 ps" "lk c1 a = Some (None, None)" "same_rest c c1" by blast
  moreover from lru_push_ok [OF c1(2,3) a(2)] obtain c' where "lru_ok c' (a # ps)" "same_rest c1 c'"
    "do { c2 \<leftarrow> wr c1 a (\<lambda>e. e\<lparr>ce_next := ci_lru_head c1\<rparr>);
               c3 \<leftarrow> (case ci_lru_head c2 of
                       None \<Rightarrow> Some c2
                     | Some h \<Rightarrow> wr c2 h (\<lambda>e. e\<lparr>ce_prev := Some a\<rparr>));
               let c4 = c3\<lparr>ci_lru_head := Some a\<rparr>;
               Some (if ci_lru_tail c4 = None then c4\<lparr>ci_lru_tail := Some a\<rparr> else c4) } = Some c'"
    by auto
  ultimately show ?thesis using same_rest_trans by (fastforce simp: lru_move_to_head_def)
qed


subsection \<open>Hash chains\<close>

definition key_at :: "('k, 'v) cache_impl \<Rightarrow> addr \<Rightarrow> 'k" where
  "key_at c a = ce_key (the (ci_heap c a))"

lemma key_at_dt: "dt c a = Some (k, v, t) \<Longrightarrow> key_at c a = k"
  by (auto simp: dt_def key_at_def)

lemma hnD: "hn c a = Some n \<Longrightarrow> \<exists>e. ci_heap c a = Some e \<and> ce_hnext e = n"
  by (auto simp: hn_def)

lemma bucket_find_from_ok:
  assumes "hchain (hn c) p as"
  shows "bucket_find_from c p key =
         Some (find (\<lambda>a. cc_compare_func (ci_manager c) (key_at c a) key = 0) as)"
  using assms
proof (induction as arbitrary: p)
  case Nil
  then show ?case by (simp add: bucket_find_from.simps)
next
  case (Cons a as)
  then obtain e where "ci_heap c a = Some e" "p = Some a" "hchain (hn c) (ce_hnext e) as"
    by (auto dest!: hnD)
  with Cons.IH [of "ce_hnext e"] show ?case
    by (simp add: bucket_find_from.simps [of c "Some a"] key_at_def)
qed

text \<open>What unlinking must leave alone; \<open>us\<close> are the entries in front of the unlinked one.\<close>

definition unlinked :: "('k, 'v) cache_impl \<Rightarrow> ('k, 'v) cache_impl \<Rightarrow> hlink \<Rightarrow> addr list \<Rightarrow> bool" where
  "unlinked c c' l us \<longleftrightarrow> lk c' = lk c \<and> dt c' = dt c \<and>
     ci_lru_head c' = ci_lru_head c \<and> ci_lru_tail c' = ci_lru_tail c \<and>
     ci_capacity c' = ci_capacity c \<and> ci_size c' = ci_size c \<and> ci_ttl_sec c' = ci_ttl_sec c \<and>
     ci_hits c' = ci_hits c \<and> ci_misses c' = ci_misses c \<and> ci_evictions c' = ci_evictions c \<and>
     ci_manager c' = ci_manager c \<and> length (ci_buckets c') = length (ci_buckets c) \<and>
     (\<forall>b. b \<notin> set us \<and> LNext b \<noteq> l \<longrightarrow> hn c' b = hn c b) \<and>
     (\<forall>i. LBucket i \<noteq> l \<longrightarrow> ci_buckets c' ! i = ci_buckets c ! i)"

lemma wr_link_ok:
  assumes "rd_link c l = Some p"
  shows "\<exists>c'. wr_link c l v = Some c' \<and> rd_link c' l = Some v \<and> unlinked c c' l [] \<and> dom (ci_heap c') = dom (ci_heap c)"
proof (cases l)
  case (LBucket i)
  with assms show ?thesis by (auto simp: unlinked_def nth_upd split: if_splits)
next
  case (LNext b)
  with assms obtain e where "ci_heap c b = Some e" by auto
  with LNext show ?thesis
    by (auto simp: wr_def unlinked_def lk_def dt_def hn_def fun_eq_iff split: if_splits)
qed

lemma rd_link_hn: "hn c a = Some n \<Longrightarrow> rd_link c (LNext a) = Some n"
  by (simp add: hn_def)

lemma rd_link_unlinked:
  assumes "unlinked c c' (LNext a) us" "l \<noteq> LNext a" "\<forall>b \<in> set us. l \<noteq> LNext b"
  shows "rd_link c' l = rd_link c l"
  using assms by (cases l) (auto simp: unlinked_def hn_def)

lemma bucket_unlink_from_ok:
  assumes "rd_link c l = Some p" "hchain (hn c) p (us @ entry # vs)" "distinct (us @ entry # vs)"
    and "\<forall>b \<in> set (us @ entry # vs). l \<noteq> LNext b"
  shows "\<exists>c' p'. bucket_unlink_from c l entry = Some c' \<and> unlinked c c' l us \<and>
           rd_link c' l = Some p' \<and> hchain (hn c') p' (us @ vs)"
  using assms
proof (induction us arbitrary: l p)
  case Nil
  then obtain e where e: "ci_heap c entry = Some e" "p = Some entry" and ch: "hchain (hn c) (ce_hnext e) vs"
    by (auto dest!: hnD)
  from wr_link_ok [OF Nil.prems(1), of "ce_hnext e"] obtain c' where
    c': "wr_link c l (ce_hnext e) = Some c'" "rd_link c' l = Some (ce_hnext e)" "unlinked c c' l []"
    by blast
  have "hn c' a = hn c a" if "a \<in> set vs" for a
    using that Nil.prems(4) c'(3) by (auto simp: unlinked_def)
  then have "hchain (hn c') (ce_hnext e) vs" using ch hchain_cong [of vs "hn c'" "hn c"] by simp
  with c' Nil.prems(1) e show ?case by (auto simp: bucket_unlink_from.simps)
next
  case (Cons u us)
  then obtain n where u: "p = Some u" "hn c u = Some n" and ch: "hchain (hn c) n (us @ entry # vs)"
    by auto
  have "\<forall>b \<in> set (us @ entry # vs). LNext u \<noteq> LNext b" using Cons.prems(3) by auto
  from Cons.IH [OF rd_link_hn [OF u(2)] ch _ this] Cons.prems(3) obtain c' p' where
    c': "bucket_unlink_from c (LNext u) entry = Some c'" "unlinked c c' (LNext u) us"
      "rd_link c' (LNext u) = Some p'" "hchain (hn c') p' (us @ vs)" by auto
  have l: "rd_link c' l = Some (Some u)"
    using rd_link_unlinked [OF c'(2), of l] Cons.prems(1,4) u(1) by auto
  have "hn c' u = Some p'" using c'(3) by (simp add: hn_def)
  with c'(4) have chain: "hchain (hn c') (Some u) ((u # us) @ vs)" by auto
  have "unlinked c c' l (u # us)" using c'(2) by (auto simp: unlinked_def)
  moreover have "u \<noteq> entry" using Cons.prems(3) by auto
  ultimately show ?case using c'(1) l chain Cons.prems(1) u(1)
    by (auto simp: bucket_unlink_from.simps [of c l])
qed

subsection \<open>The representation relation\<close>

text \<open>
  \<open>ps\<close> lists the entries from most to least recently used, \<open>bs i\<close> the chain of bucket \<open>i\<close>.
  Both containers hold exactly the allocated entries.
\<close>

definition cache_rel :: "('k, 'v) cache_impl \<Rightarrow> addr list \<Rightarrow> (nat \<Rightarrow> addr list) \<Rightarrow> bool" where
  "cache_rel c ps bs \<longleftrightarrow>
     lru_ok c ps \<and> length (ci_buckets c) = HASH_SIZE \<and>
     (\<forall>i < HASH_SIZE. hchain (hn c) (ci_buckets c ! i) (bs i) \<and> distinct (bs i) \<and>
        set (bs i) = {a \<in> set ps. cc_hash_func (ci_manager c) (key_at c a) = i}) \<and>
     set ps = dom (ci_heap c) \<and> inj_on (key_at c) (set ps) \<and> ci_size c = length ps"

definition cache_items :: "('k, 'v) cache_impl \<Rightarrow> addr list \<Rightarrow> ('k \<times> 'v \<times> int) list" where
  "cache_items c ps = map (\<lambda>a. the (dt c a)) ps"

lemma dt_cong_key_at: "dt c' a = dt c a \<Longrightarrow> a \<in> dom (ci_heap c) \<Longrightarrow> key_at c' a = key_at c a"
  by (auto simp: dt_def key_at_def)

lemma dom_dt: "dom (dt c) = dom (ci_heap c)"
  by (auto simp: dt_def)

lemma dom_lk: "dom (lk c) = dom (ci_heap c)"
  by (auto simp: lk_def)

lemma cache_rel_same_rest:
  assumes "cache_rel c ps bs" "same_rest c c'" "lru_ok c' ps'" "set ps' = set ps" "length ps' = length ps"
  shows "cache_rel c' ps' bs"
proof -
  have d: "dt c' = dt c" "hn c' = hn c" and m: "ci_manager c' = ci_manager c" "ci_buckets c' = ci_buckets c"
    "ci_size c' = ci_size c" using assms(2) by (auto simp: same_rest_def)
  have dom: "dom (ci_heap c') = dom (ci_heap c)" using d(1) by (metis dom_dt)
  have k: "key_at c' a = key_at c a" if "a \<in> set ps" for a
    using that assms(1) d(1) by (auto simp: cache_rel_def intro!: dt_cong_key_at)
  then have "inj_on (key_at c') (set ps) = inj_on (key_at c) (set ps)" by (rule inj_on_cong)
  moreover have "{a \<in> set ps. cc_hash_func (ci_manager c) (key_at c' a) = i} =
        {a \<in> set ps. cc_hash_func (ci_manager c) (key_at c a) = i}" for i
    using k by auto
  ultimately show ?thesis using assms(1)
    unfolding cache_rel_def d m dom assms(4,5) using assms(3) by auto
qed


subsection \<open>Callbacks\<close>

text \<open>
  What the cache relies on its caller-supplied callbacks for: hashes stay below the number of
  buckets, comparison decides equality, and a copy that succeeds is equal to the original.
\<close>

locale cache_callbacks =
  fixes mgr :: "('k, 'v) cache_config"
  assumes hash_bound: "cc_hash_func mgr k < HASH_SIZE"
    and compare_eq: "cc_compare_func mgr a b = 0 \<longleftrightarrow> a = b"
    and key_copy: "cc_key_copy_func mgr ck k = Some k' \<Longrightarrow> k' = k"
    and value_copy: "cc_value_copy_func mgr cv v = Some v' \<Longrightarrow> v' = v"
begin

lemma bucket_find_ok:
  assumes rel: "cache_rel c ps bs" and m: "ci_manager c = mgr"
  shows "\<exists>r. bucket_find c (cc_hash_func mgr key) key = Some r \<and>
           (case r of None \<Rightarrow> key \<notin> key_at c ` set ps
            | Some a \<Rightarrow> a \<in> set ps \<and> key_at c a = key)"
proof -
  let ?i = "cc_hash_func mgr key"
  have i: "?i < HASH_SIZE" by (rule hash_bound)
  with rel m have len: "?i < length (ci_buckets c)"
    and ch: "hchain (hn c) (ci_buckets c ! ?i) (bs ?i)"
    and set: "set (bs ?i) = {a \<in> set ps. cc_hash_func mgr (key_at c a) = ?i}"
    by (auto simp: cache_rel_def)
  let ?r = "find (\<lambda>a. cc_compare_func (ci_manager c) (key_at c a) key = 0) (bs ?i)"
  have "bucket_find c ?i key = Some ?r"
    using len bucket_find_from_ok [OF ch] by (simp add: bucket_find_def)
  moreover have "case ?r of None \<Rightarrow> key \<notin> key_at c ` set ps | Some a \<Rightarrow> a \<in> set ps \<and> key_at c a = key"
  proof (cases ?r)
    case None
    then have "\<forall>a \<in> set (bs ?i). key_at c a \<noteq> key" by (simp add: find_None_iff m compare_eq)
    with None set show ?thesis by auto
  next
    case (Some a)
    then have "a \<in> set (bs ?i)" "key_at c a = key"
      by (auto simp: find_Some_iff m compare_eq)
    with Some set show ?thesis by auto
  qed
  ultimately show ?thesis by blast
qed

end

definition same_settings :: "('k, 'v) cache_impl \<Rightarrow> ('k, 'v) cache_impl \<Rightarrow> bool" where
  "same_settings c c' \<longleftrightarrow> ci_capacity c' = ci_capacity c \<and> ci_ttl_sec c' = ci_ttl_sec c \<and>
     ci_hits c' = ci_hits c \<and> ci_misses c' = ci_misses c \<and> ci_evictions c' = ci_evictions c \<and>
     ci_manager c' = ci_manager c"

lemma cache_entry_free_ok:
  assumes "a \<in> dom (ci_heap c)"
  shows "\<exists>c'. cache_entry_free c a = Some c' \<and> lk c' = (lk c)(a := None) \<and> hn c' = (hn c)(a := None) \<and>
     dt c' = (dt c)(a := None) \<and> ci_heap c' = (ci_heap c)(a := None) \<and> ci_buckets c' = ci_buckets c \<and>
     ci_lru_head c' = ci_lru_head c \<and> ci_lru_tail c' = ci_lru_tail c \<and> ci_size c' = ci_size c \<and>
     same_settings c c'"
  using assms
  by (auto simp: cache_entry_free_def lk_def hn_def dt_def fun_eq_iff same_settings_def)

lemma cache_rel_bucket:
  assumes "cache_rel c ps bs" "i < HASH_SIZE"
  shows "hchain (hn c) (ci_buckets c ! i) (bs i)" "distinct (bs i)"
    "set (bs i) = {a \<in> set ps. cc_hash_func (ci_manager c) (key_at c a) = i}"
  using assms unfolding cache_rel_def by blast+

lemma cache_relD:
  assumes "cache_rel c ps bs"
  shows "lru_ok c ps" "length (ci_buckets c) = HASH_SIZE" "set ps = dom (ci_heap c)"
    "inj_on (key_at c) (set ps)" "ci_size c = length ps" "distinct ps"
  using assms unfolding cache_rel_def lru_ok_def by blast+

lemma entry_reap_ok:
  assumes rel: "cache_rel c (xs @ a # ys) bs"
    and i: "cc_hash_func (ci_manager c) (key_at c a) = i" "i < HASH_SIZE"
  shows "\<exists>c'. entry_reap c i a = Some c' \<and> cache_rel c' (xs @ ys) (bs(i := remove1 a (bs i))) \<and>
     (\<forall>b. b \<noteq> a \<longrightarrow> dt c' b = dt c b) \<and> same_settings c c'"
proof -
  note R = cache_relD [OF rel] and B = cache_rel_bucket [OF rel]
  have "a \<in> set (bs i)" using B(3) [OF i(2)] i(1) by simp
  then obtain us vs where uv: "bs i = us @ a # vs" by (meson split_list)
  have d: "distinct (us @ a # vs)" using B(2) [OF i(2)] uv by simp
  have l: "rd_link c (LBucket i) = Some (ci_buckets c ! i)" using R(2) i(2) by simp
  from bucket_unlink_from_ok [OF l, of us a vs] B(1) [OF i(2)] uv d obtain c1 p1 where
    c1: "bucket_unlink c i a = Some c1" and u1: "unlinked c c1 (LBucket i) us"
    and l1: "rd_link c1 (LBucket i) = Some p1" and h1: "hchain (hn c1) p1 (us @ vs)"
    by (auto simp: bucket_unlink_def)
  have "lru_ok c1 (xs @ a # ys)" using R(1) u1 by (simp add: lru_ok_def unlinked_def)
  from lru_remove_ok [OF this] obtain c2 where c2: "lru_remove c1 a = Some c2" "lru_ok c2 (xs @ ys)"
    "lk c2 a = Some (None, None)" "same_rest c1 c2" by blast
  have "a \<in> dom (ci_heap c2)" using c2(3) by (metis domI dom_lk)
  from cache_entry_free_ok [OF this] obtain c3 where c3: "cache_entry_free c2 a = Some c3"
    "lk c3 = (lk c2)(a := None)" "hn c3 = (hn c2)(a := None)" "dt c3 = (dt c2)(a := None)"
    "ci_heap c3 = (ci_heap c2)(a := None)"
    "ci_buckets c3 = ci_buckets c2" "ci_lru_head c3 = ci_lru_head c2" "ci_lru_tail c3 = ci_lru_tail c2"
    "ci_size c3 = ci_size c2" "same_settings c2 c3" by blast
  let ?c = "c3\<lparr>ci_size := ci_size c3 - 1\<rparr>" and ?ps = "xs @ ys" and ?bs = "bs(i := remove1 a (bs i))"
  have reap: "entry_reap c i a = Some ?c" using c1 c2 c3 by (simp add: entry_reap_def)
  have a: "a \<notin> set ?ps" "distinct ?ps" using R(6) by auto
  have settings: "same_settings c ?c" using u1 c2(4) c3(10)
    by (simp add: same_settings_def unlinked_def same_rest_def)
  have dt: "dt c3 = (dt c)(a := None)" using u1 c2(4) c3(4) by (simp add: unlinked_def same_rest_def)
  have hn: "hn c3 = (hn c1)(a := None)" using c2(4) c3(3) by (simp add: same_rest_def)
  have bk: "ci_buckets ?c = ci_buckets c1" using c2(4) c3(6) by (simp add: same_rest_def)
  have mgr: "ci_manager ?c = ci_manager c" using settings by (simp add: same_settings_def)
  have "dom (dt ?c) = dom (dt c) - {a}" using dt by simp
  then have dom: "set ?ps = dom (ci_heap ?c)" using R(3) a by (auto simp: dom_dt)
  have key: "key_at ?c b = key_at c b" if "b \<in> set ?ps" for b
  proof (rule dt_cong_key_at)
    show "dt ?c b = dt c b" using that a(1) by (auto simp: dt)
    show "b \<in> dom (ci_heap c)" using that R(3) by auto
  qed
  have "lru_ok ?c ?ps" using c2(2) c3(2,7,8) a by (auto simp: lru_ok_def)
  moreover have "length (ci_buckets ?c) = HASH_SIZE" using R(2) u1 bk by (simp add: unlinked_def)
  moreover have "hchain (hn ?c) (ci_buckets ?c ! j) (?bs j) \<and> distinct (?bs j) \<and>
      set (?bs j) = {b \<in> set ?ps. cc_hash_func (ci_manager ?c) (key_at ?c b) = j}" if j: "j < HASH_SIZE" for j
  proof (cases "j = i")
    case True
    have rm: "remove1 a (bs i) = us @ vs" using uv d by (simp add: remove1_append)
    have "hchain (hn ?c) p1 (us @ vs)"
      using h1 d by (subst hchain_cong [where m = "hn c1"]) (auto simp: hn)
    moreover have "ci_buckets ?c ! i = p1" using l1 bk by (auto split: if_splits)
    moreover have "set (us @ vs) = set (bs i) - {a}" using uv d by auto
    moreover have "\<dots> = {b \<in> set ?ps. cc_hash_func (ci_manager ?c) (key_at ?c b) = i}"
      using B(3) [OF i(2)] a key mgr by auto
    ultimately show ?thesis using True rm d by auto
  next
    case False
    have nin: "b \<notin> set us \<and> b \<noteq> a" if "b \<in> set (bs j)" for b
      using that B(3) [OF j] B(3) [OF i(2)] uv False i(1) by auto
    have "hchain (hn ?c) (ci_buckets c ! j) (bs j)"
      using B(1) [OF j] nin u1 by (subst hchain_cong [where m = "hn c"]) (auto simp: hn unlinked_def)
    moreover have "ci_buckets ?c ! j = ci_buckets c ! j" using u1 bk False by (simp add: unlinked_def)
    moreover have "set (bs j) = {b \<in> set ?ps. cc_hash_func (ci_manager ?c) (key_at ?c b) = j}"
      using B(3) [OF j] nin key mgr by auto
    ultimately show ?thesis using False B(2) [OF j] by simp
  qed
  moreover have "inj_on (key_at ?c) (set ?ps)"
    using R(4) key by (subst inj_on_cong [OF key]) (auto intro: inj_on_subset)
  moreover have "ci_size ?c = length ?ps" using R(5) u1 c2(4) c3(9) by (simp add: unlinked_def same_rest_def)
  ultimately have "cache_rel ?c ?ps ?bs" using dom unfolding cache_rel_def by blast
  with reap dt settings show ?thesis by auto
qed

end
