(* ===== verification/Cache_Lru.thy ===== *)
theory Cache_Lru
  imports Cache_Common
begin

text \<open>
  The cache of \<open>utils/cache/cache_common.c\<close> as a bounded recency list: every operation of
  \<open>Cache_Common\<close> refines an operation on the list of bindings from most to least recently used.
\<close>

subsection \<open>The abstract recency list\<close>

text \<open>Bindings from most to least recently used: key, value, time of storing.\<close>

type_synonym ('k, 'v) recency = "('k \<times> 'v \<times> int) list"

definition lru_drop :: "'k \<Rightarrow> ('k, 'v) recency \<Rightarrow> ('k, 'v) recency" where
  "lru_drop k xs = filter (\<lambda>x. fst x \<noteq> k) xs"

definition lru_get_spec :: "int \<Rightarrow> int \<Rightarrow> 'k \<Rightarrow> ('k, 'v) recency \<Rightarrow> 'v option \<times> ('k, 'v) recency" where
  "lru_get_spec ttl now k xs =
     (case find (\<lambda>x. fst x = k) xs of
        None \<Rightarrow> (None, xs)
      | Some x \<Rightarrow>
          if ttl > 0 \<and> now - snd (snd x) > ttl then (None, lru_drop k xs)
          else (Some (fst (snd x)), x # lru_drop k xs))"

text \<open>Storing \<open>None\<close> deletes the binding, as does a store whose allocation fails.\<close>

definition lru_put_spec :: "nat \<Rightarrow> int \<Rightarrow> 'k \<Rightarrow> 'v option \<Rightarrow> ('k, 'v) recency \<Rightarrow> ('k, 'v) recency" where
  "lru_put_spec cap now k val xs =
     (if cap = 0 then xs
      else take cap (case val of None \<Rightarrow> lru_drop k xs | Some v \<Rightarrow> (k, v, now) # lru_drop k xs))"

definition cache_inv :: "('k, 'v) cache_impl \<Rightarrow> ('k, 'v) recency \<Rightarrow> bool" where
  "cache_inv c xs \<longleftrightarrow> (\<exists>ps bs. cache_rel c ps bs \<and> xs = cache_items c ps)"

lemma key_at_upd [simp]:
  "key_at (c\<lparr>ci_hits := h\<rparr>) = key_at c" "key_at (c\<lparr>ci_misses := m\<rparr>) = key_at c"
  "key_at (c\<lparr>ci_evictions := e\<rparr>) = key_at c" "key_at (c\<lparr>ci_capacity := n\<rparr>) = key_at c"
  "key_at (c\<lparr>ci_ttl_sec := t\<rparr>) = key_at c" "key_at (c\<lparr>ci_size := s\<rparr>) = key_at c"
  by (simp_all add: key_at_def fun_eq_iff)

lemma cache_rel_upd [simp]:
  "cache_rel (c\<lparr>ci_hits := h\<rparr>) = cache_rel c" "cache_rel (c\<lparr>ci_misses := m\<rparr>) = cache_rel c"
  "cache_rel (c\<lparr>ci_evictions := e\<rparr>) = cache_rel c" "cache_rel (c\<lparr>ci_capacity := n\<rparr>) = cache_rel c"
  "cache_rel (c\<lparr>ci_ttl_sec := t\<rparr>) = cache_rel c"
  by (simp_all add: cache_rel_def lru_ok_def fun_eq_iff)

lemma cache_items_upd [simp]:
  "cache_items (c\<lparr>ci_hits := h\<rparr>) = cache_items c" "cache_items (c\<lparr>ci_misses := m\<rparr>) = cache_items c"
  "cache_items (c\<lparr>ci_evictions := e\<rparr>) = cache_items c" "cache_items (c\<lparr>ci_capacity := n\<rparr>) = cache_items c"
  "cache_items (c\<lparr>ci_ttl_sec := t\<rparr>) = cache_items c" "cache_items (c\<lparr>ci_size := s\<rparr>) = cache_items c"
  by (simp_all add: cache_items_def fun_eq_iff)

lemma cache_items_cong: "(\<And>a. a \<in> set ps \<Longrightarrow> dt c' a = dt c a) \<Longrightarrow> cache_items c' ps = cache_items c ps"
  by (simp add: cache_items_def)

lemma fst_dt: "a \<in> dom (ci_heap c) \<Longrightarrow> fst (the (dt c a)) = key_at c a"
  by (auto simp: dt_def key_at_def)

lemma cache_items_absent:
  assumes "cache_rel c ps bs" "k \<notin> key_at c ` set ps"
  shows "find (\<lambda>x. fst x = k) (cache_items c ps) = None" "lru_drop k (cache_items c ps) = cache_items c ps"
proof -
  have "\<forall>a \<in> set ps. fst (the (dt c a)) \<noteq> k"
    using assms cache_relD(3) [OF assms(1)] fst_dt by fastforce
  then show "find (\<lambda>x. fst x = k) (cache_items c ps) = None" "lru_drop k (cache_items c ps) = cache_items c ps"
    by (auto simp: cache_items_def lru_drop_def find_None_iff)
qed

lemma cache_items_present:
  assumes rel: "cache_rel c (xs @ a # ys) bs" and k: "key_at c a = k"
  shows "find (\<lambda>x. fst x = k) (cache_items c (xs @ a # ys)) = dt c a" (is ?find)
    and "lru_drop k (cache_items c (xs @ a # ys)) = cache_items c (xs @ ys)" (is ?drop)
proof -
  note R = cache_relD [OF rel]
  have keys: "fst (the (dt c b)) = key_at c b" if "b \<in> set (xs @ a # ys)" for b
    using that R(3) fst_dt by fast
  have ne: "key_at c b \<noteq> k" if "b \<in> set xs \<union> set ys" for b
  proof -
    have "b \<noteq> a" "b \<in> set (xs @ a # ys)" "a \<in> set (xs @ a # ys)" using that R(6) by auto
    with R(4) k show ?thesis by (metis inj_onD)
  qed
  have "find (\<lambda>x. fst x = k) (map (\<lambda>a. the (dt c a)) xs) = None"
    "filter (\<lambda>x. fst x \<noteq> k) (map (\<lambda>a. the (dt c a)) xs) = map (\<lambda>a. the (dt c a)) xs"
    "filter (\<lambda>x. fst x \<noteq> k) (map (\<lambda>a. the (dt c a)) ys) = map (\<lambda>a. the (dt c a)) ys"
    using keys ne by (auto simp: find_None_iff filter_id_conv)
  moreover have "fst (the (dt c a)) = k" using keys [of a] k by simp
  moreover have "a \<in> dom (dt c)" using R(3) by (auto simp: dom_dt)
  then have "dt c a = Some (the (dt c a))" by auto
  moreover have "find P (zs @ z # zs') = Some z" if "find P zs = None" "P z" for P and z :: "'a \<times> 'b \<times> int" and zs zs'
    using that by (induction zs) (auto split: if_splits)
  ultimately show ?find ?drop by (auto simp: cache_items_def lru_drop_def)
qed

lemma inj_on_items_drop:
  assumes "cache_rel c (xs @ a # ys) bs" "cache_rel c' (xs @ ys) bs'" "\<forall>b. b \<noteq> a \<longrightarrow> dt c' b = dt c b"
  shows "cache_items c' (xs @ ys) = cache_items c (xs @ ys)"
proof (rule cache_items_cong)
  fix b assume "b \<in> set (xs @ ys)"
  with cache_relD(6) [OF assms(1)] have "b \<noteq> a" by auto
  with assms(3) show "dt c' b = dt c b" by simp
qed

context cache_callbacks
begin

lemma reap_refines:
  assumes rel: "cache_rel c ps bs" and m: "ci_manager c = mgr" and a: "a \<in> set ps"
  shows "\<exists>c'. entry_reap c (cc_hash_func mgr (key_at c a)) a = Some c' \<and>
           (\<exists>ps' bs'. cache_rel c' ps' bs' \<and> set ps' = set ps - {a} \<and>
              cache_items c' ps' = lru_drop (key_at c a) (cache_items c ps) \<and>
              key_at c a \<notin> key_at c' ` set ps') \<and> same_settings c c'"
proof -
  from a obtain xs ys where ps: "ps = xs @ a # ys" by (meson split_list)
  with rel have rel': "cache_rel c (xs @ a # ys) bs" by simp
  note R = cache_relD [OF rel']
  from entry_reap_ok [OF rel', of "cc_hash_func mgr (key_at c a)"] hash_bound m obtain c' bs' where
    c': "entry_reap c (cc_hash_func mgr (key_at c a)) a = Some c'" "cache_rel c' (xs @ ys) bs'"
      "\<forall>b. b \<noteq> a \<longrightarrow> dt c' b = dt c b" "same_settings c c'" by auto
  have "key_at c' b = key_at c b" if "b \<in> set (xs @ ys)" for b
    using that c'(3) R(3,6) by (intro dt_cong_key_at) auto
  then have "key_at c a \<notin> key_at c' ` set (xs @ ys)"
    using R(4,6) by (auto simp: inj_on_def)
  moreover have "set (xs @ ys) = set ps - {a}" using R(6) ps by auto
  ultimately show ?thesis
    using c' cache_items_present(2) [OF rel' refl] inj_on_items_drop [OF rel' c'(2,3)] ps by auto
qed

lemma evict_loop_ok:
  assumes "cache_rel c ps bs" "ci_manager c = mgr"
  shows "\<exists>c' bs'. evict_loop c = Some c' \<and> cache_rel c' (take (ci_capacity c) ps) bs' \<and>
     cache_items c' (take (ci_capacity c) ps) = take (ci_capacity c) (cache_items c ps) \<and>
     ci_manager c' = mgr \<and> ci_capacity c' = ci_capacity c \<and> ci_ttl_sec c' = ci_ttl_sec c \<and>
     ci_hits c' = ci_hits c \<and> ci_misses c' = ci_misses c \<and>
     ci_evictions c' = ci_evictions c + of_nat (length ps - ci_capacity c)"
  using assms
proof (induction "length ps - ci_capacity c" arbitrary: c ps bs)
  case 0
  then show ?case
    using cache_relD(5) [OF 0(2)] by (subst evict_loop.simps) (auto simp: cache_items_def)
next
  case (Suc n)
  note R = cache_relD [OF Suc.prems(1)]
  from Suc.hyps(2) have "ps \<noteq> []" by auto
  then obtain xs a where ps: "ps = xs @ [a]" by (cases ps rule: rev_cases) auto
  then have rel': "cache_rel c (xs @ a # []) bs" using Suc.prems(1) by simp
  have tail: "ci_lru_tail c = Some a" using R(1) ps by (simp add: lru_ok_def)
  obtain e where e: "ci_heap c a = Some e" using R(3) ps by auto
  then have ka: "ce_key e = key_at c a" by (simp add: key_at_def)
  from entry_reap_ok [OF rel', of "cc_hash_func mgr (key_at c a)"] hash_bound Suc.prems(2) obtain c1 bs1 where
    c1: "entry_reap c (cc_hash_func mgr (key_at c a)) a = Some c1" "cache_rel c1 xs bs1"
      "\<forall>b. b \<noteq> a \<longrightarrow> dt c1 b = dt c b" "same_settings c c1" by auto
  let ?c = "c1\<lparr>ci_evictions := ci_evictions c1 + 1\<rparr>"
  have ev: "evict_lru c = Some ?c"
    using tail e c1(1) ka Suc.prems(2) by (simp add: evict_lru_def rd_def)
  have rel2: "cache_rel ?c xs bs1" using c1(2) by simp
  have cap: "ci_capacity ?c = ci_capacity c" "ci_manager ?c = mgr"
    using c1(4) Suc.prems(2) by (auto simp: same_settings_def)
  have "n = length xs - ci_capacity ?c" using Suc.hyps(2) ps cap by simp
  from Suc.hyps(1) [OF this rel2 cap(2)] obtain c' bs' where
    c': "evict_loop ?c = Some c'" "cache_rel c' (take (ci_capacity c) xs) bs'"
      "cache_items c' (take (ci_capacity c) xs) = take (ci_capacity c) (cache_items ?c xs)"
      "ci_manager c' = mgr" "ci_capacity c' = ci_capacity c" "ci_ttl_sec c' = ci_ttl_sec c1"
      "ci_hits c' = ci_hits c1" "ci_misses c' = ci_misses c1"
      "ci_evictions c' = ci_evictions c1 + 1 + of_nat (length xs - ci_capacity c)"
    using cap by auto
  have "cache_items ?c xs = cache_items c1 xs" by (simp add: cache_items_def)
  also have "\<dots> = cache_items c xs"
    using inj_on_items_drop [OF rel', of c1 bs1] c1(2,3) by simp
  finally have it: "cache_items ?c xs = cache_items c xs" .
  have le: "ci_capacity c \<le> length xs" using Suc.hyps(2) ps by simp
  then have tk: "take (ci_capacity c) ps = take (ci_capacity c) xs"
    "take (ci_capacity c) (cache_items c ps) = take (ci_capacity c) (cache_items c xs)"
    using ps by (auto simp: cache_items_def)
  have "ci_size c > ci_capacity c" using R(5) Suc.hyps(2) by simp
  then have "evict_loop c = Some c'" using ev c'(1) by (subst evict_loop.simps) simp
  moreover have "ci_evictions c' = ci_evictions c + of_nat (length ps - ci_capacity c)"
    using c'(9) c1(4) ps le by (simp add: same_settings_def Suc_diff_le)
  ultimately show ?case using c' it tk c1(4) by (auto simp: same_settings_def)
qed

lemma get_refines:
  fixes c now key
  assumes inv: "cache_inv c xs" and m: "ci_manager c = mgr"
  defines "r \<equiv> lru_get_spec (ci_ttl_sec c) now key xs"
  shows "\<exists>c'. cache_get_impl cv now c key =
           Some (if fst r = None then 0 else 1, Option.bind (fst r) (cc_value_copy_func mgr cv), c') \<and>
         cache_inv c' (snd r) \<and> ci_manager c' = mgr \<and> ci_capacity c' = ci_capacity c \<and>
         ci_ttl_sec c' = ci_ttl_sec c \<and> ci_evictions c' = ci_evictions c \<and>
         ci_hits c' = ci_hits c + (if fst r = None then 0 else 1) \<and>
         ci_misses c' = ci_misses c + (if fst r = None then 1 else 0)"
proof -
  from inv obtain ps bs where rel: "cache_rel c ps bs" and xs: "xs = cache_items c ps"
    by (auto simp: cache_inv_def)
  note R = cache_relD [OF rel]
  from bucket_find_ok [OF rel m, of key] obtain q where
    q: "bucket_find c (cc_hash_func mgr key) key = Some q"
    and qk: "case q of None \<Rightarrow> key \<notin> key_at c ` set ps | Some a \<Rightarrow> a \<in> set ps \<and> key_at c a = key" by blast
  show ?thesis
  proof (cases q)
    case None
    with qk cache_items_absent [OF rel, of key] have "r = (None, xs)"
      by (simp add: r_def lru_get_spec_def xs)
    then show ?thesis using q None m inv by (simp add: cache_get_impl_def cache_inv_def)
  next
    case (Some a)
    with qk have a: "a \<in> set ps" "key_at c a = key" by auto
    then obtain us vs where ps: "ps = us @ a # vs" by (meson split_list)
    from a R(3) obtain e where e: "ci_heap c a = Some e" by auto
    then have dta: "dt c a = Some (key, ce_value e, ce_timestamp e)" using a(2) by (auto simp: dt_def key_at_def)
    have rel': "cache_rel c (us @ a # vs) bs" using rel ps by simp
    have r: "r = (if ci_ttl_sec c > 0 \<and> now - ce_timestamp e > ci_ttl_sec c then (None, lru_drop key xs)
                  else (Some (ce_value e), (key, ce_value e, ce_timestamp e) # lru_drop key xs))"
      using cache_items_present(1) [OF rel' a(2)] dta by (simp add: r_def lru_get_spec_def xs ps)
    show ?thesis
    proof (cases "ci_ttl_sec c > 0 \<and> now - ce_timestamp e > ci_ttl_sec c")
      case True
      from reap_refines [OF rel m a(1)] a(2) obtain c1 ps' bs' where
        "entry_reap c (cc_hash_func mgr key) a = Some c1" "cache_rel c1 ps' bs'"
        "cache_items c1 ps' = lru_drop key xs" "same_settings c c1" by (auto simp: xs)
      with True r q Some e m show ?thesis
        by (auto simp: cache_get_impl_def rd_def cache_inv_def same_settings_def Let_def)
    next
      case False
      from lru_move_to_head_ok [of c us a vs] R(1) ps obtain c1 where
        c1: "lru_move_to_head c a = Some c1" "lru_ok c1 (a # us @ vs)" "same_rest c c1" by auto
      have rel1: "cache_rel c1 (a # us @ vs) bs"
        by (rule cache_rel_same_rest [OF rel c1(3,2)]) (auto simp: ps)
      have "cache_items c1 (a # us @ vs) = (key, ce_value e, ce_timestamp e) # lru_drop key xs"
        using c1(3) dta cache_items_present(2) [OF rel' a(2)]
        by (simp add: cache_items_def same_rest_def xs ps)
      with rel1 have "cache_inv c1 ((key, ce_value e, ce_timestamp e) # lru_drop key xs)"
        by (metis cache_inv_def)
      then have "cache_inv (c1\<lparr>ci_hits := ci_hits c1 + 1\<rparr>) ((key, ce_value e, ce_timestamp e) # lru_drop key xs)"
        by (simp add: cache_inv_def)
      with False r q Some e m c1(1,3) show ?thesis
        by (auto simp: cache_get_impl_def rd_def same_rest_def Let_def)
    qed
  qed
qed

end

text \<open>Hooking in an entry at an address the heap does not use yet, under a key not yet cached.\<close>

lemma cache_link_ok:
  assumes rel: "cache_rel c ps bs" and new: "a \<notin> dom (ci_heap c)"
    and e: "ce_prev e = None" "ce_next e = None" "ce_key e \<notin> key_at c ` set ps"
    and i: "cc_hash_func (ci_manager c) (ce_key e) = i" "i < HASH_SIZE"
  shows "\<exists>c'. cache_link c i a e = Some c' \<and> cache_rel c' (a # ps) (bs(i := a # bs i)) \<and>
     cache_items c' (a # ps) = (ce_key e, ce_value e, ce_timestamp e) # cache_items c ps \<and> same_settings c c'"
proof -
  note R = cache_relD [OF rel] and B = cache_rel_bucket [OF rel]
  define c2 where "c2 = c\<lparr>ci_heap := (ci_heap c)(a \<mapsto> e\<lparr>ce_hnext := ci_buckets c ! i\<rparr>),
                          ci_buckets := (ci_buckets c)[i := Some a]\<rparr>"
  have v: "lk c2 = (lk c)(a \<mapsto> (None, None))" "hn c2 = (hn c)(a \<mapsto> ci_buckets c ! i)"
    "dt c2 = (dt c)(a \<mapsto> (ce_key e, ce_value e, ce_timestamp e))"
    using e by (auto simp: c2_def lk_def hn_def dt_def fun_eq_iff)
  have a: "a \<notin> set ps" using new R(3) by simp
  have "lru_ok c2 ps" using R(1) a v by (simp add: lru_ok_def c2_def)
  from lru_move_to_head_new [OF this _ a] v obtain c3 where
    c3: "lru_move_to_head c2 a = Some c3" "lru_ok c3 (a # ps)" "same_rest c2 c3" by auto
  let ?c = "c3\<lparr>ci_size := ci_size c3 + 1\<rparr>" and ?bs = "bs(i := a # bs i)"
  have link: "cache_link c i a e = Some ?c" using R(2) i(2) c3(1) by (simp add: cache_link_def c2_def)
  have dt: "dt c3 = (dt c)(a \<mapsto> (ce_key e, ce_value e, ce_timestamp e))"
    and hn: "hn c3 = (hn c)(a \<mapsto> ci_buckets c ! i)"
    and bk: "ci_buckets c3 = (ci_buckets c)[i := Some a]"
    and mgr: "ci_manager c3 = ci_manager c" and sz: "ci_size c3 = ci_size c"
    using c3(3) v by (auto simp: same_rest_def c2_def)
  have "dom (dt c3) = insert a (dom (dt c))" using dt by simp
  then have dom: "dom (ci_heap c3) = insert a (set ps)" using R(3) by (simp add: dom_dt)
  have ka: "key_at c3 a = ce_key e" using dt by (simp add: key_at_dt)
  have key: "key_at c3 b = key_at c b" if "b \<in> set ps" for b
    using that a R(3) by (intro dt_cong_key_at) (auto simp: dt)
  have "lru_ok ?c (a # ps)" using c3(2) by (simp add: lru_ok_def)
  moreover have "hchain (hn ?c) (ci_buckets ?c ! j) (?bs j) \<and> distinct (?bs j) \<and>
      set (?bs j) = {b \<in> set (a # ps). cc_hash_func (ci_manager ?c) (key_at ?c b) = j}" if j: "j < HASH_SIZE" for j
  proof -
    have nin: "a \<notin> set (bs j)" using B(3) [OF j] a by auto
    have "hchain (hn c3) (ci_buckets c ! j) (bs j)"
      using B(1) [OF j] nin by (subst hchain_cong [where m = "hn c"]) (auto simp: hn)
    then have "hchain (hn c3) (ci_buckets c3 ! j) (?bs j)"
      using i(2) R(2) by (auto simp: bk hn nth_upd)
    moreover have "set (?bs j) = {b \<in> set (a # ps). cc_hash_func (ci_manager c) (key_at c3 b) = j}"
      using B(3) [OF j] ka key i(1) by auto
    ultimately show ?thesis using nin B(2) [OF j] mgr by auto
  qed
  moreover have "inj_on (key_at ?c) (set (a # ps))"
    using R(4) key ka e(3) a by (auto simp: inj_on_def image_iff)
  ultimately have "cache_rel ?c (a # ps) ?bs"
    using dom bk sz R(2,5) unfolding cache_rel_def by simp
  moreover have "cache_items c3 ps = cache_items c ps" using a by (intro cache_items_cong) (auto simp: dt)
  then have "cache_items ?c (a # ps) = (ce_key e, ce_value e, ce_timestamp e) # cache_items c ps"
    by (simp add: cache_items_def dt)
  moreover have "same_settings c ?c" using c3(3) by (simp add: same_rest_def same_settings_def c2_def)
  ultimately show ?thesis using link by blast
qed

text \<open>The value a store ends up with: none when the entry or one of its copies is not allocated.\<close>

definition stored_value ::
  "('k, 'v) cache_config \<Rightarrow> addr option \<Rightarrow> bool \<Rightarrow> bool \<Rightarrow> 'k \<Rightarrow> 'v option \<Rightarrow> 'v option"
where
  "stored_value mgr na ck cv key val =
     (if na = None \<or> cc_key_copy_func mgr ck key = None then None
      else Option.bind val (cc_value_copy_func mgr cv))"

context cache_callbacks
begin

text \<open>Dropping the old binding, the first step of \<open>cache_put\<close>.\<close>

lemma put_drop_ok:
  assumes rel: "cache_rel c ps bs" and m: "ci_manager c = mgr"
  shows "\<exists>r c1 ps1 bs1. bucket_find c (cc_hash_func mgr key) key = Some r \<and>
     (case r of None \<Rightarrow> Some c | Some a \<Rightarrow> entry_reap c (cc_hash_func mgr key) a) = Some c1 \<and>
     cache_rel c1 ps1 bs1 \<and> cache_items c1 ps1 = lru_drop key (cache_items c ps) \<and>
     key \<notin> key_at c1 ` set ps1 \<and> set ps1 \<subseteq> set ps \<and> same_settings c c1"
proof -
  from bucket_find_ok [OF rel m, of key] obtain q where
    q: "bucket_find c (cc_hash_func mgr key) key = Some q"
    and qk: "case q of None \<Rightarrow> key \<notin> key_at c ` set ps | Some a \<Rightarrow> a \<in> set ps \<and> key_at c a = key" by blast
  show ?thesis
  proof (cases q)
    case None
    with qk q rel cache_items_absent(2) [OF rel, of key] show ?thesis
      by (intro exI [of _ None] exI [of _ c] exI [of _ ps] exI [of _ bs]) (simp add: same_settings_def)
  next
    case (Some a)
    with qk have a: "a \<in> set ps" "key_at c a = key" by auto
    from reap_refines [OF rel m a(1)] a(2) obtain c1 ps1 bs1 where
      "entry_reap c (cc_hash_func mgr key) a = Some c1" "cache_rel c1 ps1 bs1" "set ps1 = set ps - {a}"
      "cache_items c1 ps1 = lru_drop key (cache_items c ps)" "key \<notin> key_at c1 ` set ps1" "same_settings c c1"
      by auto
    with q Some show ?thesis
      by (intro exI [of _ q] exI [of _ c1] exI [of _ ps1] exI [of _ bs1]) auto
  qed
qed

lemma entry_create_stored:
  "ci_manager c1 = mgr \<Longrightarrow> (case val of None \<Rightarrow> Some c1
    | Some v \<Rightarrow> (case cache_entry_create (ci_manager c1) na ck cv now key v of None \<Rightarrow> Some c1
                 | Some (a, e) \<Rightarrow> cache_link c1 idx a e)) =
   (case stored_value mgr na ck cv key val of None \<Rightarrow> Some c1
    | Some v \<Rightarrow> cache_link c1 idx (the na)
        \<lparr>ce_key = key, ce_value = v, ce_timestamp = now, ce_prev = None, ce_next = None, ce_hnext = None\<rparr>)"
  using key_copy value_copy
  by (auto simp: stored_value_def cache_entry_create_def split: option.splits)

lemma put_refines:
  assumes inv: "cache_inv c xs" and m: "ci_manager c = mgr"
    and fresh: "\<And>a. na = Some a \<Longrightarrow> a \<notin> dom (ci_heap c)"
  shows "\<exists>c'. cache_put_impl na ck cv now c key val = Some c' \<and>
         cache_inv c' (lru_put_spec (ci_capacity c) now key (stored_value mgr na ck cv key val) xs) \<and>
         ci_manager c' = mgr \<and> ci_capacity c' = ci_capacity c \<and> ci_ttl_sec c' = ci_ttl_sec c \<and>
         ci_hits c' = ci_hits c \<and> ci_misses c' = ci_misses c"
proof (cases "ci_capacity c = 0")
  case True
  with inv m show ?thesis by (simp add: cache_put_impl_def lru_put_spec_def)
next
  case False
  from inv obtain ps bs where rel: "cache_rel c ps bs" and xs: "xs = cache_items c ps"
    by (auto simp: cache_inv_def)
  from put_drop_ok [OF rel m, of key] obtain r c1 ps1 bs1 where
    1: "bucket_find c (cc_hash_func mgr key) key = Some r"
      "(case r of None \<Rightarrow> Some c | Some a \<Rightarrow> entry_reap c (cc_hash_func mgr key) a) = Some c1"
      "cache_rel c1 ps1 bs1" "cache_items c1 ps1 = lru_drop key xs"
      "key \<notin> key_at c1 ` set ps1" "set ps1 \<subseteq> set ps" "same_settings c c1" unfolding xs by blast
  let ?v = "stored_value mgr na ck cv key val"
  let ?ys = "case ?v of None \<Rightarrow> lru_drop key xs | Some v \<Rightarrow> (key, v, now) # lru_drop key xs"
  have "\<exists>c2 ps2 bs2. (case ?v of None \<Rightarrow> Some c1 | Some v \<Rightarrow> cache_link c1 (cc_hash_func mgr key) (the na)
        \<lparr>ce_key = key, ce_value = v, ce_timestamp = now, ce_prev = None, ce_next = None, ce_hnext = None\<rparr>) = Some c2 \<and>
      cache_rel c2 ps2 bs2 \<and> cache_items c2 ps2 = ?ys \<and> same_settings c c2"
  proof (cases ?v)
    case None
    with 1 show ?thesis by auto
  next
    case (Some v)
    then obtain a where a: "na = Some a" by (auto simp: stored_value_def split: if_splits)
    with fresh have "a \<notin> dom (ci_heap c1)"
      using 1(3,6) cache_relD(3) [OF rel] cache_relD(3) [OF 1(3)] by auto
    from cache_link_ok [OF 1(3) this, of "\<lparr>ce_key = key, ce_value = v, ce_timestamp = now, ce_prev = None,
        ce_next = None, ce_hnext = None\<rparr>" "cc_hash_func mgr key"] 1(4,5,7) m hash_bound Some a
    show ?thesis by (fastforce simp: same_settings_def)
  qed
  then obtain c2 ps2 bs2 where 2: "(case ?v of None \<Rightarrow> Some c1 | Some v \<Rightarrow> cache_link c1 (cc_hash_func mgr key) (the na)
        \<lparr>ce_key = key, ce_value = v, ce_timestamp = now, ce_prev = None, ce_next = None, ce_hnext = None\<rparr>) = Some c2"
      "cache_rel c2 ps2 bs2" "cache_items c2 ps2 = ?ys" "same_settings c c2" by blast
  have m12: "ci_manager c1 = mgr" "ci_manager c2 = mgr" "ci_capacity c2 = ci_capacity c"
    using 1(7) 2(4) m by (auto simp: same_settings_def)
  from evict_loop_ok [OF 2(2) m12(2)] obtain c' bs' where 3: "evict_loop c2 = Some c'"
    "cache_rel c' (take (ci_capacity c) ps2) bs'" "cache_items c' (take (ci_capacity c) ps2) = take (ci_capacity c) ?ys"
    "ci_manager c' = mgr" "ci_capacity c' = ci_capacity c" "ci_ttl_sec c' = ci_ttl_sec c2"
    "ci_hits c' = ci_hits c2" "ci_misses c' = ci_misses c2" using m12(3) 2(3) by auto
  have "cache_put_impl na ck cv now c key val = Some c'"
    using 1(1,2) 2(1) 3(1) m m12(1) False by (simp add: cache_put_impl_def entry_create_stored [OF m12(1)])
  moreover have "cache_inv c' (lru_put_spec (ci_capacity c) now key ?v xs)"
    using 3(2,3) False unfolding cache_inv_def lru_put_spec_def by auto
  ultimately show ?thesis using 3 2(4) by (auto simp: same_settings_def)
qed

lemma set_capacity_refines:
  assumes inv: "cache_inv c xs" and m: "ci_manager c = mgr"
  shows "\<exists>c'. cache_set_capacity (Some c) cap = Some (Some c') \<and> cache_inv c' (take cap xs) \<and>
         ci_manager c' = mgr \<and> ci_capacity c' = cap \<and> ci_ttl_sec c' = ci_ttl_sec c \<and>
         ci_hits c' = ci_hits c \<and> ci_misses c' = ci_misses c \<and>
         ci_evictions c' = ci_evictions c + of_nat (length xs - cap)"
proof -
  from inv obtain ps bs where rel: "cache_rel c ps bs" and xs: "xs = cache_items c ps"
    by (auto simp: cache_inv_def)
  then have "length xs = length ps" by (simp add: cache_items_def)
  with evict_loop_ok [of "c\<lparr>ci_capacity := cap\<rparr>" ps bs] rel m xs show ?thesis
    by (fastforce simp: cache_set_capacity_def cache_inv_def)
qed

end

subsection \<open>Draining\<close>

lemma drain_chain_ok:
  assumes "hchain (hn c) p as" "distinct as"
  shows "drain_chain c p = Some (c\<lparr>ci_heap := ci_heap c |` (- set as)\<rparr>)"
  using assms
proof (induction as arbitrary: c p)
  case Nil
  then show ?case by (simp add: drain_chain.simps)
next
  case (Cons a as)
  then obtain e where e: "p = Some a" "ci_heap c a = Some e" "hchain (hn c) (ce_hnext e) as"
    by (auto dest!: hnD)
  let ?c = "c\<lparr>ci_heap := (ci_heap c)(a := None)\<rparr>"
  have "hchain (hn ?c) (ce_hnext e) as"
    using e(3) Cons.prems(2) by (subst hchain_cong [where m = "hn c"]) (auto simp: hn_def)
  from Cons.IH [OF this] Cons.prems(2) have
    "drain_chain ?c (ce_hnext e) = Some (?c\<lparr>ci_heap := ci_heap ?c |` (- set as)\<rparr>)" by (simp only: distinct.simps)
  also have "?c\<lparr>ci_heap := ci_heap ?c |` (- set as)\<rparr> = c\<lparr>ci_heap := ci_heap c |` (- set (a # as))\<rparr>"
    by (rule cache_impl.equality) (auto simp: restrict_map_def fun_eq_iff)
  finally show ?case
    by (simp only: e(1,2) drain_chain.simps [of c "Some a"] cache_entry_free_def option.case)
qed

lemma drain_buckets_ok:
  assumes "\<forall>i \<in> set is. i < length (ci_buckets c) \<and> hchain (hn c) (ci_buckets c ! i) (bs i) \<and> distinct (bs i)"
    and "distinct is" "\<forall>i \<in> set is. \<forall>j \<in> set is. i \<noteq> j \<longrightarrow> set (bs i) \<inter> set (bs j) = {}"
  shows "\<exists>B. drain_buckets c is =
       Some (c\<lparr>ci_heap := ci_heap c |` (- (\<Union>i \<in> set is. set (bs i))), ci_buckets := B\<rparr>) \<and>
     length B = length (ci_buckets c) \<and> (\<forall>i. B ! i = (if i \<in> set is then None else ci_buckets c ! i))"
  using assms
proof (induction "is" arbitrary: c)
  case Nil
  show ?case by (intro exI [of _ "ci_buckets c"]) simp
next
  case (Cons i "is")
  let ?c = "c\<lparr>ci_heap := ci_heap c |` (- set (bs i)), ci_buckets := (ci_buckets c)[i := None]\<rparr>"
  have d: "drain_chain c (ci_buckets c ! i) = Some (c\<lparr>ci_heap := ci_heap c |` (- set (bs i))\<rparr>)"
    using Cons.prems(1) by (intro drain_chain_ok) auto
  have ch: "hchain (hn ?c) (ci_buckets c ! j) (bs j)" if "j \<in> set is" for j
  proof -
    have "j \<noteq> i" using that Cons.prems(2) by auto
    then have "hn ?c a = hn c a" if "a \<in> set (bs j)" for a
      using that \<open>j \<in> set is\<close> Cons.prems(3) by (auto simp: hn_def restrict_map_def)
    then show ?thesis using hchain_cong [of "bs j" "hn ?c" "hn c"] Cons.prems(1) that by simp
  qed
  have "\<forall>j \<in> set is. j < length (ci_buckets ?c) \<and> hchain (hn ?c) (ci_buckets ?c ! j) (bs j) \<and> distinct (bs j)"
    using ch Cons.prems(1,2) by (auto simp: nth_upd)
  from Cons.IH [OF this] Cons.prems(2,3) obtain B where
    B: "drain_buckets ?c is = Some (?c\<lparr>ci_heap := ci_heap ?c |` (- (\<Union>i \<in> set is. set (bs i))), ci_buckets := B\<rparr>)"
      "length B = length (ci_buckets c)" "\<forall>j. B ! j = (if j \<in> set is then None else (ci_buckets c)[i := None] ! j)"
    by auto
  have "ci_heap c |` (- set (bs i)) |` (- (\<Union>i \<in> set is. set (bs i))) = ci_heap c |` (- (\<Union>j \<in> set (i # is). set (bs j)))"
    by (simp add: Int_def)
  with B d Cons.prems(1) show ?case by (intro exI [of _ B]) (auto simp: nth_upd)
qed

lemma cache_rel_empty:
  assumes "ci_heap c = Map.empty" "length (ci_buckets c) = HASH_SIZE" "\<forall>i < HASH_SIZE. ci_buckets c ! i = None"
    "ci_lru_head c = None" "ci_lru_tail c = None" "ci_size c = 0"
  shows "cache_inv c []"
  using assms unfolding cache_inv_def
  by (intro exI [of _ "[]"] exI [of _ "\<lambda>_. []"]) (simp add: cache_rel_def lru_ok_def cache_items_def)

context cache_callbacks
begin

lemma drain_ok:
  assumes inv: "cache_inv c xs" and m: "ci_manager c = mgr"
  shows "\<exists>c'. cache_drain c = Some c' \<and> ci_heap c' = Map.empty \<and> cache_inv c' [] \<and> same_settings c c'"
proof -
  from inv obtain ps bs where rel: "cache_rel c ps bs" by (auto simp: cache_inv_def)
  note R = cache_relD [OF rel] and B = cache_rel_bucket [OF rel]
  have "dom (ci_heap c) \<subseteq> (\<Union>i < HASH_SIZE. set (bs i))"
    using R(3) B(3) hash_bound m by auto
  then have emp: "ci_heap c |` (- (\<Union>i \<in> set [0..<HASH_SIZE]. set (bs i))) = Map.empty"
    by (fastforce simp: restrict_map_def fun_eq_iff)
  have "\<exists>Bk. drain_buckets c [0..<HASH_SIZE] =
       Some (c\<lparr>ci_heap := ci_heap c |` (- (\<Union>i \<in> set [0..<HASH_SIZE]. set (bs i))), ci_buckets := Bk\<rparr>) \<and>
     length Bk = length (ci_buckets c) \<and>
     (\<forall>i. Bk ! i = (if i \<in> set [0..<HASH_SIZE] then None else ci_buckets c ! i))"
    using R(2) B by (intro drain_buckets_ok) auto
  then obtain Bk where Bk: "drain_buckets c [0..<HASH_SIZE] = Some (c\<lparr>ci_heap := Map.empty, ci_buckets := Bk\<rparr>)"
    "length Bk = HASH_SIZE" "\<forall>i < HASH_SIZE. Bk ! i = None" unfolding emp R(2) by auto
  let ?c = "c\<lparr>ci_heap := Map.empty, ci_buckets := Bk, ci_lru_head := None, ci_lru_tail := None, ci_size := 0\<rparr>"
  have "cache_drain c = Some ?c" using Bk(1) by (simp add: cache_drain_def)
  moreover have "cache_inv ?c []" using Bk by (intro cache_rel_empty) auto
  ultimately show ?thesis by (auto simp: same_settings_def)
qed

end

subsection \<open>Sequences of operations\<close>

datatype ('k, 'v) cache_op =
    CGet bool int 'k \<comment> \<open>whether copying the value succeeds, the time, the key\<close>
  | CPut bool bool bool int 'k "'v option"
      \<comment> \<open>whether the entry, the key and the value are allocated; the time, the key, the value\<close>
  | CClear
  | CSetCapacity nat
  | CSetTtl int

text \<open>\<open>alloc\<close> is the allocator: the address it returns for a heap.\<close>

fun cache_step ::
  "((addr \<rightharpoonup> ('k, 'v) cache_entry) \<Rightarrow> addr) \<Rightarrow> ('k, 'v) cache_impl \<Rightarrow> ('k, 'v) cache_op \<Rightarrow>
   ((int \<times> 'v option) \<times> ('k, 'v) cache_impl option) option" where
  "cache_step alloc c (CGet cv now k) =
     map_option (\<lambda>(rc, out, c'). ((rc, out), c')) (cache_get cv now (Some c) (Some k) True)"
| "cache_step alloc c (CPut ok ck cv now k v) =
     map_option (Pair (0, None))
       (cache_put (if ok then Some (alloc (ci_heap c)) else None) ck cv now (Some c) (Some k) v)"
| "cache_step alloc c CClear = map_option (Pair (0, None)) (cache_clear (Some c))"
| "cache_step alloc c (CSetCapacity n) = map_option (Pair (0, None)) (cache_set_capacity (Some c) n)"
| "cache_step alloc c (CSetTtl t) = Some ((0, None), cache_set_ttl (Some c) t)"

fun cache_run ::
  "((addr \<rightharpoonup> ('k, 'v) cache_entry) \<Rightarrow> addr) \<Rightarrow> ('k, 'v) cache_impl \<Rightarrow> ('k, 'v) cache_op list \<Rightarrow>
   ((int \<times> 'v option) list \<times> ('k, 'v) cache_impl) option" where
  "cache_run alloc c [] = Some ([], c)"
| "cache_run alloc c (op # ops) =
     (case cache_step alloc c op of
        Some (r, Some c') \<Rightarrow> map_option (\<lambda>(rs, c''). (r # rs, c'')) (cache_run alloc c' ops)
      | _ \<Rightarrow> None)"

text \<open>The same operations on capacity, time to live and recency list.\<close>

fun lru_step ::
  "nat \<times> int \<times> ('k, 'v) recency \<Rightarrow> ('k, 'v) cache_op \<Rightarrow> (int \<times> 'v option) \<times> nat \<times> int \<times> ('k, 'v) recency" where
  "lru_step (cap, ttl, xs) (CGet cv now k) =
     (let r = lru_get_spec ttl now k xs
      in ((if fst r = None then 0 else 1, if cv then fst r else None), cap, ttl, snd r))"
| "lru_step (cap, ttl, xs) (CPut ok ck cv now k v) =
     ((0, None), cap, ttl, lru_put_spec cap now k (if ok \<and> ck \<and> cv then v else None) xs)"
| "lru_step (cap, ttl, xs) CClear = ((0, None), cap, ttl, [])"
| "lru_step (cap, ttl, xs) (CSetCapacity n) = ((0, None), n, ttl, take n xs)"
| "lru_step (cap, ttl, xs) (CSetTtl t) = ((0, None), cap, t, xs)"

fun lru_run ::
  "nat \<times> int \<times> ('k, 'v) recency \<Rightarrow> ('k, 'v) cache_op list \<Rightarrow>
   (int \<times> 'v option) list \<times> nat \<times> int \<times> ('k, 'v) recency" where
  "lru_run s [] = ([], s)"
| "lru_run s (op # ops) =
     (let (r, s') = lru_step s op; (rs, s'') = lru_run s' ops in (r # rs, s''))"

definition cache_models ::
  "('k, 'v) cache_config \<Rightarrow> ('k, 'v) cache_impl \<Rightarrow> nat \<times> int \<times> ('k, 'v) recency \<Rightarrow> bool" where
  "cache_models mgr c s \<longleftrightarrow>
     cache_inv c (snd (snd s)) \<and> ci_manager c = mgr \<and> ci_capacity c = fst s \<and> ci_ttl_sec c = fst (snd s) \<and>
     length (snd (snd s)) \<le> fst s"

lemma lru_drop_length [simp]: "length (lru_drop k xs) \<le> length xs"
  by (simp add: lru_drop_def)

lemma lru_drop_lt: "find (\<lambda>x. fst x = k) xs = Some y \<Longrightarrow> length (lru_drop k xs) < length xs"
  unfolding lru_drop_def
  by (rule length_filter_less [of y]) (auto simp: find_Some_iff)

lemma lru_get_length: "length (snd (lru_get_spec ttl now k xs)) \<le> length xs"
  by (auto simp: lru_get_spec_def lru_drop_lt Suc_le_eq split: option.splits)

lemma lru_put_length: "length xs \<le> cap \<Longrightarrow> length (lru_put_spec cap now k v xs) \<le> cap"
  by (auto simp: lru_put_spec_def)

lemma cache_inv_length: "cache_inv c xs \<Longrightarrow> ci_size c = length xs"
  by (auto simp: cache_inv_def cache_items_def dest: cache_relD(5))

lemma cache_inv_card: "cache_inv c xs \<Longrightarrow> finite (dom (ci_heap c)) \<and> card (dom (ci_heap c)) = length xs"
  unfolding cache_inv_def cache_items_def
  by (metis List.finite_set cache_relD(3) cache_relD(6) distinct_card length_map)

text \<open>Copy functions that fail only for want of memory, as the string copies do.\<close>

locale total_callbacks = cache_callbacks mgr for mgr :: "('k, 'v) cache_config" +
  assumes copies: "cc_key_copy_func mgr ck k = (if ck then Some k else None)"
    "cc_value_copy_func mgr cv v = (if cv then Some v else None)"
begin

lemma bind_copy: "Option.bind r (cc_value_copy_func mgr cv) = (if cv then r else None)"
  by (cases r) (simp_all add: copies)

lemma stored_total: "stored_value mgr na ck cv k v = (if na \<noteq> None \<and> ck \<and> cv then v else None)"
  by (cases v) (auto simp: stored_value_def copies)

lemma step_refines:
  assumes M: "cache_models mgr c s" and cap: "fst s \<le> N"
    and alloc: "\<And>h. finite (dom h) \<Longrightarrow> card (dom h) \<le> N \<Longrightarrow> alloc h \<notin> dom h"
  shows "\<exists>c'. cache_step alloc c op = Some (fst (lru_step s op), Some c') \<and> cache_models mgr c' (snd (lru_step s op))"
proof -
  obtain n ttl xs where s: "s = (n, ttl, xs)" by (cases s) auto
  with M have inv: "cache_inv c xs" and m: "ci_manager c = mgr" and f: "ci_capacity c = n" "ci_ttl_sec c = ttl"
    and len: "length xs \<le> n" by (auto simp: cache_models_def)
  have fresh: "alloc (ci_heap c) \<notin> dom (ci_heap c)"
    using cache_inv_card [OF inv] len cap s by (intro alloc) auto
  show ?thesis
  proof (cases op)
    case (CGet cv now k)
    with get_refines [OF inv m, of cv now k, unfolded bind_copy] lru_get_length [of ttl now k xs] f len s show ?thesis
      by (auto simp: cache_get_def cache_models_def Let_def)
  next
    case (CPut ok ck cv now k v)
    let ?na = "if ok then Some (alloc (ci_heap c)) else None"
    have "\<And>a. ?na = Some a \<Longrightarrow> a \<notin> dom (ci_heap c)" using fresh by (auto split: if_splits)
    from put_refines [where na = ?na and ck = ck and cv = cv and now = now and key = k and val = v, OF inv m this] obtain c' where
      c': "cache_put_impl ?na ck cv now c k v = Some c'"
        "cache_inv c' (lru_put_spec n now k (stored_value mgr ?na ck cv k v) xs)"
        "ci_manager c' = mgr" "ci_capacity c' = n" "ci_ttl_sec c' = ttl" unfolding f by blast
    have st: "stored_value mgr ?na ck cv k v = (if ok \<and> ck \<and> cv then v else None)" by (simp add: stored_total)
    show ?thesis
      using c' lru_put_length [OF len, of now k "if ok \<and> ck \<and> cv then v else None"] unfolding st CPut s
      by (intro exI [of _ c']) (simp add: cache_put_def cache_models_def)
  next
    case CClear
    with drain_ok [OF inv m] f m s show ?thesis
      by (auto simp: cache_clear_def cache_models_def same_settings_def)
  next
    case (CSetCapacity k)
    with set_capacity_refines [OF inv m, of k] f s show ?thesis by (auto simp: cache_models_def)
  next
    case (CSetTtl t)
    with inv m f len s show ?thesis by (simp add: cache_set_ttl_def cache_models_def cache_inv_def)
  qed
qed

lemma run_refines:
  assumes "cache_models mgr c s" "fst s \<le> N" "\<And>n. CSetCapacity n \<in> set ops \<Longrightarrow> n \<le> N"
    and alloc: "\<And>h. finite (dom h) \<Longrightarrow> card (dom h) \<le> N \<Longrightarrow> alloc h \<notin> dom h"
  shows "\<exists>c'. cache_run alloc c ops = Some (fst (lru_run s ops), c') \<and> cache_models mgr c' (snd (lru_run s ops))"
  using assms(1-3)
proof (induction ops arbitrary: c s)
  case Nil
  then show ?case by simp
next
  case (Cons op ops)
  from step_refines [OF Cons.prems(1,2) alloc, of op] obtain c1 where
    c1: "cache_step alloc c op = Some (fst (lru_step s op), Some c1)" "cache_models mgr c1 (snd (lru_step s op))"
    by blast
  have "fst (snd (lru_step s op)) \<le> N"
    using Cons.prems(2,3) by (cases s; cases op) (auto simp: Let_def)
  from Cons.IH [OF c1(2) this] Cons.prems(3) obtain c' where
    "cache_run alloc c1 ops = Some (fst (lru_run (snd (lru_step s op)) ops), c')"
    "cache_models mgr c' (snd (lru_run (snd (lru_step s op)) ops))" by auto
  with c1(1) show ?case by (auto simp: split_beta Let_def)
qed

end

subsection \<open>The string cache\<close>

lemma HASH_SIZE_pos [simp]: "0 < HASH_SIZE"
  by (simp add: HASH_SIZE_def)

lemma cache_string_compare_eq: "cache_string_compare a b = 0 \<longleftrightarrow> a = b"
  by (induction a b rule: cache_string_compare.induct) (auto simp: sgn_0_0)

lemma cache_string_hash_bound: "cache_string_hash s < HASH_SIZE"
  by (simp add: cache_string_hash_def)

interpretation sc: total_callbacks "cache_create_default_config\<lparr>cc_capacity := cap, cc_ttl_sec := ttl\<rparr>" for cap ttl
  by unfold_locales
     (auto simp: cache_create_default_config_def cache_string_hash_bound cache_string_compare_eq cache_string_copy_def
      split: if_splits)

lemma cache_create_models:
  "\<exists>c. cache_create_string_cache True True cap ttl = Some c \<and>
       cache_models (cache_create_default_config\<lparr>cc_capacity := cap, cc_ttl_sec := ttl\<rparr>) c (cap, ttl, [])"
  by (auto simp: cache_create_string_cache_def cache_create_def cache_models_def
      cache_create_default_config_def intro!: cache_rel_empty)

text \<open>An allocator that hands out the first unused of the addresses \<open>0..N\<close>.\<close>

definition first_fit :: "nat \<Rightarrow> (addr \<rightharpoonup> 'e) \<Rightarrow> addr" where
  "first_fit N h = (case find (\<lambda>a. h a = None) [0..<Suc N] of Some a \<Rightarrow> a | None \<Rightarrow> 0)"

lemma first_fit_fresh:
  assumes "finite (dom h)" "card (dom h) \<le> N"
  shows "first_fit N h \<notin> dom h"
proof (cases "find (\<lambda>a. h a = None) [0..<Suc N]")
  case None
  then have "{0..<Suc N} \<subseteq> dom h" unfolding find_None_iff by (auto simp del: upt_Suc)
  then have "card {0..<Suc N} \<le> card (dom h)" using assms(1) by (rule card_mono [rotated])
  with assms(2) show ?thesis by simp
next
  case (Some a)
  then have "h a = None" unfolding find_Some_iff by auto
  with Some show ?thesis by (auto simp: first_fit_def simp del: upt_Suc)
qed

text \<open>C1: Every sequence of get, put, delete, clear, set-capacity and set-TTL calls on a string cache
  runs without touching freed memory and without looping, answers exactly as the bounded recency
  list with expiry does, and never holds more entries than the capacity then in force. Each get says
  whether copying the value out succeeds (a hit whose copy fails answers 1 with no value), each put
  which of its three allocations succeed (any failure leaves the key unbound).\<close>

theorem cache_run_refines:
  assumes alloc: "\<And>h. finite (dom h) \<Longrightarrow> card (dom h) \<le> N \<Longrightarrow> alloc h \<notin> dom h"
    and caps: "cap \<le> N" "\<And>n. CSetCapacity n \<in> set ops \<Longrightarrow> n \<le> N"
  shows "\<exists>c0 c. cache_create_string_cache True True cap ttl = Some c0 \<and>
    cache_run alloc c0 ops = Some (fst (lru_run (cap, ttl, []) ops), c) \<and>
    cache_inv c (snd (snd (snd (lru_run (cap, ttl, []) ops)))) \<and>
    cache_get_size (Some c) = length (snd (snd (snd (lru_run (cap, ttl, []) ops)))) \<and>
    cache_get_size (Some c) \<le> cache_get_capacity (Some c)"
proof -
  obtain c0 where c0: "cache_create_string_cache True True cap ttl = Some c0"
    "cache_models (cache_create_default_config\<lparr>cc_capacity := cap, cc_ttl_sec := ttl\<rparr>) c0 (cap, ttl, [])"
    using cache_create_models by blast
  from sc.run_refines [OF c0(2), of N ops alloc] alloc caps obtain c where
    "cache_run alloc c0 ops = Some (fst (lru_run (cap, ttl, []) ops), c)"
    "cache_models (cache_create_default_config\<lparr>cc_capacity := cap, cc_ttl_sec := ttl\<rparr>) c (snd (lru_run (cap, ttl, []) ops))"
    by auto
  with c0(1) show ?thesis
    by (auto simp: cache_models_def cache_get_size_def cache_get_capacity_def cache_inv_length)
qed

theorem cache_run_refines_witness:
  "\<exists>c0 c. cache_create_string_cache True True 2 10 = Some c0 \<and>
    cache_run (first_fit 2) c0
      [CPut True True True 0 ''a'' (Some ''x''), CPut True True True 1 ''b'' (Some ''y''), CGet True 2 ''a'',
       CPut True True True 3 ''c'' (Some ''z''), CGet True 4 ''b'', CGet False 5 ''a'', CGet True 5 ''a'',
       CPut True False True 6 ''d'' (Some ''w''), CGet True 11 ''a'', CPut True True True 12 ''c'' None] =
      Some ([(0, None), (0, None), (1, Some ''x''), (0, None), (0, None),
        (1, None), (1, Some ''x''), (0, None), (0, None), (0, None)], c) \<and>
    cache_get_size (Some c) = 0"
  using cache_run_refines [of 2 "first_fit 2" 2
      "[CPut True True True 0 ''a'' (Some ''x''), CPut True True True 1 ''b'' (Some ''y''), CGet True 2 ''a'',
       CPut True True True 3 ''c'' (Some ''z''), CGet True 4 ''b'', CGet False 5 ''a'', CGet True 5 ''a'',
       CPut True False True 6 ''d'' (Some ''w''), CGet True 11 ''a'', CPut True True True 12 ''c'' None]" 10]
  by (auto simp: first_fit_fresh lru_get_spec_def lru_put_spec_def lru_drop_def)

subsection \<open>Recency\<close>

text \<open>\<open>x\<close> is the binding of its key and has at most \<open>m\<close> bindings in front of it.\<close>

definition within :: "nat \<Rightarrow> 'k \<times> 'v \<times> int \<Rightarrow> ('k, 'v) recency \<Rightarrow> bool" where
  "within m x xs \<longleftrightarrow> (\<exists>us vs. xs = us @ x # vs \<and> fst x \<notin> fst ` set us \<and> length us \<le> m)"

fun touches_other :: "'k \<Rightarrow> ('k, 'v) cache_op \<Rightarrow> bool" where
  "touches_other k (CGet cv now k') = (k' \<noteq> k)"
| "touches_other k (CPut ok ck cv now k' v) = (k' \<noteq> k)"
| "touches_other k _ = False"

lemma within_drop: "within m x xs \<Longrightarrow> k \<noteq> fst x \<Longrightarrow> within m x (lru_drop k xs)"
proof -
  assume w: "within m x xs" and k: "k \<noteq> fst x"
  then obtain us vs where xs: "xs = us @ x # vs" "fst x \<notin> fst ` set us" "length us \<le> m"
    by (auto simp: within_def)
  then have "lru_drop k xs = lru_drop k us @ x # lru_drop k vs" using k by (auto simp: lru_drop_def)
  moreover have "fst x \<notin> fst ` set (lru_drop k us)" using xs(2) by (auto simp: lru_drop_def)
  moreover have "length (lru_drop k us) \<le> m" by (rule le_trans [OF lru_drop_length xs(3)])
  ultimately show ?thesis unfolding within_def by blast
qed

lemma within_Cons: "within m x xs \<Longrightarrow> fst y \<noteq> fst x \<Longrightarrow> within (Suc m) x (y # xs)"
  unfolding within_def by (elim exE conjE) (rule exI [of _ "y # us" for us], auto)

lemma within_take:
  assumes "within m x xs" "m < n"
  shows "within m x (take n xs)"
proof -
  from assms(1) obtain us vs where "xs = us @ x # vs" "fst x \<notin> fst ` set us" "length us \<le> m"
    by (auto simp: within_def)
  moreover from this assms(2) have "take n xs = us @ x # take (n - Suc (length us)) vs"
    by (simp add: take_Cons')
  ultimately show ?thesis unfolding within_def by blast
qed

lemma within_mono: "within m x xs \<Longrightarrow> m \<le> n \<Longrightarrow> within n x xs"
  by (fastforce simp: within_def)

lemma within_find: "within m x xs \<Longrightarrow> find (\<lambda>y. fst y = fst x) xs = Some x"
proof -
  assume "within m x xs"
  then obtain us vs where "xs = us @ x # vs" "fst x \<notin> fst ` set us" by (auto simp: within_def)
  moreover have "fst x \<notin> fst ` set us \<Longrightarrow> find (\<lambda>y. fst y = fst x) (us @ x # vs) = Some x" for us
    by (induction us) auto
  ultimately show ?thesis by simp
qed

lemma lru_step_within:
  assumes "within m x xs" "Suc m < cap" "touches_other (fst x) op"
  shows "\<exists>xs'. snd (lru_step (cap, ttl, xs) op) = (cap, ttl, xs') \<and> within (Suc m) x xs'"
proof (cases op)
  case (CGet cv now k)
  show ?thesis
  proof (cases "find (\<lambda>y. fst y = k) xs")
    case None
    with CGet assms(1) show ?thesis by (auto simp: lru_get_spec_def intro: within_mono)
  next
    case (Some y)
    then have "fst y = k" by (auto simp: find_Some_iff)
    with assms CGet within_drop [OF assms(1), of k] have "within (Suc m) x (lru_drop k xs)"
      "within (Suc m) x (y # lru_drop k xs)" by (auto intro: within_Cons within_mono)
    with Some CGet show ?thesis by (auto simp: lru_get_spec_def Let_def)
  qed
next
  case (CPut ok ck cv now k v)
  with assms have d: "within m x (lru_drop k xs)" by (auto intro!: within_drop)
  have "within (Suc m) x (case w of None \<Rightarrow> lru_drop k xs | Some u \<Rightarrow> (k, u, now) # lru_drop k xs)" for w
    using d CPut assms(3) by (auto split: option.split intro: within_Cons within_mono)
  then have "within (Suc m) x (take cap (case w of None \<Rightarrow> lru_drop k xs | Some u \<Rightarrow> (k, u, now) # lru_drop k xs))" for w
    using assms(2) by (intro within_take) auto
  with CPut assms(2) show ?thesis by (simp add: lru_put_spec_def)
qed (use assms(3) in auto)

lemma lru_run_within:
  assumes "within m x xs" "m + length ops < cap" "\<forall>op \<in> set ops. touches_other (fst x) op"
  shows "\<exists>xs'. snd (lru_run (cap, ttl, xs) ops) = (cap, ttl, xs') \<and> within (m + length ops) x xs'"
  using assms
proof (induction ops arbitrary: m xs)
  case Nil
  then show ?case by simp
next
  case (Cons op ops)
  from lru_step_within [of m x xs cap op ttl] Cons.prems obtain xs1 where
    "snd (lru_step (cap, ttl, xs) op) = (cap, ttl, xs1)" "within (Suc m) x xs1" by auto
  with Cons.IH [of "Suc m" xs1] Cons.prems show ?case by (auto simp: split_beta Let_def)
qed

lemma lru_run_append:
  "lru_run s (ops @ ops') =
     (fst (lru_run s ops) @ fst (lru_run (snd (lru_run s ops)) ops'), snd (lru_run (snd (lru_run s ops)) ops'))"
  by (induction ops arbitrary: s) (auto simp: split_beta Let_def)

lemma lru_put_then_get:
  assumes "snd (lru_run s ops0) = (n, ttl, xs)" "length ops < n" "\<forall>op \<in> set ops. touches_other k op"
    and "ttl \<le> 0 \<or> now - t \<le> ttl"
  shows "last (fst (lru_run s (ops0 @ CPut True True True t k (Some v) # ops @ [CGet True now k]))) = (1, Some v)"
proof -
  let ?xs = "lru_put_spec n t k (Some v) xs"
  have "within 0 (k, v, t) ((k, v, t) # lru_drop k xs)" unfolding within_def by fastforce
  then have "within 0 (k, v, t) ?xs" using assms(2) by (auto simp: lru_put_spec_def dest: within_take [where n = n])
  from lru_run_within [OF this, of ops n ttl] assms(2,3) obtain ys where
    "snd (lru_run (n, ttl, ?xs) ops) = (n, ttl, ys)" "within (length ops) (k, v, t) ys" by auto
  moreover from this within_find [of "length ops" "(k, v, t)" ys] assms(4)
    have "fst (lru_get_spec ttl now k ys) = Some v" by (auto simp: lru_get_spec_def)
  ultimately show ?thesis using assms(1) by (simp add: lru_run_append split_beta Let_def)
qed

text \<open>C18: A binding stays available while it is among the most recently used ones: after a put at
  time \<open>t\<close> whose allocations succeed, fewer gets and puts of other keys than the capacity, successful
  or not, leave it in place, and a get that comes before its expiry, and whose copy succeeds, returns
  the value that was put.\<close>

theorem cache_keeps_recent:
  assumes alloc: "\<And>h. finite (dom h) \<Longrightarrow> card (dom h) \<le> N \<Longrightarrow> alloc h \<notin> dom h"
    and caps: "cap \<le> N" "\<And>n. CSetCapacity n \<in> set ops0 \<Longrightarrow> n \<le> N"
    and state: "snd (lru_run (cap, ttl, []) ops0) = (n, ttl', xs)"
    and ops: "length ops < n" "\<forall>op \<in> set ops. touches_other k op"
    and fresh: "ttl' \<le> 0 \<or> now - t \<le> ttl'"
  shows "\<exists>c0 rs c. cache_create_string_cache True True cap ttl = Some c0 \<and>
    cache_run alloc c0 (ops0 @ CPut True True True t k (Some v) # ops @ [CGet True now k]) = Some (rs, c) \<and>
    last rs = (1, Some v)"
proof -
  obtain c0 where c0: "cache_create_string_cache True True cap ttl = Some c0"
    "cache_models (cache_create_default_config\<lparr>cc_capacity := cap, cc_ttl_sec := ttl\<rparr>) c0 (cap, ttl, [])"
    using cache_create_models by blast
  let ?ops = "ops0 @ CPut True True True t k (Some v) # ops @ [CGet True now k]"
  have caps': "\<And>n. CSetCapacity n \<in> set ?ops \<Longrightarrow> n \<le> N" using caps(2) ops(2) by auto
  have "\<exists>c'. cache_run alloc c0 ?ops = Some (fst (lru_run (cap, ttl, []) ?ops), c')"
    using sc.run_refines [OF c0(2), of N ?ops alloc] alloc caps(1) caps' by auto
  with c0(1) lru_put_then_get [OF state ops fresh, of v] show ?thesis by blast
qed

theorem cache_keeps_recent_witness:
  "\<exists>c0 rs c. cache_create_string_cache True True 3 60 = Some c0 \<and>
    cache_run (first_fit 3) c0 ([CPut True True True 0 ''a'' (Some ''x'')] @ CPut True True True 1 ''k'' (Some ''v'') #
      [CPut True True True 2 ''b'' (Some ''y''), CGet True 3 ''a''] @ [CGet True 61 ''k'']) = Some (rs, c) \<and>
    last rs = (1, Some ''v'')"
  by (rule cache_keeps_recent [of 3 "first_fit 3" 3 "[CPut True True True 0 ''a'' (Some ''x'')]" 60 3 60
        "[(''a'', ''x'', 0)]" "[CPut True True True 2 ''b'' (Some ''y''), CGet True 3 ''a'']" "''k''" 61 1 "''v''"])
     (auto simp: first_fit_fresh lru_put_spec_def lru_drop_def)

text \<open>Clearing a cache in any state its operations can reach frees every entry: no entry stays
  allocated, the cache is empty, and destroying it frees everything without a fault.\<close>

theorem cache_clear_releases_all:
  assumes alloc: "\<And>h. finite (dom h) \<Longrightarrow> card (dom h) \<le> N \<Longrightarrow> alloc h \<notin> dom h"
    and caps: "cap \<le> N" "\<And>n. CSetCapacity n \<in> set ops \<Longrightarrow> n \<le> N"
    and run: "cache_create_string_cache True True cap ttl = Some c0" "cache_run alloc c0 ops = Some (rs, c)"
  shows "\<exists>c'. cache_clear (Some c) = Some (Some c') \<and> ci_heap c' = Map.empty \<and> cache_inv c' [] \<and>
    cache_get_size (Some c') = 0 \<and> cache_get_capacity (Some c') = cache_get_capacity (Some c) \<and>
    cache_destroy (Some c) = Some ()"
proof -
  have "cache_models (cache_create_default_config\<lparr>cc_capacity := cap, cc_ttl_sec := ttl\<rparr>) c0 (cap, ttl, [])"
    using run(1) cache_create_models [of cap ttl] by auto
  from sc.run_refines [OF this, of N ops alloc] alloc caps run(2) obtain xs where
    "cache_inv c xs" "ci_manager c = cache_create_default_config\<lparr>cc_capacity := cap, cc_ttl_sec := ttl\<rparr>"
    by (auto simp: cache_models_def)
  from sc.drain_ok [OF this] show ?thesis
    by (auto simp: cache_clear_def cache_destroy_def cache_get_size_def cache_get_capacity_def
        same_settings_def cache_inv_length)
qed

theorem cache_clear_releases_all_witness:
  "\<exists>c0 rs c c'. cache_create_string_cache True True 2 0 = Some c0 \<and>
    cache_run (first_fit 2) c0 [CPut True True True 0 ''a'' (Some ''x''), CPut True True True 1 ''b'' (Some ''y'')] = Some (rs, c) \<and>
    cache_get_size (Some c) = 2 \<and>
    cache_clear (Some c) = Some (Some c') \<and> ci_heap c' = Map.empty \<and> cache_destroy (Some c) = Some ()"
proof -
  let ?ops = "[CPut True True True 0 ''a'' (Some ''x''), CPut True True True 1 ''b'' (Some ''y'')]"
  obtain c0 where c0: "cache_create_string_cache True True 2 0 = Some c0"
    "cache_models (cache_create_default_config\<lparr>cc_capacity := 2, cc_ttl_sec := 0\<rparr>) c0 (2, 0, [])"
    using cache_create_models by blast
  from sc.run_refines [OF c0(2), of 2 ?ops "first_fit 2"] obtain c where
    c: "cache_run (first_fit 2) c0 ?ops = Some (fst (lru_run (2, 0, []) ?ops), c)"
       "cache_inv c (snd (snd (snd (lru_run (2, 0, []) ?ops))))"
    by (auto simp: first_fit_fresh cache_models_def)
  then have "cache_get_size (Some c) = 2"
    by (simp add: cache_get_size_def cache_inv_length lru_put_spec_def lru_drop_def)
  with cache_clear_releases_all [of 2 "first_fit 2" 2 ?ops 0 c0, OF _ _ _ c0(1) c(1)] c0(1) c(1) show ?thesis
    by (auto simp: first_fit_fresh)
qed

end
