(* ===== verification/Safe_String.thy ===== *)
theory Safe_String
  imports Err_Codes "HOL-Library.Monad_Syntax"
begin

section \<open>Bounded string primitives (\<open>utils/string/safe_string_utils.c\<close>)\<close>

text \<open>
  Buffers are byte lists of their allocated length; an access outside a buffer makes the whole
  call \<open>None\<close>. A call that does not fault returns its code and the destination as it is
  left, so that both the bounds and the contents are theorems.
\<close>

subsection \<open>Buffers\<close>

type_synonym buf = "byte list"

definition rd_byte :: "buf \<Rightarrow> nat \<Rightarrow> byte option" where
  "rd_byte b i = (if i < length b then Some (b ! i) else None)"

definition wr_byte :: "buf \<Rightarrow> nat \<Rightarrow> byte \<Rightarrow> buf option" where
  "wr_byte b i v = (if i < length b then Some (b[i := v]) else None)"

text \<open>\<open>memcpy (dst + off, src, n)\<close>\<close>

definition mem_cpy :: "buf \<Rightarrow> nat \<Rightarrow> buf \<Rightarrow> nat \<Rightarrow> buf option" where
  "mem_cpy dst off src n =
     (if n \<le> length src \<and> off + n \<le> length dst
      then Some (take off dst @ take n src @ drop (off + n) dst) else None)"

text \<open>The bytes before the terminator, and \<open>strlen\<close>, which runs off a buffer without one.\<close>

definition str_of :: "buf \<Rightarrow> byte list" where
  "str_of b = takeWhile (\<lambda>x. x \<noteq> 0) b"

definition str_len :: "buf \<Rightarrow> nat option" where
  "str_len b = (if 0 \<in> set b then Some (length (str_of b)) else None)"

subsection \<open>Operations\<close>

definition safe_strcpy :: "buf option \<Rightarrow> buf option \<Rightarrow> nat \<Rightarrow> (airy_err \<times> buf option) option" where
  "safe_strcpy dest src dest_size =
     (case (dest, src) of
        (Some d, Some s) \<Rightarrow>
          if dest_size = 0 then Some (AIRY_ERR_INVALID_PARAM, Some d)
          else do {
            src_len \<leftarrow> str_len s;
            if src_len \<ge> dest_size then do {
              d1 \<leftarrow> mem_cpy d 0 s (dest_size - 1);
              d2 \<leftarrow> wr_byte d1 (dest_size - 1) 0;
              Some (AIRY_ERR_OVERFLOW, Some d2)
            } else do {
              d1 \<leftarrow> mem_cpy d 0 s (src_len + 1);
              Some (0, Some d1)
            }
          }
      | _ \<Rightarrow> Some (AIRY_ERR_INVALID_PARAM, dest))"

definition safe_strcat :: "buf option \<Rightarrow> buf option \<Rightarrow> nat \<Rightarrow> (airy_err \<times> buf option) option" where
  "safe_strcat dest src dest_size =
     (case (dest, src) of
        (Some d, Some s) \<Rightarrow>
          if dest_size = 0 then Some (AIRY_ERR_INVALID_PARAM, Some d)
          else do {
            dest_len \<leftarrow> str_len d;
            src_len \<leftarrow> str_len s;
            if dest_len \<ge> dest_size then do {
              d1 \<leftarrow> wr_byte d (dest_size - 1) 0;
              Some (AIRY_ERR_OVERFLOW, Some d1)
            } else if src_len > dest_size - dest_len - 1 then do {
              let remaining = dest_size - dest_len - 1;
              d1 \<leftarrow> mem_cpy d dest_len s remaining;
              d2 \<leftarrow> wr_byte d1 (dest_len + remaining) 0;
              Some (AIRY_ERR_OVERFLOW, Some d2)
            } else do {
              d1 \<leftarrow> mem_cpy d dest_len s (src_len + 1);
              Some (0, Some d1)
            }
          }
      | _ \<Rightarrow> Some (AIRY_ERR_INVALID_PARAM, dest))"

text \<open>
  \<open>vsnprintf\<close> of a text already expanded from its format (\<open>None\<close> when the expansion fails): it
  writes what fits, terminates it and returns the full length.
\<close>

definition vsnprintf :: "buf \<Rightarrow> nat \<Rightarrow> byte list option \<Rightarrow> (int \<times> buf) option" where
  "vsnprintf d n txt =
     (case txt of
        None \<Rightarrow> Some (- 1, d)
      | Some t \<Rightarrow>
          if n = 0 then Some (int (length t), d)
          else do {
            d1 \<leftarrow> mem_cpy d 0 (t @ [0]) (min (length t) (n - 1));
            d2 \<leftarrow> wr_byte d1 (min (length t) (n - 1)) 0;
            Some (int (length t), d2)
          })"

definition safe_sprintf :: "buf option \<Rightarrow> nat \<Rightarrow> byte list option option \<Rightarrow> (airy_err \<times> buf option) option" where
  "safe_sprintf dest dest_size fmt =
     (case (dest, fmt) of
        (Some d, Some txt) \<Rightarrow>
          if dest_size = 0 then Some (AIRY_ERR_INVALID_PARAM, Some d)
          else do {
            (written, d1) \<leftarrow> vsnprintf d dest_size txt;
            if written < 0 \<or> nat written \<ge> dest_size then do {
              d2 \<leftarrow> wr_byte d1 (dest_size - 1) 0;
              Some (AIRY_ERR_PARSE_ERROR, Some d2)
            } else Some (written, Some d1)
          }
      | _ \<Rightarrow> Some (AIRY_ERR_INVALID_PARAM, dest))"

text \<open>The scanning loops, from index \<open>i\<close> with \<open>n\<close> rounds left.\<close>

primrec strlen_from :: "buf \<Rightarrow> nat \<Rightarrow> nat \<Rightarrow> nat option" where
  "strlen_from s i 0 = Some i"
| "strlen_from s i (Suc n) =
     (case rd_byte s i of
        None \<Rightarrow> None
      | Some c \<Rightarrow> if c = 0 then Some i else strlen_from s (Suc i) n)"

definition safe_strlen :: "buf option \<Rightarrow> nat \<Rightarrow> nat option" where
  "safe_strlen str max_len = (case str of None \<Rightarrow> Some 0 | Some s \<Rightarrow> strlen_from s 0 max_len)"

primrec strcmp_from :: "buf \<Rightarrow> buf \<Rightarrow> nat \<Rightarrow> nat \<Rightarrow> int option" where
  "strcmp_from s1 s2 i 0 = Some 0"
| "strcmp_from s1 s2 i (Suc n) = do {
     a \<leftarrow> rd_byte s1 i;
     b \<leftarrow> rd_byte s2 i;
     if a = 0 \<and> b = 0 then Some 0
     else if a = 0 then Some AIRY_ERR_PARSE_ERROR
     else if b = 0 then Some 1
     else if uint a - uint b \<noteq> 0 then Some (uint a - uint b)
     else strcmp_from s1 s2 (Suc i) n
   }"

definition safe_strcmp :: "buf option \<Rightarrow> buf option \<Rightarrow> nat \<Rightarrow> int option" where
  "safe_strcmp str1 str2 max_len =
     (case (str1, str2) of
        (None, None) \<Rightarrow> Some 0
      | (None, Some _) \<Rightarrow> Some AIRY_ERR_INVALID_PARAM
      | (Some _, None) \<Rightarrow> Some 1
      | (Some s1, Some s2) \<Rightarrow> strcmp_from s1 s2 0 max_len)"

definition safe_strdup_with_limit :: "bool \<Rightarrow> buf option \<Rightarrow> nat \<Rightarrow> buf option option" where
  "safe_strdup_with_limit alloc_ok str max_copy_len =
     (case str of
        None \<Rightarrow> Some None
      | Some s \<Rightarrow> do {
          l \<leftarrow> str_len s;
          let len = (if max_copy_len > 0 \<and> l > max_copy_len then max_copy_len else l);
          if \<not> alloc_ok then Some None
          else do {
            c1 \<leftarrow> mem_cpy (replicate (len + 1) 0) 0 s len;
            c2 \<leftarrow> wr_byte c1 len 0;
            Some (Some c2)
          }
        })"

primrec clear_from :: "buf \<Rightarrow> nat \<Rightarrow> nat \<Rightarrow> buf option" where
  "clear_from b i 0 = Some b"
| "clear_from b i (Suc n) = (case wr_byte b i 0 of None \<Rightarrow> None | Some b' \<Rightarrow> clear_from b' (Suc i) n)"

definition secure_clear :: "buf option \<Rightarrow> nat \<Rightarrow> buf option option" where
  "secure_clear b sz =
     (case b of
        None \<Rightarrow> Some None
      | Some p \<Rightarrow> if sz = 0 then Some b else map_option Some (clear_from p 0 sz))"

text \<open>The first loop of \<open>validate_string_input\<close>: the length found, or \<open>None\<close> for \<open>return false\<close>.\<close>

primrec find_end :: "buf \<Rightarrow> nat \<Rightarrow> nat \<Rightarrow> nat \<Rightarrow> nat option option" where
  "find_end s max_len i 0 = Some (Some 0)"
| "find_end s max_len i (Suc n) =
     (case rd_byte s i of
        None \<Rightarrow> None
      | Some c \<Rightarrow>
          if c = 0 then Some (Some i)
          else if i = max_len - 1 then Some None
          else find_end s max_len (Suc i) n)"

definition text_byte :: "byte \<Rightarrow> bool" where
  "text_byte c \<longleftrightarrow> \<not> (c < 0x20 \<and> c \<noteq> 9 \<and> c \<noteq> 10 \<and> c \<noteq> 13)"

primrec check_text :: "buf \<Rightarrow> nat \<Rightarrow> nat \<Rightarrow> bool option" where
  "check_text s i 0 = Some True"
| "check_text s i (Suc n) =
     (case rd_byte s i of
        None \<Rightarrow> None
      | Some c \<Rightarrow> if \<not> text_byte c then Some False else check_text s (Suc i) n)"

definition validate_string_input :: "buf option \<Rightarrow> nat \<Rightarrow> bool option" where
  "validate_string_input str max_len =
     (case str of
        None \<Rightarrow> Some False
      | Some s \<Rightarrow>
          (case find_end s max_len 0 max_len of
             None \<Rightarrow> None
           | Some None \<Rightarrow> Some False
           | Some (Some len) \<Rightarrow> check_text s 0 len))"

definition validate_pointer :: "'a option \<Rightarrow> bool" where
  "validate_pointer ptr \<longleftrightarrow> ptr \<noteq> None"

definition validate_range :: "64 word \<Rightarrow> 64 word \<Rightarrow> 64 word \<Rightarrow> bool" where
  "validate_range value min_val max_val \<longleftrightarrow> min_val \<le>s value \<and> value \<le>s max_val"

primrec ascii_from :: "buf \<Rightarrow> nat \<Rightarrow> nat \<Rightarrow> bool option" where
  "ascii_from s i 0 = Some True"
| "ascii_from s i (Suc n) =
     (case rd_byte s i of
        None \<Rightarrow> None
      | Some c \<Rightarrow> if c = 0 then Some True else if c > 0x7F then Some False else ascii_from s (Suc i) n)"

definition is_valid_ascii :: "buf option \<Rightarrow> nat \<Rightarrow> bool option" where
  "is_valid_ascii str len = (case str of None \<Rightarrow> Some False | Some s \<Rightarrow> ascii_from s 0 len)"

text \<open>The allocation wrappers: the number of bytes requested, or \<open>None\<close> for a refused request.\<close>

definition safe_malloc :: "u64 \<Rightarrow> u64 option" where
  "safe_malloc sz = (if sz = 0 then None else Some sz)"

definition safe_calloc :: "u64 \<Rightarrow> u64 \<Rightarrow> u64 option" where
  "safe_calloc count sz =
     (if count = 0 \<or> sz = 0 then None
      else if count > (- 1) div sz then None
      else Some (count * sz))"

definition safe_realloc :: "u64 \<Rightarrow> u64 option" where
  "safe_realloc new_size = (if new_size = 0 then None else Some new_size)"

subsection \<open>Buffers and strings\<close>

lemma strE:
  assumes "0 \<in> set s"
  obtains r where "s = str_of s @ 0 # r" "0 \<notin> set (str_of s)" "str_len s = Some (length (str_of s))"
proof -
  from assms obtain x r where "dropWhile (\<lambda>x. x \<noteq> 0) s = x # r"
    by (metis (mono_tags, lifting) dropWhile_eq_Nil_conv neq_Nil_conv)
  moreover from this have "x = 0" by (metis (mono_tags, lifting) dropWhile_eq_Cons_conv)
  ultimately have "s = str_of s @ 0 # r" by (metis str_of_def takeWhile_dropWhile_id)
  with that assms show ?thesis by (auto simp: str_len_def str_of_def dest: set_takeWhileD)
qed

lemma str_of_append [simp]: "0 \<notin> set t \<Longrightarrow> str_of (t @ 0 # r) = t"
  unfolding str_of_def by (induction t) auto

lemma str_len_append [simp]: "0 \<notin> set t \<Longrightarrow> str_len (t @ 0 # r) = Some (length t)"
  by (simp add: str_len_def)

lemma wr_at_end: "wr_byte (t @ x # r) (length t) v = Some (t @ v # r)"
  by (simp add: wr_byte_def)

text \<open>Writing \<open>t\<close> and a terminator at \<open>off\<close>, the shape of every successful store here.\<close>

lemma store_str:
  assumes "n \<le> length s" "off + n < length d"
  shows "\<exists>d1. mem_cpy d off s n = Some d1 \<and>
           wr_byte d1 (off + n) 0 = Some (take off d @ take n s @ 0 # drop (Suc (off + n)) d)"
proof -
  have "drop (off + n) d = d ! (off + n) # drop (Suc (off + n)) d"
    using assms(2) by (simp add: Cons_nth_drop_Suc)
  moreover have "length (take off d @ take n s) = off + n" using assms by simp
  ultimately show ?thesis
    using assms wr_at_end [of "take off d @ take n s"] by (simp add: mem_cpy_def)
qed

lemma mem_cpy_str:
  assumes "0 \<notin> set t" "off + length t < length d"
  shows "mem_cpy d off (t @ 0 # r) (length t + 1) = Some (take off d @ t @ 0 # drop (Suc (off + length t)) d)"
  using assms by (simp add: mem_cpy_def)

lemma notin_take: "x \<notin> set xs \<Longrightarrow> x \<notin> set (take n xs)"
  by (meson in_set_takeD)

subsection \<open>Copying and appending\<close>

text \<open>C16: \<open>safe_strcpy\<close> into a buffer of at least the announced size never writes outside it, always
  leaves a terminated string that is the longest prefix of the source that fits, reports success
  exactly when nothing was cut off, and keeps every byte past the announced size.\<close>

theorem safe_strcpy_correct:
  assumes "0 < n" "n \<le> length d" "0 \<in> set s"
  shows "\<exists>d'. safe_strcpy (Some d) (Some s) n =
              Some (if length (str_of s) < n then 0 else AIRY_ERR_OVERFLOW, Some d') \<and>
           length d' = length d \<and> str_of d' = take (n - 1) (str_of s) \<and> 0 \<in> set (take n d') \<and>
           drop n d' = drop n d"
proof -
  obtain r where s: "s = str_of s @ 0 # r" "0 \<notin> set (str_of s)" "str_len s = Some (length (str_of s))"
    using strE [OF assms(3)] by blast
  let ?t = "str_of s"
  show ?thesis
  proof (cases "length ?t < n")
    case True
    then have "mem_cpy d 0 s (length ?t + 1) = Some (?t @ 0 # drop (Suc (length ?t)) d)"
      using mem_cpy_str [OF s(2), of 0 d r] assms(2) s(1) by simp
    with True s assms show ?thesis by (simp add: safe_strcpy_def drop_Cons' take_Cons')
  next
    case False
    then have "n - 1 \<le> length s" by (subst s(1)) simp
    moreover have "n - 1 < length d" using assms by simp
    ultimately obtain d1 where
      "mem_cpy d 0 s (n - 1) = Some d1" "wr_byte d1 (n - 1) 0 = Some (take (n - 1) s @ 0 # drop n d)"
      using store_str [of "n - 1" s 0 d] assms(1) by auto
    moreover have "take (n - 1) s = take (n - 1) ?t" using False by (subst s(1)) simp
    ultimately show ?thesis using False s assms notin_take [OF s(2), of "n - 1"]
      by (simp add: safe_strcpy_def)
  qed
qed

theorem safe_strcpy_correct_witness:
  "0 < (3 :: nat) \<and> (0 :: byte) \<in> set [104, 105, 33, 0] \<and>
   (\<exists>d'. safe_strcpy (Some [1, 2, 3, 4]) (Some [104, 105, 33, 0]) 3 = Some (AIRY_ERR_OVERFLOW, Some d') \<and>
      str_of d' = [104, 105] \<and> drop 3 d' = [4])"
  using safe_strcpy_correct [of 3 "[1, 2, 3, 4]" "[104, 105, 33, 0]"] by (auto simp: str_of_def)

text \<open>\<open>Safe_strcat\<close> on a terminated destination within its announced size appends as much of
  the source as fits, never writes outside, stays terminated and reports success exactly when the
  whole source was appended.\<close>

theorem safe_strcat_correct:
  assumes "n \<le> length d" "length (str_of d) < n" "0 \<in> set d" "0 \<in> set s"
  shows "\<exists>d'. safe_strcat (Some d) (Some s) n =
              Some (if length (str_of d) + length (str_of s) < n then 0 else AIRY_ERR_OVERFLOW, Some d') \<and>
           length d' = length d \<and> str_of d' = take (n - 1) (str_of d @ str_of s) \<and> drop n d' = drop n d"
proof -
  obtain r where s: "s = str_of s @ 0 # r" "0 \<notin> set (str_of s)" "str_len s = Some (length (str_of s))"
    using strE [OF assms(4)] by blast
  obtain q where d: "d = str_of d @ 0 # q" "0 \<notin> set (str_of d)" "str_len d = Some (length (str_of d))"
    using strE [OF assms(3)] by blast
  let ?t = "str_of s" and ?u = "str_of d"
  have u: "take (length ?u) d = ?u" by (metis append_eq_conv_conj d(1))
  show ?thesis
  proof (cases "length ?u + length ?t < n")
    case True
    then have "mem_cpy d (length ?u) s (length ?t + 1) = Some (?u @ ?t @ 0 # drop (Suc (length ?u + length ?t)) d)"
      using mem_cpy_str [OF s(2), of "length ?u" d r] assms(1) s(1) u by simp
    moreover have "str_of ((?u @ ?t) @ 0 # drop (Suc (length ?u + length ?t)) d) = ?u @ ?t"
      using s(2) d(2) by (intro str_of_append) auto
    moreover have "\<not> length ?t > n - length ?u - 1" "Suc (length d - 1) = length d" using True assms(1) by auto
    ultimately show ?thesis using True s(3) d(3) assms(1,2) by (simp add: safe_strcat_def drop_Cons')
  next
    case False
    let ?k = "n - length ?u - 1"
    have "?k \<le> length s" using False by (subst s(1)) simp
    moreover have "length ?u + ?k < length d" "length ?u + ?k = n - 1" using assms(1,2) by auto
    ultimately obtain d1 where d1: "mem_cpy d (length ?u) s ?k = Some d1"
      "wr_byte d1 (length ?u + ?k) 0 = Some ((?u @ take ?k s) @ 0 # drop n d)"
      using store_str [of ?k s "length ?u" d] u assms(2) by auto
    have k: "take ?k s = take ?k ?t" using False by (subst s(1)) simp
    have "str_of ((?u @ take ?k ?t) @ 0 # drop n d) = ?u @ take ?k ?t"
      using s(2) d(2) by (intro str_of_append) (auto dest: in_set_takeD)
    moreover have "length ?t > ?k" "Suc (length d - 1) = length d" using False assms(1,2) by auto
    ultimately show ?thesis using False k d1 s(3) d(3) assms(1,2)
      by (simp add: safe_strcat_def Let_def)
  qed
qed

theorem safe_strcat_correct_witness:
  "\<exists>d'. safe_strcat (Some [97, 0, 7, 7, 9]) (Some [98, 99, 100, 0]) 4 = Some (AIRY_ERR_OVERFLOW, Some d') \<and>
     str_of d' = [97, 98, 99] \<and> drop 4 d' = [9]"
  using safe_strcat_correct [of 4 "[97, 0, 7, 7, 9]" "[98, 99, 100, 0]"] by (auto simp: str_of_def)

subsection \<open>Comparing\<close>

lemma rd_byte_append [simp]: "length u = i \<Longrightarrow> rd_byte (u @ c # r) i = Some c"
  by (auto simp: rd_byte_def nth_append)

lemma uint_diff_sign:
  fixes a b :: byte
  shows "uint a - uint b \<noteq> 0 \<longleftrightarrow> a \<noteq> b" "uint a - uint b < 0 \<longleftrightarrow> a < b"
  by (auto simp: word_less_def word_uint_eq_iff)

lemma strcmp_from_ok:
  assumes "length u1 = i" "length u2 = i" "0 \<notin> set t1" "0 \<notin> set t2"
  shows "\<exists>r. strcmp_from (u1 @ t1 @ 0 # r1) (u2 @ t2 @ 0 # r2) i n = Some r \<and>
           (r = 0 \<longleftrightarrow> take n t1 = take n t2) \<and> (r < 0 \<longleftrightarrow> ord_class.lexordp (take n t1) (take n t2))"
  using assms
proof (induction n arbitrary: i u1 u2 t1 t2)
  case 0
  then show ?case by simp
next
  case (Suc n)
  show ?case
  proof (cases t1; cases t2)
    fix a x b y assume t: "t1 = a # x" "t2 = b # y"
    with Suc.prems have "a \<noteq> 0" "b \<noteq> 0" "0 \<notin> set x" "0 \<notin> set y" by auto
    with Suc.IH [of "u1 @ [a]" "Suc i" "u2 @ [b]" x y] Suc.prems t uint_diff_sign [of a b] show ?thesis
      by (cases "a = b") auto
  qed (use Suc.prems in \<open>auto simp: AIRY_ERR_PARSE_ERROR_def\<close>)
qed

text \<open>\<open>Safe_strcmp\<close> on terminated strings never reads outside them and orders their first
  \<open>max_len\<close> bytes lexicographically as unsigned bytes: zero for equal, negative for smaller.\<close>

theorem safe_strcmp_order:
  assumes "0 \<in> set s1" "0 \<in> set s2"
  shows "\<exists>r. safe_strcmp (Some s1) (Some s2) max_len = Some r \<and>
           (r = 0 \<longleftrightarrow> take max_len (str_of s1) = take max_len (str_of s2)) \<and>
           (r < 0 \<longleftrightarrow> ord_class.lexordp (take max_len (str_of s1)) (take max_len (str_of s2)))"
proof -
  obtain r1 where 1: "s1 = str_of s1 @ 0 # r1" "0 \<notin> set (str_of s1)" using strE [OF assms(1)] by blast
  obtain r2 where 2: "s2 = str_of s2 @ 0 # r2" "0 \<notin> set (str_of s2)" using strE [OF assms(2)] by blast
  have "safe_strcmp (Some s1) (Some s2) max_len =
      strcmp_from ([] @ str_of s1 @ 0 # r1) ([] @ str_of s2 @ 0 # r2) 0 max_len"
    using 1(1) 2(1) by (simp add: safe_strcmp_def)
  then show ?thesis using strcmp_from_ok [of "[]" 0 "[]" "str_of s1" "str_of s2" r1 r2 max_len] 1(2) 2(2) by simp
qed

theorem safe_strcmp_order_witness:
  "\<exists>r. safe_strcmp (Some [97, 98, 0]) (Some [97, 200, 0]) 10 = Some r \<and> r < 0"
  using safe_strcmp_order [of "[97, 98, 0]" "[97, 200, 0]" 10] by (auto simp: str_of_def)

subsection \<open>Validating\<close>

lemma find_end_ok:
  assumes "length u = i" "i + n = m" "0 \<notin> set t"
  shows "find_end (u @ t @ 0 # r) m i n =
           Some (if n = 0 then Some 0 else if length t < n then Some (i + length t) else None)"
  using assms
proof (induction n arbitrary: i u t)
  case 0
  then show ?case by simp
next
  case (Suc n)
  show ?case
  proof (cases t)
    case Nil
    with Suc.prems show ?thesis by simp
  next
    case (Cons a x)
    with Suc.prems have "a \<noteq> 0" "0 \<notin> set x" by auto
    with Suc.IH [of "u @ [a]" "Suc i" x] Suc.prems Cons show ?thesis by (cases "n = 0") auto
  qed
qed

lemma check_text_ok:
  "length u = i \<Longrightarrow> check_text (u @ t @ r) i (length t) = Some (list_all text_byte t)"
proof (induction t arbitrary: i u)
  case (Cons a t)
  from Cons.IH [of "u @ [a]" "Suc i"] Cons.prems show ?case by simp
qed simp

text \<open>\<open>Validate_string_input\<close> on a terminated string answers without reading past the
  terminator or the limit: it accepts exactly when the limit is 0, or the string ends within the limit
  and holds no control character other than tab, line feed and carriage return.\<close>

theorem validate_string_input_correct:
  assumes "0 \<in> set s"
  shows "validate_string_input (Some s) max_len =
           Some (max_len = 0 \<or> length (str_of s) < max_len \<and> list_all text_byte (str_of s))"
proof -
  obtain r where s: "s = str_of s @ 0 # r" "0 \<notin> set (str_of s)" using strE [OF assms] by blast
  have "find_end s max_len 0 max_len =
      Some (if max_len = 0 then Some 0 else if length (str_of s) < max_len then Some (length (str_of s)) else None)"
    using find_end_ok [of "[]" 0 max_len max_len "str_of s" r] s by simp
  moreover have "check_text s 0 (length (str_of s)) = Some (list_all text_byte (str_of s))"
    using check_text_ok [of "[]" 0 "str_of s" "0 # r"] s(1) by simp
  ultimately show ?thesis by (auto simp: validate_string_input_def)
qed

theorem validate_string_input_correct_witness:
  "validate_string_input (Some [72, 9, 105, 0]) 16 = Some True \<and>
   validate_string_input (Some [72, 7, 105, 0]) 16 = Some False"
  using validate_string_input_correct [of "[72, 9, 105, 0]" 16]
    validate_string_input_correct [of "[72, 7, 105, 0]" 16] by (simp add: str_of_def text_byte_def)

subsection \<open>Allocation sizes\<close>

text \<open>The overflow guard of \<open>safe_calloc\<close> is exact: a request goes to the allocator precisely when
  both factors are non-zero and their product is below \<open>2^64\<close>, and then the number of
  bytes asked for is the true product.\<close>

theorem safe_calloc_exact:
  "safe_calloc count sz =
     (if count \<noteq> 0 \<and> sz \<noteq> 0 \<and> unat count * unat sz < 2 ^ 64 then Some (of_nat (unat count * unat sz)) else None)"
proof (cases "count = 0 \<or> sz = 0")
  case True
  then show ?thesis by (auto simp: safe_calloc_def)
next
  case False
  then have z: "unat sz > 0" by (simp add: unat_gt_0)
  have "unat ((- 1 :: u64) div sz) = (2 ^ 64 - 1) div unat sz"
    by (simp add: unat_div_distrib unsigned_minus_1_eq_mask mask_eq_exp_minus_1)
  then have "count > (- 1) div sz \<longleftrightarrow> unat count > (2 ^ 64 - 1) div unat sz"
    by (simp add: word_less_nat_alt)
  also have "\<dots> \<longleftrightarrow> \<not> unat count * unat sz \<le> 2 ^ 64 - 1"
    by (simp only: not_le [symmetric] less_eq_div_iff_mult_less_eq [OF z])
  also have "\<dots> \<longleftrightarrow> \<not> unat count * unat sz < 2 ^ 64" by auto
  finally show ?thesis using False by (simp add: safe_calloc_def)
qed

text \<open>Duplicating a string with a limit gives a fresh terminated buffer, sized to its content, that
  holds the source cut to the limit, where the limit 0 means no limit.\<close>

theorem safe_strdup_with_limit_correct:
  assumes "0 \<in> set s"
  shows "safe_strdup_with_limit True (Some s) limit =
           Some (Some ((if limit = 0 then str_of s else take limit (str_of s)) @ [0]))"
proof -
  obtain r where s: "s = str_of s @ 0 # r" "0 \<notin> set (str_of s)" "str_len s = Some (length (str_of s))"
    using strE [OF assms] by blast
  define len where "len = (if limit > 0 \<and> length (str_of s) > limit then limit else length (str_of s))"
  have le: "len \<le> length (str_of s)" by (simp add: len_def)
  then have "len \<le> length s" by (subst s(1)) simp
  with store_str [of len s 0 "replicate (len + 1) 0"] obtain c1 where
    "mem_cpy (replicate (len + 1) 0) 0 s len = Some c1" "wr_byte c1 len 0 = Some (take len s @ [0])" by auto
  moreover have "take len s = take len (str_of s)" using le by (subst s(1)) simp
  moreover have "take len (str_of s) = (if limit = 0 then str_of s else take limit (str_of s))"
    by (simp add: len_def)
  ultimately show ?thesis using s(3) by (simp add: safe_strdup_with_limit_def Let_def len_def [symmetric])
qed

theorem safe_strdup_with_limit_correct_witness:
  "safe_strdup_with_limit True (Some [104, 105, 33, 0, 5]) 2 = Some (Some [104, 105, 0])"
  using safe_strdup_with_limit_correct [of "[104, 105, 33, 0, 5]" 2] by (simp add: str_of_def)

end
