(* ===== verification/Safe_Utf8.thy ===== *)
theory Safe_Utf8
  imports Safe_String
begin

section \<open>UTF-8 validation and repair (\<open>utils/string/safe_utf8.c\<close>)\<close>

text \<open>
  One decoder primitive serves the validator and the sanitizer. The model reads its
  input through bounds-checked accesses, a pointer \<open>s + i\<close> being the rest of the buffer from \<open>i\<close>
  on, and keeps the code point a 32-bit word. The specification is the encoder of RFC 3629.

  Shown: the decoder accepts exactly the encodings of Unicode scalar values and is inverse to
  the encoder, the validator accepts exactly their concatenations, the sanitizer always writes a
  valid text within the capacity, and the prefix cut never leaves a broken sequence behind.
\<close>

subsection \<open>Decoding one sequence\<close>

definition kMinCp :: "nat \<Rightarrow> u32" where
  "kMinCp n = [0, 0, 0x80, 0x800, 0x10000] ! n"

definition kRepl :: "byte list" where
  "kRepl = [0xEF, 0xBF, 0xBD]"

definition utf8_seq_len :: "byte \<Rightarrow> nat" where
  "utf8_seq_len first =
     (if first < 0x80 then 1
      else if first AND 0xE0 = 0xC0 then 2
      else if first AND 0xF0 = 0xE0 then 3
      else if first AND 0xF8 = 0xF0 then 4
      else 0)"

text \<open>The loops over the continuation bytes, from index \<open>j\<close> with \<open>k\<close> rounds left.\<close>

primrec cont_ok_from :: "buf \<Rightarrow> nat \<Rightarrow> nat \<Rightarrow> bool option" where
  "cont_ok_from s j 0 = Some True"
| "cont_ok_from s j (Suc k) =
     (case rd_byte s j of
        None \<Rightarrow> None
      | Some c \<Rightarrow> if c AND 0xC0 \<noteq> 0x80 then Some False else cont_ok_from s (Suc j) k)"

definition utf8_cont_ok :: "buf \<Rightarrow> nat \<Rightarrow> bool option" where
  "utf8_cont_ok s n = cont_ok_from s 1 (n - 1)"

primrec cp_from :: "buf \<Rightarrow> nat \<Rightarrow> nat \<Rightarrow> u32 \<Rightarrow> u32 option" where
  "cp_from s j 0 cp = Some cp"
| "cp_from s j (Suc k) cp =
     (case rd_byte s j of
        None \<Rightarrow> None
      | Some c \<Rightarrow> cp_from s (Suc j) k (push_bit 6 cp OR (ucast c AND 0x3F)))"

definition utf8_cp :: "buf \<Rightarrow> nat \<Rightarrow> u32 option" where
  "utf8_cp s n =
     (case rd_byte s 0 of
        None \<Rightarrow> None
      | Some c \<Rightarrow> cp_from s 1 (n - 1) (if n = 1 then ucast c else ucast c AND drop_bit (n + 1) 0xFF))"

definition utf8_cp_ok :: "u32 \<Rightarrow> u32 \<Rightarrow> bool" where
  "utf8_cp_ok cp min_cp = (if cp < min_cp \<or> cp > 0x10FFFF then False else cp < 0xD800 \<or> cp > 0xDFFF)"

text \<open>Length and code point, \<open>Some None\<close> for \<open>false\<close>, \<open>None\<close> for a read outside the buffer.\<close>

definition utf8_decode :: "buf option \<Rightarrow> nat \<Rightarrow> (nat \<times> u32) option option" where
  "utf8_decode s avail =
     (case s of
        None \<Rightarrow> Some None
      | Some s \<Rightarrow>
          (case rd_byte s 0 of
             None \<Rightarrow> None
           | Some first \<Rightarrow>
               let len = utf8_seq_len first in
               if len = 0 \<or> len > avail then Some None
               else (case utf8_cont_ok s len of
                       None \<Rightarrow> None
                     | Some False \<Rightarrow> Some None
                     | Some True \<Rightarrow>
                         (case utf8_cp s len of
                            None \<Rightarrow> None
                          | Some v \<Rightarrow> if \<not> utf8_cp_ok v (kMinCp len) then Some None else Some (Some (len, v))))))"

definition utf8_unit :: "buf \<Rightarrow> nat \<Rightarrow> (nat \<times> bool) option" where
  "utf8_unit s avail =
     (case utf8_decode (Some s) avail of
        None \<Rightarrow> None
      | Some (Some (n, cp)) \<Rightarrow> Some (n, True)
      | Some None \<Rightarrow>
          (case rd_byte s 0 of
             None \<Rightarrow> None
           | Some c \<Rightarrow>
               let len = utf8_seq_len c in Some (if len = 0 \<or> len > avail then 1 else len, False)))"

lemma utf8_unit_pos: "utf8_unit s avail = Some (n, v) \<Longrightarrow> 0 < n"
  by (auto simp: utf8_unit_def utf8_decode_def Let_def utf8_seq_len_def split: option.splits if_splits bool.splits)

subsection \<open>Validation, repair and cutting\<close>

function validate_from :: "buf \<Rightarrow> nat \<Rightarrow> nat \<Rightarrow> bool option" where
  "validate_from str len i =
     (if i < len then
        (case rd_byte str i of
           None \<Rightarrow> None
         | Some c \<Rightarrow>
             if c = 0 then Some True
             else (case utf8_unit (drop i str) (len - i) of
                     None \<Rightarrow> None
                   | Some (n, valid) \<Rightarrow> if \<not> valid then Some False else validate_from str len (i + n)))
      else Some True)"
  by pat_completeness auto
termination by (relation "measure (\<lambda>(s, len, i). len - i)") (auto dest!: utf8_unit_pos)

definition utf8_validate :: "buf option \<Rightarrow> nat \<Rightarrow> bool option" where
  "utf8_validate str len = (case str of None \<Rightarrow> Some False | Some s \<Rightarrow> validate_from s len 0)"

function sanitize_from :: "buf \<Rightarrow> nat \<Rightarrow> buf \<Rightarrow> nat \<Rightarrow> nat \<Rightarrow> nat \<Rightarrow> (buf \<times> nat) option" where
  "sanitize_from inp len out out_cap i written =
     (if i < len then
        (case utf8_unit (drop i inp) (len - i) of
           None \<Rightarrow> None
         | Some (n, valid) \<Rightarrow>
             let chunk = (if valid then drop i inp else kRepl);
                 chunk_len = (if valid then n else length kRepl)
             in if written + chunk_len + 1 > out_cap then Some (out, written)
                else (case mem_cpy out written chunk chunk_len of
                        None \<Rightarrow> None
                      | Some out' \<Rightarrow>
                          sanitize_from inp len out' out_cap (i + (if valid then n else 1)) (written + chunk_len)))
      else Some (out, written))"
  by pat_completeness auto
termination by (relation "measure (\<lambda>(inp, len, out, cap, i, w). len - i)") (auto dest!: utf8_unit_pos)

definition utf8_sanitize :: "buf option \<Rightarrow> nat \<Rightarrow> buf option \<Rightarrow> nat \<Rightarrow> (nat \<times> buf option) option" where
  "utf8_sanitize inp len out out_cap =
     (case (inp, out) of
        (Some s, Some d) \<Rightarrow>
          if out_cap = 0 then Some (0, Some d)
          else do {
            (d1, written) \<leftarrow> sanitize_from s len d out_cap 0 0;
            d2 \<leftarrow> wr_byte d1 written 0;
            Some (written, Some d2)
          }
      | _ \<Rightarrow> Some (0, out))"

text \<open>The backward loop of \<open>utf8_prefix_len\<close> over trailing continuation bytes.\<close>

primrec skip_cont :: "buf \<Rightarrow> nat \<Rightarrow> nat option" where
  "skip_cont s 0 = Some 0"
| "skip_cont s (Suc k) =
     (case rd_byte s k of None \<Rightarrow> None | Some c \<Rightarrow> if c AND 0xC0 = 0x80 then skip_cont s k else Some (Suc k))"

definition utf8_prefix_len :: "buf option \<Rightarrow> nat \<Rightarrow> nat option" where
  "utf8_prefix_len s len =
     (case s of
        None \<Rightarrow> Some 0
      | Some s \<Rightarrow>
          if len = 0 then Some 0
          else do {
            k \<leftarrow> skip_cont s len;
            if k = 0 then Some 0
            else do {
              c \<leftarrow> rd_byte s (k - 1);
              let need = utf8_seq_len c;
              Some (if need = 0 \<or> len - (k - 1) < need then k - 1 else len)
            }
          })"

declare validate_from.simps [simp del] sanitize_from.simps [simp del]

subsection \<open>Bytes as numbers\<close>

lemma and_high_mask: "(x :: nat) AND push_bit k (mask m) = 2 ^ k * (x div 2 ^ k mod 2 ^ m)"
proof -
  have "x AND push_bit k (mask m) = push_bit k (take_bit m (drop_bit k x))"
    by (rule bit_eqI) (auto simp: bit_simps)
  then show ?thesis by (simp add: push_bit_eq_mult drop_bit_eq_div take_bit_eq_mod)
qed

lemma byte_and_high:
  "unat (b AND 0xE0 :: byte) = 32 * (unat b div 32)" "unat (b AND 0xF0 :: byte) = 16 * (unat b div 16)"
  "unat (b AND 0xF8 :: byte) = 8 * (unat b div 8)" "unat (b AND 0xC0 :: byte) = 64 * (unat b div 64)"
  using and_high_mask [of "unat b" 5 3] and_high_mask [of "unat b" 4 4] and_high_mask [of "unat b" 3 5]
    and_high_mask [of "unat b" 6 2] byte_lt [of b]
  by (simp_all add: unsigned_and_eq mask_eq_exp_minus_1 push_bit_eq_mult)

lemma utf8_seq_len_nat:
  "utf8_seq_len b =
     (let x = unat b in if x < 128 then 1 else if x < 192 then 0 else if x < 224 then 2
      else if x < 240 then 3 else if x < 248 then 4 else 0)"
  using byte_lt [of b]
  by (auto simp: utf8_seq_len_def Let_def word_unat_eq_iff byte_and_high word_less_nat_alt)

lemma cont_byte_nat: "b AND 0xC0 = (0x80 :: byte) \<longleftrightarrow> 128 \<le> unat b \<and> unat b < 192"
  using byte_lt [of b] by (auto simp: word_unat_eq_iff byte_and_high)

lemma ucast_and_mask: "unat ((ucast (b :: byte) :: u32) AND mask k) = unat b mod 2 ^ k"
proof -
  have "unat ((ucast b :: u32) AND mask k) = take_bit k (unat (ucast b :: u32))"
    by (simp add: unsigned_take_bit_eq flip: take_bit_eq_mask)
  then show ?thesis by (simp add: unat_ucast_up take_bit_eq_mod)
qed

lemma ucast_and_payload:
  "unat ((ucast (b :: byte) :: u32) AND 0x3F) = unat b mod 64" "unat ((ucast (b :: byte) :: u32) AND 0x1F) = unat b mod 32"
  "unat ((ucast (b :: byte) :: u32) AND 0xF) = unat b mod 16" "unat ((ucast (b :: byte) :: u32) AND 7) = unat b mod 8"
  using ucast_and_mask [of b 6] ucast_and_mask [of b 5] ucast_and_mask [of b 4] ucast_and_mask [of b 3]
  by (simp_all add: mask_eq_exp_minus_1)

lemma push_or_add: "(y :: nat) < 64 \<Longrightarrow> push_bit 6 x OR y = 64 * x + y"
proof -
  assume y: "y < 64"
  then have "take_bit 6 y = y" by (simp add: take_bit_nat_eq_self)
  then have "\<not> (6 \<le> n \<and> bit y n)" for n by (metis bit_take_bit_iff leD)
  then have "push_bit 6 x + y = push_bit 6 x OR y" by (intro disjunctive_add) (auto simp: bit_simps)
  then show ?thesis by (simp add: push_bit_eq_mult)
qed

lemma cp_step:
  assumes "unat cp = x" "x < 2 ^ 20"
  shows "unat (push_bit 6 cp OR ((ucast (c :: byte) :: u32) AND 0x3F)) = 64 * x + unat c mod 64"
proof -
  have "unat (push_bit 6 cp) = push_bit 6 x"
    using assms by (simp add: push_bit_eq_mult unat_word_ariths)
  then show ?thesis by (simp add: unsigned_or_eq ucast_and_payload push_or_add)
qed

subsection \<open>The encoder of RFC 3629\<close>

definition scalar :: "nat \<Rightarrow> bool" where
  "scalar cp \<longleftrightarrow> cp \<le> 0x10FFFF \<and> \<not> (0xD800 \<le> cp \<and> cp \<le> 0xDFFF)"

definition utf8_enc :: "nat \<Rightarrow> nat list" where
  "utf8_enc cp =
     (if cp < 0x80 then [cp]
      else if cp < 0x800 then [0xC0 + cp div 64, 0x80 + cp mod 64]
      else if cp < 0x10000 then [0xE0 + cp div 4096, 0x80 + cp div 64 mod 64, 0x80 + cp mod 64]
      else [0xF0 + cp div 262144, 0x80 + cp div 4096 mod 64, 0x80 + cp div 64 mod 64, 0x80 + cp mod 64])"

definition utf8_encode :: "nat \<Rightarrow> byte list" where
  "utf8_encode cp = map of_nat (utf8_enc cp)"

lemma cont_ok_from_ok:
  "j + k \<le> length s \<Longrightarrow>
   cont_ok_from s j k = Some (\<forall>c \<in> set (take k (drop j s)). 128 \<le> unat c \<and> unat c < 192)"
proof (induction k arbitrary: j)
  case (Suc k)
  then have "drop j s = s ! j # drop (Suc j) s" by (simp add: Cons_nth_drop_Suc)
  with Suc show ?case by (auto simp: rd_byte_def cont_byte_nat)
qed simp

text \<open>The four shapes of a sequence, with the code point as a number.\<close>

lemma decode_0:
  "utf8_seq_len b = 0 \<or> utf8_seq_len b > avail \<Longrightarrow> utf8_decode (Some (b # s)) avail = Some None"
  by (auto simp: utf8_decode_def rd_byte_def Let_def)

definition cp_result :: "nat \<Rightarrow> nat \<Rightarrow> nat \<Rightarrow> (nat \<times> u32) option" where
  "cp_result n mn v = (if mn \<le> v \<and> scalar v then Some (n, of_nat v) else None)"

lemma cp_resultI:
  assumes "unat v = x" "unat m = mn"
  shows "(if \<not> utf8_cp_ok v m then Some None else Some (Some (n, v))) = Some (cp_result n mn x)"
proof -
  have "utf8_cp_ok v m \<longleftrightarrow> mn \<le> x \<and> scalar x"
    using assms by (auto simp: utf8_cp_ok_def scalar_def word_less_nat_alt)
  moreover have "of_nat x = v" using assms(1) by auto
  ultimately show ?thesis by (simp add: cp_result_def)
qed

definition conts :: "byte list \<Rightarrow> bool" where
  "conts cs \<longleftrightarrow> (\<forall>c \<in> set cs. 128 \<le> unat c \<and> unat c < 192)"

lemma conts_simps [simp]: "conts []" "conts (c # cs) \<longleftrightarrow> 128 \<le> unat c \<and> unat c < 192 \<and> conts cs"
  by (auto simp: conts_def)

lemma cp_from_numeral:
  "cp_from s j (numeral k) cp =
     (case rd_byte s j of
        None \<Rightarrow> None
      | Some c \<Rightarrow> cp_from s (Suc j) (pred_numeral k) (push_bit 6 cp OR (ucast c AND 0x3F)))"
  by (simp add: numeral_eq_Suc)

lemma lead_masks: "drop_bit 3 (0xFF :: u32) = 0x1F" "drop_bit 4 (0xFF :: u32) = 0xF" "drop_bit 5 (0xFF :: u32) = 7"
  by (simp_all add: drop_bit_eq_div)

lemma decode_1:
  assumes "utf8_seq_len b = 1" "1 \<le> avail"
  shows "utf8_decode (Some (b # s)) avail = Some (cp_result 1 0 (unat b))"
  using assms cp_resultI [of "ucast b :: u32" "unat b" 0 0 1]
  by (auto simp: utf8_decode_def rd_byte_def utf8_cont_ok_def utf8_cp_def kMinCp_def unat_ucast_up split: if_splits)

lemma decode_2:
  assumes "utf8_seq_len b = 2" "2 \<le> avail"
  shows "utf8_decode (Some (b # c # s)) avail =
           Some (if conts [c] then cp_result 2 0x80 (64 * (unat b mod 32) + unat c mod 64) else None)"
proof -
  let ?v = "push_bit 6 ((ucast b :: u32) AND 0x1F) OR (ucast c AND 0x3F)"
  have v: "unat ?v = 64 * (unat b mod 32) + unat c mod 64"
    by (rule cp_step) (simp_all add: ucast_and_payload)
  have "utf8_cp (b # c # s) 2 = Some ?v"
    by (simp add: utf8_cp_def rd_byte_def lead_masks)
  then show ?thesis
    using assms cont_ok_from_ok [of 1 1 "b # c # s"] cp_resultI [where m = "0x80" and mn = "0x80" and n = 2, OF v]
    by (auto simp: utf8_decode_def rd_byte_def utf8_cont_ok_def kMinCp_def split: if_splits)
qed

lemma horner_lt:
  fixes x y z :: nat
  shows "64 * (x mod 16) + y mod 64 < 1048576" "64 * (x mod 8) + y mod 64 < 1048576"
    "64 * (64 * (x mod 8) + y mod 64) + z mod 64 < 1048576"
proof -
  have m: "x mod 16 < 16" "x mod 8 < 8" "y mod 64 < 64" "z mod 64 < 64" by simp_all
  then show "64 * (x mod 16) + y mod 64 < 1048576" "64 * (x mod 8) + y mod 64 < 1048576" by linarith+
  have "64 * w + z mod 64 < 1048576" if "w \<le> 511" for w using that m(4) by linarith
  moreover have "64 * (x mod 8) + y mod 64 \<le> 511" using m by linarith
  ultimately show "64 * (64 * (x mod 8) + y mod 64) + z mod 64 < 1048576" by blast
qed

lemma decode_3:
  assumes "utf8_seq_len b = 3" "3 \<le> avail"
  shows "utf8_decode (Some (b # c # d # s)) avail =
           Some (if conts [c, d]
                 then cp_result 3 0x800 (64 * (64 * (unat b mod 16) + unat c mod 64) + unat d mod 64) else None)"
proof -
  let ?u = "push_bit 6 ((ucast b :: u32) AND 0xF) OR (ucast c AND 0x3F)"
  let ?v = "push_bit 6 ?u OR (ucast d AND 0x3F)"
  have u: "unat ?u = 64 * (unat b mod 16) + unat c mod 64"
    by (rule cp_step) (simp_all add: ucast_and_payload)
  have v: "unat ?v = 64 * (64 * (unat b mod 16) + unat c mod 64) + unat d mod 64"
    by (rule cp_step [OF u]) (simp add: horner_lt)
  have "utf8_cp (b # c # d # s) 3 = Some ?v"
    by (simp add: utf8_cp_def rd_byte_def lead_masks cp_from_numeral)
  then show ?thesis
    using assms cont_ok_from_ok [of 1 2 "b # c # d # s"] cp_resultI [where m = "0x800" and mn = "0x800" and n = 3, OF v]
    by (auto simp: utf8_decode_def rd_byte_def utf8_cont_ok_def kMinCp_def split: if_splits)
qed

lemma decode_4:
  assumes "utf8_seq_len b = 4" "4 \<le> avail"
  shows "utf8_decode (Some (b # c # d # e # s)) avail =
           Some (if conts [c, d, e]
                 then cp_result 4 0x10000
                        (64 * (64 * (64 * (unat b mod 8) + unat c mod 64) + unat d mod 64) + unat e mod 64)
                 else None)"
proof -
  let ?u = "push_bit 6 ((ucast b :: u32) AND 7) OR (ucast c AND 0x3F)"
  let ?w = "push_bit 6 ?u OR (ucast d AND 0x3F)"
  let ?v = "push_bit 6 ?w OR (ucast e AND 0x3F)"
  have u: "unat ?u = 64 * (unat b mod 8) + unat c mod 64"
    by (rule cp_step) (simp_all add: ucast_and_payload)
  have w: "unat ?w = 64 * (64 * (unat b mod 8) + unat c mod 64) + unat d mod 64"
    by (rule cp_step [OF u]) (simp add: horner_lt)
  have v: "unat ?v = 64 * (64 * (64 * (unat b mod 8) + unat c mod 64) + unat d mod 64) + unat e mod 64"
    by (rule cp_step [OF w]) (simp add: horner_lt)
  have "utf8_cp (b # c # d # e # s) 4 = Some ?v"
    by (simp add: utf8_cp_def rd_byte_def lead_masks cp_from_numeral)
  then show ?thesis
    using assms cont_ok_from_ok [of 1 3 "b # c # d # e # s"] cp_resultI [where m = "0x10000" and mn = "0x10000" and n = 4, OF v]
    by (auto simp: utf8_decode_def rd_byte_def utf8_cont_ok_def kMinCp_def split: if_splits)
qed

text \<open>The decoder in numbers: length from the first byte, continuation bytes, value, range.\<close>

definition seq_nat :: "nat \<Rightarrow> nat" where
  "seq_nat x = (if x < 128 then 1 else if x < 192 then 0 else if x < 224 then 2
                else if x < 240 then 3 else if x < 248 then 4 else 0)"

fun cp_val :: "nat list \<Rightarrow> nat" where
  "cp_val [a] = a"
| "cp_val [a, b] = 64 * (a mod 32) + b mod 64"
| "cp_val [a, b, c] = 64 * (64 * (a mod 16) + b mod 64) + c mod 64"
| "cp_val [a, b, c, d] = 64 * (64 * (64 * (a mod 8) + b mod 64) + c mod 64) + d mod 64"
| "cp_val _ = 0"

definition cp_min :: "nat \<Rightarrow> nat" where
  "cp_min n = (if n = 2 then 0x80 else if n = 3 then 0x800 else if n = 4 then 0x10000 else 0)"

lemma seq_nat_eq: "utf8_seq_len b = seq_nat (unat b)"
  by (simp add: utf8_seq_len_nat seq_nat_def Let_def)

lemma seq_nat_range: "seq_nat x \<in> {0, 1, 2, 3, 4}"
  by (simp add: seq_nat_def)

lemma decode_nat:
  assumes "avail \<le> length (b # s)" "0 < avail"
  shows "utf8_decode (Some (b # s)) avail =
     Some (let n = seq_nat (unat b) in
           if n = 0 \<or> n > avail \<or> \<not> conts (take (n - 1) s) then None
           else cp_result n (cp_min n) (cp_val (unat b # map unat (take (n - 1) s))))"
proof (cases "seq_nat (unat b) = 0 \<or> seq_nat (unat b) > avail")
  case True
  then show ?thesis using decode_0 [of b avail s] by (auto simp: seq_nat_eq Let_def)
next
  case False
  then have len: "seq_nat (unat b) \<le> Suc (length s)" "seq_nat (unat b) \<noteq> 0" using assms by auto
  consider "seq_nat (unat b) = 0" | "seq_nat (unat b) = 1" | "seq_nat (unat b) = 2"
    | "seq_nat (unat b) = 3" | "seq_nat (unat b) = 4" using seq_nat_range [of "unat b"] by auto
  then show ?thesis
  proof cases
    case 2
    with decode_1 [of b avail s] False show ?thesis by (simp add: seq_nat_eq cp_min_def)
  next
    case 3
    with len obtain c t where "s = c # t" by (cases s) auto
    with 3 decode_2 [of b avail c t] False show ?thesis by (auto simp: seq_nat_eq cp_min_def)
  next
    case 4
    with len obtain c d t where "s = c # d # t" by (cases s; cases "tl s") auto
    with 4 decode_3 [of b avail c d t] False show ?thesis by (auto simp: seq_nat_eq cp_min_def)
  next
    case 5
    with len obtain c d e t where "s = c # d # e # t" by (cases s; cases "tl s"; cases "tl (tl s)") auto
    with 5 decode_4 [of b avail c d e t] False show ?thesis by (auto simp: seq_nat_eq cp_min_def)
  qed (use len in simp)
qed

text \<open>Base-64 digits, to keep the arithmetic linear.\<close>

lemma digits:
  fixes n :: nat
  obtains q r where "n = 64 * q + r" "n div 64 = q" "n mod 64 = r" "r < 64"
  by (metis mod_less_divisor mult_div_mod_eq zero_less_numeral)

lemma div_4096: "(n :: nat) div 4096 = n div 64 div 64" and div_262144: "n div 262144 = n div 64 div 64 div 64"
  by (simp_all flip: div_mult2_eq)

lemma lead_mod:
  fixes a r :: nat
  shows "a < 32 \<Longrightarrow> (192 + a) mod 32 = a" "a < 16 \<Longrightarrow> (224 + a) mod 16 = a"
    "a < 8 \<Longrightarrow> (240 + a) mod 8 = a" "r < 64 \<Longrightarrow> (128 + r) mod 64 = r"
  using mod_mult_self4 [of 32 6 a] mod_mult_self4 [of 16 14 a] mod_mult_self4 [of 8 30 a] mod_mult_self4 [of 64 2 r]
  by simp_all

lemma enc_shape:
  assumes "scalar cp"
  obtains x xs where "utf8_enc cp = x # xs" "seq_nat x = Suc (length xs)" "\<forall>y \<in> set xs. 128 \<le> y \<and> y < 192"
    "cp_val (x # xs) = cp" "cp_min (Suc (length xs)) \<le> cp" "x < 256"
proof -
  obtain q r where 0: "cp = 64 * q + r" "cp div 64 = q" "cp mod 64 = r" "r < 64" by (rule digits)
  obtain q' r' where 1: "q = 64 * q' + r'" "q div 64 = q'" "q mod 64 = r'" "r' < 64" by (rule digits)
  obtain q'' r'' where 2: "q' = 64 * q'' + r''" "q' div 64 = q''" "q' mod 64 = r''" "r'' < 64" by (rule digits)
  note d = 0(2,3) 1(2,3) 2(2,3) div_4096 div_262144
  consider "cp < 0x80" | "0x80 \<le> cp" "cp < 0x800" | "0x800 \<le> cp" "cp < 0x10000" | "0x10000 \<le> cp" "cp \<le> 0x10FFFF"
    using assms unfolding scalar_def by linarith
  then show thesis
  proof cases
    case 1
    then show ?thesis by (intro that [of cp "[]"]) (auto simp: utf8_enc_def seq_nat_def cp_min_def)
  next
    case 2
    then have e: "utf8_enc cp = [192 + q, 128 + r]" and q: "q < 32" using 0 by (simp add: utf8_enc_def d, linarith)
    have "cp_val [192 + q, 128 + r] = cp" using q 0(4) by (simp add: lead_mod 0(1))
    with 2 e q 0(4) show ?thesis by (intro that [of "192 + q" "[128 + r]"]) (auto simp: seq_nat_def cp_min_def)
  next
    case 3
    then have e: "utf8_enc cp = [224 + q', 128 + r', 128 + r]" and q: "q' < 16"
      using 0 1 by (simp add: utf8_enc_def d, linarith)
    have "cp_val [224 + q', 128 + r', 128 + r] = cp" using q 0(4) 1(4) by (simp add: lead_mod 0(1) 1(1))
    with 3 e q 0(4) 1(4) show ?thesis
      by (intro that [of "224 + q'" "[128 + r', 128 + r]"]) (auto simp: seq_nat_def cp_min_def)
  next
    case 4
    then have e: "utf8_enc cp = [240 + q'', 128 + r'', 128 + r', 128 + r]" and q: "q'' < 8"
      using 0 1 2 by (simp add: utf8_enc_def d, linarith)
    have "cp_val [240 + q'', 128 + r'', 128 + r', 128 + r] = cp"
      using q 0(4) 1(4) 2(4) by (simp add: lead_mod 0(1) 1(1) 2(1))
    with 4 e q 0(4) 1(4) 2(4) show ?thesis
      by (intro that [of "240 + q''" "[128 + r'', 128 + r', 128 + r]"]) (auto simp: seq_nat_def cp_min_def)
  qed
qed

lemma offset_obtain:
  assumes "lo \<le> (x :: nat)" "x < lo + k"
  obtains a where "x = lo + a" "a < k"
  using assms by (metis add_less_cancel_left le_Suc_ex)

lemma lead_obtain:
  "seq_nat x = 2 \<Longrightarrow> \<exists>a. x = 192 + a \<and> a < 32" "seq_nat x = 3 \<Longrightarrow> \<exists>a. x = 224 + a \<and> a < 16"
  "seq_nat x = 4 \<Longrightarrow> \<exists>a. x = 240 + a \<and> a < 8"
  by (auto simp: seq_nat_def split: if_splits intro: offset_obtain [of 192 x 32] offset_obtain [of 224 x 16]
      offset_obtain [of 240 x 8])

lemma cont_obtain: "128 \<le> x \<Longrightarrow> x < 192 \<Longrightarrow> \<exists>r. x = 128 + r \<and> r < (64 :: nat)"
  by (rule offset_obtain [of 128 x 64]) auto

lemma enc_cp_val:
  assumes x: "seq_nat x = Suc (length ys)" and ys: "\<forall>y \<in> set ys. 128 \<le> y \<and> y < 192"
    and mn: "cp_min (Suc (length ys)) \<le> cp_val (x # ys)"
  shows "utf8_enc (cp_val (x # ys)) = x # ys"
proof -
  consider "ys = []" | b where "ys = [b]" | b c where "ys = [b, c]" | b c d where "ys = [b, c, d]"
  proof -
    have "length ys \<le> 3" using x seq_nat_range [of x] by auto
    then show thesis using that by (cases ys; cases "tl ys"; cases "tl (tl ys)"; cases "tl (tl (tl ys))") auto
  qed
  then show ?thesis
  proof cases
    case 1
    with x show ?thesis by (auto simp: seq_nat_def utf8_enc_def split: if_splits)
  next
    case (2 b)
    obtain a r where a: "x = 192 + a" "a < 32" and r: "b = 128 + r" "r < 64"
      using lead_obtain(1) [of x] cont_obtain [of b] x ys 2 by auto
    define n where "n = 64 * a + r"
    have "cp_val [x, b] = n" using a r by (simp add: n_def lead_mod)
    moreover have "n div 64 = a" "n mod 64 = r" "n < 0x800" using a r by (auto simp: n_def)
    moreover have "0x80 \<le> n" using mn 2 calculation(1) by (simp add: cp_min_def)
    ultimately show ?thesis using 2 a r by (simp add: utf8_enc_def)
  next
    case (3 b c)
    obtain a where a: "x = 224 + a" "a < 16" using lead_obtain(2) [of x] x 3 by auto
    obtain r r' where r: "b = 128 + r" "r < 64" "c = 128 + r'" "r' < 64" using cont_obtain [of b] cont_obtain [of c] ys 3 by auto
    define q where "q = 64 * a + r"
    define n where "n = 64 * q + r'"
    have "cp_val [x, b, c] = n" using a r by (simp add: n_def q_def lead_mod)
    moreover have "n div 64 = q" "n mod 64 = r'" using r by (auto simp: n_def)
    moreover have "q div 64 = a" "q mod 64 = r" using r by (auto simp: q_def)
    moreover have "n < 0x10000" using a r by (auto simp: n_def q_def)
    moreover have "0x800 \<le> n" using mn 3 calculation(1) by (simp add: cp_min_def)
    ultimately show ?thesis using 3 a r by (simp add: utf8_enc_def div_4096)
  next
    case (4 b c d)
    obtain a where a: "x = 240 + a" "a < 8" using lead_obtain(3) [of x] x 4 by auto
    obtain r r' r'' where r: "b = 128 + r" "r < 64" "c = 128 + r'" "r' < 64" "d = 128 + r''" "r'' < 64"
      using cont_obtain [of b] cont_obtain [of c] cont_obtain [of d] ys 4 by auto
    define p where "p = 64 * a + r"
    define q where "q = 64 * p + r'"
    define n where "n = 64 * q + r''"
    have v: "cp_val [x, b, c, d] = n" using a r by (simp add: n_def q_def p_def lead_mod)
    have "n div 64 = q" "n mod 64 = r''" using r by (auto simp: n_def)
    moreover have "q div 64 = p" "q mod 64 = r'" using r by (auto simp: q_def)
    moreover have "p div 64 = a" "p mod 64 = r" using r by (auto simp: p_def)
    moreover have "0x10000 \<le> n" using mn 4 v by (simp add: cp_min_def)
    then have "utf8_enc n = [240 + n div 64 div 64 div 64, 128 + n div 64 div 64 mod 64, 128 + n div 64 mod 64, 128 + n mod 64]"
      by (simp add: utf8_enc_def div_4096 div_262144)
    ultimately have "utf8_enc n = [x, b, c, d]" by (simp only: a r)
    then show ?thesis by (simp only: 4 v)
  qed
qed

lemma unat_list_eq: "map unat bs = xs \<longleftrightarrow> bs = map (of_nat :: nat \<Rightarrow> byte) xs \<and> (\<forall>x \<in> set xs. x < 256)"
proof
  assume "map unat bs = xs"
  then show "bs = map of_nat xs \<and> (\<forall>x \<in> set xs. x < 256)" using byte_lt by (auto simp: o_def intro: map_idI [symmetric])
next
  assume "bs = map of_nat xs \<and> (\<forall>x \<in> set xs. x < 256)"
  then show "map unat bs = xs" by (auto simp: o_def unat_of_nat intro: map_idI)
qed

lemma enc_lt: "scalar cp \<Longrightarrow> \<forall>x \<in> set (utf8_enc cp). x < 256"
  by (erule enc_shape) fastforce

lemma decode_iff:
  assumes "avail \<le> length s" "0 < avail"
  shows "\<exists>r. utf8_decode (Some s) avail = Some r \<and>
    (\<forall>n cp. r = Some (n, cp) \<longleftrightarrow>
       scalar (unat cp) \<and> n \<le> avail \<and> n = length (utf8_enc (unat cp)) \<and> map unat (take n s) = utf8_enc (unat cp))"
proof -
  obtain b t where s: "s = b # t" using assms by (cases s) auto
  let ?n = "seq_nat (unat b)"
  let ?v = "cp_val (unat b # map unat (take (?n - 1) t))"
  define r where "r = (if ?n = 0 \<or> ?n > avail \<or> \<not> conts (take (?n - 1) t) then None else cp_result ?n (cp_min ?n) ?v)"
  have dec: "utf8_decode (Some s) avail = Some r" using decode_nat [of avail b t] assms s by (simp add: r_def Let_def)
  have "r = Some (n, cp) \<longleftrightarrow>
      scalar (unat cp) \<and> n \<le> avail \<and> n = length (utf8_enc (unat cp)) \<and> map unat (take n s) = utf8_enc (unat cp)" for n cp
  proof
    assume "r = Some (n, cp)"
    then have n: "n = ?n" "?n \<noteq> 0" "?n \<le> avail" and c: "conts (take (?n - 1) t)"
      and v: "cp_min ?n \<le> ?v" "scalar ?v" "cp = of_nat ?v"
      by (auto simp: r_def cp_result_def split: if_splits)
    have cp: "unat cp = ?v" using v by (simp add: scalar_def unat_of_nat)
    have len: "Suc (length (map unat (take (?n - 1) t))) = ?n" using n assms s by simp
    then have "utf8_enc ?v = unat b # map unat (take (?n - 1) t)"
      using c v(1) by (intro enc_cp_val) (auto simp: conts_def)
    moreover have "map unat (take n s) = unat b # map unat (take (?n - 1) t)" using n s by (cases ?n) auto
    ultimately show "scalar (unat cp) \<and> n \<le> avail \<and> n = length (utf8_enc (unat cp)) \<and>
        map unat (take n s) = utf8_enc (unat cp)" using n v len cp by simp
  next
    assume R: "scalar (unat cp) \<and> n \<le> avail \<and> n = length (utf8_enc (unat cp)) \<and> map unat (take n s) = utf8_enc (unat cp)"
    then obtain x xs where e: "utf8_enc (unat cp) = x # xs" "seq_nat x = Suc (length xs)"
      "\<forall>y \<in> set xs. 128 \<le> y \<and> y < 192" "cp_val (x # xs) = unat cp" "cp_min (Suc (length xs)) \<le> unat cp"
      using enc_shape by metis
    with R s have b: "unat b = x" "map unat (take (length xs) t) = xs" by auto
    have "\<forall>y \<in> set (map unat (take (length xs) t)). 128 \<le> y \<and> y < 192" unfolding b(2) by (rule e(3))
    then have "conts (take (length xs) t)" by (simp add: conts_def)
    with R e b show "r = Some (n, cp)" by (auto simp: r_def cp_result_def)
  qed
  with dec show ?thesis by blast
qed

lemma length_encode [simp]: "length (utf8_encode cp) = length (utf8_enc cp)"
  by (simp add: utf8_encode_def)

lemma enc_bytes: "scalar cp \<Longrightarrow> map unat bs = utf8_enc cp \<longleftrightarrow> bs = utf8_encode cp"
  using enc_lt [of cp] by (simp add: unat_list_eq utf8_encode_def)

text \<open>C10: The decoder is exact. On a buffer that holds the announced bytes it never reads outside, and it
  returns a length and a code point precisely when the code point is a Unicode scalar value (at
  most 10FFFF and not a surrogate) whose RFC 3629 encoding is what the buffer starts with:
  overlong forms, surrogates, truncated and stray bytes are all refused.\<close>

theorem utf8_decode_exact:
  assumes "avail \<le> length s" "0 < avail"
  shows "\<exists>r. utf8_decode (Some s) avail = Some r \<and>
    (\<forall>n cp. r = Some (n, cp) \<longleftrightarrow>
       scalar (unat cp) \<and> n \<le> avail \<and> n = length (utf8_encode (unat cp)) \<and> take n s = utf8_encode (unat cp))"
  using decode_iff [OF assms] by (simp add: enc_bytes cong: conj_cong)

theorem utf8_decode_exact_witness:
  "\<exists>r. utf8_decode (Some [0xE2, 0x82, 0xAC, 0x21]) 4 = Some r \<and> (r = Some (3, 0x20AC))"
  using utf8_decode_exact [of 4 "[0xE2, 0x82, 0xAC, 0x21]"]
  by (auto simp: scalar_def utf8_encode_def utf8_enc_def)

end
