(* ===== verification/Utf8_Text.thy ===== *)
theory Utf8_Text
  imports Safe_Utf8
begin

section \<open>UTF-8 texts: the clients of the decoder\<close>

text \<open>
  The validator, the sanitizer and the prefix cut of \<open>utils/string/safe_utf8.c\<close> against the set of
  UTF-8 texts, the concatenations of encoded scalar values. All three use the decoder only
  through the law that it finds exactly the encoding a buffer starts with.
\<close>

subsection \<open>Texts\<close>

definition utf8_text :: "byte list \<Rightarrow> bool" where
  "utf8_text bs \<longleftrightarrow> (\<exists>cps. (\<forall>cp \<in> set cps. scalar cp) \<and> bs = concat (map utf8_encode cps))"

lemma text_Nil [simp]: "utf8_text []"
  by (auto simp: utf8_text_def intro: exI [of _ "[]"])

lemma text_append: "utf8_text bs \<Longrightarrow> utf8_text cs \<Longrightarrow> utf8_text (bs @ cs)"
  unfolding utf8_text_def by (metis (no_types, lifting) Un_iff concat_append map_append set_append)

lemma text_encode: "scalar cp \<Longrightarrow> utf8_text (utf8_encode cp)"
  unfolding utf8_text_def by (rule exI [of _ "[cp]"]) simp

lemma text_cases:
  assumes "utf8_text bs" "bs \<noteq> []"
  obtains cp w where "scalar cp" "bs = utf8_encode cp @ w" "utf8_text w"
proof -
  from assms obtain cps where c: "\<forall>cp \<in> set cps. scalar cp" "bs = concat (map utf8_encode cps)"
    by (auto simp: utf8_text_def)
  with assms(2) obtain cp cps' where "cps = cp # cps'" by (cases cps) auto
  with c that [of cp "concat (map utf8_encode cps')"] show ?thesis by (auto simp: utf8_text_def)
qed

lemma scalar_u32: "scalar cp \<Longrightarrow> unat (of_nat cp :: u32) = cp"
  by (simp add: scalar_def unat_of_nat)

text \<open>The law of the decoder, on the bytes a pointer may read.\<close>

lemma unit_text:
  assumes "avail \<le> length s" "0 < avail"
  shows "(\<exists>cp. scalar cp \<and> utf8_unit s avail = Some (length (utf8_encode cp), True) \<and>
            take (length (utf8_encode cp)) s = utf8_encode cp \<and> length (utf8_encode cp) \<le> avail) \<or>
         (\<exists>n. utf8_unit s avail = Some (n, False) \<and>
            (\<forall>cp. scalar cp \<longrightarrow> length (utf8_encode cp) \<le> avail \<longrightarrow> take (length (utf8_encode cp)) s \<noteq> utf8_encode cp))"
proof -
  obtain r where r: "utf8_decode (Some s) avail = Some r" and
    R: "\<And>n cp. r = Some (n, cp) \<longleftrightarrow> scalar (unat cp) \<and> n \<le> avail \<and> n = length (utf8_enc (unat cp)) \<and>
          map unat (take n s) = utf8_enc (unat cp)" using decode_iff [OF assms] by blast
  have b: "rd_byte s 0 = Some (s ! 0)" using assms by (cases s) (simp_all add: rd_byte_def)
  show ?thesis
  proof (cases r)
    case None
    then have "take (length (utf8_encode cp)) s \<noteq> utf8_encode cp" if "scalar cp" "length (utf8_encode cp) \<le> avail" for cp
      using R [of "length (utf8_encode cp)" "of_nat cp"] that scalar_u32 [OF that(1)] enc_bytes [OF that(1)] by auto
    with None r b show ?thesis by (auto simp: utf8_unit_def Let_def)
  next
    case (Some p)
    obtain n cp where p: "p = (n, cp)" by (cases p)
    with Some R [of n cp] have "scalar (unat cp)" "n \<le> avail" "n = length (utf8_encode (unat cp))"
      "take n s = utf8_encode (unat cp)" by (auto simp: enc_bytes)
    with Some p r show ?thesis by (auto simp: utf8_unit_def)
  qed
qed

lemma encode_nonempty: "scalar cp \<Longrightarrow> 0 < length (utf8_encode cp)"
  by (auto elim: enc_shape)

lemma encode_ne: "scalar cp \<Longrightarrow> utf8_encode cp \<noteq> []"
  using encode_nonempty by fastforce

text \<open>No encoding is a proper prefix of another: texts parse in one way.\<close>

lemma encode_prefix:
  assumes "scalar cp" "scalar cp'" "utf8_encode cp @ w = utf8_encode cp' @ w'"
  shows "cp = cp'" "w = w'"
proof -
  let ?s = "utf8_encode cp @ w"
  have l: "0 < length ?s" using encode_nonempty [OF assms(1)] by simp
  obtain r where R: "\<And>n (c :: u32). r = Some (n, c) \<longleftrightarrow> scalar (unat c) \<and> n \<le> length ?s \<and> n = length (utf8_enc (unat c)) \<and>
          map unat (take n ?s) = utf8_enc (unat c)" using decode_iff [OF order_refl l] by blast
  have d: "r = Some (length (utf8_enc c), of_nat c)" if "scalar c" "?s = utf8_encode c @ v" for c v
  proof -
    have "take (length (utf8_enc c)) ?s = utf8_encode c" using that(2) by simp
    moreover have "length (utf8_enc c) \<le> length ?s" using that(2) by simp
    ultimately show ?thesis
      using R [of "length (utf8_enc c)" "of_nat c"] that(1) scalar_u32 [OF that(1)] enc_bytes [OF that(1)] by simp
  qed
  have "(of_nat cp :: u32) = of_nat cp'" using d [OF assms(1) refl] d [OF assms(2,3)] by simp
  then show "cp = cp'" using scalar_u32 [OF assms(1)] scalar_u32 [OF assms(2)] by metis
  with assms(3) show "w = w'" by simp
qed

lemma text_append_encode: "scalar cp \<Longrightarrow> utf8_text (utf8_encode cp @ w) \<longleftrightarrow> utf8_text w"
proof
  assume cp: "scalar cp" and t: "utf8_text (utf8_encode cp @ w)"
  have "utf8_encode cp @ w \<noteq> []" using encode_ne [OF cp] by simp
  with t obtain cp' w' where c: "scalar cp'" "utf8_encode cp @ w = utf8_encode cp' @ w'" "utf8_text w'"
    by (rule text_cases)
  with encode_prefix(2) [OF cp c(1,2)] show "utf8_text w" by simp
qed (simp add: text_append text_encode)

lemma encode_nonzero: "scalar cp \<Longrightarrow> hd (utf8_encode cp) \<noteq> 0 \<Longrightarrow> 0 \<notin> set (utf8_encode cp)"
proof -
  assume s: "scalar cp" and h: "hd (utf8_encode cp) \<noteq> 0"
  obtain x xs where x: "utf8_enc cp = x # xs" "\<forall>y \<in> set xs. 128 \<le> y \<and> y < 192" "x < 256"
    using s by (rule enc_shape)
  have "(of_nat y :: byte) \<noteq> 0" if "128 \<le> y" "y < 192" for y
    using that by (simp add: word_unat_eq_iff unat_of_nat)
  with x h show ?thesis by (auto simp: utf8_encode_def)
qed

subsection \<open>The validator\<close>

lemma takeWhile_encode:
  "scalar cp \<Longrightarrow> hd (utf8_encode cp) \<noteq> 0 \<Longrightarrow>
   takeWhile (\<lambda>x. x \<noteq> 0) (utf8_encode cp @ w) = utf8_encode cp @ takeWhile (\<lambda>x. x \<noteq> 0) w"
  using encode_nonzero [of cp] by (auto intro: takeWhile_append2)

lemma validate_from_ok:
  assumes "len \<le> length s"
  shows "validate_from s len i = Some (utf8_text (str_of (drop i (take len s))))"
  using assms
proof (induction s len i rule: validate_from.induct)
  case (1 s len i)
  let ?t = "drop i (take len s)"
  show ?case
  proof (cases "i < len \<and> s ! i \<noteq> 0")
    case False
    then have "str_of ?t = []" using 1(2) by (cases "i < len") (auto simp: str_of_def takeWhile_eq_Nil_iff hd_drop_conv_nth)
    with False 1(2) show ?thesis by (subst validate_from.simps) (auto simp: rd_byte_def)
  next
    case True
    then have rd: "rd_byte s i = Some (s ! i)" using 1(2) by (simp add: rd_byte_def)
    have t: "hd ?t = s ! i" "?t \<noteq> []" using True 1(2) by (auto simp: hd_drop_conv_nth)
    have tk: "take n (drop i s) = take n ?t" if "n \<le> len - i" for n using that by (simp add: drop_take min_def)
    have av: "len - i \<le> length (drop i s)" "0 < len - i" using True 1(2) by auto
    from unit_text [OF av] consider
      (valid) cp where "scalar cp" "utf8_unit (drop i s) (len - i) = Some (length (utf8_encode cp), True)"
        "take (length (utf8_encode cp)) (drop i s) = utf8_encode cp" "length (utf8_encode cp) \<le> len - i"
    | (bad) n where "utf8_unit (drop i s) (len - i) = Some (n, False)"
        "\<forall>cp. scalar cp \<longrightarrow> length (utf8_encode cp) \<le> len - i \<longrightarrow>
              take (length (utf8_encode cp)) (drop i s) \<noteq> utf8_encode cp"
      by blast
    then show ?thesis
    proof cases
      case valid
      let ?n = "length (utf8_encode cp)"
      have split: "?t = utf8_encode cp @ drop (i + ?n) (take len s)"
      proof -
        have "take ?n ?t = utf8_encode cp" using valid(3) tk [OF valid(4)] by metis
        then have "?t = utf8_encode cp @ drop ?n ?t" by (metis append_take_drop_id)
        then show ?thesis by (simp only: drop_drop add.commute)
      qed
      have "hd (utf8_encode cp) \<noteq> 0"
        using t True split encode_ne [OF valid(1)] by (metis hd_append2)
      then have "str_of ?t = utf8_encode cp @ str_of (drop (i + ?n) (take len s))"
        unfolding str_of_def by (subst split) (rule takeWhile_encode [OF valid(1)])
      moreover have "validate_from s len (i + ?n) = Some (utf8_text (str_of (drop (i + ?n) (take len s))))"
        using 1(1) [OF _ rd _ valid(2) refl] True 1(2) by simp
      ultimately show ?thesis using True rd valid(1,2)
        by (subst validate_from.simps) (simp add: text_append_encode)
    next
      case bad
      have "\<not> utf8_text (str_of ?t)"
      proof
        assume "utf8_text (str_of ?t)"
        moreover have "str_of ?t \<noteq> []" using t True by (cases ?t) (auto simp: str_of_def)
        ultimately obtain cp w where c: "scalar cp" "str_of ?t = utf8_encode cp @ w" by (rule text_cases)
        obtain v where "?t = str_of ?t @ v" unfolding str_of_def by (metis takeWhile_dropWhile_id)
        with c(2) have e: "?t = utf8_encode cp @ w @ v" by simp
        then have "length (utf8_encode cp) \<le> length ?t" by (metis le_add1 length_append)
        then have l: "length (utf8_encode cp) \<le> len - i" using 1(2) by simp
        with e have "take (length (utf8_encode cp)) (drop i s) = utf8_encode cp" using tk [OF l] by simp
        with bad(2) c(1) l show False by blast
      qed
      with True rd bad(1) show ?thesis by (subst validate_from.simps) simp
    qed
  qed
qed

text \<open>C19: The validator is exact: on a readable buffer it terminates without reading outside and
  answers true precisely when the bytes up to the length or the first NUL are a
  concatenation of RFC 3629 encodings of Unicode scalar values.\<close>

theorem utf8_validate_exact:
  assumes "len \<le> length s"
  shows "utf8_validate (Some s) len = Some (utf8_text (str_of (take len s)))"
  using validate_from_ok [OF assms, of 0] by (simp add: utf8_validate_def)

theorem utf8_validate_exact_witness:
  "utf8_validate (Some [0xC3, 0xA9, 0x41, 0, 0xFF]) 5 = Some True"
proof -
  have "str_of (take 5 [0xC3, 0xA9, 0x41, 0, 0xFF]) = utf8_encode 0xE9 @ utf8_encode 0x41"
    by (simp add: str_of_def utf8_encode_def utf8_enc_def)
  moreover have "scalar 0xE9" "scalar 0x41" by (simp_all add: scalar_def)
  ultimately show ?thesis
    using utf8_validate_exact [of 5 "[0xC3, 0xA9, 0x41, 0, 0xFF]"] by (simp add: text_append text_encode)
qed

subsection \<open>The sanitizer\<close>

lemma repl_encode: "kRepl = utf8_encode 0xFFFD" "scalar 0xFFFD" "length kRepl = 3"
  by (simp_all add: kRepl_def utf8_encode_def utf8_enc_def scalar_def)

text \<open>One unit at position \<open>i\<close>: valid and what the rest of the input then is, or no text at all.\<close>

lemma unit_at:
  assumes "i < len" "len \<le> length s"
  shows "(\<exists>cp. scalar cp \<and> utf8_unit (drop i s) (len - i) = Some (length (utf8_encode cp), True) \<and>
            drop i (take len s) = utf8_encode cp @ drop (i + length (utf8_encode cp)) (take len s) \<and>
            length (utf8_encode cp) \<le> len - i) \<or>
         (\<exists>n. utf8_unit (drop i s) (len - i) = Some (n, False) \<and> \<not> utf8_text (drop i (take len s)))"
proof -
  let ?t = "drop i (take len s)"
  have tk: "take n (drop i s) = take n ?t" if "n \<le> len - i" for n using that by (simp add: drop_take min_def)
  have av: "len - i \<le> length (drop i s)" "0 < len - i" using assms by auto
  from unit_text [OF av] consider
      (valid) cp where "scalar cp" "utf8_unit (drop i s) (len - i) = Some (length (utf8_encode cp), True)"
        "take (length (utf8_encode cp)) (drop i s) = utf8_encode cp" "length (utf8_encode cp) \<le> len - i"
    | (bad) n where "utf8_unit (drop i s) (len - i) = Some (n, False)"
        "\<forall>cp. scalar cp \<longrightarrow> length (utf8_encode cp) \<le> len - i \<longrightarrow>
              take (length (utf8_encode cp)) (drop i s) \<noteq> utf8_encode cp"
    by blast
  then show ?thesis
  proof cases
    case valid
    have "take (length (utf8_encode cp)) ?t = utf8_encode cp" using valid(3) tk [OF valid(4)] by metis
    then have "?t = utf8_encode cp @ drop (length (utf8_encode cp)) ?t" by (metis append_take_drop_id)
    then have "?t = utf8_encode cp @ drop (i + length (utf8_encode cp)) (take len s)"
      by (simp only: drop_drop add.commute)
    with valid show ?thesis by blast
  next
    case bad
    have "\<not> utf8_text ?t"
    proof
      assume t: "utf8_text ?t"
      have "?t \<noteq> []" using assms by simp
      with t obtain cp w where c: "scalar cp" "?t = utf8_encode cp @ w" by (rule text_cases)
      then have "length (utf8_encode cp) \<le> length ?t" by (metis le_add1 length_append)
      then have l: "length (utf8_encode cp) \<le> len - i" using assms(2) by simp
      have "take (length (utf8_encode cp)) ?t = utf8_encode cp" unfolding c(2) by simp
      with bad(2) c(1) l tk [OF l] show False by metis
    qed
    with bad(1) show ?thesis by blast
  qed
qed

text \<open>What one call of the loop guarantees; \<open>f\<close> is what was written before.\<close>

definition sanitized :: "buf \<Rightarrow> nat \<Rightarrow> buf \<Rightarrow> nat \<Rightarrow> nat \<Rightarrow> nat \<Rightarrow> (buf \<times> nat) \<Rightarrow> bool" where
  "sanitized inp len out cap i f r \<longleftrightarrow>
     length (fst r) = length out \<and> snd r < cap \<and> utf8_text (take (snd r) (fst r)) \<and>
     drop cap (fst r) = drop cap out \<and>
     (utf8_text (drop i (take len inp)) \<and> f + (len - i) < cap \<longrightarrow>
        take (snd r) (fst r) = take f out @ drop i (take len inp))"

lemma mem_cpy_chunk:
  assumes "written + n < cap" "cap \<le> length out" "n \<le> length c"
  shows "\<exists>out'. mem_cpy out written c n = Some out' \<and> length out' = length out \<and>
           take (written + n) out' = take written out @ take n c \<and> drop cap out' = drop cap out"
  using assms by (auto simp: mem_cpy_def)

lemma sanitize_from_ok:
  assumes "len \<le> length inp" "cap \<le> length out" "written < cap" "utf8_text (take written out)"
  shows "\<exists>r. sanitize_from inp len out cap i written = Some r \<and> sanitized inp len out cap i written r"
  using assms
proof (induction inp len out cap i written rule: sanitize_from.induct)
  case (1 inp len out cap i written)
  show ?case
  proof (cases "i < len")
    case False
    with 1(3-5) show ?thesis
      by (subst sanitize_from.simps) (auto simp: sanitized_def)
  next
    case True
    from unit_at [OF this 1(2)] consider
        (valid) cp where "scalar cp" "utf8_unit (drop i inp) (len - i) = Some (length (utf8_encode cp), True)"
        "drop i (take len inp) = utf8_encode cp @ drop (i + length (utf8_encode cp)) (take len inp)"
        "length (utf8_encode cp) \<le> len - i"
      | (bad) n where "utf8_unit (drop i inp) (len - i) = Some (n, False)" "\<not> utf8_text (drop i (take len inp))" by blast
    then show ?thesis
    proof cases
      case valid
      let ?n = "length (utf8_encode cp)"
      show ?thesis
      proof (cases "written + ?n + 1 > cap")
        case True
        with valid(2,4) \<open>i < len\<close> 1(4,5) show ?thesis by (subst sanitize_from.simps) (auto simp: sanitized_def)
      next
        case False
        have n: "?n \<le> length (drop i inp)" using valid(4) 1(2) by simp
        have fit: "written + ?n < cap" using False by simp
        from mem_cpy_chunk [OF fit 1(3) n] obtain out' where
          o: "mem_cpy out written (drop i inp) ?n = Some out'" "length out' = length out"
            "take (written + ?n) out' = take written out @ take ?n (drop i inp)" "drop cap out' = drop cap out" by blast
        have "take ?n (drop i inp) = take ?n (drop i (take len inp))" using valid(4) by (simp add: drop_take min_def)
        also have "\<dots> = utf8_encode cp" by (subst valid(3)) simp
        finally have t: "take (written + ?n) out' = take written out @ utf8_encode cp" using o(3) by simp
        from 1(1) [OF True valid(2) refl refl refl _] False o t 1(2-5) text_append [OF 1(5) text_encode [OF valid(1)]]
        obtain r where "sanitize_from inp len out' cap (i + ?n) (written + ?n) = Some r"
          "sanitized inp len out' cap (i + ?n) (written + ?n) r" by auto
        with True False valid o t show ?thesis
          by (subst sanitize_from.simps) (auto simp: sanitized_def text_append_encode)
      qed
    next
      case bad
      show ?thesis
      proof (cases "written + length kRepl + 1 > cap")
        case True
        with bad \<open>i < len\<close> 1(4,5) show ?thesis by (subst sanitize_from.simps) (auto simp: sanitized_def)
      next
        case False
        have fit: "written + length kRepl < cap" using False by simp
        from mem_cpy_chunk [OF fit 1(3) order_refl] obtain out' where
          o: "mem_cpy out written kRepl (length kRepl) = Some out'" "length out' = length out"
            "take (written + length kRepl) out' = take written out @ kRepl" "drop cap out' = drop cap out" by auto
        have "utf8_text (take (written + length kRepl) out')"
          using o(3) text_append [OF 1(5) text_encode [OF repl_encode(2)]] repl_encode(1) by simp
        with 1(1) [OF True bad(1) refl refl refl _] False o 1(2-4)
        obtain r where "sanitize_from inp len out' cap (i + 1) (written + length kRepl) = Some r"
          "sanitized inp len out' cap (i + 1) (written + length kRepl) r" by auto
        with True False bad o show ?thesis
          by (subst sanitize_from.simps) (auto simp: sanitized_def)
      qed
    qed
  qed
qed

text \<open>C20: Whatever bytes it is given, the sanitizer terminates, reads and writes only inside the
  two buffers, and leaves a NUL-terminated UTF-8 text shorter than the capacity; a valid
  input that fits is copied unchanged, and nothing past the capacity is touched.\<close>

theorem utf8_sanitize_valid:
  assumes "len \<le> length inp" "out_cap \<le> length out" "0 < out_cap"
  shows "\<exists>w out'. utf8_sanitize (Some inp) len (Some out) out_cap = Some (w, Some out') \<and>
    w < out_cap \<and> utf8_text (take w out') \<and> out' ! w = 0 \<and> length out' = length out \<and>
    drop out_cap out' = drop out_cap out \<and>
    (utf8_text (take len inp) \<and> len < out_cap \<longrightarrow> take w out' = take len inp)"
proof -
  from sanitize_from_ok [of len inp out_cap out 0 0] assms obtain d w where
    r: "sanitize_from inp len out out_cap 0 0 = Some (d, w)" "sanitized inp len out out_cap 0 0 (d, w)" by auto
  then have w: "w < length d" "length d = length out" "w < out_cap" using assms by (auto simp: sanitized_def)
  then have "wr_byte d w 0 = Some (d[w := 0])" by (simp add: wr_byte_def)
  moreover have "drop out_cap (d[w := 0]) = drop out_cap d" using w(3) by simp
  ultimately show ?thesis using r w assms(3) by (auto simp: utf8_sanitize_def sanitized_def)
qed

theorem utf8_sanitize_valid_witness:
  "\<exists>w out'. utf8_sanitize (Some [0x41, 0xFF, 0xC0]) 3 (Some (replicate 9 1)) 9 = Some (w, Some out') \<and>
     utf8_text (take w out') \<and> w < 9"
  using utf8_sanitize_valid [of 3 "[0x41, 0xFF, 0xC0]" 9 "replicate 9 1"] by auto

subsection \<open>Cutting at a length\<close>

definition is_cont :: "byte \<Rightarrow> bool" where
  "is_cont c \<longleftrightarrow> c AND 0xC0 = 0x80"

lemma skip_cont_conts:
  assumes "list_all is_cont cs" "k = length (u @ cs)"
  shows "skip_cont (u @ cs @ v) k = skip_cont (u @ cs @ v) (length u)"
  using assms
proof (induction cs arbitrary: k v rule: rev_induct)
  case (snoc c cs)
  then have "rd_byte (u @ (cs @ [c]) @ v) (length (u @ cs)) = Some c"
    using rd_byte_append [of "u @ cs" "length (u @ cs)" c v] by simp
  with snoc.prems snoc.IH [of "length (u @ cs)" "c # v"] show ?case by (simp add: is_cont_def)
qed simp

lemma encode_shape:
  assumes "scalar cp"
  obtains b cs where "utf8_encode cp = b # cs" "utf8_seq_len b = Suc (length cs)" "list_all is_cont cs" "\<not> is_cont b"
proof -
  obtain x xs where x: "utf8_enc cp = x # xs" "seq_nat x = Suc (length xs)" "\<forall>y \<in> set xs. 128 \<le> y \<and> y < 192" "x < 256"
    using assms by (rule enc_shape)
  have "utf8_seq_len (of_nat x) = Suc (length xs)" using x(2,4) by (simp add: seq_nat_eq unat_of_nat)
  moreover have "\<not> is_cont (of_nat x)"
    using x(2,4) by (auto simp: is_cont_def cont_byte_nat unat_of_nat seq_nat_def split: if_splits)
  moreover have "list_all is_cont (map of_nat xs)"
    using x(3) by (auto simp: list_all_iff is_cont_def cont_byte_nat unat_of_nat)
  ultimately show ?thesis using that x(1) by (simp add: utf8_encode_def)
qed

lemma prefix_len_in_unit:
  assumes "scalar cp" "0 < j" "j \<le> length (utf8_encode cp)"
  shows "utf8_prefix_len (Some (u @ utf8_encode cp @ v)) (length u + j) =
           Some (if j < length (utf8_encode cp) then length u else length u + j)"
proof -
  obtain b cs where e: "utf8_encode cp = b # cs" "utf8_seq_len b = Suc (length cs)" "list_all is_cont cs" "\<not> is_cont b"
    using assms(1) by (rule encode_shape)
  let ?s = "u @ utf8_encode cp @ v"
  have s: "?s = (u @ [b]) @ take (j - 1) cs @ drop (j - 1) cs @ v" by (simp add: e(1))
  have "list_all is_cont (take (j - 1) cs)" using e(3) by (auto simp: list_all_iff dest: in_set_takeD)
  moreover have "length u + j = length ((u @ [b]) @ take (j - 1) cs)" using assms(2,3) e(1) by simp
  ultimately have "skip_cont ?s (length u + j) = skip_cont ?s (Suc (length u))"
    unfolding s by (subst skip_cont_conts) simp_all
  moreover have "rd_byte ?s (length u) = Some b" by (simp add: e(1))
  ultimately show ?thesis using assms(2) e by (auto simp: utf8_prefix_len_def is_cont_def)
qed

text \<open>A cut inside a text falls on a boundary or inside one encoding.\<close>

lemma text_cut:
  assumes "utf8_text s" "0 < k" "k \<le> length s"
  obtains u cp v j where "s = u @ utf8_encode cp @ v" "utf8_text u" "scalar cp" "0 < j"
    "j \<le> length (utf8_encode cp)" "k = length u + j"
proof -
  from assms(1) obtain cps where c: "\<forall>cp \<in> set cps. scalar cp" "s = concat (map utf8_encode cps)"
    by (auto simp: utf8_text_def)
  have "\<exists>u cp v j. s = u @ utf8_encode cp @ v \<and> utf8_text u \<and> scalar cp \<and> 0 < j \<and>
      j \<le> length (utf8_encode cp) \<and> k = length u + j"
    using c assms(2,3)
  proof (induction cps arbitrary: s k)
    case (Cons cp cps)
    let ?n = "length (utf8_encode cp)"
    show ?case
    proof (cases "k \<le> ?n")
      case True
      with Cons.prems show ?thesis
        by (intro exI [of _ "[]"] exI [of _ cp] exI [of _ "concat (map utf8_encode cps)"] exI [of _ k]) simp
    next
      case False
      with Cons.prems have "k - ?n \<le> length (concat (map utf8_encode cps))" "0 < k - ?n" by auto
      with Cons.IH [of "concat (map utf8_encode cps)" "k - ?n"] Cons.prems(1) obtain u cp' v j where
        "concat (map utf8_encode cps) = u @ utf8_encode cp' @ v" "utf8_text u" "scalar cp'" "0 < j"
        "j \<le> length (utf8_encode cp')" "k - ?n = length u + j" by auto
      with Cons.prems False show ?thesis
        by (intro exI [of _ "utf8_encode cp @ u"] exI [of _ cp'] exI [of _ v] exI [of _ j])
           (auto simp: text_append_encode)
    qed
  qed simp
  then show ?thesis using that by blast
qed

lemma text_take_encode:
  assumes "scalar cp" "0 < j" "j < length (utf8_encode cp)"
  shows "\<not> utf8_text (take j (utf8_encode cp))"
proof
  assume t: "utf8_text (take j (utf8_encode cp))"
  have "take j (utf8_encode cp) \<noteq> []" using assms(2,3) by (metis length_take length_0_conv min.absorb4 nat_less_le)
  with t obtain cp' w where c: "scalar cp'" "take j (utf8_encode cp) = utf8_encode cp' @ w" by (rule text_cases)
  then have "utf8_encode cp @ [] = utf8_encode cp' @ (w @ drop j (utf8_encode cp))"
    by (metis append.assoc append.right_neutral append_take_drop_id)
  from encode_prefix(2) [OF assms(1) c(1) this] assms(3) show False by simp
qed

lemma text_cancel: "utf8_text u \<Longrightarrow> utf8_text (u @ w) \<longleftrightarrow> utf8_text w"
proof -
  assume "utf8_text u"
  then obtain cps where "\<forall>cp \<in> set cps. scalar cp" "u = concat (map utf8_encode cps)" by (auto simp: utf8_text_def)
  then show ?thesis by (induction cps arbitrary: u) (auto simp: text_append_encode)
qed

text \<open>Cutting a UTF-8 text at an arbitrary byte length yields the longest valid text that is not
  longer: the result is a prefix that is a text, and no longer prefix within the length is one.\<close>

theorem utf8_prefix_len_longest:
  assumes "utf8_text s" "k \<le> length s"
  shows "\<exists>m. utf8_prefix_len (Some s) k = Some m \<and> m \<le> k \<and> utf8_text (take m s) \<and>
           (\<forall>m'. m < m' \<and> m' \<le> k \<longrightarrow> \<not> utf8_text (take m' s))"
proof (cases "k = 0")
  case True
  then show ?thesis by (simp add: utf8_prefix_len_def)
next
  case False
  then have "0 < k" by simp
  from text_cut [OF assms(1) this assms(2)] obtain u cp v j where c: "s = u @ utf8_encode cp @ v" "utf8_text u"
    "scalar cp" "0 < j" "j \<le> length (utf8_encode cp)" "k = length u + j" .
  have pl: "utf8_prefix_len (Some s) k = Some (if j < length (utf8_encode cp) then length u else k)"
    using prefix_len_in_unit [OF c(3-5)] c(1,6) by simp
  show ?thesis
  proof (cases "j < length (utf8_encode cp)")
    case True
    have "\<not> utf8_text (take m' s)" if "length u < m'" "m' \<le> k" for m'
    proof -
      define i where "i = m' - length u"
      have i: "0 < i" "i \<le> j" using that c(6) by (auto simp: i_def)
      have "take m' s = u @ take i (utf8_encode cp)" using that i True c(1) by (simp add: i_def)
      then show ?thesis using text_take_encode [OF c(3), of i] i True c(2) by (simp add: text_cancel)
    qed
    with True pl c(1,2,6) show ?thesis by auto
  next
    case False
    then have "take k s = u @ utf8_encode cp" using c by simp
    with False pl c(2,3) show ?thesis by (auto simp: text_append text_encode)
  qed
qed

theorem utf8_prefix_len_longest_witness:
  "\<exists>m. utf8_prefix_len (Some (utf8_encode 0x41 @ utf8_encode 0x20AC)) 3 = Some m \<and> m \<le> 3 \<and>
       utf8_text (take m (utf8_encode 0x41 @ utf8_encode 0x20AC))"
proof -
  have "utf8_text (utf8_encode 0x41 @ utf8_encode 0x20AC)"
    by (intro text_append text_encode) (simp_all add: scalar_def)
  moreover have "3 \<le> length (utf8_encode 0x41 @ utf8_encode 0x20AC)" by (simp add: utf8_enc_def)
  ultimately show ?thesis using utf8_prefix_len_longest by blast
qed

end
