(* ===== verification/Ipc_Backoff.thy ===== *)
theory Ipc_Backoff
  imports Airy_Prelude
begin

section \<open>Reconnect backoff and failure aggregation (\<open>utils/ipc/ipc_backoff.c\<close>)\<close>

text \<open>
  Two small state machines the IPC clients embed: an exponential backoff that doubles up to a
  cap, and a window that logs the first failure of a burst and counts the rest. All fields keep
  their C widths. Shown: the closed form of the delays, without wrap-around for any base and cap, and
  that the aggregator splits every stream of failures into windows as specified.
\<close>

subsection \<open>Backoff\<close>

definition IPC_BKOFF_DEF_BASE_MS :: u32 where "IPC_BKOFF_DEF_BASE_MS = 200"
definition IPC_BKOFF_DEF_CAP_MS :: u32 where "IPC_BKOFF_DEF_CAP_MS = 5000"
definition IPC_AGG_DEF_WIN_SEC :: u32 where "IPC_AGG_DEF_WIN_SEC = 60"

record ipc_bkoff =
  base_ms :: u32
  cap_ms :: u32
  cur_ms :: u32

definition ipc_bkoff_init :: "u32 \<Rightarrow> u32 \<Rightarrow> ipc_bkoff" where
  "ipc_bkoff_init base cap =
     (let base' = (if base = 0 then IPC_BKOFF_DEF_BASE_MS else base);
          cap' = (if cap = 0 then IPC_BKOFF_DEF_CAP_MS else cap);
          cap'' = (if cap' < base' then base' else cap')
      in \<lparr>base_ms = base', cap_ms = cap'', cur_ms = base'\<rparr>)"

definition ipc_bkoff_next :: "ipc_bkoff option \<Rightarrow> u32 \<times> ipc_bkoff option" where
  "ipc_bkoff_next p =
     (case p of
        None \<Rightarrow> (0, None)
      | Some b \<Rightarrow>
          let delay = cur_ms b in
          (delay,
           Some (if cur_ms b < cap_ms b
                 then let next = (ucast (cur_ms b) :: u64) * 2
                      in b\<lparr>cur_ms := (if next > ucast (cap_ms b) then cap_ms b else ucast next)\<rparr>
                 else b)))"

definition ipc_bkoff_reset :: "ipc_bkoff option \<Rightarrow> ipc_bkoff option" where
  "ipc_bkoff_reset p = map_option (\<lambda>b. b\<lparr>cur_ms := base_ms b\<rparr>) p"

primrec bkoff_delays :: "nat \<Rightarrow> ipc_bkoff option \<Rightarrow> u32 list \<times> ipc_bkoff option" where
  "bkoff_delays 0 p = ([], p)"
| "bkoff_delays (Suc n) p =
     (let (d, p') = ipc_bkoff_next p; (ds, p'') = bkoff_delays n p' in (d # ds, p''))"

lemma ipc_bkoff_next_nat:
  "\<exists>b'. ipc_bkoff_next (Some b) = (cur_ms b, Some b') \<and> base_ms b' = base_ms b \<and> cap_ms b' = cap_ms b \<and>
     unat (cur_ms b') = (if unat (cur_ms b) < unat (cap_ms b) then min (unat (cap_ms b)) (2 * unat (cur_ms b))
                         else unat (cur_ms b))"
proof -
  have dbl: "unat ((ucast (cur_ms b) :: u64) * 2) = 2 * unat (cur_ms b)"
    using u32_lt [of "cur_ms b"] by (simp add: unat_word_ariths unat_ucast_up)
  have cmp: "(ucast (cur_ms b) :: u64) * 2 > ucast (cap_ms b) \<longleftrightarrow> 2 * unat (cur_ms b) > unat (cap_ms b)"
    using dbl by (simp add: word_less_nat_alt unat_ucast_up)
  have "unat (ucast ((ucast (cur_ms b) :: u64) * 2) :: u32) = 2 * unat (cur_ms b)"
    if "\<not> 2 * unat (cur_ms b) > unat (cap_ms b)"
    using that dbl u32_lt [of "cap_ms b"] by (simp add: unat_ucast_small)
  then show ?thesis using cmp
    by (auto simp: ipc_bkoff_next_def Let_def word_less_nat_alt min_def)
qed

lemma bkoff_delays_closed:
  assumes "unat (cur_ms b) = min (unat (cap_ms b)) (unat (base_ms b) * 2 ^ k)"
  shows "map unat (fst (bkoff_delays n (Some b))) =
         map (\<lambda>i. min (unat (cap_ms b)) (unat (base_ms b) * 2 ^ i)) [k..<k + n]"
  using assms
proof (induction n arbitrary: b k)
  case 0
  then show ?case by simp
next
  case (Suc n)
  obtain b' where b': "ipc_bkoff_next (Some b) = (cur_ms b, Some b')" "base_ms b' = base_ms b" "cap_ms b' = cap_ms b"
    "unat (cur_ms b') = (if unat (cur_ms b) < unat (cap_ms b) then min (unat (cap_ms b)) (2 * unat (cur_ms b))
                         else unat (cur_ms b))" using ipc_bkoff_next_nat by blast
  have "unat (cur_ms b') = min (unat (cap_ms b')) (unat (base_ms b') * 2 ^ Suc k)"
    using b' Suc.prems by (auto simp: min_def split: if_splits)
  from Suc.IH [OF this] b' Suc.prems show ?case
    by (simp add: split_beta Let_def upt_conv_Cons del: upt_Suc)
qed

lemma bkoff_delays_keeps:
  "\<exists>q. snd (bkoff_delays n (Some p)) = Some q \<and> base_ms q = base_ms p \<and> cap_ms q = cap_ms p"
proof (induction n arbitrary: p)
  case (Suc n)
  obtain p' where p': "ipc_bkoff_next (Some p) = (cur_ms p, Some p')" "base_ms p' = base_ms p" "cap_ms p' = cap_ms p"
    using ipc_bkoff_next_nat by blast
  with Suc.IH [of p'] show ?case by (auto simp: split_beta Let_def)
qed simp

text \<open>C21: For every base and cap, zero (defaults) and a cap below the base included, the \<open>i\<close>-th delay of a
  fresh backoff is the smaller of the cap and the base times \<open>2^i\<close>, computed without wrap-around
  however long the sequence, and after a reset the sequence starts over.\<close>

theorem ipc_bkoff_delays:
  fixes base cap :: u32
  defines "b \<equiv> (if base = 0 then 200 else unat base)"
  defines "c \<equiv> max b (if cap = 0 then 5000 else unat cap)"
  shows "map unat (fst (bkoff_delays n (Some (ipc_bkoff_init base cap)))) = map (\<lambda>i. min c (b * 2 ^ i)) [0..<n] \<and>
         ipc_bkoff_reset (snd (bkoff_delays n (Some (ipc_bkoff_init base cap)))) = Some (ipc_bkoff_init base cap)"
proof
  let ?s = "ipc_bkoff_init base cap"
  have init: "unat (base_ms ?s) = b" "unat (cap_ms ?s) = c" "cur_ms ?s = base_ms ?s"
    by (auto simp: ipc_bkoff_init_def b_def c_def Let_def word_less_nat_alt IPC_BKOFF_DEF_BASE_MS_def
        IPC_BKOFF_DEF_CAP_MS_def max_def)
  moreover have "b \<le> c" by (simp add: c_def)
  ultimately show "map unat (fst (bkoff_delays n (Some ?s))) = map (\<lambda>i. min c (b * 2 ^ i)) [0..<n]"
    using bkoff_delays_closed [of ?s 0 n] by (simp add: min_absorb2)
  obtain q where q: "snd (bkoff_delays n (Some ?s)) = Some q" "base_ms q = base_ms ?s" "cap_ms q = cap_ms ?s"
    using bkoff_delays_keeps by blast
  have "q\<lparr>cur_ms := base_ms q\<rparr> = ?s" using q(2,3) init(3) by (intro ipc_bkoff.equality) auto
  with q(1) show "ipc_bkoff_reset (snd (bkoff_delays n (Some ?s))) = Some ?s" by (simp add: ipc_bkoff_reset_def)
qed

subsection \<open>Aggregation\<close>

record ipc_agg =
  win_sec :: u32
  win_start :: u64
  agg_count :: u64

definition ipc_agg_init :: "u32 \<Rightarrow> ipc_agg" where
  "ipc_agg_init win = \<lparr>win_sec = (if win = 0 then IPC_AGG_DEF_WIN_SEC else win), win_start = 0, agg_count = 0\<rparr>"

text \<open>Result: whether to log, the count handed back, the state.\<close>

definition ipc_agg_feed :: "ipc_agg option \<Rightarrow> u64 \<Rightarrow> bool \<times> u64 \<times> ipc_agg option" where
  "ipc_agg_feed p now_sec =
     (case p of
        None \<Rightarrow> (True, 0, None)
      | Some a \<Rightarrow>
          if agg_count a > 0 \<and> now_sec < win_start a + ucast (win_sec a)
          then (False, 0, Some (a\<lparr>agg_count := agg_count a + 1\<rparr>))
          else (True, (if agg_count a > 1 then agg_count a else 0),
                Some (a\<lparr>win_start := now_sec, agg_count := 1\<rparr>)))"

definition ipc_agg_reset :: "ipc_agg option \<Rightarrow> ipc_agg option" where
  "ipc_agg_reset p = map_option (\<lambda>a. a\<lparr>win_start := 0, agg_count := 0\<rparr>) p"

fun agg_run :: "ipc_agg option \<Rightarrow> u64 list \<Rightarrow> (bool \<times> u64) list" where
  "agg_run p [] = []"
| "agg_run p (t # ts) = (let (log, prev, p') = ipc_agg_feed p t in (log, prev) # agg_run p' ts)"

text \<open>
  The specification: a failure that no window covers opens one, of width \<open>w\<close>; the
  following failures before its end belong to it.
\<close>

function windows :: "nat \<Rightarrow> nat list \<Rightarrow> nat list list" where
  "windows w [] = []"
| "windows w (t # ts) = (t # takeWhile (\<lambda>x. x < t + w) ts) # windows w (dropWhile (\<lambda>x. x < t + w) ts)"
  by pat_completeness auto
termination by (relation "measure (length \<circ> snd)") (auto simp: le_imp_less_Suc length_dropWhile_le)

text \<open>What is logged: the first failure of each window, with the size of the window before if above 1.\<close>

primrec agg_log :: "nat \<Rightarrow> nat list list \<Rightarrow> (bool \<times> nat) list" where
  "agg_log c [] = []"
| "agg_log c (g # gs) =
     (True, if c > 1 then c else 0) # replicate (length g - 1) (False, 0) @ agg_log (length g) gs"

lemma unat_Suc: "unat (c :: u64) + 1 < 2 ^ 64 \<Longrightarrow> unat (c + 1) = unat c + 1"
  by (simp add: unat_word_ariths)

lemma agg_run_in_window:
  assumes "unat (agg_count a) > 0" "unat (agg_count a) + length ts < 2 ^ 64"
    and "unat (win_start a) + unat (win_sec a) < 2 ^ 64" "\<forall>t \<in> set ts. unat t + unat (win_sec a) < 2 ^ 64"
  shows "map (map_prod id unat) (agg_run (Some a) ts) =
    (let inw = takeWhile (\<lambda>x. x < unat (win_start a) + unat (win_sec a)) (map unat ts);
         rest = dropWhile (\<lambda>x. x < unat (win_start a) + unat (win_sec a)) (map unat ts)
     in replicate (length inw) (False, 0) @
        agg_log (unat (agg_count a) + length inw) (windows (unat (win_sec a)) rest))"
  using assms
proof (induction ts arbitrary: a)
  case Nil
  then show ?case by simp
next
  case (Cons t ts)
  let ?e = "win_start a + ucast (win_sec a)"
  have e: "unat ?e = unat (win_start a) + unat (win_sec a)"
    using Cons.prems(3) by (simp add: unat_word_ariths unat_ucast_up)
  have c: "agg_count a > 0" "agg_count a > 1 \<longleftrightarrow> unat (agg_count a) > 1"
    using Cons.prems(1) by (simp_all add: word_less_nat_alt)
  have t: "t < ?e \<longleftrightarrow> unat t < unat (win_start a) + unat (win_sec a)" using e by (simp add: word_less_nat_alt)
  show ?case
  proof (cases "t < ?e")
    case True
    let ?a = "a\<lparr>agg_count := agg_count a + 1\<rparr>"
    have "unat (agg_count ?a) = unat (agg_count a) + 1" using Cons.prems(2) by (simp add: unat_Suc)
    with Cons.IH [of ?a] Cons.prems True t c(1) show ?thesis
      by (simp add: ipc_agg_feed_def Let_def)
  next
    case False
    let ?a = "a\<lparr>win_start := t, agg_count := 1\<rparr>"
    from Cons.IH [of ?a] Cons.prems False t c show ?thesis
      by (simp add: ipc_agg_feed_def Let_def)
  qed
qed

text \<open>Fed a stream of failures at any wall-clock seconds, the aggregator logs exactly the first
  failure of every window, suppresses the rest, and hands the first failure of a window the number of
  failures of the window before, or 0 if that was at most one.\<close>

theorem ipc_agg_run_windows:
  assumes "length ts < 2 ^ 64" "\<forall>t \<in> set ts. unat t < 2 ^ 63"
  shows "map (map_prod id unat) (agg_run (Some (ipc_agg_init win)) ts) =
         agg_log 0 (windows (if win = 0 then 60 else unat win) (map unat ts))"
proof (cases ts)
  case Nil
  then show ?thesis by simp
next
  case (Cons t ts')
  let ?a = "(ipc_agg_init win)\<lparr>win_start := t, agg_count := 1\<rparr>"
  have w: "unat (win_sec (ipc_agg_init win)) = (if win = 0 then 60 else unat win)"
    by (simp add: ipc_agg_init_def IPC_AGG_DEF_WIN_SEC_def)
  from assms(2) have bnd: "unat x + unat (win_sec (ipc_agg_init win)) < 2 ^ 64" if "x \<in> set ts" for x
    using that u32_lt [of "win_sec (ipc_agg_init win)"] by fastforce
  have "ipc_agg_feed (Some (ipc_agg_init win)) t = (True, 0, Some ?a)"
    by (simp add: ipc_agg_feed_def ipc_agg_init_def)
  with agg_run_in_window [of ?a ts'] Cons assms(1) bnd w show ?thesis
    by (simp add: Let_def)
qed

theorem ipc_agg_run_windows_witness:
  "map (map_prod id unat) (agg_run (Some (ipc_agg_init 10)) [100, 101, 109, 110, 130]) =
     [(True, 0), (False, 0), (False, 0), (True, 3), (True, 0)]"
  using ipc_agg_run_windows [of "[100, 101, 109, 110, 130]" 10] by simp

end
