(* ===== verification/Circuit_Breaker.thy ===== *)
theory Circuit_Breaker
  imports Complex_Main Err_Codes "HOL-Library.Monad_Syntax"
begin

section \<open>Circuit breaker (\<open>utils/ipc/circuit_breaker.c\<close>)\<close>

text \<open>
  The three-state breaker with its window accounting, statistics, failover texts and the
  manager that owns the breakers. Every operation runs under the breaker's mutex and is one
  step of the model; \<open>airy_time_ms\<close> is the argument \<open>now\<close>, the same for all readings of one
  call. A handle that may be NULL is an option. Counters keep their widths. The rates, which the
  code computes as \<open>double\<close> and compares with an integer percentage, are rationals: for counts
  below \<open>2^32\<close> the rounded quotient and the exact one compare alike. Log output is left out;
  the events of \<open>notify_event\<close> are returned.
\<close>

subsection \<open>Data\<close>

definition CB_MAX_BREAKERS :: nat where "CB_MAX_BREAKERS = 64"
definition CB_MAX_NAME_LEN :: nat where "CB_MAX_NAME_LEN = 64"
definition CB_MAX_CALLBACKS :: nat where "CB_MAX_CALLBACKS = 8"

datatype cb_state = CB_STATE_CLOSED | CB_STATE_OPEN | CB_STATE_HALF_OPEN

record cb_config =
  failure_threshold :: u32
  success_threshold :: u32
  timeout_ms :: u32
  half_open_max_calls :: u32
  window_size_ms :: u32
  slow_call_duration_ms :: u32
  slow_call_rate_threshold :: u32
  failure_rate_threshold :: u32
  enable_slow_call_detection :: bool
  enable_auto_failover :: bool

record cb_stats =
  total_calls :: u64
  successful_calls :: u64
  failed_calls :: u64
  rejected_calls :: u64
  timeout_calls :: u64
  slow_calls :: u64
  state_transitions :: u64
  last_failure_time :: u64
  last_success_time :: u64
  last_state_change_time :: u64
  failure_rate :: rat
  slow_call_rate :: rat
  consecutive_failures :: u32
  consecutive_successes :: u32

record cb_event =
  ev_breaker_name :: cstr
  ev_old_state :: cb_state
  ev_new_state :: cb_state
  ev_message :: cstr
  ev_timestamp :: u64

datatype cb_failover_strategy =
    CB_FAILOVER_RETRY | CB_FAILOVER_FALLBACK | CB_FAILOVER_REDIRECT | CB_FAILOVER_CACHE
  | CB_FAILOVER_UNKNOWN int \<comment> \<open>any other value of the C enum\<close>

record cb_failover_config =
  fo_strategy :: cb_failover_strategy
  fo_fallback_service :: cstr
  fo_max_retries :: u32
  fo_retry_delay_ms :: u32
  fo_retry_backoff_factor :: u32

record cb_internal =
  cb_name :: cstr
  cb_config :: cb_config
  cb_failover :: cb_failover_config
  cb_state :: cb_state
  cb_stats :: cb_stats
  state_changed_at :: u64
  half_open_calls :: u32
  window_start :: u64
  window_failures :: u32
  window_calls :: u32
  destroying :: bool

subsection \<open>State changes\<close>

definition cb_state_to_string :: "cb_state \<Rightarrow> cstr" where
  "cb_state_to_string s =
     (case s of CB_STATE_CLOSED \<Rightarrow> ''CLOSED'' | CB_STATE_OPEN \<Rightarrow> ''OPEN'' | CB_STATE_HALF_OPEN \<Rightarrow> ''HALF_OPEN'')"

definition transition_state :: "u64 \<Rightarrow> cb_internal \<Rightarrow> cb_state \<Rightarrow> cb_internal \<times> cb_event list" where
  "transition_state now cb new_state =
     (if cb_state cb = new_state then (cb, [])
      else
        let old_state = cb_state cb;
            cb1 = cb\<lparr>cb_state := new_state, state_changed_at := now,
                     cb_stats := (cb_stats cb)\<lparr>state_transitions := state_transitions (cb_stats cb) + 1,
                                               last_state_change_time := now\<rparr>\<rparr>;
            cb2 = (if new_state = CB_STATE_HALF_OPEN
                   then cb1\<lparr>half_open_calls := 0, cb_stats := (cb_stats cb1)\<lparr>consecutive_successes := 0\<rparr>\<rparr>
                   else cb1);
            cb3 = (if new_state = CB_STATE_CLOSED
                   then cb2\<lparr>cb_stats := (cb_stats cb2)\<lparr>consecutive_failures := 0, consecutive_successes := 0\<rparr>,
                            window_failures := 0, window_calls := 0, window_start := now\<rparr>
                   else cb2)
        in (cb3, [\<lparr>ev_breaker_name = cb_name cb, ev_old_state = old_state, ev_new_state = new_state,
                   ev_message = ''State: '' @ cb_state_to_string old_state @ '' -> '' @ cb_state_to_string new_state,
                   ev_timestamp = now\<rparr>]))"

definition cb_lock_alive :: "cb_internal \<Rightarrow> bool" where
  "cb_lock_alive cb \<longleftrightarrow> \<not> destroying cb"

definition check_window_reset :: "u64 \<Rightarrow> cb_internal \<Rightarrow> cb_internal" where
  "check_window_reset now cb =
     (if window_size_ms (cb_config cb) > 0 \<and> now - window_start cb \<ge> ucast (window_size_ms (cb_config cb))
      then cb\<lparr>window_start := now, window_failures := 0, window_calls := 0\<rparr>
      else cb)"

definition percent :: "nat \<Rightarrow> nat \<Rightarrow> rat" where
  "percent part whole = of_nat (part * 100) / of_nat whole"

definition should_trip :: "cb_internal \<Rightarrow> bool" where
  "should_trip cb =
     (if consecutive_failures (cb_stats cb) \<ge> failure_threshold (cb_config cb) then True
      else if failure_rate_threshold (cb_config cb) > 0 \<and> window_calls cb > 0 \<and>
              percent (unat (window_failures cb)) (unat (window_calls cb)) \<ge>
                of_nat (unat (failure_rate_threshold (cb_config cb))) then True
      else if enable_slow_call_detection (cb_config cb) \<and> total_calls (cb_stats cb) > 0 \<and>
              slow_call_rate_threshold (cb_config cb) > 0 \<and>
              slow_call_rate (cb_stats cb) \<ge> of_nat (unat (slow_call_rate_threshold (cb_config cb))) then True
      else False)"

definition note_failure_locked :: "u64 \<Rightarrow> cb_internal \<Rightarrow> cb_internal \<times> cb_event list" where
  "note_failure_locked now cb =
     (let cb1 = cb\<lparr>cb_stats := (cb_stats cb)\<lparr>last_failure_time := now,
                     consecutive_failures := consecutive_failures (cb_stats cb) + 1, consecutive_successes := 0\<rparr>,
                   window_calls := window_calls cb + 1, window_failures := window_failures cb + 1\<rparr>;
          cb2 = check_window_reset now cb1;
          cb3 = (if window_calls cb2 > 0
                 then cb2\<lparr>cb_stats := (cb_stats cb2)
                            \<lparr>failure_rate := percent (unat (window_failures cb2)) (unat (window_calls cb2))\<rparr>\<rparr>
                 else cb2)
      in if cb_state cb3 = CB_STATE_CLOSED
         then (if should_trip cb3 then transition_state now cb3 CB_STATE_OPEN else (cb3, []))
         else if cb_state cb3 = CB_STATE_HALF_OPEN then transition_state now cb3 CB_STATE_OPEN
         else (cb3, []))"

subsection \<open>Configurations\<close>

definition cb_create_default_config :: cb_config where
  "cb_create_default_config =
     \<lparr>failure_threshold = 5, success_threshold = 3, timeout_ms = 30000, half_open_max_calls = 1,
      window_size_ms = 60000, slow_call_duration_ms = 5000, slow_call_rate_threshold = 50,
      failure_rate_threshold = 50, enable_slow_call_detection = True, enable_auto_failover = False\<rparr>"

definition cb_create_default_failover_config :: cb_failover_config where
  "cb_create_default_failover_config =
     \<lparr>fo_strategy = CB_FAILOVER_RETRY, fo_fallback_service = [], fo_max_retries = 3,
      fo_retry_delay_ms = 100, fo_retry_backoff_factor = 2\<rparr>"

subsection \<open>Operations on a breaker\<close>

text \<open>Each takes the breaker behind the handle and returns its result, the breaker and the events.\<close>

definition cb_allow_request :: "u64 \<Rightarrow> cb_internal option \<Rightarrow> bool \<times> cb_internal option \<times> cb_event list" where
  "cb_allow_request now breaker =
     (case breaker of
        None \<Rightarrow> (False, None, [])
      | Some cb \<Rightarrow>
          if \<not> cb_lock_alive cb then (False, Some cb, [])
          else (case cb_state cb of
                  CB_STATE_CLOSED \<Rightarrow> (True, Some cb, [])
                | CB_STATE_OPEN \<Rightarrow>
                    if now - state_changed_at cb \<ge> ucast (timeout_ms (cb_config cb))
                    then let (cb', evs) = transition_state now cb CB_STATE_HALF_OPEN in (True, Some cb', evs)
                    else (False,
                          Some (cb\<lparr>cb_stats := (cb_stats cb)\<lparr>rejected_calls := rejected_calls (cb_stats cb) + 1\<rparr>\<rparr>), [])
                | CB_STATE_HALF_OPEN \<Rightarrow>
                    if half_open_calls cb < half_open_max_calls (cb_config cb)
                    then (True, Some (cb\<lparr>half_open_calls := half_open_calls cb + 1\<rparr>), [])
                    else (False,
                          Some (cb\<lparr>cb_stats := (cb_stats cb)\<lparr>rejected_calls := rejected_calls (cb_stats cb) + 1\<rparr>\<rparr>), [])))"

definition cb_record_success :: "u64 \<Rightarrow> u32 \<Rightarrow> cb_internal option \<Rightarrow> cb_internal option \<times> cb_event list" where
  "cb_record_success now duration_ms breaker =
     (case breaker of
        None \<Rightarrow> (None, [])
      | Some cb \<Rightarrow>
          if \<not> cb_lock_alive cb then (Some cb, [])
          else
            let s = cb_stats cb;
                cb1 = cb\<lparr>cb_stats := s\<lparr>total_calls := total_calls s + 1, successful_calls := successful_calls s + 1,
                                      last_success_time := now, consecutive_failures := 0,
                                      consecutive_successes := consecutive_successes s + 1\<rparr>,
                         window_calls := window_calls cb + 1\<rparr>;
                cb2 = check_window_reset now cb1;
                cb3 = (if enable_slow_call_detection (cb_config cb2) \<and> duration_ms > slow_call_duration_ms (cb_config cb2)
                       then let s1 = (cb_stats cb2)\<lparr>slow_calls := slow_calls (cb_stats cb2) + 1\<rparr>
                            in cb2\<lparr>cb_stats := (if total_calls s1 > 0
                                               then s1\<lparr>slow_call_rate := percent (unat (slow_calls s1)) (unat (total_calls s1))\<rparr>
                                               else s1)\<rparr>
                       else cb2)
            in if cb_state cb3 = CB_STATE_HALF_OPEN \<and>
                  consecutive_successes (cb_stats cb3) \<ge> success_threshold (cb_config cb3)
               then let (cb4, evs) = transition_state now cb3 CB_STATE_CLOSED in (Some cb4, evs)
               else (Some cb3, []))"

definition cb_record_failure :: "u64 \<Rightarrow> int \<Rightarrow> cb_internal option \<Rightarrow> cb_internal option \<times> cb_event list" where
  "cb_record_failure now error_code breaker =
     (case breaker of
        None \<Rightarrow> (None, [])
      | Some cb \<Rightarrow>
          if \<not> cb_lock_alive cb then (Some cb, [])
          else let s = cb_stats cb;
                   (cb', evs) = note_failure_locked now
                     (cb\<lparr>cb_stats := s\<lparr>total_calls := total_calls s + 1, failed_calls := failed_calls s + 1\<rparr>\<rparr>)
               in (Some cb', evs))"

definition cb_record_timeout :: "u64 \<Rightarrow> cb_internal option \<Rightarrow> cb_internal option \<times> cb_event list" where
  "cb_record_timeout now breaker =
     (case breaker of
        None \<Rightarrow> (None, [])
      | Some cb \<Rightarrow>
          if \<not> cb_lock_alive cb then (Some cb, [])
          else let s = cb_stats cb;
                   (cb', evs) = note_failure_locked now
                     (cb\<lparr>cb_stats := s\<lparr>total_calls := total_calls s + 1, timeout_calls := timeout_calls s + 1,
                                     failed_calls := failed_calls s + 1\<rparr>\<rparr>)
               in (Some cb', evs))"

definition cb_get_state :: "cb_internal option \<Rightarrow> cb_state" where
  "cb_get_state breaker = (case breaker of None \<Rightarrow> CB_STATE_OPEN | Some cb \<Rightarrow> cb_state cb)"

definition cb_get_name :: "cb_internal option \<Rightarrow> cstr option" where
  "cb_get_name breaker = map_option cb_name breaker"

definition cb_get_stats :: "cb_internal option \<Rightarrow> bool \<Rightarrow> airy_err \<times> cb_stats option" where
  "cb_get_stats breaker stats_given =
     (case breaker of
        None \<Rightarrow> (AIRY_EINVAL, None)
      | Some cb \<Rightarrow>
          if \<not> stats_given then (AIRY_EINVAL, None)
          else if \<not> cb_lock_alive cb then (AIRY_EINVAL, None)
          else (AIRY_SUCCESS, Some (cb_stats cb)))"

definition cb_reset :: "u64 \<Rightarrow> cb_internal option \<Rightarrow> cb_internal option" where
  "cb_reset now breaker =
     (case breaker of
        None \<Rightarrow> None
      | Some cb \<Rightarrow>
          if \<not> cb_lock_alive cb then Some cb
          else
            let old = cb_state cb;
                cb1 = cb\<lparr>cb_state := CB_STATE_CLOSED, state_changed_at := now,
                         cb_stats := (cb_stats cb)\<lparr>consecutive_failures := 0, consecutive_successes := 0\<rparr>,
                         window_failures := 0, window_calls := 0, window_start := now, half_open_calls := 0\<rparr>
            in Some (if old \<noteq> CB_STATE_CLOSED
                     then cb1\<lparr>cb_stats := (cb_stats cb1)\<lparr>state_transitions := state_transitions (cb_stats cb1) + 1,
                                                        last_state_change_time := now\<rparr>\<rparr>
                     else cb1))"

definition cb_force_open :: "u64 \<Rightarrow> cb_internal option \<Rightarrow> cb_internal option \<times> cb_event list" where
  "cb_force_open now breaker =
     (case breaker of
        None \<Rightarrow> (None, [])
      | Some cb \<Rightarrow>
          if \<not> cb_lock_alive cb then (Some cb, [])
          else let (cb', evs) = transition_state now cb CB_STATE_OPEN in (Some cb', evs))"

definition cb_force_close :: "u64 \<Rightarrow> cb_internal option \<Rightarrow> cb_internal option \<times> cb_event list" where
  "cb_force_close now breaker =
     (case breaker of
        None \<Rightarrow> (None, [])
      | Some cb \<Rightarrow>
          if \<not> cb_lock_alive cb then (Some cb, [])
          else let (cb', evs) = transition_state now cb CB_STATE_CLOSED in (Some cb', evs))"

definition cb_set_failover_config ::
  "cb_internal option \<Rightarrow> cb_failover_config option \<Rightarrow> airy_err \<times> cb_internal option" where
  "cb_set_failover_config breaker config =
     (case (breaker, config) of
        (Some cb, Some c) \<Rightarrow>
          if \<not> cb_lock_alive cb then (AIRY_EINVAL, breaker)
          else (AIRY_SUCCESS, Some (cb\<lparr>cb_failover := c\<rparr>))
      | _ \<Rightarrow> (AIRY_EINVAL, breaker))"

text \<open>The text goes into a buffer of \<open>result_size\<close> bytes: what \<open>snprintf\<close> leaves there, and the code.\<close>

definition snprintf_into :: "nat \<Rightarrow> cstr \<Rightarrow> cstr option" where
  "snprintf_into result_size t = (if result_size = 0 then None else Some (take (result_size - 1) t))"

definition cb_execute_failover ::
  "cb_internal option \<Rightarrow> int \<Rightarrow> nat \<Rightarrow> airy_err \<times> cstr option" where
  "cb_execute_failover breaker original_error result_size =
     (case breaker of
        None \<Rightarrow> (AIRY_EINVAL, None)
      | Some cb \<Rightarrow>
          if \<not> cb_lock_alive cb then (AIRY_EINVAL, None)
          else
            let fc = cb_failover cb; q = [CHR 0x22];
                fo = (\<lambda>k. ''{'' @ q @ ''failover'' @ q @ '':'' @ q @ k @ q @ '','' @ q @ ''service'' @ q @ '':'' @ q @ cb_name cb @ q)
            in case fo_strategy fc of
                 CB_FAILOVER_RETRY \<Rightarrow>
                   (AIRY_SUCCESS, snprintf_into result_size
                      (fo ''retry'' @ '','' @ q @ ''retries'' @ q @ '':'' @ dec_nat (unat (fo_max_retries fc)) @
                       '','' @ q @ ''delay_ms'' @ q @ '':'' @ dec_nat (unat (fo_retry_delay_ms fc)) @ ''}''))
               | CB_FAILOVER_FALLBACK \<Rightarrow>
                   (AIRY_SUCCESS, snprintf_into result_size
                      (fo ''fallback'' @ '','' @ q @ ''fallback'' @ q @ '':'' @ q @ fo_fallback_service fc @ q @ ''}''))
               | CB_FAILOVER_REDIRECT \<Rightarrow>
                   (AIRY_SUCCESS, snprintf_into result_size
                      (fo ''redirect'' @ '','' @ q @ ''target'' @ q @ '':'' @ q @ fo_fallback_service fc @ q @ ''}''))
               | CB_FAILOVER_CACHE \<Rightarrow>
                   (AIRY_SUCCESS, snprintf_into result_size
                      (fo ''cache'' @ '','' @ q @ ''error'' @ q @ '':'' @ dec_int original_error @ ''}''))
               | CB_FAILOVER_UNKNOWN _ \<Rightarrow>
                   (AIRY_ERR_UNKNOWN, snprintf_into result_size
                      (fo ''none'' @ '','' @ q @ ''error'' @ q @ '':'' @ dec_int original_error @ ''}'')))"

subsection \<open>The manager\<close>

text \<open>
  Breakers live at addresses; the manager's array \<open>breakers[0..breaker_count)\<close> is the list of
  their addresses. Following a pointer to a freed breaker makes the operation \<open>None\<close>. A
  callback is an identifier with its user data.
\<close>

record cb_manager =
  mg_heap :: "addr \<rightharpoonup> cb_internal"
  mg_breakers :: "addr list"
  mg_callbacks :: "(nat \<times> nat) list"

definition notify_event :: "cb_manager option \<Rightarrow> cb_event \<Rightarrow> ((nat \<times> nat) \<times> cb_event) list" where
  "notify_event mgr event = (case mgr of None \<Rightarrow> [] | Some m \<Rightarrow> map (\<lambda>c. (c, event)) (mg_callbacks m))"

definition cb_manager_create :: "bool \<Rightarrow> bool \<Rightarrow> cb_manager option" where
  "cb_manager_create alloc_ok mutex_ok =
     (if \<not> alloc_ok \<or> \<not> mutex_ok then None
      else Some \<lparr>mg_heap = Map.empty, mg_breakers = [], mg_callbacks = []\<rparr>)"

primrec free_all :: "(addr \<rightharpoonup> cb_internal) \<Rightarrow> addr list \<Rightarrow> (addr \<rightharpoonup> cb_internal) option" where
  "free_all h [] = Some h"
| "free_all h (a # as) = (case h a of None \<Rightarrow> None | Some _ \<Rightarrow> free_all (h(a := None)) as)"

definition cb_manager_destroy :: "cb_manager option \<Rightarrow> (addr \<rightharpoonup> cb_internal) option" where
  "cb_manager_destroy manager =
     (case manager of None \<Rightarrow> Some Map.empty | Some m \<Rightarrow> free_all (mg_heap m) (mg_breakers m))"

text \<open>The search both \<open>cb_create\<close> and \<open>cb_find\<close> make; \<open>Some None\<close> when no name matches.\<close>

primrec find_breaker :: "(addr \<rightharpoonup> cb_internal) \<Rightarrow> cstr \<Rightarrow> addr list \<Rightarrow> addr option option" where
  "find_breaker h name [] = Some None"
| "find_breaker h name (a # as) =
     (case h a of
        None \<Rightarrow> None
      | Some cb \<Rightarrow> if cb_name cb = name then Some (Some a) else find_breaker h name as)"

text \<open>\<open>safe_strcpy (cb->name, name, CB_MAX_NAME_LEN)\<close> keeps the first 63 characters.\<close>

definition cb_new :: "u64 \<Rightarrow> cstr \<Rightarrow> cb_config option \<Rightarrow> cb_internal" where
  "cb_new now name config =
     \<lparr>cb_name = take (CB_MAX_NAME_LEN - 1) name,
      cb_config = (case config of Some c \<Rightarrow> c | None \<Rightarrow> cb_create_default_config),
      cb_failover = cb_create_default_failover_config, cb_state = CB_STATE_CLOSED,
      cb_stats = \<lparr>total_calls = 0, successful_calls = 0, failed_calls = 0, rejected_calls = 0, timeout_calls = 0,
                  slow_calls = 0, state_transitions = 0, last_failure_time = 0, last_success_time = 0,
                  last_state_change_time = 0, failure_rate = 0, slow_call_rate = 0,
                  consecutive_failures = 0, consecutive_successes = 0\<rparr>,
      state_changed_at = now, half_open_calls = 0, window_start = now, window_failures = 0, window_calls = 0,
      destroying = False\<rparr>"

definition cb_create ::
  "u64 \<Rightarrow> addr option \<Rightarrow> bool \<Rightarrow> cb_manager option \<Rightarrow> cstr option \<Rightarrow> cb_config option \<Rightarrow>
   (addr option \<times> cb_manager option) option" where
  "cb_create now na mutex_ok manager name config =
     (case (manager, name) of
        (Some mgr, Some nm) \<Rightarrow>
          if length (mg_breakers mgr) \<ge> CB_MAX_BREAKERS then Some (None, Some mgr)
          else (case find_breaker (mg_heap mgr) nm (mg_breakers mgr) of
                  None \<Rightarrow> None
                | Some (Some a) \<Rightarrow> Some (Some a, Some mgr)
                | Some None \<Rightarrow>
                    (case na of
                       None \<Rightarrow> Some (None, Some mgr)
                     | Some a \<Rightarrow>
                         if \<not> mutex_ok then Some (None, Some mgr)
                         else Some (Some a, Some (mgr\<lparr>mg_heap := (mg_heap mgr)(a \<mapsto> cb_new now nm config),
                                                      mg_breakers := mg_breakers mgr @ [a]\<rparr>))))
      | _ \<Rightarrow> Some (None, manager))"

text \<open>Closing the gap in the array of pointers keeps the order: \<open>remove1\<close>.\<close>

definition cb_destroy :: "cb_manager \<Rightarrow> addr option \<Rightarrow> cb_manager option" where
  "cb_destroy mgr breaker =
     (case breaker of
        None \<Rightarrow> Some mgr
      | Some a \<Rightarrow>
          (case mg_heap mgr a of
             None \<Rightarrow> None
           | Some cb \<Rightarrow> Some (mgr\<lparr>mg_breakers := remove1 a (mg_breakers mgr), mg_heap := (mg_heap mgr)(a := None)\<rparr>)))"

definition cb_register_event_callback ::
  "cb_manager option \<Rightarrow> nat option \<Rightarrow> nat \<Rightarrow> airy_err \<times> cb_manager option" where
  "cb_register_event_callback manager callback user_data =
     (case (manager, callback) of
        (Some mgr, Some f) \<Rightarrow>
          if length (mg_callbacks mgr) \<ge> CB_MAX_CALLBACKS then (AIRY_ENOMEM, Some mgr)
          else (AIRY_SUCCESS, Some (mgr\<lparr>mg_callbacks := mg_callbacks mgr @ [(f, user_data)]\<rparr>))
      | _ \<Rightarrow> (AIRY_EINVAL, manager))"

definition cb_find :: "cb_manager option \<Rightarrow> cstr option \<Rightarrow> addr option option" where
  "cb_find manager name =
     (case (manager, name) of
        (Some mgr, Some nm) \<Rightarrow> find_breaker (mg_heap mgr) nm (mg_breakers mgr)
      | _ \<Rightarrow> Some None)"

definition cb_count :: "cb_manager option \<Rightarrow> nat" where
  "cb_count manager = (case manager of None \<Rightarrow> 0 | Some mgr \<Rightarrow> length (mg_breakers mgr))"

end
