(* ===== verification/Breaker_Machine.thy ===== *)
theory Breaker_Machine
  imports Circuit_Breaker
begin

section \<open>The circuit breaker as a state machine\<close>

text \<open>
  Sequences of calls on one breaker. Shown: an open breaker fails fast until its timeout, enough
  consecutive failures trip it, the statistics stay consistent, a breaker whose probe limit
  allows it recovers, and one whose limit is below the success threshold, as in the default
  configuration, can never leave the half-open state by succeeding.
\<close>

subsection \<open>Steps\<close>

datatype cb_op =
    Allow u64 | Success u64 u32 | Failure u64 int | Timeout u64 | Reset u64 | Force_Open u64 | Force_Close u64

fun cb_step :: "cb_internal \<Rightarrow> cb_op \<Rightarrow> bool option \<times> cb_internal" where
  "cb_step cb (Allow now) = (let (r, c, evs) = cb_allow_request now (Some cb) in (Some r, the c))"
| "cb_step cb (Success now d) = (None, the (fst (cb_record_success now d (Some cb))))"
| "cb_step cb (Failure now e) = (None, the (fst (cb_record_failure now e (Some cb))))"
| "cb_step cb (Timeout now) = (None, the (fst (cb_record_timeout now (Some cb))))"
| "cb_step cb (Reset now) = (None, the (cb_reset now (Some cb)))"
| "cb_step cb (Force_Open now) = (None, the (fst (cb_force_open now (Some cb))))"
| "cb_step cb (Force_Close now) = (None, the (fst (cb_force_close now (Some cb))))"

text \<open>
  What the helpers change, field by field, so that the steps below never unfold them. \<open>kept\<close>
  relates two breakers that differ only in window, rates, times and counts of transitions.
\<close>

lemma transition_state_simps [simp]:
  "cb_config (fst (transition_state now cb s)) = cb_config cb"
  "destroying (fst (transition_state now cb s)) = destroying cb"
  "cb_state (fst (transition_state now cb s)) = s"
  "state_changed_at (fst (transition_state now cb s)) = (if cb_state cb = s then state_changed_at cb else now)"
  "total_calls (cb_stats (fst (transition_state now cb s))) = total_calls (cb_stats cb)"
  "successful_calls (cb_stats (fst (transition_state now cb s))) = successful_calls (cb_stats cb)"
  "failed_calls (cb_stats (fst (transition_state now cb s))) = failed_calls (cb_stats cb)"
  "half_open_calls (fst (transition_state now cb s)) =
     (if cb_state cb \<noteq> s \<and> s = CB_STATE_HALF_OPEN then 0 else half_open_calls cb)"
  "consecutive_failures (cb_stats (fst (transition_state now cb s))) =
     (if cb_state cb \<noteq> s \<and> s = CB_STATE_CLOSED then 0 else consecutive_failures (cb_stats cb))"
  "consecutive_successes (cb_stats (fst (transition_state now cb s))) =
     (if cb_state cb \<noteq> s \<and> s \<noteq> CB_STATE_OPEN then 0 else consecutive_successes (cb_stats cb))"
  by (cases s; simp add: transition_state_def Let_def)+

lemma check_window_reset_simps [simp]:
  "cb_config (check_window_reset now cb) = cb_config cb" "destroying (check_window_reset now cb) = destroying cb"
  "cb_state (check_window_reset now cb) = cb_state cb" "cb_stats (check_window_reset now cb) = cb_stats cb"
  "state_changed_at (check_window_reset now cb) = state_changed_at cb"
  "half_open_calls (check_window_reset now cb) = half_open_calls cb"
  by (simp_all add: check_window_reset_def)

definition kept :: "cb_internal \<Rightarrow> cb_internal \<Rightarrow> bool" where
  "kept cb cb' \<longleftrightarrow> cb_config cb' = cb_config cb \<and> destroying cb' = destroying cb \<and> cb_state cb' = cb_state cb \<and>
     state_changed_at cb' = state_changed_at cb \<and> half_open_calls cb' = half_open_calls cb"

definition counted :: "cb_internal \<Rightarrow> cb_internal \<Rightarrow> bool" where
  "counted cb cb' \<longleftrightarrow> total_calls (cb_stats cb') = total_calls (cb_stats cb) \<and>
     successful_calls (cb_stats cb') = successful_calls (cb_stats cb) \<and>
     failed_calls (cb_stats cb') = failed_calls (cb_stats cb)"

lemma note_failure_view:
  "\<exists>cb'. kept cb cb' \<and> counted cb cb' \<and>
     consecutive_failures (cb_stats cb') = consecutive_failures (cb_stats cb) + 1 \<and>
     consecutive_successes (cb_stats cb') = 0 \<and>
     fst (note_failure_locked now cb) =
       (if cb_state cb = CB_STATE_OPEN \<or> cb_state cb = CB_STATE_CLOSED \<and> \<not> should_trip cb' then cb'
        else fst (transition_state now cb' CB_STATE_OPEN))"
proof -
  define cb1 where "cb1 = cb\<lparr>cb_stats := (cb_stats cb)\<lparr>last_failure_time := now,
     consecutive_failures := consecutive_failures (cb_stats cb) + 1, consecutive_successes := 0\<rparr>,
     window_calls := window_calls cb + 1, window_failures := window_failures cb + 1\<rparr>"
  define cb2 where "cb2 = check_window_reset now cb1"
  define cb3 where "cb3 = (if window_calls cb2 > 0
     then cb2\<lparr>cb_stats := (cb_stats cb2)\<lparr>failure_rate := percent (unat (window_failures cb2)) (unat (window_calls cb2))\<rparr>\<rparr>
     else cb2)"
  have "kept cb cb3" "counted cb cb3" "consecutive_failures (cb_stats cb3) = consecutive_failures (cb_stats cb) + 1"
    "consecutive_successes (cb_stats cb3) = 0"
    by (simp_all add: kept_def counted_def cb3_def cb2_def cb1_def)
  moreover from this have "fst (note_failure_locked now cb) =
       (if cb_state cb = CB_STATE_OPEN \<or> cb_state cb = CB_STATE_CLOSED \<and> \<not> should_trip cb3 then cb3
        else fst (transition_state now cb3 CB_STATE_OPEN))"
    unfolding note_failure_locked_def Let_def cb1_def [symmetric] cb2_def [symmetric] cb3_def [symmetric]
    by (cases "cb_state cb") (auto simp: kept_def)
  ultimately show ?thesis by blast
qed

text \<open>The steps, for a breaker that is not being destroyed.\<close>

lemma step_Allow:
  assumes "\<not> destroying cb"
  shows "cb_step cb (Allow now) =
    (case cb_state cb of
       CB_STATE_CLOSED \<Rightarrow> (Some True, cb)
     | CB_STATE_OPEN \<Rightarrow>
         if now - state_changed_at cb \<ge> ucast (timeout_ms (cb_config cb))
         then (Some True, fst (transition_state now cb CB_STATE_HALF_OPEN))
         else (Some False, cb\<lparr>cb_stats := (cb_stats cb)\<lparr>rejected_calls := rejected_calls (cb_stats cb) + 1\<rparr>\<rparr>)
     | CB_STATE_HALF_OPEN \<Rightarrow>
         if half_open_calls cb < half_open_max_calls (cb_config cb)
         then (Some True, cb\<lparr>half_open_calls := half_open_calls cb + 1\<rparr>)
         else (Some False, cb\<lparr>cb_stats := (cb_stats cb)\<lparr>rejected_calls := rejected_calls (cb_stats cb) + 1\<rparr>\<rparr>))"
  using assms by (cases "cb_state cb") (simp_all add: cb_allow_request_def cb_lock_alive_def split_beta Let_def)

lemma step_failure:
  assumes "\<not> destroying cb" "op = Failure now e \<or> op = Timeout now"
  shows "\<exists>cb'. kept cb cb' \<and> total_calls (cb_stats cb') = total_calls (cb_stats cb) + 1 \<and>
     successful_calls (cb_stats cb') = successful_calls (cb_stats cb) \<and>
     failed_calls (cb_stats cb') = failed_calls (cb_stats cb) + 1 \<and>
     consecutive_failures (cb_stats cb') = consecutive_failures (cb_stats cb) + 1 \<and>
     consecutive_successes (cb_stats cb') = 0 \<and>
     cb_step cb op =
       (None, if cb_state cb = CB_STATE_OPEN \<or> cb_state cb = CB_STATE_CLOSED \<and> \<not> should_trip cb' then cb'
              else fst (transition_state now cb' CB_STATE_OPEN))"
proof -
  let ?s = "cb_stats cb"
  define cb1 where "cb1 = (if op = Timeout now
     then cb\<lparr>cb_stats := ?s\<lparr>total_calls := total_calls ?s + 1, timeout_calls := timeout_calls ?s + 1,
                             failed_calls := failed_calls ?s + 1\<rparr>\<rparr>
     else cb\<lparr>cb_stats := ?s\<lparr>total_calls := total_calls ?s + 1, failed_calls := failed_calls ?s + 1\<rparr>\<rparr>)"
  have "cb_step cb op = (None, fst (note_failure_locked now cb1))"
    using assms by (auto simp: cb1_def cb_record_failure_def cb_record_timeout_def cb_lock_alive_def split_beta Let_def)
  moreover have c1: "kept cb cb1" "total_calls (cb_stats cb1) = total_calls ?s + 1"
    "successful_calls (cb_stats cb1) = successful_calls ?s" "failed_calls (cb_stats cb1) = failed_calls ?s + 1"
    "consecutive_failures (cb_stats cb1) = consecutive_failures ?s" "cb_state cb1 = cb_state cb"
    by (simp_all add: cb1_def kept_def)
  moreover obtain cb' where c': "kept cb1 cb'" "counted cb1 cb'"
     "consecutive_failures (cb_stats cb') = consecutive_failures (cb_stats cb1) + 1"
     "consecutive_successes (cb_stats cb') = 0"
     "fst (note_failure_locked now cb1) =
       (if cb_state cb1 = CB_STATE_OPEN \<or> cb_state cb1 = CB_STATE_CLOSED \<and> \<not> should_trip cb' then cb'
        else fst (transition_state now cb' CB_STATE_OPEN))" using note_failure_view by blast
  moreover have "kept cb cb'" using c1(1) c'(1) by (simp add: kept_def)
  ultimately show ?thesis by (intro exI [of _ cb']) (simp add: counted_def)
qed

lemma step_Success:
  assumes "\<not> destroying cb"
  shows "\<exists>cb'. kept cb cb' \<and> total_calls (cb_stats cb') = total_calls (cb_stats cb) + 1 \<and>
     successful_calls (cb_stats cb') = successful_calls (cb_stats cb) + 1 \<and>
     failed_calls (cb_stats cb') = failed_calls (cb_stats cb) \<and>
     consecutive_failures (cb_stats cb') = 0 \<and>
     consecutive_successes (cb_stats cb') = consecutive_successes (cb_stats cb) + 1 \<and>
     cb_step cb (Success now d) =
       (None, if cb_state cb = CB_STATE_HALF_OPEN \<and>
                 consecutive_successes (cb_stats cb) + 1 \<ge> success_threshold (cb_config cb)
              then fst (transition_state now cb' CB_STATE_CLOSED) else cb')"
proof -
  let ?s = "cb_stats cb"
  define cb1 where "cb1 = cb\<lparr>cb_stats := ?s\<lparr>total_calls := total_calls ?s + 1, successful_calls := successful_calls ?s + 1,
     last_success_time := now, consecutive_failures := 0, consecutive_successes := consecutive_successes ?s + 1\<rparr>,
     window_calls := window_calls cb + 1\<rparr>"
  define cb2 where "cb2 = check_window_reset now cb1"
  define s1 where "s1 = (cb_stats cb2)\<lparr>slow_calls := slow_calls (cb_stats cb2) + 1\<rparr>"
  define s2 where "s2 = (if total_calls s1 > 0
     then s1\<lparr>slow_call_rate := percent (unat (slow_calls s1)) (unat (total_calls s1))\<rparr> else s1)"
  define cb3 where "cb3 = (if enable_slow_call_detection (cb_config cb2) \<and> d > slow_call_duration_ms (cb_config cb2)
     then cb2\<lparr>cb_stats := s2\<rparr> else cb2)"
  have f: "kept cb cb3" "total_calls (cb_stats cb3) = total_calls (cb_stats cb) + 1"
     "successful_calls (cb_stats cb3) = successful_calls (cb_stats cb) + 1"
     "failed_calls (cb_stats cb3) = failed_calls (cb_stats cb)"
     "consecutive_failures (cb_stats cb3) = 0"
     "consecutive_successes (cb_stats cb3) = consecutive_successes (cb_stats cb) + 1"
    by (simp_all add: kept_def cb3_def s2_def s1_def cb2_def cb1_def)
  have "fst (cb_record_success now d (Some cb)) =
      Some (if cb_state cb3 = CB_STATE_HALF_OPEN \<and> consecutive_successes (cb_stats cb3) \<ge> success_threshold (cb_config cb3)
            then fst (transition_state now cb3 CB_STATE_CLOSED) else cb3)"
    using assms unfolding cb_record_success_def option.case Let_def cb1_def [symmetric] cb2_def [symmetric] s1_def [symmetric]
      s2_def [symmetric] cb3_def [symmetric] by (simp add: cb_lock_alive_def split_beta)
  moreover have "cb_state cb3 = cb_state cb" "cb_config cb3 = cb_config cb" using f(1) by (simp_all add: kept_def)
  ultimately show ?thesis using f by (intro exI [of _ cb3]) simp
qed

lemma step_others:
  assumes "\<not> destroying cb"
  shows "snd (cb_step cb (Force_Open now)) = fst (transition_state now cb CB_STATE_OPEN)"
    "snd (cb_step cb (Force_Close now)) = fst (transition_state now cb CB_STATE_CLOSED)"
  using assms by (simp_all add: cb_force_open_def cb_force_close_def cb_lock_alive_def split_beta)

lemma step_destroying: "destroying cb \<Longrightarrow> snd (cb_step cb op) = cb"
  by (cases op) (simp_all add: cb_allow_request_def cb_record_success_def cb_record_failure_def
      cb_record_timeout_def cb_reset_def cb_force_open_def cb_force_close_def cb_lock_alive_def)

subsection \<open>Failing fast\<close>

definition open_since :: "u64 \<Rightarrow> u32 \<Rightarrow> cb_internal \<Rightarrow> bool" where
  "open_since t0 tmo cb \<longleftrightarrow>
     cb_state cb = CB_STATE_OPEN \<and> state_changed_at cb = t0 \<and> timeout_ms (cb_config cb) = tmo"

fun call_before :: "u64 \<Rightarrow> u32 \<Rightarrow> cb_op \<Rightarrow> bool" where
  "call_before t0 tmo (Allow now) = (now - t0 < ucast tmo)"
| "call_before t0 tmo (Success now d) = True"
| "call_before t0 tmo (Failure now e) = True"
| "call_before t0 tmo (Timeout now) = True"
| "call_before t0 tmo _ = False"

lemma open_step:
  assumes "open_since t0 tmo cb" "call_before t0 tmo op"
  shows "open_since t0 tmo (snd (cb_step cb op)) \<and> fst (cb_step cb op) \<noteq> Some True"
proof (cases "destroying cb")
  case True
  then show ?thesis using assms step_destroying [OF True, of op]
    by (cases op) (auto simp: cb_allow_request_def cb_lock_alive_def)
next
  case False
  show ?thesis
  proof (cases op)
    case (Allow now)
    with assms step_Allow [OF False, of now] show ?thesis by (auto simp: open_since_def)
  next
    case (Success now d)
    with assms step_Success [OF False, of now d] show ?thesis by (auto simp: open_since_def kept_def)
  next
    case (Failure now e)
    with assms step_failure [OF False, of op now e] show ?thesis by (auto simp: open_since_def kept_def)
  next
    case (Timeout now)
    with assms step_failure [OF False, of op now] show ?thesis by (auto simp: open_since_def kept_def)
  qed (use assms in auto)
qed

interpretation opened: machine_invariant cb_step "open_since t0 tmo" "call_before t0 tmo" for t0 tmo
  by unfold_locales (use open_step in blast)

text \<open>C11: Fail fast: from the moment it opens until its timeout has elapsed, the breaker rejects every
  request and stays open, whatever results of earlier calls are recorded in between.\<close>

theorem cb_open_rejects:
  assumes "cb_state cb = CB_STATE_OPEN"
    and "list_all (call_before (state_changed_at cb) (timeout_ms (cb_config cb))) ops"
  shows "list_all (\<lambda>r. r \<noteq> Some True) (fst (runs cb_step cb ops)) \<and>
         cb_state (snd (runs cb_step cb ops)) = CB_STATE_OPEN \<and>
         state_changed_at (snd (runs cb_step cb ops)) = state_changed_at cb"
proof -
  let ?t = "state_changed_at cb" and ?m = "timeout_ms (cb_config cb)"
  have o: "open_since ?t ?m cb" using assms(1) by (simp add: open_since_def)
  have "open_since ?t ?m (snd (runs cb_step cb ops))" by (rule opened.run_inv [OF o assms(2)])
  moreover have "list_all (\<lambda>r. r \<noteq> Some True) (fst (runs cb_step cb ops))"
    by (rule opened.run_outputs [OF _ o assms(2)]) (use open_step in blast)
  ultimately show ?thesis by (simp add: open_since_def)
qed

theorem cb_open_rejects_witness:
  "list_all (\<lambda>r. r \<noteq> Some True) (fst (runs cb_step ((cb_new 100 ''svc'' None)\<lparr>cb_state := CB_STATE_OPEN\<rparr>)
     [Allow 200, Success 300 7, Failure 400 (- 5), Allow 30099]))"
  using cb_open_rejects [of "(cb_new 100 ''svc'' None)\<lparr>cb_state := CB_STATE_OPEN\<rparr>"
      "[Allow 200, Success 300 7, Failure 400 (- 5), Allow 30099]"]
  by (simp add: cb_new_def cb_create_default_config_def)

subsection \<open>Tripping\<close>

fun is_failure :: "cb_op \<Rightarrow> bool" where
  "is_failure (Failure now e) = True"
| "is_failure (Timeout now) = True"
| "is_failure _ = False"

lemma failureE:
  assumes "is_failure op"
  obtains now e where "op = Failure now e \<or> op = Timeout now"
  using assms by (cases op) auto

text \<open>After \<open>k\<close> failures in a row: open, or still closed with the count below the threshold.\<close>

definition failing :: "cb_internal \<Rightarrow> nat \<Rightarrow> cb_internal \<Rightarrow> bool" where
  "failing cb0 k cb \<longleftrightarrow> \<not> destroying cb \<and> cb_config cb = cb_config cb0 \<and>
     (cb_state cb = CB_STATE_OPEN \<or>
      cb_state cb = CB_STATE_CLOSED \<and> unat (consecutive_failures (cb_stats cb)) = k \<and>
        (0 < k \<longrightarrow> k < unat (failure_threshold (cb_config cb0))))"

lemma failing_step:
  assumes "failing cb0 k cb" "is_failure op" "Suc k < 2 ^ 32"
  shows "failing cb0 (Suc k) (snd (cb_step cb op))"
proof -
  obtain now e where op: "op = Failure now e \<or> op = Timeout now" using assms(2) by (rule failureE)
  have nd: "\<not> destroying cb" and c: "cb_config cb = cb_config cb0" using assms(1) by (auto simp: failing_def)
  obtain cb' where cb': "kept cb cb'" "consecutive_failures (cb_stats cb') = consecutive_failures (cb_stats cb) + 1"
    "cb_step cb op = (None, if cb_state cb = CB_STATE_OPEN \<or> cb_state cb = CB_STATE_CLOSED \<and> \<not> should_trip cb' then cb'
              else fst (transition_state now cb' CB_STATE_OPEN))" using step_failure [OF nd op] by blast
  have "unat (consecutive_failures (cb_stats cb')) = Suc k" if "unat (consecutive_failures (cb_stats cb)) = k"
    using that cb'(2) assms(3) by (simp add: unat_word_ariths)
  moreover have "Suc k < unat (failure_threshold (cb_config cb0))"
    if "\<not> should_trip cb'" "unat (consecutive_failures (cb_stats cb')) = Suc k"
    using that cb'(1) c by (auto simp: should_trip_def kept_def word_less_nat_alt not_le split: if_splits)
  ultimately show ?thesis using cb' assms(1) by (auto simp: failing_def kept_def)
qed

lemma failing_run:
  assumes "failing cb0 k cb" "list_all is_failure ops" "k + length ops < 2 ^ 32"
  shows "failing cb0 (k + length ops) (snd (runs cb_step cb ops))"
  using assms
proof (induction ops arbitrary: k cb)
  case (Cons op ops)
  then have "failing cb0 (Suc k) (snd (cb_step cb op))" by (intro failing_step) auto
  from Cons.IH [OF this] Cons.prems show ?case by (simp add: split_beta Let_def)
qed simp

text \<open>C12: A closed breaker with no failure pending trips after at most \<open>failure_threshold\<close> failures or
  timeouts in a row, whenever they happen: no reset of the time window in between hides them.\<close>

theorem cb_trips:
  assumes "cb_state cb = CB_STATE_CLOSED" "\<not> destroying cb" "consecutive_failures (cb_stats cb) = 0"
    and "list_all is_failure ops" "0 < length ops" "unat (failure_threshold (cb_config cb)) \<le> length ops"
    and "length ops < 2 ^ 32"
  shows "cb_state (snd (runs cb_step cb ops)) = CB_STATE_OPEN"
proof -
  have "failing cb 0 cb" using assms by (simp add: failing_def)
  from failing_run [OF this assms(4)] assms(5-7) show ?thesis by (auto simp: failing_def)
qed

theorem cb_trips_witness:
  "cb_state (snd (runs cb_step (cb_new 0 ''svc'' None)
     [Failure 1 (- 1), Timeout 2, Failure 90000 (- 1), Failure 90001 (- 1), Timeout 200000])) = CB_STATE_OPEN"
  using cb_trips [of "cb_new 0 ''svc'' None"
      "[Failure 1 (- 1), Timeout 2, Failure 90000 (- 1), Failure 90001 (- 1), Timeout 200000]"]
  by (simp add: cb_new_def cb_create_default_config_def)

subsection \<open>Consistent statistics\<close>

definition cb_consistent :: "cb_internal \<Rightarrow> bool" where
  "cb_consistent cb \<longleftrightarrow>
     total_calls (cb_stats cb) = successful_calls (cb_stats cb) + failed_calls (cb_stats cb) \<and>
     (consecutive_failures (cb_stats cb) = 0 \<or> consecutive_successes (cb_stats cb) = 0) \<and>
     (cb_state cb = CB_STATE_HALF_OPEN \<longrightarrow> half_open_calls cb \<le> half_open_max_calls (cb_config cb))"

lemma inc_le_word: "(a :: u32) < b \<Longrightarrow> a + 1 \<le> b"
  by (simp add: inc_le)

lemma consistent_step: "cb_consistent cb \<Longrightarrow> cb_consistent (snd (cb_step cb op))"
proof (cases "destroying cb")
  case True
  then show "cb_consistent cb \<Longrightarrow> ?thesis" by (simp add: step_destroying)
next
  case False
  assume c: "cb_consistent cb"
  have fail: ?thesis if o: "op = Failure now e \<or> op = Timeout now" for now e
  proof -
    obtain cb' where f: "kept cb cb'" "total_calls (cb_stats cb') = total_calls (cb_stats cb) + 1"
      "successful_calls (cb_stats cb') = successful_calls (cb_stats cb)"
      "failed_calls (cb_stats cb') = failed_calls (cb_stats cb) + 1" "consecutive_successes (cb_stats cb') = 0"
      and r: "cb_step cb op =
       (None, if cb_state cb = CB_STATE_OPEN \<or> cb_state cb = CB_STATE_CLOSED \<and> \<not> should_trip cb' then cb'
              else fst (transition_state now cb' CB_STATE_OPEN))"
      using step_failure [OF False o] by blast
    have "snd (cb_step cb op) = fst (transition_state now cb' CB_STATE_OPEN) \<or> snd (cb_step cb op) = cb'"
      unfolding r by simp
    with f c show ?thesis by (auto simp: cb_consistent_def kept_def)
  qed
  show ?thesis
  proof (cases op)
    case (Allow now)
    with c step_Allow [OF False, of now] show ?thesis
      by (auto simp: cb_consistent_def inc_le_word split: cb_state.splits)
  next
    case (Success now d)
    obtain cb' where "kept cb cb'" "total_calls (cb_stats cb') = total_calls (cb_stats cb) + 1"
      "successful_calls (cb_stats cb') = successful_calls (cb_stats cb) + 1"
      "failed_calls (cb_stats cb') = failed_calls (cb_stats cb)" "consecutive_failures (cb_stats cb') = 0"
      "snd (cb_step cb op) = fst (transition_state now cb' CB_STATE_CLOSED) \<or> snd (cb_step cb op) = cb'"
      using step_Success [OF False, of now d] Success by auto
    with c show ?thesis by (auto simp: cb_consistent_def kept_def)
  next
    case (Reset now)
    with c False show ?thesis by (auto simp: cb_consistent_def cb_reset_def cb_lock_alive_def Let_def)
  next
    case (Force_Open now)
    with c step_others(1) [OF False, of now] show ?thesis by (auto simp: cb_consistent_def)
  next
    case (Force_Close now)
    with c step_others(2) [OF False, of now] show ?thesis by (auto simp: cb_consistent_def)
  qed (use fail in auto)
qed

interpretation consistent: machine_invariant cb_step cb_consistent "\<lambda>_. True"
  by unfold_locales (rule consistent_step)

text \<open>C22: After any sequence of calls on a new breaker the statistics are consistent: every call is
  counted once, as a success or a failure, also across the wrap-around of the counters; a run of
  failures and a run of successes are never pending together; and in the half-open state the probe
  counter never exceeds the configured maximum.\<close>

theorem cb_run_consistent: "cb_consistent (snd (runs cb_step (cb_new now name config) ops))"
  by (rule consistent.run_inv) (simp_all add: cb_consistent_def cb_new_def list_all_iff)

subsection \<open>Half-open probes\<close>

text \<open>
  A client that reports a success only for a call the breaker has let through: \<open>pending\<close> counts
  the calls in flight.
\<close>

fun client_step :: "nat \<times> cb_internal \<Rightarrow> cb_op \<Rightarrow> bool option \<times> nat \<times> cb_internal" where
  "client_step (pending, cb) (Allow now) =
     (let (r, cb') = cb_step cb (Allow now) in (r, (if r = Some True then pending + 1 else pending), cb'))"
| "client_step (pending, cb) (Success now d) =
     (if pending = 0 then (None, pending, cb)
      else (let (r, cb') = cb_step cb (Success now d) in (r, pending - 1, cb')))"
| "client_step (pending, cb) op = (let (r, cb') = cb_step cb op in (r, pending, cb'))"

fun probing_op :: "cb_op \<Rightarrow> bool" where
  "probing_op (Allow now) = True"
| "probing_op (Success now d) = True"
| "probing_op _ = False"

definition stuck :: "nat \<times> cb_internal \<Rightarrow> bool" where
  "stuck s \<longleftrightarrow> (case s of (pending, cb) \<Rightarrow>
     \<not> destroying cb \<and> cb_state cb = CB_STATE_HALF_OPEN \<and>
     unat (half_open_max_calls (cb_config cb)) + 1 < unat (success_threshold (cb_config cb)) \<and>
     unat (half_open_calls cb) \<le> unat (half_open_max_calls (cb_config cb)) \<and>
     unat (consecutive_successes (cb_stats cb)) + pending = unat (half_open_calls cb) + 1)"

definition probes :: "nat \<times> cb_internal \<Rightarrow> nat" where
  "probes s = unat (half_open_calls (snd s))"

lemma unat_inc: "unat (x :: u32) + 1 < 2 ^ 32 \<Longrightarrow> unat (x + 1) = unat x + 1"
  by (simp add: unat_word_ariths)

lemma stuck_step:
  assumes "stuck s" "probing_op op"
  shows "stuck (snd (client_step s op)) \<and>
     probes (snd (client_step s op)) = probes s + (if fst (client_step s op) = Some True then 1 else 0) \<and>
     cb_config (snd (snd (client_step s op))) = cb_config (snd s)"
proof -
  obtain pending cb where s: "s = (pending, cb)" by (cases s)
  with assms(1) have nd: "\<not> destroying cb" and st: "cb_state cb = CB_STATE_HALF_OPEN"
    and m: "unat (half_open_max_calls (cb_config cb)) + 1 < unat (success_threshold (cb_config cb))"
    and h: "unat (half_open_calls cb) \<le> unat (half_open_max_calls (cb_config cb))"
    and p: "unat (consecutive_successes (cb_stats cb)) + pending = unat (half_open_calls cb) + 1"
    by (auto simp: stuck_def)
  note bnd = u32_lt [of "success_threshold (cb_config cb)"]
  show ?thesis
  proof (cases op)
    case (Allow now)
    have "unat (half_open_calls cb + 1) = unat (half_open_calls cb) + 1"
      if "half_open_calls cb < half_open_max_calls (cb_config cb)"
      using that m bnd by (intro unat_inc) (auto simp: word_less_nat_alt)
    with Allow s nd st m h p step_Allow [OF nd, of now] show ?thesis
      by (auto simp: stuck_def probes_def word_less_nat_alt)
  next
    case (Success now d)
    obtain cb' where cb': "kept cb cb'" "consecutive_successes (cb_stats cb') = consecutive_successes (cb_stats cb) + 1"
      "cb_step cb op = (None, if cb_state cb = CB_STATE_HALF_OPEN \<and>
         consecutive_successes (cb_stats cb) + 1 \<ge> success_threshold (cb_config cb)
         then fst (transition_state now cb' CB_STATE_CLOSED) else cb')" using step_Success [OF nd, of now d] Success by blast
    show ?thesis
    proof (cases "pending = 0")
      case True
      with Success s assms(1) show ?thesis by simp
    next
      case False
      then have c: "unat (consecutive_successes (cb_stats cb) + 1) = unat (consecutive_successes (cb_stats cb)) + 1"
        using p h m bnd by (intro unat_inc) auto
      then have "\<not> consecutive_successes (cb_stats cb) + 1 \<ge> success_threshold (cb_config cb)"
        using False p h m by (simp add: word_le_nat_alt)
      with cb'(3) have "cb_step cb (Success now d) = (None, cb')" using Success by simp
      with Success s False cb'(1,2) nd st m h p c show ?thesis
        by (auto simp: stuck_def probes_def kept_def)
    qed
  qed (use assms in auto)
qed

text \<open>The number of admitted calls in a list of answers.\<close>

definition admitted :: "bool option list \<Rightarrow> nat" where
  "admitted rs = length (filter (\<lambda>r. r = Some True) rs)"

lemma admitted_simps [simp]: "admitted [] = 0" "admitted (r # rs) = (if r = Some True then 1 else 0) + admitted rs"
  by (auto simp: admitted_def)

lemma stuck_run:
  assumes "stuck s" "list_all probing_op ops"
  shows "stuck (snd (runs client_step s ops)) \<and>
     probes (snd (runs client_step s ops)) = probes s + admitted (fst (runs client_step s ops)) \<and>
     cb_config (snd (snd (runs client_step s ops))) = cb_config (snd s)"
  using assms
proof (induction ops arbitrary: s)
  case (Cons op ops)
  then have "stuck (snd (client_step s op))" using stuck_step [of s op] by simp
  from Cons.IH [OF this] Cons.prems stuck_step [of s op] show ?case by (simp add: split_beta Let_def)
qed simp

lemma step_Allow_open:
  assumes "cb_state cb = CB_STATE_OPEN" "\<not> destroying cb"
    and "now - state_changed_at cb \<ge> ucast (timeout_ms (cb_config cb))"
  shows "fst (cb_step cb (Allow now)) = Some True" "cb_state (snd (cb_step cb (Allow now))) = CB_STATE_HALF_OPEN"
    "half_open_calls (snd (cb_step cb (Allow now))) = 0" "cb_config (snd (cb_step cb (Allow now))) = cb_config cb"
    "consecutive_successes (cb_stats (snd (cb_step cb (Allow now)))) = 0" "\<not> destroying (snd (cb_step cb (Allow now)))"
  using assms step_Allow [OF assms(2), of now] by auto

text \<open>C24: A breaker whose probe limit plus one is below its success threshold never recovers by itself:
  once it has gone half-open, a client that reports success for every admitted call gets at most
  limit plus one calls through, however long it keeps asking, and the breaker stays half-open. The
  default configuration (limit 1, threshold 3) is such a breaker.\<close>

theorem cb_half_open_starves:
  assumes "cb_state cb = CB_STATE_OPEN" "\<not> destroying cb"
    and "now - state_changed_at cb \<ge> ucast (timeout_ms (cb_config cb))"
    and "unat (half_open_max_calls (cb_config cb)) + 1 < unat (success_threshold (cb_config cb))"
    and "list_all probing_op ops"
  shows "cb_state (snd (snd (runs client_step (0, cb) (Allow now # ops)))) = CB_STATE_HALF_OPEN \<and>
         admitted (fst (runs client_step (0, cb) (Allow now # ops))) \<le> unat (half_open_max_calls (cb_config cb)) + 1"
proof -
  note A = step_Allow_open [OF assms(1-3)]
  have c: "client_step (0, cb) (Allow now) = (Some True, 1, snd (cb_step cb (Allow now)))"
    using A(1) by (simp add: split_beta Let_def del: cb_step.simps)
  have "stuck (1, snd (cb_step cb (Allow now)))"
    using A assms(4) by (simp add: stuck_def del: cb_step.simps)
  from stuck_run [OF this assms(5)] A c show ?thesis
    by (auto simp: stuck_def probes_def split_beta Let_def simp del: cb_step.simps client_step.simps)
qed

theorem cb_half_open_starves_witness:
  "admitted (fst (runs client_step (0, (cb_new 0 ''svc'' None)\<lparr>cb_state := CB_STATE_OPEN\<rparr>)
     (Allow 30000 # [Success 30001 5, Allow 30002, Success 30003 5, Allow 30004, Allow 90000]))) \<le> 2"
  using cb_half_open_starves [of "(cb_new 0 ''svc'' None)\<lparr>cb_state := CB_STATE_OPEN\<rparr>" 30000
      "[Success 30001 5, Allow 30002, Success 30003 5, Allow 30004, Allow 90000]"]
  by (simp add: cb_new_def cb_create_default_config_def)

text \<open>The half-open limit is off by one: the call that moves the breaker from open to half-open is let
  through uncounted, so of a burst of requests after the timeout exactly limit plus one
  are admitted before any result is known.\<close>

theorem cb_half_open_burst:
  assumes "cb_state cb = CB_STATE_OPEN" "\<not> destroying cb"
    and "now - state_changed_at cb \<ge> ucast (timeout_ms (cb_config cb))"
  shows "admitted (fst (runs cb_step cb (Allow now # map Allow ts))) =
         1 + min (length ts) (unat (half_open_max_calls (cb_config cb)))"
proof -
  note A = step_Allow_open [OF assms]
  have half: "admitted (fst (runs cb_step cb' (map Allow ts))) =
      min (length ts) (unat (half_open_max_calls (cb_config cb')) - unat (half_open_calls cb'))"
    if "cb_state cb' = CB_STATE_HALF_OPEN" "\<not> destroying cb'" for cb'
    using that
  proof (induction ts arbitrary: cb')
    case (Cons t ts)
    show ?case
    proof (cases "half_open_calls cb' < half_open_max_calls (cb_config cb')")
      case True
      then have "unat (half_open_calls cb' + 1) = unat (half_open_calls cb') + 1"
        using u32_lt [of "half_open_max_calls (cb_config cb')"] by (intro unat_inc) (simp add: word_less_nat_alt)
      with True step_Allow [OF Cons.prems(2), of t] Cons.IH [of "cb'\<lparr>half_open_calls := half_open_calls cb' + 1\<rparr>"] Cons.prems
      show ?thesis by (simp add: split_beta Let_def word_less_nat_alt del: cb_step.simps)
    next
      case False
      let ?cb = "cb'\<lparr>cb_stats := (cb_stats cb')\<lparr>rejected_calls := rejected_calls (cb_stats cb') + 1\<rparr>\<rparr>"
      from False step_Allow [OF Cons.prems(2), of t] Cons.IH [of ?cb] Cons.prems
      show ?thesis by (simp add: split_beta Let_def word_less_nat_alt del: cb_step.simps)
    qed
  qed simp
  from half [OF A(2,6)] A(1,3,4) show ?thesis by (simp add: split_beta Let_def del: cb_step.simps)
qed

theorem cb_half_open_burst_witness:
  "admitted (fst (runs cb_step ((cb_new 0 ''svc'' None)\<lparr>cb_state := CB_STATE_OPEN\<rparr>)
     (Allow 30000 # map Allow [30000, 30000, 30000]))) = 2"
  using cb_half_open_burst [of "(cb_new 0 ''svc'' None)\<lparr>cb_state := CB_STATE_OPEN\<rparr>" 30000 "[30000, 30000, 30000]"]
  by (simp add: cb_new_def cb_create_default_config_def)

subsection \<open>Recovery\<close>

fun probe_rounds :: "(u64 \<times> u32) list \<Rightarrow> cb_op list" where
  "probe_rounds [] = []"
| "probe_rounds ((t, d) # ps) = Allow t # Success t d # probe_rounds ps"

text \<open>Half-open with \<open>k\<close> of the probes done.\<close>

definition recovering :: "cb_config \<Rightarrow> nat \<Rightarrow> cb_internal \<Rightarrow> bool" where
  "recovering cfg k cb \<longleftrightarrow> \<not> destroying cb \<and> cb_config cb = cfg \<and> cb_state cb = CB_STATE_HALF_OPEN \<and>
     unat (consecutive_successes (cb_stats cb)) = k \<and> unat (half_open_calls cb) + 1 = k"

lemma recovering_success:
  assumes "\<not> destroying cb" "cb_config cb = cfg" "cb_state cb = CB_STATE_HALF_OPEN"
    and "unat (consecutive_successes (cb_stats cb)) = k" "unat (half_open_calls cb) = k"
    and "Suc k \<le> unat (success_threshold cfg)"
  shows "if Suc k = unat (success_threshold cfg) then cb_state (snd (cb_step cb (Success t d))) = CB_STATE_CLOSED
         else recovering cfg (Suc k) (snd (cb_step cb (Success t d)))"
proof -
  obtain cb' where cb': "kept cb cb'" "consecutive_successes (cb_stats cb') = consecutive_successes (cb_stats cb) + 1"
     "cb_step cb (Success t d) = (None, if cb_state cb = CB_STATE_HALF_OPEN \<and>
         consecutive_successes (cb_stats cb) + 1 \<ge> success_threshold (cb_config cb)
         then fst (transition_state t cb' CB_STATE_CLOSED) else cb')" using step_Success [OF assms(1)] by blast
  have c: "unat (consecutive_successes (cb_stats cb) + 1) = Suc k"
    using assms(4,6) u32_lt [of "success_threshold cfg"] by (subst unat_inc) auto
  then have "consecutive_successes (cb_stats cb) + 1 \<ge> success_threshold (cb_config cb) \<longleftrightarrow> Suc k = unat (success_threshold cfg)"
    using assms(2,6) by (auto simp: word_le_nat_alt)
  with cb' c assms show ?thesis by (auto simp: recovering_def kept_def simp del: cb_step.simps)
qed

lemma fst_Success: "fst (cb_step cb (Success t d)) = None"
  by simp

lemma recovering_rounds:
  assumes "recovering cfg k cb" "k + length ps = unat (success_threshold cfg)" "ps \<noteq> []"
    and "unat (success_threshold cfg) \<le> unat (half_open_max_calls cfg) + 1"
  shows "cb_state (snd (runs cb_step cb (probe_rounds ps))) = CB_STATE_CLOSED \<and>
         admitted (fst (runs cb_step cb (probe_rounds ps))) = length ps"
  using assms
proof (induction ps arbitrary: k cb)
  case (Cons p ps)
  obtain t d where p: "p = (t, d)" by (cases p)
  have r: "\<not> destroying cb" "cb_config cb = cfg" "cb_state cb = CB_STATE_HALF_OPEN"
    "unat (consecutive_successes (cb_stats cb)) = k" "unat (half_open_calls cb) + 1 = k"
    using Cons.prems(1) by (auto simp: recovering_def)
  have lt: "half_open_calls cb < half_open_max_calls (cb_config cb)"
    using r Cons.prems(2-4) by (simp add: word_less_nat_alt)
  let ?cb = "cb\<lparr>half_open_calls := half_open_calls cb + 1\<rparr>"
  have a: "cb_step cb (Allow t) = (Some True, ?cb)" using step_Allow [OF r(1), of t] r(3) lt by simp
  have h: "unat (half_open_calls ?cb) = k"
    using r(5) Cons.prems(2) u32_lt [of "success_threshold cfg"] by (simp add: unat_inc)
  note S = recovering_success [of ?cb cfg k t d]
  show ?case
  proof (cases "ps = []")
    case True
    with S r h Cons.prems(2) a p show ?thesis
      by (simp add: split_beta Let_def fst_Success del: cb_step.simps)
  next
    case False
    then have "Suc k \<noteq> unat (success_threshold cfg)" using Cons.prems(2) by (cases ps) auto
    with S r h Cons.prems(2) have "recovering cfg (Suc k) (snd (cb_step ?cb (Success t d)))" by simp
    from Cons.IH [OF this _ False Cons.prems(4)] Cons.prems(2) a p show ?thesis
      by (simp add: split_beta Let_def fst_Success del: cb_step.simps)
  qed
qed simp

text \<open>C23: With a probe limit of at least the success threshold minus one an open breaker recovers: after the
  timeout, threshold many calls that all succeed are all admitted and close it.\<close>

theorem cb_recovers:
  assumes "cb_state cb = CB_STATE_OPEN" "\<not> destroying cb"
    and "now - state_changed_at cb \<ge> ucast (timeout_ms (cb_config cb))"
    and "0 < success_threshold (cb_config cb)"
    and "unat (success_threshold (cb_config cb)) \<le> unat (half_open_max_calls (cb_config cb)) + 1"
    and "Suc (length ps) = unat (success_threshold (cb_config cb))"
  shows "cb_state (snd (runs cb_step cb (probe_rounds ((now, d) # ps)))) = CB_STATE_CLOSED \<and>
         admitted (fst (runs cb_step cb (probe_rounds ((now, d) # ps)))) = Suc (length ps)"
proof -
  let ?cb = "snd (cb_step cb (Allow now))"
  note A = step_Allow_open [OF assms(1-3)]
  have S: "if Suc 0 = unat (success_threshold (cb_config cb)) then cb_state (snd (cb_step ?cb (Success now d))) = CB_STATE_CLOSED
         else recovering (cb_config cb) (Suc 0) (snd (cb_step ?cb (Success now d)))"
    using A assms(6) by (intro recovering_success) (simp_all del: cb_step.simps)
  have none: "fst (cb_step ?cb (Success now d)) = None" by simp
  show ?thesis
  proof (cases "ps = []")
    case True
    with S A(1) none assms(6) show ?thesis by (simp add: split_beta Let_def del: cb_step.simps)
  next
    case False
    with assms(6) have "Suc 0 \<noteq> unat (success_threshold (cb_config cb))" by (cases ps) auto
    with S have "recovering (cb_config cb) (Suc 0) (snd (cb_step ?cb (Success now d)))" by (simp del: cb_step.simps)
    from recovering_rounds [OF this _ False assms(5)] assms(6) A(1) none show ?thesis
      by (simp add: split_beta Let_def del: cb_step.simps)
  qed
qed

theorem cb_recovers_witness:
  "cb_state (snd (runs cb_step ((cb_new 0 ''svc'' (Some (cb_create_default_config\<lparr>half_open_max_calls := 2\<rparr>)))
     \<lparr>cb_state := CB_STATE_OPEN\<rparr>) (probe_rounds ((30000, 5) # [(30010, 5), (30020, 5)])))) = CB_STATE_CLOSED"
  using cb_recovers [of "(cb_new 0 ''svc'' (Some (cb_create_default_config\<lparr>half_open_max_calls := 2\<rparr>)))
     \<lparr>cb_state := CB_STATE_OPEN\<rparr>" 30000 "[(30010, 5), (30020, 5)]" 5]
  by (simp add: cb_new_def cb_create_default_config_def del: runs.simps probe_rounds.simps)

end
