(* ===== verification/Breaker_Manager.thy ===== *)
theory Breaker_Manager
  imports Circuit_Breaker
begin

section \<open>The breaker manager\<close>

text \<open>
  The registry of breakers: every pointer in its array is live, there are at most 64, and a
  lookup finds what was created, provided the name fits the 63 characters that are kept.
\<close>

definition mg_inv :: "cb_manager \<Rightarrow> bool" where
  "mg_inv m \<longleftrightarrow> distinct (mg_breakers m) \<and> set (mg_breakers m) = dom (mg_heap m) \<and>
     length (mg_breakers m) \<le> CB_MAX_BREAKERS \<and> length (mg_callbacks m) \<le> CB_MAX_CALLBACKS \<and>
     (\<forall>cb \<in> ran (mg_heap m). length (cb_name cb) < CB_MAX_NAME_LEN)"

definition name_of :: "cb_manager \<Rightarrow> addr \<Rightarrow> cstr" where
  "name_of m a = cb_name (the (mg_heap m a))"

lemma find_breaker_ok:
  "set as \<subseteq> dom h \<Longrightarrow> find_breaker h nm as = Some (find (\<lambda>a. cb_name (the (h a)) = nm) as)"
  by (induction as) auto

lemma find_ok:
  assumes "mg_inv m"
  shows "find_breaker (mg_heap m) nm (mg_breakers m) = Some (find (\<lambda>a. name_of m a = nm) (mg_breakers m))"
  using assms find_breaker_ok [of "mg_breakers m" "mg_heap m" nm] by (simp add: mg_inv_def name_of_def)

lemma name_len: "mg_inv m \<Longrightarrow> a \<in> set (mg_breakers m) \<Longrightarrow> length (name_of m a) < CB_MAX_NAME_LEN"
  by (force simp: mg_inv_def name_of_def ran_def)

lemma free_all_ok: "distinct as \<Longrightarrow> set as \<subseteq> dom h \<Longrightarrow> free_all h as = Some (h |` (- set as))"
proof (induction as arbitrary: h)
  case (Cons a as)
  then have "free_all (h(a := None)) as = Some ((h(a := None)) |` (- set as))" by (intro Cons.IH) auto
  moreover have "(h(a := None)) |` (- set as) = h |` (- set (a # as))" by (auto simp: restrict_map_def fun_eq_iff)
  ultimately show ?case using Cons.prems(2) by (auto simp: dom_def)
qed (simp add: restrict_map_def)

text \<open>Creating at a fresh address, when the name is not found.\<close>

definition mg_add :: "cb_manager \<Rightarrow> addr \<Rightarrow> cb_internal \<Rightarrow> cb_manager" where
  "mg_add m a cb = m\<lparr>mg_heap := (mg_heap m)(a \<mapsto> cb), mg_breakers := mg_breakers m @ [a]\<rparr>"

lemma mg_add_inv:
  assumes "mg_inv m" "mg_heap m a = None" "length (mg_breakers m) < CB_MAX_BREAKERS"
    "length (cb_name cb) < CB_MAX_NAME_LEN"
  shows "mg_inv (mg_add m a cb)"
proof -
  have "a \<notin> set (mg_breakers m)" using assms(1,2) by (auto simp: mg_inv_def)
  moreover have "ran ((mg_heap m)(a \<mapsto> cb)) = insert cb (ran (mg_heap m))" using assms(2) by simp
  ultimately show ?thesis using assms by (auto simp: mg_inv_def mg_add_def)
qed

lemma name_of_add: "name_of (mg_add m a cb) b = (if b = a then cb_name cb else name_of m b)"
  by (simp add: name_of_def mg_add_def)

lemma find_append: "find P (xs @ ys) = (case find P xs of None \<Rightarrow> find P ys | Some x \<Rightarrow> Some x)"
  by (induction xs) auto

lemma find_add:
  assumes "mg_inv m" "mg_heap m a = None"
  shows "find (\<lambda>b. name_of (mg_add m a cb) b = nm) (mg_breakers (mg_add m a cb)) =
     (case find (\<lambda>b. name_of m b = nm) (mg_breakers m) of
        None \<Rightarrow> if cb_name cb = nm then Some a else None | Some b \<Rightarrow> Some b)"
proof -
  have "a \<notin> set (mg_breakers m)" using assms by (auto simp: mg_inv_def)
  then have "find (\<lambda>b. name_of (mg_add m a cb) b = nm) (mg_breakers m) = find (\<lambda>b. name_of m b = nm) (mg_breakers m)"
    by (intro find_cong) (auto simp: name_of_add)
  moreover have "mg_breakers (mg_add m a cb) = mg_breakers m @ [a]" by (simp add: mg_add_def)
  ultimately show ?thesis by (simp add: find_append name_of_add split: option.split)
qed

lemma cb_create_ok:
  assumes "mg_inv m" "length (mg_breakers m) < CB_MAX_BREAKERS"
  shows "cb_create now (Some a) True (Some m) (Some nm) cfg =
     (case find (\<lambda>b. name_of m b = nm) (mg_breakers m) of
        Some b \<Rightarrow> Some (Some b, Some m)
      | None \<Rightarrow> Some (Some a, Some (mg_add m a (cb_new now nm cfg))))"
  using assms by (simp add: cb_create_def find_ok mg_add_def split: option.split)

lemma cb_new_name [simp]: "cb_name (cb_new now nm cfg) = take (CB_MAX_NAME_LEN - 1) nm"
  by (simp add: cb_new_def)

lemma new_name_len: "length (cb_name (cb_new now nm cfg)) < CB_MAX_NAME_LEN"
  by (simp add: CB_MAX_NAME_LEN_def)

text \<open>In a registry with room, creating a breaker under a name of at most 63 characters gives a handle that
  the lookup of this name then returns, keeps every other lookup, and asking again returns the
  same handle without a second breaker (unless the registry became full meanwhile).\<close>

theorem cb_create_find:
  assumes "mg_inv m" "mg_heap m a = None" "length (mg_breakers m) < CB_MAX_BREAKERS" "length nm < CB_MAX_NAME_LEN"
  shows "\<exists>h m'. cb_create now (Some a) True (Some m) (Some nm) cfg = Some (Some h, Some m') \<and> mg_inv m' \<and>
     cb_find (Some m') (Some nm) = Some (Some h) \<and>
     (\<forall>nm'. nm' \<noteq> nm \<longrightarrow> cb_find (Some m') (Some nm') = cb_find (Some m) (Some nm')) \<and>
     (\<forall>now' b cfg'. cb_count (Some m') < CB_MAX_BREAKERS \<longrightarrow>
        cb_create now' (Some b) True (Some m') (Some nm) cfg' = Some (Some h, Some m'))"
proof (cases "find (\<lambda>b. name_of m b = nm) (mg_breakers m)")
  case (Some b)
  with assms(1,3) show ?thesis by (simp add: cb_create_ok cb_find_def find_ok)
next
  case None
  let ?m = "mg_add m a (cb_new now nm cfg)"
  have nm: "cb_name (cb_new now nm cfg) = nm" using assms(4) by (simp add: CB_MAX_NAME_LEN_def)
  have inv: "mg_inv ?m" using assms(1-3) by (intro mg_add_inv new_name_len)
  have "find (\<lambda>b. name_of ?m b = nm) (mg_breakers ?m) = Some a"
    using find_add [OF assms(1,2)] None nm by simp
  moreover have "find (\<lambda>b. name_of ?m b = nm') (mg_breakers ?m) = find (\<lambda>b. name_of m b = nm') (mg_breakers m)"
    if "nm' \<noteq> nm" for nm' using find_add [OF assms(1,2)] nm that by (auto split: option.split)
  ultimately show ?thesis using None inv assms(1,3) by (auto simp: cb_create_ok cb_find_def find_ok cb_count_def)
qed

theorem cb_create_find_witness:
  "\<exists>m h m'. cb_manager_create True True = Some m \<and>
     cb_create 0 (Some 7) True (Some m) (Some ''llm'') None = Some (Some h, Some m') \<and>
     cb_find (Some m') (Some ''llm'') = Some (Some h)"
  using cb_create_find [of "\<lparr>mg_heap = Map.empty, mg_breakers = [], mg_callbacks = []\<rparr>" 7 "''llm''" 0 None]
  by (auto simp: mg_inv_def cb_manager_create_def CB_MAX_NAME_LEN_def CB_MAX_BREAKERS_def CB_MAX_CALLBACKS_def)

text \<open>A name of 64 or more characters is cut when stored but compared in full: the breaker just created is
  not found under its name, and asking again creates another one each time.\<close>

theorem cb_create_long_name:
  assumes "mg_inv m" "mg_heap m a = None" "length (mg_breakers m) < CB_MAX_BREAKERS" "CB_MAX_NAME_LEN \<le> length nm"
  shows "\<exists>m'. cb_create now (Some a) True (Some m) (Some nm) cfg = Some (Some a, Some m') \<and> mg_inv m' \<and>
     cb_count (Some m') = Suc (cb_count (Some m)) \<and> cb_find (Some m') (Some nm) = Some None"
proof -
  let ?m = "mg_add m a (cb_new now nm cfg)"
  have inv: "mg_inv ?m" using assms(1-3) by (intro mg_add_inv new_name_len)
  have none: "find (\<lambda>b. name_of m' b = nm) (mg_breakers m') = None" if "mg_inv m'" for m'
    using name_len [OF that] assms(4) by (fastforce simp: find_None_iff)
  show ?thesis using none [OF assms(1)] none [OF inv] inv assms(1,3)
    by (simp add: cb_create_ok cb_find_def find_ok cb_count_def) (simp add: mg_add_def)
qed

theorem cb_create_long_name_witness:
  "\<exists>m m'. cb_manager_create True True = Some m \<and>
     cb_create 0 (Some 7) True (Some m) (Some (replicate 64 CHR ''a'')) None = Some (Some 7, Some m') \<and>
     cb_find (Some m') (Some (replicate 64 CHR ''a'')) = Some None"
  using cb_create_long_name [of "\<lparr>mg_heap = Map.empty, mg_breakers = [], mg_callbacks = []\<rparr>" 7
      "replicate 64 CHR ''a''" 0 None]
  by (auto simp: mg_inv_def cb_manager_create_def CB_MAX_NAME_LEN_def CB_MAX_BREAKERS_def CB_MAX_CALLBACKS_def)

text \<open>Destroying a breaker through its handle and destroying the manager never follow a dangling pointer;
  a destroyed breaker leaves the registry consistent and smaller by one, and the manager's
  destruction frees every breaker.\<close>

theorem cb_destroy_safe:
  assumes "mg_inv m" "h \<in> set (mg_breakers m)"
  shows "\<exists>m'. cb_destroy m (Some h) = Some m' \<and> mg_inv m' \<and> mg_heap m' h = None \<and>
     Suc (cb_count (Some m')) = cb_count (Some m) \<and> cb_manager_destroy (Some m) = Some Map.empty"
proof -
  let ?m = "m\<lparr>mg_breakers := remove1 h (mg_breakers m), mg_heap := (mg_heap m)(h := None)\<rparr>"
  have i: "distinct (mg_breakers m)" "set (mg_breakers m) = dom (mg_heap m)" using assms(1) by (auto simp: mg_inv_def)
  then obtain cb where "mg_heap m h = Some cb" using assms(2) by auto
  then have d: "cb_destroy m (Some h) = Some ?m" by (simp add: cb_destroy_def)
  have "ran ((mg_heap m)(h := None)) \<subseteq> ran (mg_heap m)" by (auto simp: ran_def)
  then have inv: "mg_inv ?m" using assms i by (auto simp: mg_inv_def length_remove1)
  have "mg_heap m |` (- set (mg_breakers m)) = Map.empty" using i(2) by (auto simp: restrict_map_def fun_eq_iff)
  then have "cb_manager_destroy (Some m) = Some Map.empty" using free_all_ok [OF i(1)] i(2) by (simp add: cb_manager_destroy_def)
  moreover have "0 < length (mg_breakers m)" using assms(2) by (cases "mg_breakers m") auto
  ultimately show ?thesis using d inv assms(2) by (simp add: cb_count_def length_remove1)
qed

theorem cb_destroy_safe_witness:
  "\<exists>m'. cb_destroy \<lparr>mg_heap = [3 \<mapsto> cb_new 0 ''a'' None], mg_breakers = [3], mg_callbacks = []\<rparr> (Some 3) = Some m' \<and>
     cb_count (Some m') = 0"
  using cb_destroy_safe [of "\<lparr>mg_heap = [3 \<mapsto> cb_new 0 ''a'' None], mg_breakers = [3], mg_callbacks = []\<rparr>" 3]
  by (auto simp: mg_inv_def CB_MAX_NAME_LEN_def CB_MAX_BREAKERS_def CB_MAX_CALLBACKS_def cb_count_def)

end
