(* ===== verification/C_Strings.thy ===== *)
theory C_Strings
  imports Airy_Prelude
begin

section \<open>C library string functions on NUL-terminated strings\<close>

text \<open>
  The functions of \<open>string.h\<close> several components use on strings (not on raw buffers): the tokens
  \<open>strtok_r\<close> hands out one after the other, \<open>strstr\<close> and \<open>strchr\<close> as tests, and the
  bounded copy \<open>safe_strcpy\<close> into an array of \<open>n\<close> bytes, whose effect on strings is
  \<open>Safe_String.safe_strcpy_correct\<close>.
\<close>

lemma strtok_shorter:
  assumes s: "dropWhile d s \<noteq> []"
  shows "length (dropWhile (\<lambda>c. \<not> d c) (dropWhile d s)) < length s"
proof -
  from s have "\<not> d (hd (dropWhile d s))" using hd_dropWhile by blast
  with s have "length (dropWhile (\<lambda>c. \<not> d c) (dropWhile d s)) < length (dropWhile d s)"
    by (cases "dropWhile d s") (auto simp: le_imp_less_Suc length_dropWhile_le)
  also have "\<dots> \<le> length s" by (rule length_dropWhile_le)
  finally show ?thesis .
qed

function strtok_all :: "(char \<Rightarrow> bool) \<Rightarrow> cstr \<Rightarrow> cstr list" where
  "strtok_all d s =
     (let s' = dropWhile d s in
      if s' = [] then []
      else takeWhile (\<lambda>c. \<not> d c) s' # strtok_all d (dropWhile (\<lambda>c. \<not> d c) s'))"
  by pat_completeness auto
termination
  by (relation "measure (\<lambda>(d, s). length s)") (auto simp del: dropWhile_eq_Nil_conv intro: strtok_shorter)

declare strtok_all.simps [simp del]

fun strstr :: "cstr \<Rightarrow> cstr \<Rightarrow> bool" where
  "strstr [] n = (n = [])"
| "strstr (h # hs) n = (take (length n) (h # hs) = n \<or> strstr hs n)"

text \<open>\<open>while (*token == ' ') token++\<close>\<close>

definition skip_spaces :: "cstr \<Rightarrow> cstr" where
  "skip_spaces s = dropWhile (\<lambda>c. c = CHR '' '') s"

definition str_fit :: "nat \<Rightarrow> cstr \<Rightarrow> cstr" where
  "str_fit n s = take (n - 1) s"

text \<open>\<open>tolower\<close> of the C locale, and \<open>strcasecmp (a, b) == 0\<close>.\<close>

definition tolower :: "char \<Rightarrow> char" where
  "tolower c = (let k = (of_char c :: int) in if 65 \<le> k \<and> k \<le> 90 then char_of (k + 32) else c)"

definition strcaseeq :: "cstr \<Rightarrow> cstr \<Rightarrow> bool" where
  "strcaseeq a b = (map tolower a = map tolower b)"

text \<open>\<open>isspace\<close> of the C locale.\<close>

definition isspace :: "char \<Rightarrow> bool" where
  "isspace c = (let k = (of_char c :: int) in k = 32 \<or> 9 \<le> k \<and> k \<le> 13)"

lemma str_fit_length: "0 < n \<Longrightarrow> length (str_fit n s) < n"
  by (simp add: str_fit_def)

lemma str_fit_id: "length s < n \<Longrightarrow> str_fit n s = s"
  by (simp add: str_fit_def)

lemma strstr_iff: "strstr h n \<longleftrightarrow> (\<exists>u v. h = u @ n @ v)"
proof (induction h)
  case (Cons c h)
  have "take (length n) (c # h) = n \<longleftrightarrow> (\<exists>v. c # h = n @ v)"
    by (metis append_eq_conv_conj append_take_drop_id)
  with Cons show ?case by (auto simp: Cons_eq_append_conv)
qed auto

lemma strtok_nonempty: "t \<in> set (strtok_all d s) \<Longrightarrow> t \<noteq> [] \<and> (\<forall>c \<in> set t. \<not> d c)"
proof (induction d s rule: strtok_all.induct)
  case (1 d s)
  show ?case
  proof (cases "dropWhile d s = []")
    case True
    with 1(2) show ?thesis by (simp add: strtok_all.simps [of d s])
  next
    case False
    let ?t = "takeWhile (\<lambda>c. \<not> d c) (dropWhile d s)"
    from False have "\<not> d (hd (dropWhile d s))" using hd_dropWhile by blast
    with False have "?t \<noteq> []" by (cases "dropWhile d s") auto
    moreover have "\<forall>c \<in> set ?t. \<not> d c" by (auto dest: set_takeWhileD)
    moreover have "t = ?t \<or> t \<in> set (strtok_all d (dropWhile (\<lambda>c. \<not> d c) (dropWhile d s)))"
      using 1(2) False by (subst (asm) strtok_all.simps) (simp add: Let_def del: dropWhile_eq_Nil_conv)
    ultimately show ?thesis using 1(1) [OF refl False] by metis
  qed
qed

end
