(* ===== verification/Svc_State.thy ===== *)
theory Svc_State
  imports C_Strings
begin

section \<open>Service states\<close>

text \<open>
  The state enumeration of \<open>utils/svc/svc_common.h\<close>, which the service framework and service discovery
  share, with its conversions to and from text (\<open>utils/svc/svc_common_ops.c\<close>).
\<close>

datatype airy_svc_state =
    AIRY_SVC_STATE_NONE | AIRY_SVC_STATE_CREATED | AIRY_SVC_STATE_INITIALIZING
  | AIRY_SVC_STATE_READY | AIRY_SVC_STATE_RUNNING | AIRY_SVC_STATE_PAUSED
  | AIRY_SVC_STATE_STOPPING | AIRY_SVC_STATE_STOPPED | AIRY_SVC_STATE_ZOMBIE
  | AIRY_SVC_STATE_ERROR

text \<open>The value of the enumerator.\<close>

primrec svc_state_code :: "airy_svc_state \<Rightarrow> int" where
  "svc_state_code AIRY_SVC_STATE_NONE = 0"
| "svc_state_code AIRY_SVC_STATE_CREATED = 1"
| "svc_state_code AIRY_SVC_STATE_INITIALIZING = 2"
| "svc_state_code AIRY_SVC_STATE_READY = 3"
| "svc_state_code AIRY_SVC_STATE_RUNNING = 4"
| "svc_state_code AIRY_SVC_STATE_PAUSED = 5"
| "svc_state_code AIRY_SVC_STATE_STOPPING = 6"
| "svc_state_code AIRY_SVC_STATE_STOPPED = 7"
| "svc_state_code AIRY_SVC_STATE_ZOMBIE = 8"
| "svc_state_code AIRY_SVC_STATE_ERROR = 9"

definition state_strings :: "cstr list" where
  "state_strings = [''NONE'', ''CREATED'', ''INITIALIZING'', ''READY'', ''RUNNING'',
                    ''PAUSED'', ''STOPPING'', ''STOPPED'', ''ZOMBIE'', ''ERROR'']"

definition airy_svc_state_to_string :: "int \<Rightarrow> cstr" where
  "airy_svc_state_to_string st = (if st < 0 \<or> st > 9 then ''UNKNOWN'' else state_strings ! nat st)"

definition state_map :: "(cstr \<times> airy_svc_state) list" where
  "state_map =
     [(''NONE'', AIRY_SVC_STATE_NONE), (''CREATED'', AIRY_SVC_STATE_CREATED),
      (''INITIALIZING'', AIRY_SVC_STATE_INITIALIZING), (''READY'', AIRY_SVC_STATE_READY),
      (''RUNNING'', AIRY_SVC_STATE_RUNNING), (''PAUSED'', AIRY_SVC_STATE_PAUSED),
      (''STOPPING'', AIRY_SVC_STATE_STOPPING), (''STOPPED'', AIRY_SVC_STATE_STOPPED),
      (''ZOMBIE'', AIRY_SVC_STATE_ZOMBIE), (''ERROR'', AIRY_SVC_STATE_ERROR)]"

definition airy_svc_state_from_string :: "cstr option \<Rightarrow> airy_svc_state" where
  "airy_svc_state_from_string str =
     (case str of
        None \<Rightarrow> AIRY_SVC_STATE_NONE
      | Some s \<Rightarrow>
          (case find (\<lambda>(n, st). strcaseeq s n) state_map of
             None \<Rightarrow> AIRY_SVC_STATE_NONE
           | Some (n, st) \<Rightarrow> st))"

definition svc_states :: "airy_svc_state list" where
  "svc_states = map snd state_map"

lemma svc_state_texts:
  "list_all (\<lambda>st. airy_svc_state_from_string (Some (airy_svc_state_to_string (svc_state_code st))) = st) svc_states"
  by code_simp

text \<open>The text of a state, in any mixture of cases, is read back as that state.\<close>

lemma svc_state_round_trip:
  assumes "strcaseeq s (airy_svc_state_to_string (svc_state_code st))"
  shows "airy_svc_state_from_string (Some s) = st"
proof -
  have "strcaseeq s n = strcaseeq (airy_svc_state_to_string (svc_state_code st)) n" for n
    using assms by (simp add: strcaseeq_def)
  then have "airy_svc_state_from_string (Some s) = airy_svc_state_from_string (Some (airy_svc_state_to_string (svc_state_code st)))"
    by (simp add: airy_svc_state_from_string_def)
  also have "\<dots> = st" using svc_state_texts by (cases st) (simp_all add: svc_states_def state_map_def)
  finally show ?thesis .
qed

end
