(* ===== verification/Slot_Tables.thy ===== *)
theory Slot_Tables
  imports Airy_Prelude "HOL-Library.Multiset"
begin

section \<open>Tables kept in the first slots of an array\<close>

text \<open>
  Several components keep a table as a fixed array and a counter of the slots in use: a search loop
  over the used slots, and a removal that moves the last used slot into the freed one. Here are both
  loops on the list of the used slots, with the facts the components need: what a search by key
  finds, and that a removal only takes the one element away.
\<close>

text \<open>The loop that returns the first slot with a property.\<close>

primrec first_index :: "('a \<Rightarrow> bool) \<Rightarrow> 'a list \<Rightarrow> nat option" where
  "first_index P [] = None"
| "first_index P (x # xs) = (if P x then Some 0 else map_option Suc (first_index P xs))"

text \<open>Removal of slot \<open>j\<close>: the last used slot moves into it.\<close>

definition drop_slot :: "nat \<Rightarrow> 'a list \<Rightarrow> 'a list" where
  "drop_slot j xs = butlast (if j < length xs - 1 then xs[j := last xs] else xs)"

lemma first_index_None: "first_index P xs = None \<longleftrightarrow> (\<forall>x \<in> set xs. \<not> P x)"
  by (induction xs) auto

lemma first_index_Some:
  "first_index P xs = Some i \<Longrightarrow> i < length xs \<and> P (xs ! i) \<and> (\<forall>j < i. \<not> P (xs ! j))"
  by (induction xs arbitrary: i) (auto simp: less_Suc_eq_0_disj split: if_splits)

lemma find_first_index: "find P xs = map_option (\<lambda>i. xs ! i) (first_index P xs)"
  by (induction xs) (auto simp: option.map_comp o_def)

lemma find_key:
  "distinct (map f xs) \<Longrightarrow> find (\<lambda>x. f x = k) xs = Some x \<longleftrightarrow> x \<in> set xs \<and> f x = k"
  by (induction xs) auto

lemma find_key_None: "find (\<lambda>x. f x = k) xs = None \<longleftrightarrow> k \<notin> f ` set xs"
  by (auto simp: find_None_iff)

lemma length_drop_slot [simp]: "length (drop_slot j xs) = length xs - 1"
  by (simp add: drop_slot_def)

lemma take_drop_slot: "j < length xs \<Longrightarrow> take j (drop_slot j xs) = take j xs"
  by (auto simp: drop_slot_def take_butlast)

lemma mset_drop_slot_tail:
  assumes "j < length xs"
  shows "mset (drop j (drop_slot j xs)) = mset (drop (Suc j) xs)"
proof (cases "j < length xs - 1")
  case True
  then obtain ys z where xs: "xs = ys @ [z]" by (cases xs rule: rev_cases) auto
  with True have j: "j < length ys" by simp
  have "mset (drop j (ys[j := z])) = mset (drop (Suc j) ys) + {#z#}"
    using j by (simp add: upd_conv_take_nth_drop)
  with True j show ?thesis by (simp add: xs drop_slot_def list_update_append)
next
  case False
  with assms have "j = length xs - 1" by simp
  with assms show ?thesis by (simp add: drop_slot_def)
qed

lemma mset_drop_slot:
  assumes "j < length xs"
  shows "add_mset (xs ! j) (mset (drop_slot j xs)) = mset xs"
proof -
  have "mset (drop_slot j xs) = mset (take j (drop_slot j xs)) + mset (drop j (drop_slot j xs))"
    by (metis append_take_drop_id mset_append)
  also have "\<dots> = mset (take j xs) + mset (drop (Suc j) xs)"
    using assms by (simp add: take_drop_slot mset_drop_slot_tail)
  finally show ?thesis
    using arg_cong [OF id_take_nth_drop [OF assms], of mset] by simp
qed

text \<open>A table of distinct keys answers by key alone: what a search finds after an update, an append or a
  removal.\<close>

lemma find_app: "find P (xs @ ys) = (case find P xs of Some x \<Rightarrow> Some x | None \<Rightarrow> find P ys)"
  by (induction xs) auto

lemma find_key_update:
  assumes "distinct (map f xs)" and "k < length xs" and "f y = f (xs ! k)"
  shows "find (\<lambda>x. f x = v) (xs[k := y]) = (if v = f y then Some y else find (\<lambda>x. f x = v) xs)"
  using assms
proof (induction xs arbitrary: k)
  case (Cons x xs)
  then show ?case by (cases k) auto
qed simp

lemma distinct_map_update:
  "distinct (map f xs) \<Longrightarrow> k < length xs \<Longrightarrow> f y = f (xs ! k) \<Longrightarrow> distinct (map f (xs[k := y]))"
  by (metis list_update_id map_update nth_map)

lemma mset_filtered_facts:
  assumes "mset ys = image_mset g (filter_mset Q (mset xs))" and "distinct (map f xs)"
    and "\<And>x. f (g x) = f x"
  shows "distinct (map f ys)"
    and "find (\<lambda>x. f x = v) ys =
           (case find (\<lambda>x. f x = v) xs of Some x \<Rightarrow> if Q x then Some (g x) else None | None \<Rightarrow> None)"
proof -
  have m: "mset ys = mset (map g (filter Q xs))" using assms(1) by (simp flip: mset_filter)
  have "distinct (map f (filter Q xs))" using assms(2) by (rule distinct_map_filter)
  then have "distinct (map f (map g (filter Q xs)))" using assms(3) by (simp add: o_def)
  with m show d: "distinct (map f ys)" by (metis mset_map mset_eq_imp_distinct_iff)
  have set: "set ys = g ` {x \<in> set xs. Q x}" using m by (metis mset_eq_setD set_filter set_map)
  show "find (\<lambda>x. f x = v) ys =
          (case find (\<lambda>x. f x = v) xs of Some x \<Rightarrow> if Q x then Some (g x) else None | None \<Rightarrow> None)"
  proof (cases "find (\<lambda>x. f x = v) xs")
    case None
    then have "find (\<lambda>x. f x = v) ys = None" using set assms(3) by (auto simp: find_None_iff)
    with None show ?thesis by simp
  next
    case (Some x)
    then have x: "x \<in> set xs" "f x = v" using find_key [OF assms(2)] by auto
    have uniq: "z \<in> set xs \<Longrightarrow> f z = v \<Longrightarrow> z = x" for z
      using x assms(2) by (metis distinct_map inj_onD)
    show ?thesis
    proof (cases "Q x")
      case True
      then have "find (\<lambda>x. f x = v) ys = Some (g x)"
        unfolding find_key [OF d] using x set assms(3) by auto
      with True Some show ?thesis by simp
    next
      case False
      then have "find (\<lambda>x. f x = v) ys = None" using uniq set assms(3) by (auto simp: find_None_iff)
      with False Some show ?thesis by simp
    qed
  qed
qed

lemma drop_slot_filter:
  assumes "distinct (map f xs)" and "k < length xs"
  shows "mset (drop_slot k xs) = image_mset (\<lambda>x. x) (filter_mset (\<lambda>x. f x \<noteq> f (xs ! k)) (mset xs))"
proof -
  have "set (drop_slot k xs) = set xs - {xs ! k} \<and> xs ! k \<notin> set (drop_slot k xs)"
  proof -
    have m: "mset xs = add_mset (xs ! k) (mset (drop_slot k xs))"
      using mset_drop_slot [OF assms(2)] by simp
    have "distinct xs" using assms(1) by (simp add: distinct_map)
    then have "distinct (xs ! k # drop_slot k xs)"
      using m by (metis mset.simps(2) mset_eq_imp_distinct_iff)
    then show ?thesis using m by (metis Diff_insert_absorb distinct.simps(2) list.simps(15) mset.simps(2) mset_eq_setD)
  qed
  moreover have "f x \<noteq> f (xs ! k)" if "x \<in> set xs" "x \<noteq> xs ! k" for x
    using that assms by (metis distinct_map inj_onD nth_mem)
  ultimately have "filter_mset (\<lambda>x. f x \<noteq> f (xs ! k)) (mset (drop_slot k xs)) = mset (drop_slot k xs)"
    by (intro filter_mset_eq_conv [THEN iffD2]) auto
  then show ?thesis by (simp flip: mset_drop_slot [OF assms(2)])
qed

lemma drop_slot_facts:
  assumes "distinct (map f xs)" and "k < length xs"
  shows "distinct (map f (drop_slot k xs))"
    and "find (\<lambda>x. f x = v) (drop_slot k xs) =
           (if v = f (xs ! k) then None else find (\<lambda>x. f x = v) xs)"
proof -
  note facts = mset_filtered_facts [OF drop_slot_filter [OF assms] assms(1) refl]
  show "distinct (map f (drop_slot k xs))" by (rule facts(1))
  show "find (\<lambda>x. f x = v) (drop_slot k xs) =
          (if v = f (xs ! k) then None else find (\<lambda>x. f x = v) xs)"
  proof (cases "find (\<lambda>x. f x = v) xs")
    case (Some x)
    moreover from this have "f x = v" by (simp add: find_key [OF assms(1)])
    ultimately show ?thesis by (simp add: facts(2))
  qed (simp add: facts(2))
qed

end
