(* ===== verification/Service_Registry.thy ===== *)
theory Service_Registry
  imports Err_Codes Svc_State Slot_Tables
begin

section \<open>Service discovery: registry data and core operations\<close>

text \<open>
  The registry of \<open>utils/sd/service_discovery.c\<close>: the structures of \<open>service_discovery.h\<close> and
  \<open>service_discovery_internal.h\<close>, the index searches, the expiry sweep and the two core
  operations \<open>sd_registry_add_instance\<close> and \<open>sd_registry_remove_instance\<close>.

  The arrays \<open>services[128]\<close> and \<open>instances[8]\<close> with their counters are the lists of the slots in
  use, in slot order; a slot past the counter is never read. \<open>airy_time_ms ()\<close> and \<open>getpid ()\<close> are the
  arguments \<open>now\<close> and \<open>pid\<close>: one operation runs under one clock reading. A callback is a number,
  and the calls \<open>notify_event\<close> makes are returned in order. The mutex is held for the whole of an
  operation, so an operation is one step of the model.
\<close>

definition SD_MAX_SERVICES :: nat where "SD_MAX_SERVICES = 128"
definition SD_MAX_NAME_LEN :: nat where "SD_MAX_NAME_LEN = 64"
definition SD_MAX_TYPE_LEN :: nat where "SD_MAX_TYPE_LEN = 32"
definition SD_MAX_TAGS_LEN :: nat where "SD_MAX_TAGS_LEN = 256"
definition SD_MAX_DEPS_LEN :: nat where "SD_MAX_DEPS_LEN = 512"
definition SD_MAX_INSTANCES :: nat where "SD_MAX_INSTANCES = 8"
definition SD_MAX_CALLBACKS :: nat where "SD_MAX_CALLBACKS = 8"
definition SD_DEFAULT_HEARTBEAT_MS :: u32 where "SD_DEFAULT_HEARTBEAT_MS = 10000"
definition SD_DEFAULT_EXPIRE_MS :: u32 where "SD_DEFAULT_EXPIRE_MS = 30000"
definition SD_SHM_NAME :: cstr where "SD_SHM_NAME = ''/airy_svc_registry''"
definition SD_SHM_DEFAULT_SIZE :: u32 where "SD_SHM_DEFAULT_SIZE = 1024 * 1024"

lemmas sd_limits = SD_MAX_SERVICES_def SD_MAX_NAME_LEN_def SD_MAX_TYPE_LEN_def SD_MAX_TAGS_LEN_def
  SD_MAX_DEPS_LEN_def SD_MAX_INSTANCES_def SD_MAX_CALLBACKS_def

record sd_instance =
  instance_id :: cstr
  endpoint :: cstr
  inst_state :: airy_svc_state
  healthy :: bool
  weight :: u32
  active_connections :: u32
  max_connections :: u32
  last_heartbeat :: u64
  register_time :: u64
  inst_pid :: u32

record sd_service_entry =
  svc_name :: cstr
  svc_version :: cstr
  service_type :: cstr
  svc_tags :: cstr
  svc_dependencies :: cstr
  svc_capabilities :: u32
  instances :: "sd_instance list"
  svc_active :: bool
  last_updated :: u64

text \<open>\<open>SD_LB_OTHER\<close> stands for the values of the C type outside its enumeration.\<close>

datatype sd_lb_strategy =
    SD_LB_ROUND_ROBIN | SD_LB_WEIGHTED | SD_LB_LEAST_CONNECTION | SD_LB_RANDOM | SD_LB_LEAST_LOAD | SD_LB_OTHER

record sd_config =
  heartbeat_interval_ms :: u32
  expire_timeout_ms :: u32
  default_lb_strategy :: sd_lb_strategy
  enable_auto_expire :: bool
  enable_health_propagation :: bool
  shm_name :: cstr
  shm_size :: u32

record sd_stats =
  registrations :: u64
  deregistrations :: u64
  discoveries :: u64
  heartbeats :: u64
  expirations :: u64
  lb_selections :: u64
  active_services :: u32
  active_instances :: u32

datatype sd_event_type =
    SD_EVENT_REGISTERED | SD_EVENT_DEREGISTERED | SD_EVENT_HEALTH_CHANGE | SD_EVENT_EXPIRED
  | SD_EVENT_INSTANCE_UP | SD_EVENT_INSTANCE_DOWN

type_synonym sd_callback = "nat \<times> nat"  \<comment> \<open>callback and its user data\<close>
type_synonym sd_event = "sd_event_type \<times> cstr \<times> sd_instance"
type_synonym sd_call = "nat \<times> sd_event \<times> nat"

record sd_internal =
  sd_cfg :: sd_config
  services :: "sd_service_entry list"
  callbacks :: "sd_callback list"
  sd_st :: sd_stats
  running :: bool
  rr_counter :: u32

subsection \<open>Searches\<close>

definition find_service_index :: "sd_internal \<Rightarrow> cstr \<Rightarrow> int" where
  "find_service_index sd name =
     (case first_index (\<lambda>e. svc_name e = name) (services sd) of
        Some i \<Rightarrow> int i | None \<Rightarrow> AIRY_ERR_NOT_FOUND)"

definition find_instance_index :: "sd_service_entry \<Rightarrow> cstr \<Rightarrow> int" where
  "find_instance_index entry iid =
     (case first_index (\<lambda>x. instance_id x = iid) (instances entry) of
        Some i \<Rightarrow> int i | None \<Rightarrow> AIRY_ERR_NOT_FOUND)"

definition sd_notify_event :: "sd_internal \<Rightarrow> sd_event \<Rightarrow> sd_call list" where
  "sd_notify_event sd ev = map (\<lambda>(cb, ud). (cb, ev, ud)) (callbacks sd)"

subsection \<open>Expiry\<close>

definition is_instance_expired :: "u64 \<Rightarrow> sd_instance \<Rightarrow> u32 \<Rightarrow> bool" where
  "is_instance_expired now inst expire_ms =
     (if expire_ms = 0 then False else ucast expire_ms < now - last_heartbeat inst)"

text \<open>The inner loop over \<open>j\<close>; the second component lists the expired instances in the order they
  are removed.\<close>

function expire_instances ::
  "(sd_instance \<Rightarrow> bool) \<Rightarrow> sd_instance list \<Rightarrow> nat \<Rightarrow> sd_instance list \<times> sd_instance list" where
  "expire_instances dead xs j =
     (if j < length xs then
        if dead (xs ! j) then
          (let (ys, gone) = expire_instances dead (drop_slot j xs) j in (ys, xs ! j # gone))
        else expire_instances dead xs (j + 1)
      else (xs, []))"
  by pat_completeness auto
termination
  by (relation "measure (\<lambda>(d, xs, j). length xs - j)") auto

declare expire_instances.simps [simp del]

text \<open>The outer loop over \<open>i\<close>. After the removal of a service the code steps \<open>i\<close> back (wrapping at
  0) and the loop header forward again, so the moved service is examined in the same slot. The
  result carries the events and whether anything changed.\<close>

function expire_services ::
  "sd_config \<Rightarrow> u64 \<Rightarrow> sd_service_entry list \<Rightarrow> nat \<Rightarrow>
   sd_service_entry list \<times> sd_event list \<times> bool" where
  "expire_services cfg now es i =
     (if i < length es then
        (let entry = es ! i;
             (ys, gone) = expire_instances (\<lambda>x. is_instance_expired now x (expire_timeout_ms cfg))
                            (instances entry) 0;
             es' = es[i := entry\<lparr>instances := ys\<rparr>];
             evs = map (\<lambda>x. (SD_EVENT_EXPIRED, svc_name entry, x)) gone
         in if ys = [] \<and> enable_auto_expire cfg \<and>
               ucast (expire_timeout_ms cfg * 2) < now - last_updated entry
            then (let (es'', evs', ch) = expire_services cfg now (drop_slot i es') i
                  in (es'', evs @ evs', True))
            else (let (es'', evs', ch) = expire_services cfg now es' (i + 1)
                  in (es'', evs @ evs', gone \<noteq> [] \<or> ch)))
      else (es, [], False))"
  by pat_completeness auto
termination
  by (relation "measure (\<lambda>(c, n, es, i). length es - i)") auto

declare expire_services.simps [simp del]

subsection \<open>Core registry operations\<close>

text \<open>Records cleared by \<open>memset\<close>.\<close>

definition zero_instance :: sd_instance where
  "zero_instance = \<lparr>instance_id = [], endpoint = [], inst_state = AIRY_SVC_STATE_NONE,
     healthy = False, weight = 0, active_connections = 0, max_connections = 0,
     last_heartbeat = 0, register_time = 0, inst_pid = 0\<rparr>"

definition zero_entry :: sd_service_entry where
  "zero_entry = \<lparr>svc_name = [], svc_version = [], service_type = [], svc_tags = [],
     svc_dependencies = [], svc_capabilities = 0, instances = [], svc_active = False,
     last_updated = 0\<rparr>"

definition count_instances :: "sd_service_entry list \<Rightarrow> u32" where
  "count_instances es = foldl (\<lambda>a e. a + of_nat (length (instances e))) 0 es"

text \<open>The entry of the service, a new one in the first free slot when the name is not found.\<close>

definition sd_entry_slot ::
  "u64 \<Rightarrow> sd_internal \<Rightarrow> cstr \<Rightarrow> cstr \<Rightarrow> cstr option \<Rightarrow> cstr option \<Rightarrow> (nat \<times> sd_internal) option" where
  "sd_entry_slot now sd name type tags deps =
     (let svc_idx = find_service_index sd name in
      if 0 \<le> svc_idx then Some (nat svc_idx, sd)
      else if SD_MAX_SERVICES \<le> length (services sd) then None
      else
        let entry = zero_entry\<lparr>svc_name := str_fit SD_MAX_NAME_LEN name,
              service_type := str_fit SD_MAX_TYPE_LEN type,
              svc_tags := (case tags of Some t \<Rightarrow> str_fit SD_MAX_TAGS_LEN t | None \<Rightarrow> []),
              svc_dependencies := (case deps of Some d \<Rightarrow> str_fit SD_MAX_DEPS_LEN d | None \<Rightarrow> []),
              svc_active := True, last_updated := now\<rparr>
        in Some (length (services sd),
             sd\<lparr>services := services sd @ [entry],
                sd_st := (sd_st sd)\<lparr>registrations := registrations (sd_st sd) + 1\<rparr>\<rparr>))"

text \<open>The instance copied into its slot; \<open>None\<close> when the eight slots are taken.\<close>

definition sd_put_instance ::
  "u64 \<Rightarrow> u32 \<Rightarrow> sd_instance \<Rightarrow> sd_service_entry \<Rightarrow> sd_instance list option" where
  "sd_put_instance now pid inst entry =
     (let inst_idx = find_instance_index entry (instance_id inst) in
      if 0 \<le> inst_idx then
        Some ((instances entry)[nat inst_idx := inst\<lparr>last_heartbeat := now,
          register_time := (if 0 < register_time inst then register_time inst else now)\<rparr>])
      else if SD_MAX_INSTANCES \<le> length (instances entry) then None
      else Some (instances entry @
        [inst\<lparr>last_heartbeat := now, register_time := now, inst_pid := pid\<rparr>]))"

definition sd_registry_add_instance ::
  "u64 \<Rightarrow> u32 \<Rightarrow> sd_internal \<Rightarrow> cstr \<Rightarrow> cstr \<Rightarrow> sd_instance \<Rightarrow> cstr option \<Rightarrow> cstr option \<Rightarrow>
   airy_err \<times> sd_internal" where
  "sd_registry_add_instance now pid sd name type inst tags deps =
     (case sd_entry_slot now sd name type tags deps of
        None \<Rightarrow> (AIRY_ENOMEM, sd)
      | Some (k, sd1) \<Rightarrow>
          (case sd_put_instance now pid inst (services sd1 ! k) of
             None \<Rightarrow> (AIRY_ENOMEM, sd1)
           | Some ys \<Rightarrow>
               let es = (services sd1)[k := (services sd1 ! k)\<lparr>instances := ys, last_updated := now\<rparr>]
               in (AIRY_SUCCESS, sd1\<lparr>services := es,
                     sd_st := (sd_st sd1)\<lparr>active_services := of_nat (length es),
                                         active_instances := count_instances es\<rparr>\<rparr>)))"

definition sd_registry_remove_instance ::
  "u64 \<Rightarrow> sd_internal \<Rightarrow> cstr \<Rightarrow> cstr \<Rightarrow> airy_err \<times> sd_instance option \<times> sd_internal" where
  "sd_registry_remove_instance now sd name iid =
     (let svc_idx = find_service_index sd name in
      if svc_idx < 0 then (AIRY_ENOENT, None, sd)
      else
        let entry = services sd ! nat svc_idx; inst_idx = find_instance_index entry iid in
        if inst_idx < 0 then (AIRY_ENOENT, None, sd)
        else
          let removed = instances entry ! nat inst_idx;
              es = (services sd)[nat svc_idx := entry\<lparr>instances :=
                     drop_slot (nat inst_idx) (instances entry), last_updated := now\<rparr>]
          in (AIRY_SUCCESS, Some removed, sd\<lparr>services := es,
                sd_st := (sd_st sd)\<lparr>deregistrations := deregistrations (sd_st sd) + 1,
                                    active_instances := count_instances es\<rparr>\<rparr>))"

end
