(* ===== verification/Service_Lb.thy ===== *)
theory Service_Lb
  imports Service_Registry
begin

section \<open>Service discovery: load-balancing strategies\<close>

text \<open>
  The five selection routines of \<open>utils/sd/service_discovery_lb.c\<close> and the random number
  \<open>airy_random_uint32\<close> of \<open>platform/src/platform.c\<close> they draw, whose 32 raw pool bits are the
  argument \<open>rnd\<close>. A routine returns the code and the selected instance; \<open>lb_round_robin\<close> also
  returns the new shared counter.
\<close>

definition airy_random_uint32 :: "u32 \<Rightarrow> u32 \<Rightarrow> u32 \<Rightarrow> u32" where
  "airy_random_uint32 rnd mn mx =
     (let range = (if mn \<le> mx then mx - mn + 1 else 0) in
      if range = 0 then mn else mn + rnd mod range)"

definition lb_round_robin ::
  "u32 \<Rightarrow> sd_service_entry \<Rightarrow> airy_err \<times> sd_instance option \<times> u32" where
  "lb_round_robin rr entry =
     (let xs = instances entry; n = length xs in
      if n = 0 then (AIRY_ENOENT, None, rr)
      else
        let start = unat rr mod n in
        case find (\<lambda>i. healthy (xs ! ((start + i) mod n))) [0..<n] of
          Some i \<Rightarrow> (AIRY_SUCCESS, Some (xs ! ((start + i) mod n)), of_nat ((start + i) mod n + 1))
        | None \<Rightarrow> (AIRY_ENOENT, None, rr))"

definition lb_total_weight :: "sd_instance list \<Rightarrow> u32" where
  "lb_total_weight xs = foldl (\<lambda>a x. if healthy x then a + weight x else a) 0 xs"

text \<open>The loop that adds the weights up until \<open>random_val\<close> is below the sum.\<close>

fun lb_cumulative :: "u32 \<Rightarrow> u32 \<Rightarrow> sd_instance list \<Rightarrow> sd_instance option" where
  "lb_cumulative random_val cumulative [] = None"
| "lb_cumulative random_val cumulative (x # xs) =
     (if \<not> healthy x then lb_cumulative random_val cumulative xs
      else if random_val < cumulative + weight x then Some x
      else lb_cumulative random_val (cumulative + weight x) xs)"

definition lb_weighted :: "u32 \<Rightarrow> sd_service_entry \<Rightarrow> airy_err \<times> sd_instance option" where
  "lb_weighted rnd entry =
     (let total_weight = lb_total_weight (instances entry) in
      if total_weight = 0 then (AIRY_ENOENT, None)
      else
        let random_val = airy_random_uint32 rnd 0 (total_weight - 1) in
        case lb_cumulative random_val 0 (instances entry) of
          Some x \<Rightarrow> (AIRY_SUCCESS, Some x)
        | None \<Rightarrow>
            (case find healthy (instances entry) of
               Some x \<Rightarrow> (AIRY_SUCCESS, Some x)
             | None \<Rightarrow> (AIRY_ENOENT, None)))"

text \<open>The loop the two minimum searches share: \<open>cost\<close> is the compared quantity, \<open>best\<close> the instance
  of \<open>best_idx\<close> (\<open>None\<close> for -1), \<open>lo\<close> the minimum so far.\<close>

fun lb_min_scan ::
  "(sd_instance \<Rightarrow> u32) \<Rightarrow> sd_instance option \<Rightarrow> u32 \<Rightarrow> sd_instance list \<Rightarrow> sd_instance option" where
  "lb_min_scan cost best lo [] = best"
| "lb_min_scan cost best lo (x # xs) =
     (if \<not> healthy x then lb_min_scan cost best lo xs
      else if cost x < lo then lb_min_scan cost (Some x) (cost x) xs
      else lb_min_scan cost best lo xs)"

definition UINT32_MAX :: u32 where "UINT32_MAX = 0xFFFFFFFF"

definition lb_least_connection :: "sd_service_entry \<Rightarrow> airy_err \<times> sd_instance option" where
  "lb_least_connection entry =
     (case lb_min_scan active_connections None UINT32_MAX (instances entry) of
        Some x \<Rightarrow> (AIRY_SUCCESS, Some x) | None \<Rightarrow> (AIRY_ENOENT, None))"

text \<open>The loop of \<open>lb_random\<close> that stops at the healthy instance number \<open>idx\<close>.\<close>

fun lb_nth_healthy :: "u32 \<Rightarrow> u32 \<Rightarrow> sd_instance list \<Rightarrow> sd_instance option" where
  "lb_nth_healthy idx cnt [] = None"
| "lb_nth_healthy idx cnt (x # xs) =
     (if healthy x then if cnt = idx then Some x else lb_nth_healthy idx (cnt + 1) xs
      else lb_nth_healthy idx cnt xs)"

definition lb_random :: "u32 \<Rightarrow> sd_service_entry \<Rightarrow> airy_err \<times> sd_instance option" where
  "lb_random rnd entry =
     (let healthy_count = foldl (\<lambda>a x. if healthy x then a + 1 else a) 0 (instances entry) :: u32 in
      if healthy_count = 0 then (AIRY_ENOENT, None)
      else
        case lb_nth_healthy (airy_random_uint32 rnd 0 (healthy_count - 1)) 0 (instances entry) of
          Some x \<Rightarrow> (AIRY_SUCCESS, Some x) | None \<Rightarrow> (AIRY_ENOENT, None))"

definition lb_load :: "sd_instance \<Rightarrow> u32" where
  "lb_load x = (if 0 < max_connections x then active_connections x * 100 div max_connections x else 0)"

definition lb_least_load :: "sd_service_entry \<Rightarrow> airy_err \<times> sd_instance option" where
  "lb_least_load entry =
     (case lb_min_scan lb_load None UINT32_MAX (instances entry) of
        Some x \<Rightarrow> (AIRY_SUCCESS, Some x) | None \<Rightarrow> (AIRY_ENOENT, None))"

subsection \<open>Round robin\<close>

lemma find_upt_split:
  assumes "find P [0..<n] = Some i"
  shows "i < n \<and> P i \<and> (\<forall>j < i. \<not> P j)"
  using assms by (auto simp: find_Some_iff)

lemma rotate_split:
  assumes i: "i < length xs"
  shows "rotate s xs = map (\<lambda>j. xs ! ((s + j) mod length xs)) [0..<i] @
         xs ! ((s + i) mod length xs) # drop (Suc i) (rotate s xs)"
proof -
  have nth: "rotate s xs ! j = xs ! ((s + j) mod length xs)" if "j < length xs" for j
    using that by (simp add: nth_rotate)
  have "take i (rotate s xs) = map (\<lambda>j. xs ! ((s + j) mod length xs)) [0..<i]"
    using i nth by (auto simp: list_eq_iff_nth_eq)
  then show ?thesis using id_take_nth_drop [of i "rotate s xs"] i nth [of i] by simp
qed

text \<open>One selection takes the head of the healthy instances seen from the counter on, and moves that
  view on by one.\<close>

definition rr_view :: "u32 \<Rightarrow> sd_instance list \<Rightarrow> sd_instance list" where
  "rr_view rr xs = filter healthy (rotate (unat rr) xs)"

lemma round_robin_step:
  assumes h: "\<exists>x \<in> set (instances entry). healthy x" and n: "length (instances entry) < 2 ^ 32"
  obtains x rr' where "lb_round_robin rr entry = (AIRY_SUCCESS, Some x, rr')"
    and "rr_view rr (instances entry) = x # tl (rr_view rr (instances entry))"
    and "rr_view rr' (instances entry) = rotate1 (rr_view rr (instances entry))"
proof -
  define xs where "xs = instances entry"
  define s where "s = unat rr mod length xs"
  define P where "P = (\<lambda>i. healthy (xs ! ((s + i) mod length xs)))"
  from h have ne: "xs \<noteq> []" by (auto simp: xs_def)
  have rot: "rotate (unat rr) xs = rotate s xs" unfolding s_def by (rule rotate_conv_mod)
  have "\<exists>x \<in> set (rotate s xs). healthy x" using h by (simp add: xs_def)
  then obtain j where "j < length (rotate s xs)" "healthy (rotate s xs ! j)"
    unfolding Bex_def in_set_conv_nth by blast
  then have "j < length xs" "P j" by (auto simp: P_def nth_rotate)
  then have "find P [0..<length xs] \<noteq> None" by (auto simp: find_None_iff)
  then obtain i where f: "find P [0..<length xs] = Some i" by auto
  note i = find_upt_split [OF f]
  define k where "k = (s + i) mod length xs"
  have lb: "lb_round_robin rr entry = (AIRY_SUCCESS, Some (xs ! k), of_nat (k + 1))"
    using ne f unfolding lb_round_robin_def Let_def xs_def [symmetric] s_def [symmetric] P_def k_def
    by simp
  let ?us = "map (\<lambda>j. xs ! ((s + j) mod length xs)) [0..<i]"
  let ?vs = "drop (Suc i) (rotate s xs)"
  have split: "rotate s xs = ?us @ xs ! k # ?vs"
    using rotate_split [of i xs s] i by (simp add: k_def)
  have us: "filter healthy ?us = []" using i by (auto simp: P_def)
  have k: "k < length xs" "healthy (xs ! k)" using ne i by (auto simp: k_def P_def)
  have view: "rr_view rr xs = xs ! k # filter healthy ?vs"
    unfolding rr_view_def rot by (subst split) (use us k in simp)
  have "rotate (unat (of_nat (k + 1) :: u32)) xs = rotate (Suc (s + i)) xs"
  proof -
    have "unat (of_nat (k + 1) :: u32) = k + 1"
      using k n by (simp add: xs_def unat_of_nat32 del: of_nat_add of_nat_Suc)
    then show ?thesis
      by (metis Suc_eq_plus1 k_def mod_Suc_eq rotate_conv_mod)
  qed
  also have "\<dots> = rotate (Suc i) (rotate s xs)" by (simp add: rotate_rotate add.commute)
  also have "\<dots> = ?vs @ ?us @ [xs ! k]"
  proof -
    have "rotate (Suc i) ((?us @ [xs ! k]) @ ?vs) = ?vs @ (?us @ [xs ! k])"
      using rotate_append [of "?us @ [xs ! k]" ?vs] by simp
    then show ?thesis by (subst split) simp
  qed
  finally have "rr_view (of_nat (k + 1)) xs = rotate1 (rr_view rr xs)"
    unfolding view by (simp add: rr_view_def us k)
  then show thesis using that lb view by (simp add: xs_def)
qed

text \<open>Selections one after the other with no other use of the counter.\<close>

primrec rr_picks :: "nat \<Rightarrow> u32 \<Rightarrow> sd_service_entry \<Rightarrow> sd_instance option list" where
  "rr_picks 0 rr entry = []"
| "rr_picks (Suc k) rr entry =
     (let (err, x, rr') = lb_round_robin rr entry in x # rr_picks k rr' entry)"

lemma rr_picks_view:
  assumes "\<exists>x \<in> set (instances entry). healthy x" and "length (instances entry) < 2 ^ 32"
  shows "rr_picks k rr entry =
    map (\<lambda>j. Some (rr_view rr (instances entry) ! (j mod length (rr_view rr (instances entry))))) [0..<k]"
proof (induction k arbitrary: rr)
  case (Suc k)
  let ?v = "rr_view rr (instances entry)"
  obtain x rr' where r: "lb_round_robin rr entry = (AIRY_SUCCESS, Some x, rr')"
    and v: "?v = x # tl ?v" and v': "rr_view rr' (instances entry) = rotate1 ?v"
    using round_robin_step [OF assms] by metis
  from v have ne: "?v \<noteq> []" by auto
  have nth: "rotate1 ?v ! (j mod length ?v) = ?v ! (Suc j mod length ?v)" for j
    using ne nth_rotate1 [of "j mod length ?v" ?v] by (simp add: mod_Suc_eq)
  have "rr_picks (Suc k) rr entry =
        Some x # map (\<lambda>j. Some (?v ! (Suc j mod length ?v))) [0..<k]"
    by (simp add: r Suc.IH v' nth)
  also have "Some x = Some (?v ! (0 mod length ?v))" by (metis mod_0 nth_Cons_0 v)
  finally show ?case by (simp add: map_upt_Suc del: upt_Suc)
qed simp

subsection \<open>Weighted choice\<close>

definition weight_sum :: "sd_instance list \<Rightarrow> nat" where
  "weight_sum xs = (\<Sum>x \<leftarrow> filter healthy xs. unat (weight x))"

lemma weight_sum_simps [simp]:
  "weight_sum [] = 0"
  "weight_sum (x # xs) = (if healthy x then unat (weight x) else 0) + weight_sum xs"
  by (simp_all add: weight_sum_def)

lemma total_weight_sum: "lb_total_weight xs = of_nat (weight_sum xs)"
proof -
  have "foldl (\<lambda>a x. if healthy x then a + weight x else a) a xs = a + of_nat (weight_sum xs)" for a
    by (induction xs arbitrary: a) (auto simp: add.assoc)
  then show ?thesis by (simp add: lb_total_weight_def)
qed

lemma of_nat_u32_less:
  "m < 2 ^ 32 \<Longrightarrow> n < 2 ^ 32 \<Longrightarrow> (of_nat m :: u32) < of_nat n \<longleftrightarrow> m < n"
  by (simp add: word_less_nat_alt unat_of_nat32)

lemma cumulative_card:
  assumes "c + weight_sum xs < 2 ^ 32" and "distinct xs"
  shows "card {v \<in> {c..<c + weight_sum xs}. lb_cumulative (of_nat v) (of_nat c) xs = Some x} =
         (if x \<in> set xs \<and> healthy x then unat (weight x) else 0)"
  using assms
proof (induction xs arbitrary: c)
  case (Cons y xs)
  show ?case
  proof (cases "healthy y")
    case False
    then show ?thesis using Cons by auto
  next
    case True
    let ?w = "unat (weight y)"
    let ?B = "{v \<in> {c + ?w..<c + ?w + weight_sum xs}.
                 lb_cumulative (of_nat v) (of_nat (c + ?w)) xs = Some x}"
    have w: "of_nat c + weight y = of_nat (c + ?w)" by simp
    have step: "lb_cumulative (of_nat v) (of_nat c) (y # xs) =
        (if v < c + ?w then Some y else lb_cumulative (of_nat v) (of_nat (c + ?w)) xs)"
      if "v < c + ?w + weight_sum xs" for v
      using that Cons.prems(1) True
      unfolding lb_cumulative.simps w by (simp add: of_nat_u32_less del: of_nat_add)
    have "{v \<in> {c..<c + weight_sum (y # xs)}. lb_cumulative (of_nat v) (of_nat c) (y # xs) = Some x}
          = (if x = y then {c..<c + ?w} else {}) \<union> ?B"
      using True by (auto simp: step simp del: of_nat_add lb_cumulative.simps split: if_splits)
    moreover have "card ?B = (if x \<in> set xs \<and> healthy x then unat (weight x) else 0)"
      using Cons.prems True by (intro Cons.IH) auto
    moreover have "card ((if x = y then {c..<c + ?w} else {}) \<union> ?B) =
        (if x = y then ?w else 0) + card ?B"
      by (subst card_Un_disjoint) auto
    ultimately show ?thesis using Cons.prems(2) True by auto
  qed
qed simp

lemma cumulative_total:
  assumes "c + weight_sum xs < 2 ^ 32" and "c \<le> v" and "v < c + weight_sum xs"
  shows "\<exists>x \<in> set xs. healthy x \<and> lb_cumulative (of_nat v) (of_nat c) xs = Some x"
  using assms
proof (induction xs arbitrary: c)
  case (Cons y xs)
  have w: "of_nat c + weight y = of_nat (c + unat (weight y))" by simp
  have "of_nat v < (of_nat (c + unat (weight y)) :: u32) \<longleftrightarrow> v < c + unat (weight y)" if "healthy y"
    using Cons.prems that by (intro of_nat_u32_less) auto
  then show ?case
    using Cons.prems Cons.IH [of c] Cons.IH [of "c + unat (weight y)"]
    unfolding lb_cumulative.simps w by (simp del: of_nat_add) (auto split: if_splits)
qed simp

lemma random_below:
  assumes "0 < n" and "n < 2 ^ 32" and "v < n"
  shows "airy_random_uint32 (of_nat v) 0 (of_nat n - 1) = of_nat v"
proof -
  have "(of_nat n :: u32) \<noteq> 0" using assms by (metis unat_0 unat_of_nat32 less_irrefl)
  moreover have "of_nat v mod (of_nat n :: u32) = of_nat v"
    using assms by (simp add: word_arith_nat_mod unat_of_nat32)
  ultimately show ?thesis by (simp add: airy_random_uint32_def)
qed

lemma weighted_eq:
  assumes "v < weight_sum (instances entry)" and "weight_sum (instances entry) < 2 ^ 32"
  shows "\<exists>x \<in> set (instances entry). healthy x \<and>
           lb_cumulative (of_nat v) 0 (instances entry) = Some x \<and>
           lb_weighted (of_nat v) entry = (AIRY_SUCCESS, Some x)"
proof -
  let ?n = "weight_sum (instances entry)"
  obtain x where "x \<in> set (instances entry)" "healthy x"
    "lb_cumulative (of_nat v) 0 (instances entry) = Some x"
    using cumulative_total [of 0 "instances entry" v] assms by auto
  moreover have "(of_nat ?n :: u32) \<noteq> 0" using assms by (metis unat_0 unat_of_nat32 not_less0)
  ultimately show ?thesis
    using random_below [of ?n v] assms by (auto simp: lb_weighted_def total_weight_sum)
qed

subsection \<open>Minimum searches and random choice\<close>

lemma min_scan_Some:
  assumes "lb_min_scan cost best lo xs = Some x" and "\<forall>b. best = Some b \<longrightarrow> lo = cost b"
  shows "(best = Some x \<or> x \<in> set xs \<and> healthy x \<and> cost x < lo) \<and>
         (\<forall>y \<in> set xs. healthy y \<longrightarrow> cost x \<le> cost y) \<and> cost x \<le> lo"
  using assms
proof (induction xs arbitrary: best lo)
  case (Cons y xs)
  consider "\<not> healthy y" | "healthy y" "cost y < lo" | "healthy y" "lo \<le> cost y" by fastforce
  then show ?case
  proof cases
    case 1
    then have "lb_min_scan cost best lo xs = Some x" using Cons.prems(1) by simp
    from Cons.IH [OF this Cons.prems(2)] 1 show ?thesis by (simp, blast)
  next
    case 2
    then have "lb_min_scan cost (Some y) (cost y) xs = Some x" using Cons.prems(1) by simp
    then have "(y = x \<or> x \<in> set xs \<and> healthy x \<and> cost x < cost y) \<and>
               (\<forall>y \<in> set xs. healthy y \<longrightarrow> cost x \<le> cost y) \<and> cost x \<le> cost y"
      using Cons.IH by fastforce
    moreover from this 2 have "cost x < lo" by (meson le_less_trans)
    ultimately show ?thesis using 2 by (simp add: less_imp_le, blast)
  next
    case 3
    then have "lb_min_scan cost best lo xs = Some x" using Cons.prems(1) by (simp add: not_less [symmetric])
    from Cons.IH [OF this Cons.prems(2)] 3 have "cost x \<le> cost y" by (meson order.trans)
    with Cons.IH [OF \<open>lb_min_scan cost best lo xs = Some x\<close> Cons.prems(2)] 3
    show ?thesis by (simp, blast)
  qed
qed auto

lemma min_scan_None:
  "lb_min_scan cost best lo xs = None \<longleftrightarrow>
     best = None \<and> (\<forall>y \<in> set xs. healthy y \<longrightarrow> lo \<le> cost y)"
proof (induction xs arbitrary: best lo)
  case (Cons y xs)
  show ?case by (auto simp: Cons.IH not_less [symmetric])
qed simp

lemma nth_healthy:
  assumes "length xs < 2 ^ 32" and "c + length xs < 2 ^ 32" and "i < length (filter healthy xs)"
  shows "lb_nth_healthy (of_nat (c + i)) (of_nat c) xs = Some (filter healthy xs ! i)"
  using assms
proof (induction xs arbitrary: c i)
  case (Cons y xs)
  show ?case
  proof (cases "healthy y")
    case True
    have le: "length (filter healthy xs) \<le> length xs" by simp
    show ?thesis
    proof (cases i)
      case 0 then show ?thesis using True by simp
    next
      case (Suc k)
      have "(of_nat c :: u32) \<noteq> of_nat (c + i)"
        using Cons.prems le Suc True by (metis unat_of_nat32 add_lessD1 less_not_refl
          add_strict_left_mono dual_order.strict_trans filter.simps(2) length_filter_le less_le_trans
          zero_less_Suc add.right_neutral)
      moreover have "lb_nth_healthy (of_nat (Suc c + k)) (of_nat (Suc c)) xs = Some (filter healthy xs ! k)"
        using Cons.prems True Suc by (intro Cons.IH) auto
      ultimately show ?thesis using True Suc by (simp add: add.commute add.left_commute)
    qed
  next
    case False
    then show ?thesis using Cons by simp
  qed
qed simp

lemma healthy_count:
  "foldl (\<lambda>a x. if healthy x then a + 1 else a) 0 xs = (of_nat (length (filter healthy xs)) :: u32)"
proof -
  have "foldl (\<lambda>a x. if healthy x then a + 1 else a) a xs =
        (a + of_nat (length (filter healthy xs)) :: u32)" for a
    by (induction xs arbitrary: a) auto
  then show ?thesis by simp
qed

lemma random_eq:
  assumes "0 < length (filter healthy (instances entry))" and "length (instances entry) < 2 ^ 31"
  shows "lb_random rnd entry = (AIRY_SUCCESS,
    Some (filter healthy (instances entry) ! (unat rnd mod length (filter healthy (instances entry)))))"
proof -
  let ?n = "length (filter healthy (instances entry))"
  let ?i = "unat rnd mod ?n"
  have n: "?n < 2 ^ 32"
    using assms(2) le_less_trans [OF length_filter_le [of healthy "instances entry"]] by simp
  have nz: "(of_nat ?n :: u32) \<noteq> 0" using assms n by (metis unat_0 unat_of_nat32 less_irrefl)
  have "airy_random_uint32 rnd 0 (of_nat ?n - 1) = of_nat ?i"
    using nz n by (simp add: airy_random_uint32_def word_arith_nat_mod unat_of_nat32)
  moreover have "lb_nth_healthy (of_nat (0 + ?i)) (of_nat 0) (instances entry) =
      Some (filter healthy (instances entry) ! ?i)"
    using assms by (intro nth_healthy) auto
  ultimately show ?thesis using nz by (simp add: lb_random_def healthy_count)
qed

subsection \<open>What the strategies guarantee\<close>

text \<open>C15: Round robin is fair. While the entry has a healthy instance and no other selection uses the
  shared counter, \<open>k\<close> selections in a row give the healthy instances in slot order, cyclically, from
  the first healthy slot at or after the counter: every healthy instance once per round, no unhealthy
  instance ever, for any start value of the counter.\<close>

theorem lb_round_robin_fair:
  assumes "\<exists>x \<in> set (instances entry). healthy x" and "length (instances entry) \<le> SD_MAX_INSTANCES"
    and "F = filter healthy (rotate (unat rr) (instances entry))"
  shows "rr_picks k rr entry = map (\<lambda>j. Some (F ! (j mod length F))) [0..<k]"
  using rr_picks_view [of entry k rr] assms by (simp add: rr_view_def SD_MAX_INSTANCES_def)

theorem lb_round_robin_fair_witness:
  "let a = zero_instance\<lparr>instance_id := ''a'', healthy := True\<rparr>;
       b = zero_instance\<lparr>instance_id := ''b''\<rparr>;
       c = zero_instance\<lparr>instance_id := ''c'', healthy := True\<rparr>
   in rr_picks 3 1 (zero_entry\<lparr>instances := [a, b, c]\<rparr>) = [Some c, Some a, Some c]"
proof -
  let ?a = "zero_instance\<lparr>instance_id := ''a'', healthy := True\<rparr>"
  let ?b = "zero_instance\<lparr>instance_id := ''b''\<rparr>"
  let ?c = "zero_instance\<lparr>instance_id := ''c'', healthy := True\<rparr>"
  have "rr_picks 3 1 (zero_entry\<lparr>instances := [?a, ?b, ?c]\<rparr>) =
        map (\<lambda>j. Some ([?c, ?a] ! (j mod length [?c, ?a]))) [0..<3]"
    by (rule lb_round_robin_fair)
      (simp_all add: zero_instance_def SD_MAX_INSTANCES_def)
  then show ?thesis by (simp add: upt_rec)
qed

text \<open>C26: Weighted choice is proportional. When the weights of the healthy instances (pairwise
  different) sum to less than \<open>2^32\<close>, then among the \<open>weight_sum\<close> values the random number takes, exactly
  \<open>weight x\<close> select the healthy instance \<open>x\<close>.\<close>

theorem lb_weighted_proportional:
  assumes "distinct (instances entry)" and "x \<in> set (instances entry)" and "healthy x"
    and "weight_sum (instances entry) < 2 ^ 32"
  shows "card {v. v < weight_sum (instances entry) \<and>
                  lb_weighted (of_nat v) entry = (AIRY_SUCCESS, Some x)} = unat (weight x)"
proof -
  have "{v. v < weight_sum (instances entry) \<and> lb_weighted (of_nat v) entry = (AIRY_SUCCESS, Some x)} =
        {v \<in> {0..<0 + weight_sum (instances entry)}.
           lb_cumulative (of_nat v) (of_nat 0) (instances entry) = Some x}"
    using weighted_eq [OF _ assms(4)] by fastforce
  then show ?thesis using cumulative_card [of 0 "instances entry" x] assms by simp
qed

theorem lb_weighted_proportional_witness:
  "let a = zero_instance\<lparr>instance_id := ''a'', healthy := True, weight := 3\<rparr>;
       b = zero_instance\<lparr>instance_id := ''b'', healthy := True, weight := 1\<rparr>;
       e = zero_entry\<lparr>instances := [a, b]\<rparr>
   in card {v. v < weight_sum (instances e) \<and> lb_weighted (of_nat v) e = (AIRY_SUCCESS, Some a)} = 3"
proof -
  let ?a = "zero_instance\<lparr>instance_id := ''a'', healthy := True, weight := 3\<rparr>"
  let ?b = "zero_instance\<lparr>instance_id := ''b'', healthy := True, weight := 1\<rparr>"
  show ?thesis
    using lb_weighted_proportional [of "zero_entry\<lparr>instances := [?a, ?b]\<rparr>" ?a]
    by (simp add: zero_instance_def Let_def)
qed

lemma load_nat:
  assumes "unat (active_connections y) * 100 < 2 ^ 32"
  shows "unat (lb_load y) = unat (active_connections y) * 100 div unat (max_connections y)"
    and "lb_load y < UINT32_MAX"
proof -
  have p: "unat (active_connections y * 100) = unat (active_connections y) * 100"
    using assms by (subst unat_mult_lem [THEN iffD1]) simp_all
  then show l: "unat (lb_load y) = unat (active_connections y) * 100 div unat (max_connections y)"
    by (auto simp: lb_load_def unat_div word_gt_0)
  have "unat (active_connections y) * 100 div unat (max_connections y) \<le> unat (active_connections y) * 100"
    by (rule div_le_dividend)
  also have "\<dots> < 4294967295" using assms by simp
  finally show "lb_load y < UINT32_MAX"
    unfolding word_less_nat_alt l by (simp add: UINT32_MAX_def)
qed

text \<open>The two minimum strategies. Least connection succeeds exactly when a healthy instance has
  fewer than \<open>UINT32_MAX\<close> connections, and then selects a healthy instance with the fewest. Provided no
  product \<open>Active * 100\<close> leaves the 32 bits, least load succeeds exactly when an instance is healthy, and
  selects one of least load percentage \<open>active * 100 / max\<close> (0 for \<open>max = 0\<close>).\<close>

theorem lb_minimum_choice:
  assumes "\<forall>y \<in> set (instances entry). unat (active_connections y) * 100 < 2 ^ 32"
  shows "(fst (lb_least_connection entry) = AIRY_SUCCESS) =
           (\<exists>y \<in> set (instances entry). healthy y \<and> active_connections y < UINT32_MAX) \<and>
         (lb_least_connection entry = (AIRY_SUCCESS, Some x) \<longrightarrow>
            x \<in> set (instances entry) \<and> healthy x \<and>
            (\<forall>y \<in> set (instances entry). healthy y \<longrightarrow> active_connections x \<le> active_connections y)) \<and>
         (fst (lb_least_load entry) = AIRY_SUCCESS) = (\<exists>y \<in> set (instances entry). healthy y) \<and>
         (lb_least_load entry = (AIRY_SUCCESS, Some x) \<longrightarrow>
            x \<in> set (instances entry) \<and> healthy x \<and>
            (\<forall>y \<in> set (instances entry). healthy y \<longrightarrow>
               unat (active_connections x) * 100 div unat (max_connections x) \<le>
               unat (active_connections y) * 100 div unat (max_connections y)))"
    (is "?A \<and> ?B \<and> ?C \<and> ?D")
proof (intro conjI)
  let ?xs = "instances entry"
  note load = load_nat [OF assms [rule_format]]
  have none: "(fst (case r of Some x \<Rightarrow> (AIRY_SUCCESS, Some x) | None \<Rightarrow> (AIRY_ENOENT, None)) = AIRY_SUCCESS)
      = (r \<noteq> None)" for r :: "sd_instance option"
    by (auto simp: err_codes split: option.split)
  show ?A unfolding lb_least_connection_def none min_scan_None by (auto simp: not_le)
  show ?C unfolding lb_least_load_def none min_scan_None using load(2) by (auto simp: not_le)
  show ?B
    using min_scan_Some [of active_connections None UINT32_MAX ?xs x]
    by (auto simp: lb_least_connection_def split: option.splits)
  have "lb_min_scan lb_load None UINT32_MAX ?xs = Some x \<Longrightarrow>
      x \<in> set ?xs \<and> healthy x \<and> (\<forall>y \<in> set ?xs. healthy y \<longrightarrow> lb_load x \<le> lb_load y)"
    using min_scan_Some [of lb_load None UINT32_MAX ?xs x] by auto
  then show ?D
    by (auto simp: lb_least_load_def word_le_nat_alt load split: option.splits)
qed

theorem lb_minimum_choice_witness:
  "let a = zero_instance\<lparr>instance_id := ''a'', healthy := True, active_connections := 40, max_connections := 80\<rparr>;
       b = zero_instance\<lparr>instance_id := ''b'', healthy := True, active_connections := 50, max_connections := 200\<rparr>;
       e = zero_entry\<lparr>instances := [a, b]\<rparr>
   in fst (lb_least_connection e) = AIRY_SUCCESS \<and> lb_least_connection e = (AIRY_SUCCESS, Some a) \<and>
      fst (lb_least_load e) = AIRY_SUCCESS \<and> lb_least_load e = (AIRY_SUCCESS, Some b)"
proof -
  let ?a = "zero_instance\<lparr>instance_id := ''a'', healthy := True, active_connections := 40, max_connections := 80\<rparr>"
  let ?b = "zero_instance\<lparr>instance_id := ''b'', healthy := True, active_connections := 50, max_connections := 200\<rparr>"
  let ?e = "zero_entry\<lparr>instances := [?a, ?b]\<rparr>"
  have "fst (lb_least_connection ?e) = AIRY_SUCCESS" "fst (lb_least_load ?e) = AIRY_SUCCESS"
    using lb_minimum_choice [of ?e ?a] by (simp_all add: zero_instance_def UINT32_MAX_def)
  then show ?thesis
    by (simp add: lb_least_connection_def lb_least_load_def UINT32_MAX_def lb_load_def zero_instance_def)
qed

end
