(* ===== verification/Service_Discovery.thy ===== *)
theory Service_Discovery
  imports Service_Lb
begin

section \<open>Service discovery: backend interface and operations\<close>

text \<open>
  The backend table \<open>sd_backend_t\<close> (\<open>service_discovery_internal.h\<close>), the shared-memory backend
  (\<open>service_discovery_backend_shm.c\<close>) and the operations of \<open>service_discovery.c\<close>,
  \<open>service_discovery_api.c\<close> and \<open>service_discovery_stats.c\<close>. An operation takes the backend the handle
  points to, the clock reading and a handle that may be NULL; it returns its code, its outputs, the
  handle's new state and the callback calls. An argument \<open>outs\<close> says that the output pointers are not
  NULL. Log lines are left out.
\<close>

record sd_backend =
  be_name :: cstr
  be_init :: "sd_internal \<Rightarrow> airy_err \<times> sd_internal"
  be_deinit :: "sd_internal \<Rightarrow> sd_internal"
  be_register :: "u64 \<Rightarrow> u32 \<Rightarrow> sd_internal \<Rightarrow> cstr \<Rightarrow> cstr \<Rightarrow> sd_instance \<Rightarrow> cstr option \<Rightarrow>
    cstr option \<Rightarrow> airy_err \<times> sd_internal"
  be_deregister :: "u64 \<Rightarrow> sd_internal \<Rightarrow> cstr \<Rightarrow> cstr \<Rightarrow> airy_err \<times> sd_internal"
  be_deregister_all :: "u64 \<Rightarrow> sd_internal \<Rightarrow> cstr \<Rightarrow> airy_err \<times> sd_internal"
  be_lookup :: "sd_internal \<Rightarrow> cstr \<Rightarrow> airy_err \<times> sd_service_entry option"
  be_list :: "sd_internal \<Rightarrow> nat \<Rightarrow> airy_err \<times> sd_service_entry list"
  be_refresh :: "sd_internal \<Rightarrow> cstr option \<Rightarrow> airy_err \<times> sd_internal"
  be_commit :: "sd_internal \<Rightarrow> cstr option \<Rightarrow> airy_err \<times> sd_internal"

subsection \<open>The shared-memory backend\<close>

definition shm_init :: "sd_internal \<Rightarrow> airy_err \<times> sd_internal" where
  "shm_init sd = (AIRY_SUCCESS, sd)"

definition shm_deinit :: "sd_internal \<Rightarrow> sd_internal" where
  "shm_deinit sd = sd"

definition shm_register ::
  "u64 \<Rightarrow> u32 \<Rightarrow> sd_internal \<Rightarrow> cstr \<Rightarrow> cstr \<Rightarrow> sd_instance \<Rightarrow> cstr option \<Rightarrow> cstr option \<Rightarrow>
   airy_err \<times> sd_internal" where
  "shm_register now pid sd name type inst tags deps =
     sd_registry_add_instance now pid sd name type inst tags deps"

definition shm_deregister :: "u64 \<Rightarrow> sd_internal \<Rightarrow> cstr \<Rightarrow> cstr \<Rightarrow> airy_err \<times> sd_internal" where
  "shm_deregister now sd name iid =
     (let (err, removed, sd') = sd_registry_remove_instance now sd name iid in (err, sd'))"

definition shm_deregister_all :: "u64 \<Rightarrow> sd_internal \<Rightarrow> cstr \<Rightarrow> airy_err \<times> sd_internal" where
  "shm_deregister_all now sd name =
     (let svc_idx = find_service_index sd name in
      if svc_idx < 0 then (AIRY_ENOENT, sd)
      else (AIRY_SUCCESS, sd\<lparr>services := (services sd)[nat svc_idx :=
             (services sd ! nat svc_idx)\<lparr>instances := [], last_updated := now\<rparr>]\<rparr>))"

definition shm_lookup :: "sd_internal \<Rightarrow> cstr \<Rightarrow> airy_err \<times> sd_service_entry option" where
  "shm_lookup sd name =
     (let svc_idx = find_service_index sd name in
      if svc_idx < 0 then (AIRY_ENOENT, None) else (AIRY_SUCCESS, Some (services sd ! nat svc_idx)))"

definition shm_list :: "sd_internal \<Rightarrow> nat \<Rightarrow> airy_err \<times> sd_service_entry list" where
  "shm_list sd mx = (AIRY_SUCCESS, take mx (services sd))"

definition shm_refresh :: "sd_internal \<Rightarrow> cstr option \<Rightarrow> airy_err \<times> sd_internal" where
  "shm_refresh sd name = (AIRY_SUCCESS, sd)"

definition shm_commit :: "sd_internal \<Rightarrow> cstr option \<Rightarrow> airy_err \<times> sd_internal" where
  "shm_commit sd name = (AIRY_SUCCESS, sd)"

definition sd_backend_shm :: sd_backend where
  "sd_backend_shm = \<lparr>be_name = ''shm'', be_init = shm_init, be_deinit = shm_deinit,
     be_register = shm_register, be_deregister = shm_deregister,
     be_deregister_all = shm_deregister_all, be_lookup = shm_lookup, be_list = shm_list,
     be_refresh = shm_refresh, be_commit = shm_commit\<rparr>"

text \<open>\<open>env\<close> is the value of \<open>AIRY_SD_BACKEND\<close>, \<open>file_be\<close> the file backend when it is compiled in.\<close>

definition sd_backend_select :: "sd_backend option \<Rightarrow> cstr option \<Rightarrow> sd_backend" where
  "sd_backend_select file_be env =
     (case (file_be, env) of
        (Some be, Some e) \<Rightarrow> if e = ''file'' \<or> e = ''filesystem'' then be else sd_backend_shm
      | _ \<Rightarrow> sd_backend_shm)"

subsection \<open>Life cycle\<close>

definition sd_create_default_config :: sd_config where
  "sd_create_default_config = \<lparr>heartbeat_interval_ms = SD_DEFAULT_HEARTBEAT_MS,
     expire_timeout_ms = SD_DEFAULT_EXPIRE_MS, default_lb_strategy = SD_LB_ROUND_ROBIN,
     enable_auto_expire = True, enable_health_propagation = True,
     shm_name = str_fit 256 SD_SHM_NAME, shm_size = SD_SHM_DEFAULT_SIZE\<rparr>"

definition zero_stats :: sd_stats where
  "zero_stats = \<lparr>registrations = 0, deregistrations = 0, discoveries = 0, heartbeats = 0,
     expirations = 0, lb_selections = 0, active_services = 0, active_instances = 0\<rparr>"

text \<open>\<open>mem\<close> and \<open>mtx\<close> say that the allocation and the mutex initialisation succeed.\<close>

definition sd_create :: "bool \<Rightarrow> bool \<Rightarrow> sd_backend \<Rightarrow> sd_config option \<Rightarrow> sd_internal option" where
  "sd_create mem mtx be config =
     (if \<not> mem then None
      else
        let sd = \<lparr>sd_cfg = (case config of Some c \<Rightarrow> c | None \<Rightarrow> sd_create_default_config),
                  services = [], callbacks = [], sd_st = zero_stats, running = False,
                  rr_counter = 0\<rparr>
        in if \<not> mtx then None
           else
             let (err, sd') = be_init be sd in
             if err \<noteq> AIRY_SUCCESS then None else Some sd')"

definition sd_start :: "sd_internal option \<Rightarrow> airy_err \<times> sd_internal option" where
  "sd_start h = (case h of None \<Rightarrow> (AIRY_EINVAL, None)
     | Some sd \<Rightarrow> if running sd then (AIRY_SUCCESS, Some sd)
                 else (AIRY_SUCCESS, Some (sd\<lparr>running := True\<rparr>)))"

definition sd_stop :: "sd_internal option \<Rightarrow> airy_err \<times> sd_internal option" where
  "sd_stop h = (case h of None \<Rightarrow> (AIRY_EINVAL, None)
     | Some sd \<Rightarrow> (AIRY_SUCCESS, Some (sd\<lparr>running := False\<rparr>)))"

text \<open>The result is the state that is handed to \<open>free\<close>.\<close>

definition sd_destroy :: "sd_backend \<Rightarrow> sd_internal option \<Rightarrow> sd_internal option" where
  "sd_destroy be h =
     (case h of None \<Rightarrow> None
      | Some sd \<Rightarrow> map_option (be_deinit be) (if running sd then snd (sd_stop h) else h))"

definition sd_is_running :: "sd_internal option \<Rightarrow> bool" where
  "sd_is_running h = (case h of None \<Rightarrow> False | Some sd \<Rightarrow> running sd)"

subsection \<open>Expiry sweep\<close>

definition expire_stale_instances ::
  "sd_backend \<Rightarrow> u64 \<Rightarrow> sd_internal \<Rightarrow> sd_internal \<times> sd_call list" where
  "expire_stale_instances be now sd =
     (if \<not> enable_auto_expire (sd_cfg sd) then (sd, [])
      else
        let (es, evs, changed) = expire_services (sd_cfg sd) now (services sd) 0;
            sd1 = sd\<lparr>services := es, sd_st := (sd_st sd)\<lparr>expirations :=
                    expirations (sd_st sd) + of_nat (length evs)\<rparr>\<rparr>;
            sd2 = (if changed then snd (be_commit be sd1 None) else sd1)
        in (sd2, concat (map (sd_notify_event sd) evs)))"

subsection \<open>Registration\<close>

definition sd_register ::
  "sd_backend \<Rightarrow> u64 \<Rightarrow> u32 \<Rightarrow> sd_internal option \<Rightarrow> cstr option \<Rightarrow> cstr option \<Rightarrow> sd_instance option \<Rightarrow>
   cstr option \<Rightarrow> cstr option \<Rightarrow> airy_err \<times> sd_internal option \<times> sd_call list" where
  "sd_register be now pid h service_name stype inst tags deps =
     (case (h, service_name, stype, inst) of
        (Some sd, Some n, Some t, Some x) \<Rightarrow>
          (let (err, sd') = be_register be now pid sd n t x tags deps in
           if err \<noteq> AIRY_SUCCESS then (err, Some sd', [])
           else (AIRY_SUCCESS, Some sd', sd_notify_event sd' (SD_EVENT_REGISTERED, n, x)))
      | _ \<Rightarrow> (AIRY_EINVAL, h, []))"

definition sd_deregister ::
  "sd_backend \<Rightarrow> u64 \<Rightarrow> sd_internal option \<Rightarrow> cstr option \<Rightarrow> cstr option \<Rightarrow>
   airy_err \<times> sd_internal option \<times> sd_call list" where
  "sd_deregister be now h service_name iid =
     (case (h, service_name, iid) of
        (Some sd, Some n, Some i) \<Rightarrow>
          (let svc_idx = find_service_index sd n;
               removed =
                 (if 0 \<le> svc_idx then
                    let entry = services sd ! nat svc_idx; inst_idx = find_instance_index entry i in
                    if 0 \<le> inst_idx then instances entry ! nat inst_idx else zero_instance
                  else zero_instance);
               (err, sd') = be_deregister be now sd n i
           in if err \<noteq> AIRY_SUCCESS then (err, Some sd', [])
              else (AIRY_SUCCESS, Some sd', sd_notify_event sd' (SD_EVENT_DEREGISTERED, n, removed)))
      | _ \<Rightarrow> (AIRY_EINVAL, h, []))"

definition sd_deregister_all ::
  "sd_backend \<Rightarrow> u64 \<Rightarrow> sd_internal option \<Rightarrow> cstr option \<Rightarrow> airy_err \<times> sd_internal option" where
  "sd_deregister_all be now h service_name =
     (case (h, service_name) of
        (Some sd, Some n) \<Rightarrow> (let (err, sd') = be_deregister_all be now sd n in (err, Some sd'))
      | _ \<Rightarrow> (AIRY_EINVAL, h))"

subsection \<open>Discovery\<close>

definition bump_discoveries :: "sd_internal \<Rightarrow> sd_internal" where
  "bump_discoveries sd = sd\<lparr>sd_st := (sd_st sd)\<lparr>discoveries := discoveries (sd_st sd) + 1\<rparr>\<rparr>"

text \<open>\<open>None\<close> in the place of the found items: the outputs are not written.\<close>

definition sd_discover ::
  "sd_backend \<Rightarrow> u64 \<Rightarrow> sd_internal option \<Rightarrow> cstr option \<Rightarrow> bool \<Rightarrow> u32 \<Rightarrow>
   airy_err \<times> sd_instance list option \<times> sd_internal option \<times> sd_call list" where
  "sd_discover be now h service_name outs max_count =
     (case (h, service_name, outs) of
        (Some sd, Some n, True) \<Rightarrow>
          (let sd1 = snd (be_refresh be sd (Some n));
               (sd2, calls) = expire_stale_instances be now sd1;
               svc_idx = find_service_index sd2 n
           in if svc_idx < 0 then (AIRY_ENOENT, Some [], Some sd2, calls)
              else (AIRY_SUCCESS,
                    Some (take (unat max_count)
                      (filter healthy (instances (services sd2 ! nat svc_idx)))),
                    Some (bump_discoveries sd2), calls))
      | _ \<Rightarrow> (AIRY_EINVAL, None, h, []))"

definition sd_discover_by_type ::
  "sd_backend \<Rightarrow> u64 \<Rightarrow> sd_internal option \<Rightarrow> cstr option \<Rightarrow> bool \<Rightarrow> u32 \<Rightarrow>
   airy_err \<times> sd_service_entry list option \<times> sd_internal option \<times> sd_call list" where
  "sd_discover_by_type be now h type outs max_count =
     (case (h, type, outs) of
        (Some sd, Some t, True) \<Rightarrow>
          (let sd1 = snd (be_refresh be sd None);
               (sd2, calls) = expire_stale_instances be now sd1
           in (AIRY_SUCCESS,
               Some (take (unat max_count) (filter (\<lambda>e. service_type e = t) (services sd2))),
               Some (bump_discoveries sd2), calls))
      | _ \<Rightarrow> (AIRY_EINVAL, None, h, []))"

text \<open>The loop over the services for one tag; \<open>acc\<close> are the entries written so far.\<close>

fun tag_scan ::
  "nat \<Rightarrow> cstr \<Rightarrow> sd_service_entry list \<Rightarrow> sd_service_entry list \<Rightarrow> sd_service_entry list" where
  "tag_scan mx token [] acc = acc"
| "tag_scan mx token (e # es) acc =
     (if mx \<le> length acc then acc
      else if strstr (svc_tags e) token \<and> \<not> list_ex (\<lambda>a. svc_name a = svc_name e) acc
      then tag_scan mx token es (acc @ [e])
      else tag_scan mx token es acc)"

fun tag_tokens ::
  "nat \<Rightarrow> sd_service_entry list \<Rightarrow> cstr list \<Rightarrow> sd_service_entry list \<Rightarrow> sd_service_entry list" where
  "tag_tokens mx es [] acc = acc"
| "tag_tokens mx es (t # ts) acc =
     (if mx \<le> length acc then acc else tag_tokens mx es ts (tag_scan mx (skip_spaces t) es acc))"

definition sd_discover_by_tags ::
  "sd_backend \<Rightarrow> u64 \<Rightarrow> sd_internal option \<Rightarrow> cstr option \<Rightarrow> bool \<Rightarrow> u32 \<Rightarrow>
   airy_err \<times> sd_service_entry list option \<times> sd_internal option \<times> sd_call list" where
  "sd_discover_by_tags be now h tags outs max_count =
     (case (h, tags, outs) of
        (Some sd, Some ts, True) \<Rightarrow>
          (let sd1 = snd (be_refresh be sd None);
               (sd2, calls) = expire_stale_instances be now sd1;
               tokens = strtok_all (\<lambda>c. c = CHR '','') (str_fit SD_MAX_TAGS_LEN ts)
           in (AIRY_SUCCESS, Some (tag_tokens (unat max_count) (services sd2) tokens []),
               Some (bump_discoveries sd2), calls))
      | _ \<Rightarrow> (AIRY_EINVAL, None, h, []))"

definition sd_apply_strategy ::
  "u32 \<Rightarrow> sd_internal \<Rightarrow> sd_lb_strategy \<Rightarrow> sd_service_entry \<Rightarrow>
   airy_err \<times> sd_instance option \<times> sd_internal" where
  "sd_apply_strategy rnd sd strategy entry =
     (case strategy of
        SD_LB_ROUND_ROBIN \<Rightarrow>
          (let (err, x, rr) = lb_round_robin (rr_counter sd) entry in (err, x, sd\<lparr>rr_counter := rr\<rparr>))
      | SD_LB_WEIGHTED \<Rightarrow> (let (err, x) = lb_weighted rnd entry in (err, x, sd))
      | SD_LB_LEAST_CONNECTION \<Rightarrow> (let (err, x) = lb_least_connection entry in (err, x, sd))
      | SD_LB_RANDOM \<Rightarrow> (let (err, x) = lb_random rnd entry in (err, x, sd))
      | SD_LB_LEAST_LOAD \<Rightarrow> (let (err, x) = lb_least_load entry in (err, x, sd))
      | SD_LB_OTHER \<Rightarrow>
          (let (err, x, rr) = lb_round_robin (rr_counter sd) entry in (err, x, sd\<lparr>rr_counter := rr\<rparr>)))"

definition sd_select_instance ::
  "sd_backend \<Rightarrow> u64 \<Rightarrow> u32 \<Rightarrow> sd_internal option \<Rightarrow> cstr option \<Rightarrow> sd_lb_strategy \<Rightarrow> bool \<Rightarrow>
   airy_err \<times> sd_instance option \<times> sd_internal option \<times> sd_call list" where
  "sd_select_instance be now rnd h service_name strategy outs =
     (case (h, service_name, outs) of
        (Some sd, Some n, True) \<Rightarrow>
          (let sd1 = snd (be_refresh be sd (Some n));
               (sd2, calls) = expire_stale_instances be now sd1;
               svc_idx = find_service_index sd2 n
           in if svc_idx < 0 then (AIRY_ENOENT, None, Some sd2, calls)
              else
                let (err, x, sd3) = sd_apply_strategy rnd sd2 strategy (services sd2 ! nat svc_idx);
                    sd4 = (if err = AIRY_SUCCESS
                           then sd3\<lparr>sd_st := (sd_st sd3)\<lparr>lb_selections := lb_selections (sd_st sd3) + 1\<rparr>\<rparr>
                           else sd3)
                in (err, x, Some sd4, calls))
      | _ \<Rightarrow> (AIRY_EINVAL, None, h, []))"

subsection \<open>Updates of one instance\<close>

text \<open>\<open>sd_lock_ref\<close>: the refreshed state with the slots of the service and of the instance.\<close>

definition sd_lock_ref ::
  "sd_backend \<Rightarrow> sd_internal option \<Rightarrow> cstr option \<Rightarrow> cstr option \<Rightarrow>
   airy_err \<times> sd_internal option \<times> nat \<times> nat" where
  "sd_lock_ref be h service_name iid =
     (case (h, service_name, iid) of
        (Some sd, Some n, Some i) \<Rightarrow>
          (let sd1 = snd (be_refresh be sd (Some n)); svc_idx = find_service_index sd1 n in
           if svc_idx < 0 then (AIRY_ENOENT, Some sd1, 0, 0)
           else
             let inst_idx = find_instance_index (services sd1 ! nat svc_idx) i in
             if inst_idx < 0 then (AIRY_ENOENT, Some sd1, 0, 0)
             else (AIRY_SUCCESS, Some sd1, nat svc_idx, nat inst_idx))
      | _ \<Rightarrow> (AIRY_EINVAL, h, 0, 0))"

definition upd_instance :: "nat \<Rightarrow> nat \<Rightarrow> (sd_instance \<Rightarrow> sd_instance) \<Rightarrow> sd_internal \<Rightarrow> sd_internal" where
  "upd_instance s i f sd =
     (let e = services sd ! s in
      sd\<lparr>services := (services sd)[s := e\<lparr>instances := (instances e)[i := f (instances e ! i)]\<rparr>]\<rparr>)"

definition sd_heartbeat ::
  "sd_backend \<Rightarrow> u64 \<Rightarrow> sd_internal option \<Rightarrow> cstr option \<Rightarrow> cstr option \<Rightarrow>
   airy_err \<times> sd_internal option" where
  "sd_heartbeat be now h service_name iid =
     (case sd_lock_ref be h service_name iid of
        (err, Some sd, s, i) \<Rightarrow>
          if err \<noteq> AIRY_SUCCESS then (err, Some sd)
          else
            let sd1 = upd_instance s i (\<lambda>x. x\<lparr>last_heartbeat := now\<rparr>) sd;
                sd2 = sd1\<lparr>sd_st := (sd_st sd1)\<lparr>heartbeats := heartbeats (sd_st sd1) + 1\<rparr>\<rparr>
            in (AIRY_SUCCESS, Some (snd (be_commit be sd2 service_name)))
      | (err, None, s, i) \<Rightarrow> (err, None))"

definition sd_update_health ::
  "sd_backend \<Rightarrow> u64 \<Rightarrow> sd_internal option \<Rightarrow> cstr option \<Rightarrow> cstr option \<Rightarrow> bool \<Rightarrow>
   airy_err \<times> sd_internal option \<times> sd_call list" where
  "sd_update_health be now h service_name iid hlt =
     (case sd_lock_ref be h service_name iid of
        (err, Some sd, s, i) \<Rightarrow>
          if err \<noteq> AIRY_SUCCESS then (err, Some sd, [])
          else
            let was_healthy = healthy (instances (services sd ! s) ! i);
                sd1 = upd_instance s i (\<lambda>x. x\<lparr>healthy := hlt, last_heartbeat := now\<rparr>) sd;
                sd2 = sd1\<lparr>services := (services sd1)[s := (services sd1 ! s)\<lparr>last_updated := now\<rparr>]\<rparr>;
                snapshot = instances (services sd2 ! s) ! i;
                sd3 = snd (be_commit be sd2 service_name)
            in (AIRY_SUCCESS, Some sd3,
                if was_healthy \<noteq> hlt
                then sd_notify_event sd3 (if hlt then SD_EVENT_INSTANCE_UP else SD_EVENT_INSTANCE_DOWN,
                       the service_name, snapshot)
                else [])
      | (err, None, s, i) \<Rightarrow> (err, None, []))"

definition sd_update_connections ::
  "sd_backend \<Rightarrow> sd_internal option \<Rightarrow> cstr option \<Rightarrow> cstr option \<Rightarrow> u32 \<Rightarrow>
   airy_err \<times> sd_internal option" where
  "sd_update_connections be h service_name iid conns =
     (case sd_lock_ref be h service_name iid of
        (err, Some sd, s, i) \<Rightarrow>
          if err \<noteq> AIRY_SUCCESS then (err, Some sd)
          else
            (AIRY_SUCCESS, Some (snd (be_commit be
               (upd_instance s i (\<lambda>x. x\<lparr>active_connections := conns\<rparr>) sd) service_name)))
      | (err, None, s, i) \<Rightarrow> (err, None))"

subsection \<open>Dependencies\<close>

text \<open>\<open>max_len\<close> passes through a cast to \<open>uint32_t\<close>; \<open>None\<close> in the place of the copied string: the
  destination is not written (\<open>safe_strcpy\<close> refuses size 0).\<close>

definition copy_out :: "u64 \<Rightarrow> cstr \<Rightarrow> cstr option" where
  "copy_out max_len s =
     (let n = unat (ucast max_len :: u32) in if n = 0 then None else Some (str_fit n s))"

definition sd_get_dependencies ::
  "sd_backend \<Rightarrow> sd_internal option \<Rightarrow> cstr option \<Rightarrow> bool \<Rightarrow> u64 \<Rightarrow>
   airy_err \<times> cstr option \<times> sd_internal option" where
  "sd_get_dependencies be h service_name outs max_len =
     (case (h, service_name, outs) of
        (Some sd, Some n, True) \<Rightarrow>
          (let sd1 = snd (be_refresh be sd (Some n)); svc_idx = find_service_index sd1 n in
           if svc_idx < 0 then (AIRY_ENOENT, None, Some sd1)
           else (AIRY_SUCCESS, copy_out max_len (svc_dependencies (services sd1 ! nat svc_idx)), Some sd1))
      | _ \<Rightarrow> (AIRY_EINVAL, None, h))"

definition dep_available :: "sd_internal \<Rightarrow> cstr \<Rightarrow> bool" where
  "dep_available sd token =
     (let dep_idx = find_service_index sd token in
      if 0 \<le> dep_idx then list_ex healthy (instances (services sd ! nat dep_idx)) else False)"

text \<open>The loop over the tokens; \<open>missing\<close> is the buffer of \<open>SD_MAX_DEPS_LEN\<close> bytes, \<open>len\<close> the counter
  \<open>missing_len\<close>.\<close>

fun dep_scan :: "sd_internal \<Rightarrow> cstr list \<Rightarrow> cstr \<Rightarrow> nat \<Rightarrow> cstr \<times> nat" where
  "dep_scan sd [] missing len = (missing, len)"
| "dep_scan sd (t # ts) missing len =
     (let token = skip_spaces t in
      if dep_available sd token then dep_scan sd ts missing len
      else if len + length token + 2 < SD_MAX_DEPS_LEN then
        let missing1 = (if 0 < len then str_fit SD_MAX_DEPS_LEN (missing @ '','') else missing);
            len1 = (if 0 < len then len + 1 else len)
        in dep_scan sd ts (str_fit SD_MAX_DEPS_LEN (missing1 @ token)) (len1 + length token)
      else dep_scan sd ts missing len)"

definition sd_check_dependencies ::
  "sd_backend \<Rightarrow> sd_internal option \<Rightarrow> cstr option \<Rightarrow> bool \<Rightarrow> u64 \<Rightarrow>
   airy_err \<times> cstr option \<times> sd_internal option" where
  "sd_check_dependencies be h service_name outs max_len =
     (case (h, service_name) of
        (Some sd, Some n) \<Rightarrow>
          (let sd1 = snd (be_refresh be sd None); svc_idx = find_service_index sd1 n in
           if svc_idx < 0 then (AIRY_ENOENT, None, Some sd1)
           else
             let deps_copy = str_fit SD_MAX_DEPS_LEN (svc_dependencies (services sd1 ! nat svc_idx));
                 (missing, missing_len) = dep_scan sd1 (strtok_all (\<lambda>c. c = CHR '','') deps_copy) [] 0
             in (if 0 < missing_len then AIRY_ERR_SVC_DEPENDENCY else AIRY_SUCCESS,
                 if outs \<and> 0 < max_len then copy_out max_len missing else None, Some sd1))
      | _ \<Rightarrow> (AIRY_EINVAL, None, h))"

subsection \<open>Callbacks and statistics\<close>

definition sd_register_event_callback ::
  "sd_internal option \<Rightarrow> nat option \<Rightarrow> nat \<Rightarrow> airy_err \<times> sd_internal option" where
  "sd_register_event_callback h cb user_data =
     (case (h, cb) of
        (Some sd, Some c) \<Rightarrow>
          if SD_MAX_CALLBACKS \<le> length (callbacks sd) then (AIRY_ENOMEM, Some sd)
          else (AIRY_SUCCESS, Some (sd\<lparr>callbacks := callbacks sd @ [(c, user_data)]\<rparr>))
      | _ \<Rightarrow> (AIRY_EINVAL, h))"

definition current_stats :: "sd_internal \<Rightarrow> sd_stats" where
  "current_stats sd = (sd_st sd)\<lparr>active_services := of_nat (length (services sd)),
     active_instances := count_instances (services sd)\<rparr>"

definition sd_get_stats ::
  "sd_backend \<Rightarrow> sd_internal option \<Rightarrow> bool \<Rightarrow> airy_err \<times> sd_stats option \<times> sd_internal option" where
  "sd_get_stats be h outs =
     (case (h, outs) of
        (Some sd, True) \<Rightarrow>
          (let sd1 = snd (be_refresh be sd None) in (AIRY_SUCCESS, Some (current_stats sd1), Some sd1))
      | _ \<Rightarrow> (AIRY_EINVAL, None, h))"

definition sd_service_count :: "sd_backend \<Rightarrow> sd_internal option \<Rightarrow> u32 \<times> sd_internal option" where
  "sd_service_count be h =
     (case h of None \<Rightarrow> (0, None)
      | Some sd \<Rightarrow>
          (let sd1 = snd (be_refresh be sd None) in (of_nat (length (services sd1)), Some sd1)))"

fun sd_lb_strategy_to_string :: "sd_lb_strategy \<Rightarrow> cstr" where
  "sd_lb_strategy_to_string SD_LB_ROUND_ROBIN = ''ROUND_ROBIN''"
| "sd_lb_strategy_to_string SD_LB_WEIGHTED = ''WEIGHTED''"
| "sd_lb_strategy_to_string SD_LB_LEAST_CONNECTION = ''LEAST_CONNECTION''"
| "sd_lb_strategy_to_string SD_LB_RANDOM = ''RANDOM''"
| "sd_lb_strategy_to_string SD_LB_LEAST_LOAD = ''LEAST_LOAD''"
| "sd_lb_strategy_to_string SD_LB_OTHER = ''UNKNOWN''"

text \<open>The values of the summary line: statistics, healthy instances and the running flag.\<close>

definition sd_dump_stats ::
  "sd_backend \<Rightarrow> sd_internal option \<Rightarrow> (sd_stats \<times> u32 \<times> bool) option \<times> sd_internal option" where
  "sd_dump_stats be h =
     (case h of None \<Rightarrow> (None, None)
      | Some sd \<Rightarrow>
          (let sd1 = snd (be_refresh be sd None);
               healthy_instances = foldl (\<lambda>a e. foldl (\<lambda>b x. if healthy x then b + 1 else b) a (instances e))
                                     0 (services sd1)
           in (Some (current_stats sd1, healthy_instances, running sd1), Some sd1)))"

end
