(* ===== verification/Registry_Facts.thy ===== *)
theory Registry_Facts
  imports Service_Registry
begin

section \<open>Service discovery: the registry as a map\<close>

text \<open>
  What the core operations of \<open>Service_Registry\<close> do to the registry read as a map from service name and
  instance id to the instance: the well-formedness invariant (capacities, distinct names, distinct ids
  per service), registration as an update, removal as a deletion, the sweep as a restriction to the
  instances that are alive.
\<close>

definition entry_of :: "sd_internal \<Rightarrow> cstr \<Rightarrow> sd_service_entry option" where
  "entry_of sd n = find (\<lambda>e. svc_name e = n) (services sd)"

definition inst_of :: "sd_service_entry \<Rightarrow> cstr \<Rightarrow> sd_instance option" where
  "inst_of e i = find (\<lambda>x. instance_id x = i) (instances e)"

definition reg :: "sd_internal \<Rightarrow> cstr \<Rightarrow> cstr \<Rightarrow> sd_instance option" where
  "reg sd n i = (case entry_of sd n of Some e \<Rightarrow> inst_of e i | None \<Rightarrow> None)"

definition entry_ok :: "sd_service_entry \<Rightarrow> bool" where
  "entry_ok e = (length (instances e) \<le> SD_MAX_INSTANCES \<and> distinct (map instance_id (instances e)))"

definition sd_inv :: "sd_internal \<Rightarrow> bool" where
  "sd_inv sd = (length (services sd) \<le> SD_MAX_SERVICES \<and> distinct (map svc_name (services sd)) \<and>
                list_all entry_ok (services sd))"

lemma sd_inv_cong: "services sd' = services sd \<Longrightarrow> sd_inv sd' = sd_inv sd"
  by (simp add: sd_inv_def)

lemma reg_cong: "services sd' = services sd \<Longrightarrow> reg sd' = reg sd"
  by (simp add: reg_def entry_of_def fun_eq_iff)

subsection \<open>Searches\<close>

lemma service_index_cases:
  obtains (missing) "find_service_index sd n < 0" "entry_of sd n = None"
        | (found) k where "find_service_index sd n = int k" "k < length (services sd)"
            "svc_name (services sd ! k) = n" "entry_of sd n = Some (services sd ! k)"
proof (cases "first_index (\<lambda>e. svc_name e = n) (services sd)")
  case None
  then show thesis
    by (intro missing) (simp_all add: find_service_index_def entry_of_def find_first_index err_codes)
next
  case (Some k)
  then show thesis using first_index_Some [OF Some]
    by (intro found [of k]) (simp_all add: find_service_index_def entry_of_def find_first_index)
qed

lemma instance_index_cases:
  obtains (missing) "find_instance_index e i < 0" "inst_of e i = None"
        | (found) k where "find_instance_index e i = int k" "k < length (instances e)"
            "instance_id (instances e ! k) = i" "inst_of e i = Some (instances e ! k)"
proof (cases "first_index (\<lambda>x. instance_id x = i) (instances e)")
  case None
  then show thesis
    by (intro missing) (simp_all add: find_instance_index_def inst_of_def find_first_index err_codes)
next
  case (Some k)
  then show thesis using first_index_Some [OF Some]
    by (intro found [of k]) (simp_all add: find_instance_index_def inst_of_def find_first_index)
qed

lemma entry_of_set: "entry_of sd n = Some e \<Longrightarrow> e \<in> set (services sd) \<and> svc_name e = n"
  by (auto simp: entry_of_def find_Some_iff)

lemma inst_of_set: "inst_of e i = Some x \<Longrightarrow> x \<in> set (instances e) \<and> instance_id x = i"
  by (auto simp: inst_of_def find_Some_iff)

subsection \<open>Replacing one entry\<close>

lemma replace_entry:
  assumes inv: "sd_inv sd" and k: "k < length (services sd)" and e: "svc_name e = svc_name (services sd ! k)"
    and ok: "entry_ok e" and es: "services sd' = (services sd)[k := e]"
  shows "sd_inv sd'" and "entry_of sd' n = (if n = svc_name e then Some e else entry_of sd n)"
proof -
  from inv have d: "distinct (map svc_name (services sd))" by (simp add: sd_inv_def)
  show "sd_inv sd'"
    using inv ok distinct_map_update [OF d k e] set_update_subset_insert [of "services sd" k e]
    by (auto simp: sd_inv_def es list_all_iff)
  show "entry_of sd' n = (if n = svc_name e then Some e else entry_of sd n)"
    using find_key_update [OF d k e] by (simp add: entry_of_def es)
qed

lemma entry_of_ok: "sd_inv sd \<Longrightarrow> entry_of sd n = Some e \<Longrightarrow> entry_ok e"
  by (auto simp: sd_inv_def list_all_iff dest: entry_of_set)

subsection \<open>Removal\<close>

lemma remove_instance:
  assumes inv: "sd_inv sd"
    and r: "sd_registry_remove_instance now sd n i = (err, removed, sd')"
  shows "sd_inv sd'"
    and "err = (if reg sd n i = None then AIRY_ENOENT else AIRY_SUCCESS)"
    and "removed = reg sd n i"
    and "reg sd' m j = (if m = n \<and> j = i then None else reg sd m j)"
proof -
  have "sd_inv sd' \<and> err = (if reg sd n i = None then AIRY_ENOENT else AIRY_SUCCESS) \<and>
        removed = reg sd n i \<and> reg sd' m j = (if m = n \<and> j = i then None else reg sd m j)"
  proof (cases rule: service_index_cases [of sd n])
    case missing
    then show ?thesis using r inv by (auto simp: sd_registry_remove_instance_def reg_def)
  next
    case (found k)
    let ?e = "services sd ! k"
    have ok: "entry_ok ?e" using entry_of_ok [OF inv found(4)] .
    show ?thesis
    proof (cases rule: instance_index_cases [of ?e i])
      case missing
      then show ?thesis using r inv found by (auto simp: sd_registry_remove_instance_def reg_def)
    next
      case inst: (found q)
      let ?e' = "?e\<lparr>instances := drop_slot q (instances ?e), last_updated := now\<rparr>"
      have sd': "services sd' = (services sd)[k := ?e']" "err = AIRY_SUCCESS"
        "removed = Some (instances ?e ! q)"
        using r found inst by (auto simp: sd_registry_remove_instance_def Let_def)
      have d: "distinct (map instance_id (instances ?e))" using ok by (simp add: entry_ok_def)
      note facts = drop_slot_facts [OF d inst(2)]
      have ok': "entry_ok ?e'" using ok facts(1) by (auto simp: entry_ok_def)
      have "inst_of ?e' j = (if j = i then None else inst_of ?e j)"
        using facts(2) [of j] inst(3) by (simp add: inst_of_def)
      then show ?thesis
        using replace_entry [OF inv found(2) _ ok' sd'(1)] found inst sd'
        by (auto simp: reg_def)
    qed
  qed
  then show "sd_inv sd'" "err = (if reg sd n i = None then AIRY_ENOENT else AIRY_SUCCESS)"
    "removed = reg sd n i" "reg sd' m j = (if m = n \<and> j = i then None else reg sd m j)" by blast+
qed

subsection \<open>Registration\<close>

text \<open>The instance as the registry stores it, and the capacity test.\<close>

definition stamp :: "u64 \<Rightarrow> u32 \<Rightarrow> sd_instance option \<Rightarrow> sd_instance \<Rightarrow> sd_instance" where
  "stamp now pid old x =
     (if old = None then x\<lparr>last_heartbeat := now, register_time := now, inst_pid := pid\<rparr>
      else x\<lparr>last_heartbeat := now,
             register_time := (if 0 < register_time x then register_time x else now)\<rparr>)"

definition sd_room :: "sd_internal \<Rightarrow> cstr \<Rightarrow> cstr \<Rightarrow> bool" where
  "sd_room sd n i =
     (case entry_of sd n of
        None \<Rightarrow> length (services sd) < SD_MAX_SERVICES
      | Some e \<Rightarrow> inst_of e i \<noteq> None \<or> length (instances e) < SD_MAX_INSTANCES)"

lemma put_instance:
  assumes ok: "entry_ok e"
  shows "case sd_put_instance now pid x e of
      None \<Rightarrow> inst_of e (instance_id x) = None \<and> SD_MAX_INSTANCES \<le> length (instances e)
    | Some ys \<Rightarrow> (inst_of e (instance_id x) \<noteq> None \<or> length (instances e) < SD_MAX_INSTANCES) \<and>
        entry_ok (e\<lparr>instances := ys, last_updated := now\<rparr>) \<and>
        inst_of (e\<lparr>instances := ys, last_updated := now\<rparr>) j =
          (if j = instance_id x then Some (stamp now pid (inst_of e (instance_id x)) x) else inst_of e j)"
proof (cases rule: instance_index_cases [of e "instance_id x"])
  case missing
  then have "instance_id x \<notin> instance_id ` set (instances e)"
    by (auto simp: inst_of_def find_None_iff)
  moreover have "find (\<lambda>y. instance_id y = j) (instances e @ [stamp now pid None x]) =
      (if j = instance_id x then Some (stamp now pid None x) else inst_of e j)"
    using missing by (auto simp: find_app inst_of_def stamp_def split: option.split)
  moreover have "stamp now pid None x = x\<lparr>last_heartbeat := now, register_time := now, inst_pid := pid\<rparr>"
    by (simp add: stamp_def)
  ultimately show ?thesis
    using missing ok by (auto simp: sd_put_instance_def Let_def entry_ok_def inst_of_def)
next
  case (found k)
  from ok have d: "distinct (map instance_id (instances e))" by (simp add: entry_ok_def)
  let ?y = "stamp now pid (inst_of e (instance_id x)) x"
  have id: "instance_id ?y = instance_id (instances e ! k)" using found by (simp add: stamp_def)
  have "sd_put_instance now pid x e = Some ((instances e)[k := ?y])"
    using found by (simp add: sd_put_instance_def Let_def stamp_def)
  then show ?thesis
    using found ok distinct_map_update [OF d found(2) id] find_key_update [OF d found(2) id, of j] id
    by (simp add: entry_ok_def inst_of_def)
qed

lemma entry_slot:
  assumes inv: "sd_inv sd" and len: "length n < SD_MAX_NAME_LEN"
  shows "case sd_entry_slot now sd n t tags deps of
      None \<Rightarrow> entry_of sd n = None \<and> SD_MAX_SERVICES \<le> length (services sd)
    | Some (k, sd1) \<Rightarrow> sd_inv sd1 \<and> k < length (services sd1) \<and> svc_name (services sd1 ! k) = n \<and>
        entry_of sd1 n = Some (services sd1 ! k) \<and>
        (entry_of sd n = None \<longrightarrow>
           length (services sd) < SD_MAX_SERVICES \<and> instances (services sd1 ! k) = []) \<and>
        (entry_of sd n \<noteq> None \<longrightarrow> sd1 = sd) \<and> reg sd1 m = reg sd m"
proof (cases rule: service_index_cases [of sd n])
  case missing
  then have new: "n \<notin> svc_name ` set (services sd)" by (auto simp: entry_of_def find_None_iff)
  show ?thesis
    using missing new inv len
    by (auto simp: sd_entry_slot_def Let_def str_fit_id zero_entry_def sd_inv_def entry_ok_def
        entry_of_def reg_def inst_of_def find_app fun_eq_iff split: option.split)
next
  case (found k)
  then show ?thesis using inv by (simp add: sd_entry_slot_def)
qed

lemma add_instance:
  assumes inv: "sd_inv sd" and len: "length n < SD_MAX_NAME_LEN"
    and r: "sd_registry_add_instance now pid sd n t x tags deps = (err, sd')"
  shows "sd_inv sd'"
    and "err = (if sd_room sd n (instance_id x) then AIRY_SUCCESS else AIRY_ENOMEM)"
    and "reg sd' m j = (if err = AIRY_SUCCESS \<and> m = n \<and> j = instance_id x
                        then Some (stamp now pid (reg sd n (instance_id x)) x) else reg sd m j)"
proof -
  let ?i = "instance_id x"
  have "sd_inv sd' \<and> err = (if sd_room sd n ?i then AIRY_SUCCESS else AIRY_ENOMEM) \<and>
        reg sd' m j = (if err = AIRY_SUCCESS \<and> m = n \<and> j = ?i
                        then Some (stamp now pid (reg sd n ?i) x) else reg sd m j)"
  proof (cases "sd_entry_slot now sd n t tags deps")
    case None
    then show ?thesis
      using r inv entry_slot [OF inv len, where now = now and t = t and tags = tags and deps = deps and m = m]
      by (auto simp: sd_registry_add_instance_def sd_room_def err_codes)
  next
    case (Some p)
    then obtain k sd1 where slot: "sd_entry_slot now sd n t tags deps = Some (k, sd1)" by (cases p) auto
    let ?e = "services sd1 ! k"
    note s = entry_slot [OF inv len, where now = now and t = t and tags = tags and deps = deps, unfolded slot option.case prod.case]
    have inv1: "sd_inv sd1" and k: "k < length (services sd1)" and nm: "svc_name ?e = n"
      and e: "entry_of sd1 n = Some ?e" and same: "reg sd1 m = reg sd m" for m
      using s by blast+
    have ok: "entry_ok ?e" using entry_of_ok [OF inv1 e] .
    have old: "inst_of ?e ?i = reg sd n ?i" using same [of n] e by (simp add: reg_def fun_eq_iff)
    have room: "sd_room sd n ?i = (inst_of ?e ?i \<noteq> None \<or> length (instances ?e) < SD_MAX_INSTANCES)"
      using s [of n] e by (cases "entry_of sd n") (auto simp: sd_room_def sd_limits)
    show ?thesis
    proof (cases "sd_put_instance now pid x ?e")
      case None
      then have "err = AIRY_ENOMEM \<and> sd' = sd1"
        using r by (auto simp: sd_registry_add_instance_def slot)
      then show ?thesis
        using inv1 same [of m] room put_instance [OF ok, where now = now and pid = pid and x = x and j = j] None by (auto simp: err_codes)
    next
      case (Some ys)
      let ?e' = "?e\<lparr>instances := ys, last_updated := now\<rparr>"
      have sd': "services sd' = (services sd1)[k := ?e']" "err = AIRY_SUCCESS"
        using r Some by (auto simp: sd_registry_add_instance_def slot Let_def)
      note put = put_instance [OF ok, where now = now and pid = pid and x = x and j = j, unfolded Some option.case]
      note rep = replace_entry [OF inv1 k _ _ sd'(1)]
      have "reg sd' m j = (if m = n then inst_of ?e' j else reg sd m j)"
        using rep(2) [of m] put nm same [of m] by (auto simp: reg_def fun_eq_iff)
      moreover have "inst_of ?e j = reg sd n j" using same [of n] e by (simp add: reg_def fun_eq_iff)
      ultimately show ?thesis using rep(1) put room sd'(2) old nm by auto
    qed
  qed
  then show "sd_inv sd'" "err = (if sd_room sd n ?i then AIRY_SUCCESS else AIRY_ENOMEM)"
    "reg sd' m j = (if err = AIRY_SUCCESS \<and> m = n \<and> j = ?i
                    then Some (stamp now pid (reg sd n ?i) x) else reg sd m j)" by blast+
qed

subsection \<open>Expiry\<close>

lemma expire_instances_mset:
  assumes "\<forall>p < j. p < length xs \<longrightarrow> \<not> dead (xs ! p)" and "expire_instances dead xs j = (ys, gone)"
  shows "mset ys = filter_mset (\<lambda>x. \<not> dead x) (mset xs) \<and> mset gone = filter_mset dead (mset xs)"
  using assms
proof (induction dead xs j arbitrary: ys gone rule: expire_instances.induct)
  case (1 dead xs j)
  consider "j < length xs" "dead (xs ! j)" | "j < length xs" "\<not> dead (xs ! j)" | "length xs \<le> j"
    by linarith
  then show ?case
  proof cases
    case 1
    obtain ys' gone' where r: "expire_instances dead (drop_slot j xs) j = (ys', gone')" by fastforce
    have eq: "ys = ys'" "gone = xs ! j # gone'"
      using "1.prems"(2) 1 r by (simp_all add: expire_instances.simps [of dead xs j])
    have "drop_slot j xs ! p = xs ! p" if "p < j" "p < length (drop_slot j xs)" for p
      using that take_drop_slot [OF 1(1)] by (metis nth_take)
    then have "\<forall>p < j. p < length (drop_slot j xs) \<longrightarrow> \<not> dead (drop_slot j xs ! p)"
      using "1.prems"(1) 1(1) by auto
    from "1.IH"(1) [OF 1 this r] show ?thesis
      using 1 by (simp add: eq flip: mset_drop_slot [OF 1(1)])
  next
    case 2
    then have "\<forall>p < j + 1. p < length xs \<longrightarrow> \<not> dead (xs ! p)"
      using "1.prems"(1) by (simp add: less_Suc_eq)
    from "1.IH"(2) [OF 2 this] show ?thesis
      using "1.prems"(2) 2 by (simp add: expire_instances.simps [of dead xs j])
  next
    case 3
    then have "ys = xs" "gone = []"
      using "1.prems"(2) by (simp_all add: expire_instances.simps [of dead xs j])
    moreover have "\<forall>x \<in> set xs. \<not> dead x" using "1.prems"(1) 3 by (auto simp: in_set_conv_nth)
    ultimately show ?thesis by (simp flip: mset_filter)
  qed
qed

definition swept :: "sd_config \<Rightarrow> u64 \<Rightarrow> sd_service_entry \<Rightarrow> sd_service_entry" where
  "swept cfg now e = e\<lparr>instances :=
     fst (expire_instances (\<lambda>x. is_instance_expired now x (expire_timeout_ms cfg)) (instances e) 0)\<rparr>"

definition dropped :: "sd_config \<Rightarrow> u64 \<Rightarrow> sd_service_entry \<Rightarrow> bool" where
  "dropped cfg now e = (instances (swept cfg now e) = [] \<and> enable_auto_expire cfg \<and>
     ucast (expire_timeout_ms cfg * 2) < now - last_updated e)"

lemma swept_simps [simp]: "svc_name (swept cfg now e) = svc_name e"
  by (simp add: swept_def)

lemma swept_mset:
  "mset (instances (swept cfg now e)) =
     image_mset (\<lambda>x. x) (filter_mset (\<lambda>x. \<not> is_instance_expired now x (expire_timeout_ms cfg)) (mset (instances e)))"
  using expire_instances_mset [of 0 "instances e" "\<lambda>x. is_instance_expired now x (expire_timeout_ms cfg)"]
  by (cases "expire_instances (\<lambda>x. is_instance_expired now x (expire_timeout_ms cfg)) (instances e) 0")
     (simp add: swept_def)

lemma swept_ok: "entry_ok e \<Longrightarrow> entry_ok (swept cfg now e)"
  using mset_filtered_facts(1) [OF swept_mset, of instance_id e] arg_cong [OF swept_mset, of size cfg now e]
    size_filter_mset_lesseq [of _ "mset (instances e)"]
  by (auto simp: entry_ok_def intro: order.trans)

lemma swept_inst_of:
  "entry_ok e \<Longrightarrow> inst_of (swept cfg now e) i =
     (case inst_of e i of
        Some x \<Rightarrow> if is_instance_expired now x (expire_timeout_ms cfg) then None else Some x
      | None \<Rightarrow> None)"
  using mset_filtered_facts(2) [OF swept_mset, of instance_id e i]
  by (auto simp: inst_of_def entry_ok_def split: option.split)

lemma expire_services_mset:
  assumes "expire_services cfg now es i = (es', evs, ch)"
  shows "mset es' = mset (take i es) +
           image_mset (swept cfg now) (filter_mset (\<lambda>e. \<not> dropped cfg now e) (mset (drop i es)))"
  using assms
proof (induction cfg now es i arbitrary: es' evs ch rule: expire_services.induct)
  case (1 cfg now es i)
  show ?case
  proof (cases "i < length es")
    case False
    then show ?thesis using "1.prems" by (simp add: expire_services.simps [of cfg now es i])
  next
    case True
    let ?e = "es ! i"
    obtain ys gone where y:
      "expire_instances (\<lambda>x. is_instance_expired now x (expire_timeout_ms cfg)) (instances ?e) 0 = (ys, gone)"
      by fastforce
    then have sw: "swept cfg now ?e = ?e\<lparr>instances := ys\<rparr>" by (simp add: swept_def)
    let ?es = "es[i := swept cfg now ?e]"
    have tail: "mset (drop i es) = add_mset ?e (mset (drop (Suc i) es))"
      using True by (simp flip: Cons_nth_drop_Suc)
    show ?thesis
    proof (cases "dropped cfg now ?e")
      case d: True
      then have c: "ys = [] \<and> enable_auto_expire cfg \<and> ucast (expire_timeout_ms cfg * 2) < now - last_updated ?e"
        by (simp add: dropped_def sw)
      obtain es1 evs1 ch1 where r1: "expire_services cfg now (drop_slot i ?es) i = (es1, evs1, ch1)"
        using prod_cases3 by blast
      have "es1 = es'"
        using "1.prems" True c y r1 by (auto simp: expire_services.simps [of cfg now es i] sw split: if_splits)
      note r = r1 [unfolded this]
      have IH: "mset es' = mset (take i (drop_slot i ?es)) +
          image_mset (swept cfg now) (filter_mset (\<lambda>e. \<not> dropped cfg now e) (mset (drop i (drop_slot i ?es))))"
        using "1.IH"(1) [OF True refl refl y [symmetric] refl refl c] r unfolding sw by blast
      show ?thesis
        unfolding IH tail using True d by (simp add: take_drop_slot mset_drop_slot_tail)
    next
      case d: False
      then have c: "\<not> (ys = [] \<and> enable_auto_expire cfg \<and> ucast (expire_timeout_ms cfg * 2) < now - last_updated ?e)"
        by (simp add: dropped_def sw)
      obtain es1 evs1 ch1 where r1: "expire_services cfg now ?es (i + 1) = (es1, evs1, ch1)"
        using prod_cases3 by blast
      have "es1 = es'"
        using "1.prems" True c y r1 by (auto simp: expire_services.simps [of cfg now es i] sw split: if_splits)
      note r = r1 [unfolded this]
      have IH: "mset es' = mset (take (i + 1) ?es) +
          image_mset (swept cfg now) (filter_mset (\<lambda>e. \<not> dropped cfg now e) (mset (drop (i + 1) ?es)))"
        using "1.IH"(2) [OF True refl refl y [symmetric] refl refl c] r unfolding sw by blast
      show ?thesis
        unfolding IH tail using True d by (simp add: take_Suc_conv_app_nth)
    qed
  qed
qed

definition live :: "sd_config \<Rightarrow> u64 \<Rightarrow> sd_instance option \<Rightarrow> sd_instance option" where
  "live cfg now r = (case r of
     Some x \<Rightarrow> if is_instance_expired now x (expire_timeout_ms cfg) then None else Some x
   | None \<Rightarrow> None)"

lemma sweep:
  assumes inv: "sd_inv sd" and r: "expire_services (sd_cfg sd) now (services sd) 0 = (services sd', evs, ch)"
  shows "sd_inv sd'" and "reg sd' n i = live (sd_cfg sd) now (reg sd n i)"
proof -
  let ?c = "sd_cfg sd"
  have m: "mset (services sd') = image_mset (swept ?c now)
      (filter_mset (\<lambda>e. \<not> dropped ?c now e) (mset (services sd)))"
    using expire_services_mset [OF r] by simp
  from inv have d: "distinct (map svc_name (services sd))" by (simp add: sd_inv_def)
  note facts = mset_filtered_facts [OF m d, OF swept_simps]
  have "length (services sd') \<le> length (services sd)"
    using size_filter_mset_lesseq [of "\<lambda>e. \<not> dropped ?c now e" "mset (services sd)"]
    by (metis m size_image_mset size_mset)
  moreover have "set (services sd') = swept ?c now ` {e \<in> set (services sd). \<not> dropped ?c now e}"
    using arg_cong [OF m, of set_mset] by simp
  ultimately show "sd_inv sd'"
    using inv facts(1) swept_ok by (auto simp: sd_inv_def list_all_iff)
  show "reg sd' n i = live ?c now (reg sd n i)"
  proof (cases "entry_of sd n")
    case None
    then show ?thesis using facts(2) [of n] by (simp add: reg_def entry_of_def live_def)
  next
    case (Some e)
    then have "entry_of sd' n = (if \<not> dropped ?c now e then Some (swept ?c now e) else None)"
      using facts(2) [of n] by (simp add: entry_of_def)
    moreover have "inst_of (swept ?c now e) i = live ?c now (inst_of e i)"
      using swept_inst_of [OF entry_of_ok [OF inv Some]] by (simp add: live_def)
    moreover have "inst_of (swept ?c now e) i = None" if "dropped ?c now e"
      using that by (simp add: dropped_def inst_of_def)
    ultimately show ?thesis using Some by (auto simp: reg_def)
  qed
qed

end
