(* ===== verification/Service_Machine.thy ===== *)
theory Service_Machine
  imports Service_Discovery Registry_Facts
begin

section \<open>Service discovery: correctness of the operations\<close>

text \<open>
  The contracts of a backend as two locales, both interpreted on the shared-memory backend, and the
  properties of the operations: \<open>sd_store\<close> is what every backend promises (it keeps the registry
  well-formed), \<open>sd_memory_store\<close> what the in-memory medium adds (refresh and commit do nothing,
  registration and removal act on the registry as on a map).
\<close>

subsection \<open>The backend contracts\<close>

locale sd_store =
  fixes be :: sd_backend
  assumes refresh_inv: "sd_inv sd \<Longrightarrow> sd_inv (snd (be_refresh be sd r))"
    and commit_inv: "sd_inv sd \<Longrightarrow> sd_inv (snd (be_commit be sd r))"
    and register_inv: "sd_inv sd \<Longrightarrow> length n < SD_MAX_NAME_LEN \<Longrightarrow>
      sd_inv (snd (be_register be now pid sd n t x tags deps))"
    and deregister_inv: "sd_inv sd \<Longrightarrow> sd_inv (snd (be_deregister be now sd n i))"
    and deregister_all_inv: "sd_inv sd \<Longrightarrow> sd_inv (snd (be_deregister_all be now sd n))"
begin

lemma expire_inv: "sd_inv sd \<Longrightarrow> sd_inv (fst (expire_stale_instances be now sd))"
proof -
  assume inv: "sd_inv sd"
  obtain es evs ch where r: "expire_services (sd_cfg sd) now (services sd) 0 = (es, evs, ch)"
    using prod_cases3 by blast
  have "sd_inv (sd\<lparr>services := es, sd_st := st\<rparr>)" for st
    using sweep(1) [OF inv, of now "sd\<lparr>services := es, sd_st := st\<rparr>"] r by simp
  then show ?thesis using inv by (simp add: expire_stale_instances_def r Let_def commit_inv)
qed

lemma lock_ref_inv:
  "sd_inv sd \<Longrightarrow> sd_lock_ref be (Some sd) (Some n) (Some i) = (err, h, s, q) \<Longrightarrow>
   \<exists>sd1. h = Some sd1 \<and> sd_inv sd1 \<and>
     (err = AIRY_SUCCESS \<longrightarrow> s < length (services sd1) \<and> q < length (instances (services sd1 ! s)))"
proof -
  assume inv: "sd_inv sd" and r: "sd_lock_ref be (Some sd) (Some n) (Some i) = (err, h, s, q)"
  let ?sd = "snd (be_refresh be sd (Some n))"
  have inv1: "sd_inv ?sd" using inv by (rule refresh_inv)
  show ?thesis
  proof (cases rule: service_index_cases [of ?sd n])
    case missing
    then show ?thesis using r inv1 by (auto simp: sd_lock_ref_def err_codes)
  next
    case (found k)
    then show ?thesis
      using r inv1
      by (cases rule: instance_index_cases [of "services ?sd ! k" i]) (auto simp: sd_lock_ref_def err_codes)
  qed
qed

end

lemma length_upd_instance [simp]: "length (services (upd_instance s q f sd)) = length (services sd)"
  by (simp add: upd_instance_def Let_def)

lemma upd_instance_inv:
  assumes inv: "sd_inv sd" and s: "s < length (services sd)" and q: "q < length (instances (services sd ! s))"
    and f: "\<And>x. instance_id (f x) = instance_id x"
  shows "sd_inv (upd_instance s q f sd)"
proof -
  let ?e = "services sd ! s"
  have ok: "entry_ok ?e" using inv s by (simp add: sd_inv_def list_all_length)
  have "entry_ok (?e\<lparr>instances := (instances ?e)[q := f (instances ?e ! q)]\<rparr>)"
    using ok distinct_map_update [of instance_id "instances ?e" q] q f by (simp add: entry_ok_def)
  from replace_entry(1) [OF inv s _ this, of "upd_instance s q f sd"] show ?thesis
    by (simp add: upd_instance_def Let_def)
qed

subsection \<open>Every operation keeps the registry well-formed\<close>

datatype sd_op =
    Op_register u32 cstr cstr sd_instance "cstr option" "cstr option"
  | Op_deregister cstr cstr | Op_deregister_all cstr
  | Op_discover cstr u32 | Op_by_type cstr u32 | Op_by_tags cstr u32
  | Op_select cstr sd_lb_strategy u32
  | Op_heartbeat cstr cstr | Op_health cstr cstr bool | Op_connections cstr cstr u32
  | Op_get_deps cstr u64 | Op_check_deps cstr u64 | Op_callback nat nat | Op_stats

text \<open>One operation at one clock reading; the code it returns and the state it leaves.\<close>

fun sd_step :: "sd_backend \<Rightarrow> sd_internal option \<Rightarrow> u64 \<times> sd_op \<Rightarrow> airy_err \<times> sd_internal option" where
  "sd_step be h (now, Op_register pid n t x tags deps) =
     (let (err, h', calls) = sd_register be now pid h (Some n) (Some t) (Some x) tags deps in (err, h'))"
| "sd_step be h (now, Op_deregister n i) =
     (let (err, h', calls) = sd_deregister be now h (Some n) (Some i) in (err, h'))"
| "sd_step be h (now, Op_deregister_all n) = sd_deregister_all be now h (Some n)"
| "sd_step be h (now, Op_discover n mx) =
     (let (err, xs, h', calls) = sd_discover be now h (Some n) True mx in (err, h'))"
| "sd_step be h (now, Op_by_type t mx) =
     (let (err, xs, h', calls) = sd_discover_by_type be now h (Some t) True mx in (err, h'))"
| "sd_step be h (now, Op_by_tags t mx) =
     (let (err, xs, h', calls) = sd_discover_by_tags be now h (Some t) True mx in (err, h'))"
| "sd_step be h (now, Op_select n strategy rnd) =
     (let (err, x, h', calls) = sd_select_instance be now rnd h (Some n) strategy True in (err, h'))"
| "sd_step be h (now, Op_heartbeat n i) = sd_heartbeat be now h (Some n) (Some i)"
| "sd_step be h (now, Op_health n i b) =
     (let (err, h', calls) = sd_update_health be now h (Some n) (Some i) b in (err, h'))"
| "sd_step be h (now, Op_connections n i c) = sd_update_connections be h (Some n) (Some i) c"
| "sd_step be h (now, Op_get_deps n len) =
     (let (err, d, h') = sd_get_dependencies be h (Some n) True len in (err, h'))"
| "sd_step be h (now, Op_check_deps n len) =
     (let (err, d, h') = sd_check_dependencies be h (Some n) True len in (err, h'))"
| "sd_step be h (now, Op_callback cb ud) = sd_register_event_callback h (Some cb) ud"
| "sd_step be h (now, Op_stats) = (let (err, st, h') = sd_get_stats be h True in (err, h'))"

definition sd_op_ok :: "u64 \<times> sd_op \<Rightarrow> bool" where
  "sd_op_ok tp = (case snd tp of Op_register pid n t x tags deps \<Rightarrow> length n < SD_MAX_NAME_LEN | _ \<Rightarrow> True)"

definition handle_inv :: "sd_internal option \<Rightarrow> bool" where
  "handle_inv h = (case h of Some sd \<Rightarrow> sd_inv sd | None \<Rightarrow> False)"

lemma handle_Some [simp]: "handle_inv (Some sd) = sd_inv sd"
  by (simp add: handle_inv_def)

lemma apply_strategy_services:
  "sd_apply_strategy rnd sd strategy entry = (err, x, sd') \<Longrightarrow> services sd' = services sd"
  by (auto simp: sd_apply_strategy_def split: sd_lb_strategy.splits prod.splits)

context sd_store
begin

lemma update_inv:
  "sd_inv sd \<Longrightarrow> handle_inv (snd (sd_heartbeat be now (Some sd) (Some n) (Some i)))"
  "sd_inv sd \<Longrightarrow> handle_inv (fst (snd (sd_update_health be now (Some sd) (Some n) (Some i) b)))"
  "sd_inv sd \<Longrightarrow> handle_inv (snd (sd_update_connections be (Some sd) (Some n) (Some i) c))"
proof -
  assume inv: "sd_inv sd"
  obtain err h s q where r: "sd_lock_ref be (Some sd) (Some n) (Some i) = (err, h, s, q)"
    using prod_cases4 by blast
  from lock_ref_inv [OF inv r] obtain sd1 where h: "h = Some sd1" and inv1: "sd_inv sd1"
    and idx: "err = AIRY_SUCCESS \<Longrightarrow> s < length (services sd1) \<and> q < length (instances (services sd1 ! s))"
    by blast
  have upd: "sd_inv (upd_instance s q f sd1)"
    if "err = AIRY_SUCCESS" "\<And>x. instance_id (f x) = instance_id x" for f
    using upd_instance_inv [OF inv1 _ _ that(2)] idx [OF that(1)] by blast
  have touch: "sd_inv (sd2\<lparr>services := (services sd2)[s := (services sd2 ! s)\<lparr>last_updated := now\<rparr>]\<rparr>)"
    if "sd_inv sd2" "s < length (services sd2)" for sd2
    using that by (intro replace_entry(1) [OF that(1,2)]) (auto simp: sd_inv_def list_all_length entry_ok_def)
  show "handle_inv (snd (sd_heartbeat be now (Some sd) (Some n) (Some i)))"
    using inv1 upd [of "\<lambda>x. x\<lparr>last_heartbeat := now\<rparr>"]
    by (auto simp: sd_heartbeat_def r h handle_inv_def Let_def intro!: commit_inv cong: sd_inv_cong)
  show "handle_inv (snd (sd_update_connections be (Some sd) (Some n) (Some i) c))"
    using inv1 upd [of "\<lambda>x. x\<lparr>active_connections := c\<rparr>"]
    by (auto simp: sd_update_connections_def r h handle_inv_def Let_def intro!: commit_inv)
  show "handle_inv (fst (snd (sd_update_health be now (Some sd) (Some n) (Some i) b)))"
    using inv1 upd [of "\<lambda>x. x\<lparr>healthy := b, last_heartbeat := now\<rparr>"] idx
    by (auto simp: sd_update_health_def r h handle_inv_def Let_def intro!: commit_inv touch)
qed

lemma query_inv:
  assumes inv: "sd_inv sd"
  shows "handle_inv (fst (snd (snd (sd_discover be now (Some sd) (Some n) True mx))))"
    and "handle_inv (fst (snd (snd (sd_discover_by_type be now (Some sd) (Some n) True mx))))"
    and "handle_inv (fst (snd (snd (sd_discover_by_tags be now (Some sd) (Some n) True mx))))"
    and "handle_inv (fst (snd (snd (sd_select_instance be now rnd (Some sd) (Some n) strategy True))))"
proof -
  have ex: "sd_inv sd2" if "expire_stale_instances be now (snd (be_refresh be sd r)) = (sd2, calls)" for r sd2 calls
    using expire_inv [OF refresh_inv [OF inv], of now r] that by simp
  have bump: "sd_inv (bump_discoveries sd2) = sd_inv sd2" for sd2
    by (rule sd_inv_cong) (simp add: bump_discoveries_def)
  show "handle_inv (fst (snd (snd (sd_discover be now (Some sd) (Some n) True mx))))"
    "handle_inv (fst (snd (snd (sd_discover_by_type be now (Some sd) (Some n) True mx))))"
    "handle_inv (fst (snd (snd (sd_discover_by_tags be now (Some sd) (Some n) True mx))))"
    by (auto simp: sd_discover_def sd_discover_by_type_def sd_discover_by_tags_def handle_inv_def bump
        Let_def split: prod.split dest: ex)
  have sel: "sd_inv sd3" if "sd_apply_strategy rnd sd2 strategy e = (err, x, sd3)" "sd_inv sd2" for sd2 sd3 e err x
    using apply_strategy_services [OF that(1)] that(2) sd_inv_cong by blast
  have stat: "sd_inv (sd3\<lparr>sd_st := st\<rparr>) = sd_inv sd3" for sd3 st by (rule sd_inv_cong) simp
  show "handle_inv (fst (snd (snd (sd_select_instance be now rnd (Some sd) (Some n) strategy True))))"
    by (auto simp: sd_select_instance_def handle_inv_def stat Let_def split: prod.split dest: ex sel)
qed

lemma step_keeps: "handle_inv h \<Longrightarrow> sd_op_ok tp \<Longrightarrow> handle_inv (snd (sd_step be h tp))"
proof -
  assume h: "handle_inv h" and ok: "sd_op_ok tp"
  obtain sd where sd: "h = Some sd" and inv: "sd_inv sd" using h by (auto simp: handle_inv_def split: option.splits)
  obtain now op where t: "tp = (now, op)" by (cases tp)
  have cb: "sd_inv (sd\<lparr>callbacks := c\<rparr>)" for c using inv by (simp add: sd_inv_def)
  note simps = sd t handle_Some sd_op_ok_def Let_def split_beta
  show ?thesis
  proof (cases op)
    case Op_register
    then show ?thesis using ok register_inv [OF inv] by (simp add: simps sd_register_def)
  next
    case Op_deregister
    then show ?thesis using deregister_inv [OF inv] by (simp add: simps sd_deregister_def)
  next
    case Op_deregister_all
    then show ?thesis using deregister_all_inv [OF inv] by (simp add: simps sd_deregister_all_def)
  qed (simp_all add: simps update_inv [OF inv] query_inv [OF inv] refresh_inv [OF inv] cb inv
         sd_get_dependencies_def sd_check_dependencies_def sd_register_event_callback_def sd_get_stats_def)
qed

end

subsection \<open>Selections are live members\<close>

lemma cumulative_member: "lb_cumulative v c xs = Some x \<Longrightarrow> x \<in> set xs \<and> healthy x"
  by (induction xs arbitrary: c) (auto split: if_splits)

lemma nth_healthy_member: "lb_nth_healthy v c xs = Some x \<Longrightarrow> x \<in> set xs \<and> healthy x"
  by (induction xs arbitrary: c) (auto split: if_splits)

lemma round_robin_member:
  "lb_round_robin rr e = (err, Some x, rr') \<Longrightarrow> err = AIRY_SUCCESS \<and> x \<in> set (instances e) \<and> healthy x"
  by (auto simp: lb_round_robin_def Let_def find_Some_iff split: if_splits option.splits)

lemma strategy_member:
  assumes "sd_apply_strategy rnd sd strategy e = (err, r, sd')"
  shows "(r \<noteq> None) = (err = AIRY_SUCCESS)"
    and "r = Some x \<Longrightarrow> x \<in> set (instances e) \<and> healthy x"
proof -
  have rr: "((r \<noteq> None) = (err = AIRY_SUCCESS)) \<and> (r = Some x \<longrightarrow> x \<in> set (instances e) \<and> healthy x)"
    if rr: "lb_round_robin (rr_counter sd) e = (err, r, rr')" for rr'
  proof -
    have "r = None \<Longrightarrow> err = AIRY_ENOENT"
      using rr by (auto simp: lb_round_robin_def Let_def split: if_splits option.splits)
    then show ?thesis using round_robin_member [of "rr_counter sd" e err _ rr'] rr
      by (cases r) (auto simp: err_codes)
  qed
  have "((r \<noteq> None) = (err = AIRY_SUCCESS)) \<and> (r = Some x \<longrightarrow> x \<in> set (instances e) \<and> healthy x)"
  proof (cases strategy)
    case SD_LB_ROUND_ROBIN
    then show ?thesis using assms rr by (auto simp: sd_apply_strategy_def split: prod.splits)
  next
    case SD_LB_OTHER
    then show ?thesis using assms rr by (auto simp: sd_apply_strategy_def split: prod.splits)
  next
    case SD_LB_WEIGHTED
    then show ?thesis using assms
      by (auto simp: sd_apply_strategy_def lb_weighted_def Let_def err_codes find_Some_iff
          eq_commute [of "Some _" "lb_cumulative _ _ _"] dest!: cumulative_member split: if_splits option.splits)
  next
    case SD_LB_RANDOM
    then show ?thesis using assms
      by (auto simp: sd_apply_strategy_def lb_random_def Let_def err_codes
          eq_commute [of "Some _" "lb_nth_healthy _ _ _"] dest!: nth_healthy_member split: if_splits option.splits)
  next
    case SD_LB_LEAST_CONNECTION
    then show ?thesis using assms
      by (auto simp: sd_apply_strategy_def lb_least_connection_def err_codes
          eq_commute [of "Some _" "lb_min_scan _ _ _ _"] dest!: min_scan_Some split: option.splits)
  next
    case SD_LB_LEAST_LOAD
    then show ?thesis using assms
      by (auto simp: sd_apply_strategy_def lb_least_load_def err_codes
          eq_commute [of "Some _" "lb_min_scan _ _ _ _"] dest!: min_scan_Some split: option.splits)
  qed
  then show "(r \<noteq> None) = (err = AIRY_SUCCESS)" "r = Some x \<Longrightarrow> x \<in> set (instances e) \<and> healthy x"
    by blast+
qed

lemma entry_members: "entry_ok e \<Longrightarrow> x \<in> set (instances e) \<longleftrightarrow> inst_of e (instance_id x) = Some x"
  by (simp add: entry_ok_def inst_of_def find_key)

lemma reg_members:
  assumes "sd_inv sd" and "entry_of sd n = Some e"
  shows "x \<in> set (instances e) \<longleftrightarrow> reg sd n (instance_id x) = Some x"
  using entry_members [OF entry_of_ok [OF assms]] assms(2) by (simp add: reg_def)

subsection \<open>The in-memory medium\<close>

text \<open>What a reader at time \<open>now\<close> sees: the registered instances that are not expired.\<close>

definition live_reg :: "sd_internal \<Rightarrow> u64 \<Rightarrow> cstr \<Rightarrow> cstr \<Rightarrow> sd_instance option" where
  "live_reg sd now n i =
     (if enable_auto_expire (sd_cfg sd) then live (sd_cfg sd) now (reg sd n i) else reg sd n i)"

locale sd_memory_store = sd_store +
  assumes refresh_same: "snd (be_refresh be sd r) = sd"
    and commit_same: "snd (be_commit be sd r) = sd"
    and register_map: "sd_inv sd \<Longrightarrow> length n < SD_MAX_NAME_LEN \<Longrightarrow>
      be_register be now pid sd n t x tags deps = (err, sd') \<Longrightarrow>
      err = (if sd_room sd n (instance_id x) then AIRY_SUCCESS else AIRY_ENOMEM) \<and> sd_cfg sd' = sd_cfg sd \<and>
      (\<forall>m j. reg sd' m j = (if err = AIRY_SUCCESS \<and> m = n \<and> j = instance_id x
         then Some (stamp now pid (reg sd n (instance_id x)) x) else reg sd m j))"
    and deregister_map: "sd_inv sd \<Longrightarrow> be_deregister be now sd n i = (err, sd') \<Longrightarrow>
      err = (if reg sd n i = None then AIRY_ENOENT else AIRY_SUCCESS) \<and> sd_cfg sd' = sd_cfg sd \<and>
      (\<forall>m j. reg sd' m j = (if m = n \<and> j = i then None else reg sd m j))"
    and deregister_all_map: "sd_inv sd \<Longrightarrow> be_deregister_all be now sd n = (err, sd') \<Longrightarrow>
      err = (if entry_of sd n = None then AIRY_ENOENT else AIRY_SUCCESS) \<and> sd_cfg sd' = sd_cfg sd \<and>
      (\<forall>m j. reg sd' m j = (if m = n then None else reg sd m j))"
begin

lemma expire_reg: "sd_inv sd \<Longrightarrow> reg (fst (expire_stale_instances be now sd)) n i = live_reg sd now n i"
proof -
  assume inv: "sd_inv sd"
  obtain es evs ch where r: "expire_services (sd_cfg sd) now (services sd) 0 = (es, evs, ch)"
    using prod_cases3 by blast
  have "reg (sd\<lparr>services := es, sd_st := st\<rparr>) n i = live (sd_cfg sd) now (reg sd n i)" for st
    using sweep(2) [OF inv, of now "sd\<lparr>services := es, sd_st := st\<rparr>"] r by simp
  then show ?thesis by (simp add: expire_stale_instances_def r Let_def commit_same live_reg_def)
qed

lemma discover_live:
  assumes inv: "sd_inv sd" and mx: "SD_MAX_INSTANCES \<le> unat mx"
    and r: "sd_discover be now (Some sd) (Some n) True mx = (err, Some xs, h', calls)"
  shows "distinct xs" and "set xs = {x. healthy x \<and> live_reg sd now n (instance_id x) = Some x}"
    and "h' = Some sd' \<Longrightarrow> reg sd' m i = live_reg sd now m i"
proof -
  obtain sd2 cs where e: "expire_stale_instances be now sd = (sd2, cs)" by fastforce
  have inv2: "sd_inv sd2" and reg2: "reg sd2 m i = live_reg sd now m i" for m i
    using expire_inv [OF inv, of now] expire_reg [OF inv, of now] e by simp_all
  have "distinct xs \<and> set xs = {x. healthy x \<and> live_reg sd now n (instance_id x) = Some x} \<and>
        (h' = Some sd' \<longrightarrow> reg sd' m i = live_reg sd now m i)"
  proof (cases rule: service_index_cases [of sd2 n])
    case missing
    then have "live_reg sd now n i = None" for i using reg2 [of n i] by (simp add: reg_def)
    with missing r reg2 show ?thesis by (auto simp: sd_discover_def refresh_same e)
  next
    case (found k)
    let ?e = "services sd2 ! k"
    have ok: "entry_ok ?e" using entry_of_ok [OF inv2 found(4)] .
    have xs: "xs = filter healthy (instances ?e)" and h: "h' = Some (bump_discoveries sd2)"
      using r found mx ok le_trans [OF length_filter_le [of healthy "instances ?e"]]
      by (auto simp: sd_discover_def refresh_same e entry_ok_def)
    have "distinct xs" using ok by (auto simp: xs entry_ok_def distinct_map)
    moreover have "set xs = {x. healthy x \<and> live_reg sd now n (instance_id x) = Some x}"
      using reg_members [OF inv2 found(4)] by (auto simp: xs reg2)
    moreover have "reg (bump_discoveries sd2) = reg sd2" by (rule reg_cong) (simp add: bump_discoveries_def)
    ultimately show ?thesis using h reg2 by auto
  qed
  then show "distinct xs" "set xs = {x. healthy x \<and> live_reg sd now n (instance_id x) = Some x}"
    "h' = Some sd' \<Longrightarrow> reg sd' m i = live_reg sd now m i" by blast+
qed

lemma select_live:
  assumes inv: "sd_inv sd"
    and r: "sd_select_instance be now rnd (Some sd) (Some n) strategy True = (err, y, h', calls)"
  shows "(y \<noteq> None) = (err = AIRY_SUCCESS)"
    and "y = Some x \<Longrightarrow> healthy x \<and> live_reg sd now n (instance_id x) = Some x"
    and "strategy = SD_LB_ROUND_ROBIN \<or> strategy = SD_LB_RANDOM \<Longrightarrow>
      healthy x \<Longrightarrow> live_reg sd now n (instance_id x) = Some x \<Longrightarrow> err = AIRY_SUCCESS"
proof -
  obtain sd2 cs where e: "expire_stale_instances be now sd = (sd2, cs)" by fastforce
  have inv2: "sd_inv sd2" and reg2: "reg sd2 m i = live_reg sd now m i" for m i
    using expire_inv [OF inv, of now] expire_reg [OF inv, of now] e by simp_all
  have "((y \<noteq> None) = (err = AIRY_SUCCESS)) \<and>
        (y = Some x \<longrightarrow> healthy x \<and> live_reg sd now n (instance_id x) = Some x) \<and>
        (strategy = SD_LB_ROUND_ROBIN \<or> strategy = SD_LB_RANDOM \<longrightarrow>
          healthy x \<longrightarrow> live_reg sd now n (instance_id x) = Some x \<longrightarrow> err = AIRY_SUCCESS)"
  proof (cases rule: service_index_cases [of sd2 n])
    case missing
    then have "live_reg sd now n i = None" for i using reg2 [of n i] by (simp add: reg_def)
    with missing r show ?thesis by (auto simp: sd_select_instance_def refresh_same e err_codes)
  next
    case (found k)
    let ?e = "services sd2 ! k"
    have ok: "entry_ok ?e" using entry_of_ok [OF inv2 found(4)] .
    obtain sd3 where s: "sd_apply_strategy rnd sd2 strategy ?e = (err, y, sd3)"
      using r found by (auto simp: sd_select_instance_def refresh_same e split: prod.splits)
    have mem: "x \<in> set (instances ?e) \<longleftrightarrow> live_reg sd now n (instance_id x) = Some x"
      using reg_members [OF inv2 found(4)] by (simp add: reg2)
    have n: "length (instances ?e) < 2 ^ 31" using ok by (simp add: entry_ok_def sd_limits)
    have ex: "err = AIRY_SUCCESS" if st: "strategy = SD_LB_ROUND_ROBIN \<or> strategy = SD_LB_RANDOM"
      and hx: "healthy x" "x \<in> set (instances ?e)"
      using st
    proof
      assume rr: "strategy = SD_LB_ROUND_ROBIN"
      obtain z rr' where "lb_round_robin (rr_counter sd2) ?e = (AIRY_SUCCESS, Some z, rr')"
        by (rule round_robin_step [of ?e "rr_counter sd2"]) (use hx n in auto)
      then show ?thesis using s rr by (auto simp: sd_apply_strategy_def)
    next
      assume rd: "strategy = SD_LB_RANDOM"
      have "0 < length (filter healthy (instances ?e))" using hx by (auto simp: filter_empty_conv)
      then show ?thesis using s rd random_eq [OF _ n, of rnd] by (auto simp: sd_apply_strategy_def)
    qed
    show ?thesis using strategy_member [OF s] mem ex by blast
  qed
  then show "(y \<noteq> None) = (err = AIRY_SUCCESS)"
    "y = Some x \<Longrightarrow> healthy x \<and> live_reg sd now n (instance_id x) = Some x"
    "strategy = SD_LB_ROUND_ROBIN \<or> strategy = SD_LB_RANDOM \<Longrightarrow>
      healthy x \<Longrightarrow> live_reg sd now n (instance_id x) = Some x \<Longrightarrow> err = AIRY_SUCCESS" by blast+
qed

end

lemma upd_instance_reg:
  assumes inv: "sd_inv sd" and s: "s < length (services sd)" and q: "q < length (instances (services sd ! s))"
    and f: "\<And>x. instance_id (f x) = instance_id x"
    and n: "svc_name (services sd ! s) = n" and i: "instance_id (instances (services sd ! s) ! q) = i"
  shows "reg (upd_instance s q f sd) m j =
           (if m = n \<and> j = i then Some (f (instances (services sd ! s) ! q)) else reg sd m j)"
proof -
  let ?e = "services sd ! s"
  let ?e' = "?e\<lparr>instances := (instances ?e)[q := f (instances ?e ! q)]\<rparr>"
  have ok: "entry_ok ?e" using inv s by (simp add: sd_inv_def list_all_length)
  then have d: "distinct (map instance_id (instances ?e))" by (simp add: entry_ok_def)
  have ok': "entry_ok ?e'" using ok distinct_map_update [OF d q] f by (simp add: entry_ok_def)
  have e: "entry_of sd n = Some ?e"
    using inv s n by (simp add: entry_of_def find_key sd_inv_def)
  have "inst_of ?e' j = (if j = i then Some (f (instances ?e ! q)) else inst_of ?e j)"
    using find_key_update [OF d q, of "f (instances ?e ! q)" j] f i by (simp add: inst_of_def)
  then show ?thesis
    using replace_entry(2) [OF inv s _ ok', of "upd_instance s q f sd" m] n e
    by (auto simp: upd_instance_def Let_def reg_def)
qed

context sd_memory_store
begin

lemma lock_ref_cases:
  obtains (missing) "sd_lock_ref be (Some sd) (Some n) (Some i) = (AIRY_ENOENT, Some sd, 0, 0)" "reg sd n i = None"
        | (found) s q where "sd_lock_ref be (Some sd) (Some n) (Some i) = (AIRY_SUCCESS, Some sd, s, q)"
            "s < length (services sd)" "q < length (instances (services sd ! s))"
            "svc_name (services sd ! s) = n" "instance_id (instances (services sd ! s) ! q) = i"
            "reg sd n i = Some (instances (services sd ! s) ! q)"
proof (cases rule: service_index_cases [of sd n])
  case m: missing
  then show thesis by (intro missing) (simp_all add: sd_lock_ref_def refresh_same reg_def)
next
  case f: (found k)
  show thesis
  proof (cases rule: instance_index_cases [of "services sd ! k" i])
    case m: missing
    then show thesis using f by (intro missing) (simp_all add: sd_lock_ref_def refresh_same reg_def)
  next
    case q: (found q)
    then show thesis using f by (intro found [of k q]) (simp_all add: sd_lock_ref_def refresh_same reg_def)
  qed
qed

lemma heartbeat_reg:
  assumes inv: "sd_inv sd"
  shows "\<exists>sd'. sd_heartbeat be now (Some sd) (Some n) (Some i) =
             (if reg sd n i = None then AIRY_ENOENT else AIRY_SUCCESS, Some sd') \<and>
           sd_cfg sd' = sd_cfg sd \<and>
           (\<forall>m j. reg sd' m j =
              (if m = n \<and> j = i then map_option (\<lambda>x. x\<lparr>last_heartbeat := now\<rparr>) (reg sd m j) else reg sd m j))"
proof (cases rule: lock_ref_cases [of sd n i])
  case missing
  then show ?thesis by (simp add: sd_heartbeat_def err_codes)
next
  case (found s q)
  let ?f = "\<lambda>x. x\<lparr>last_heartbeat := now\<rparr> :: sd_instance"
  have "reg (upd_instance s q ?f sd\<lparr>sd_st := st\<rparr>) = reg (upd_instance s q ?f sd)" for st
    by (rule reg_cong) simp
  then show ?thesis
    using found upd_instance_reg [OF inv found(2,3) _ found(4,5), of ?f]
    by (auto simp: sd_heartbeat_def commit_same Let_def err_codes upd_instance_def)
qed

lemma connections_reg:
  assumes inv: "sd_inv sd"
  shows "\<exists>sd'. sd_update_connections be (Some sd) (Some n) (Some i) c =
             (if reg sd n i = None then AIRY_ENOENT else AIRY_SUCCESS, Some sd') \<and>
           sd_cfg sd' = sd_cfg sd \<and>
           (\<forall>m j. reg sd' m j =
              (if m = n \<and> j = i then map_option (\<lambda>x. x\<lparr>active_connections := c\<rparr>) (reg sd m j) else reg sd m j))"
proof (cases rule: lock_ref_cases [of sd n i])
  case missing
  then show ?thesis by (simp add: sd_update_connections_def err_codes)
next
  case (found s q)
  then show ?thesis
    using upd_instance_reg [OF inv found(2,3) _ found(4,5), of "\<lambda>x. x\<lparr>active_connections := c\<rparr>"]
    by (auto simp: sd_update_connections_def commit_same err_codes upd_instance_def Let_def)
qed

lemma health_reg:
  assumes inv: "sd_inv sd"
  shows "\<exists>sd' calls. sd_update_health be now (Some sd) (Some n) (Some i) b =
             (if reg sd n i = None then AIRY_ENOENT else AIRY_SUCCESS, Some sd', calls) \<and>
           sd_cfg sd' = sd_cfg sd \<and>
           (\<forall>m j. reg sd' m j =
              (if m = n \<and> j = i then map_option (\<lambda>x. x\<lparr>healthy := b, last_heartbeat := now\<rparr>) (reg sd m j)
               else reg sd m j))"
proof (cases rule: lock_ref_cases [of sd n i])
  case missing
  then show ?thesis by (simp add: sd_update_health_def err_codes)
next
  case (found s q)
  let ?f = "\<lambda>x. x\<lparr>healthy := b, last_heartbeat := now\<rparr> :: sd_instance"
  let ?sd1 = "upd_instance s q ?f sd"
  let ?e = "services ?sd1 ! s"
  let ?sd2 = "?sd1\<lparr>services := (services ?sd1)[s := ?e\<lparr>last_updated := now\<rparr>]\<rparr>"
  have inv1: "sd_inv ?sd1" using upd_instance_inv [OF inv found(2,3)] by simp
  have s1: "s < length (services ?sd1)" using found(2) by simp
  have ok: "entry_ok (?e\<lparr>last_updated := now\<rparr>)"
    using inv1 s1 by (simp add: sd_inv_def list_all_length entry_ok_def)
  have e: "entry_of ?sd1 (svc_name ?e) = Some ?e"
    using inv1 s1 by (simp add: entry_of_def find_key sd_inv_def)
  have "entry_of ?sd2 m = (if m = svc_name ?e then Some (?e\<lparr>last_updated := now\<rparr>) else entry_of ?sd1 m)" for m
    using replace_entry(2) [OF inv1 s1 _ ok, of ?sd2] by simp
  then have "reg ?sd2 m j = reg ?sd1 m j" for m j using e by (simp add: reg_def inst_of_def)
  then show ?thesis
    using found upd_instance_reg [OF inv found(2,3) _ found(4,5), of ?f]
    by (auto simp: sd_update_health_def commit_same Let_def err_codes) (simp_all add: upd_instance_def Let_def)
qed

end

subsection \<open>Heartbeats in time keep an instance registered\<close>

fun undisturbed :: "cstr \<Rightarrow> cstr \<Rightarrow> sd_op \<Rightarrow> bool" where
  "undisturbed n i (Op_register pid m t x tags deps) = (length m < SD_MAX_NAME_LEN \<and> \<not> (m = n \<and> instance_id x = i))"
| "undisturbed n i (Op_deregister m j) = (\<not> (m = n \<and> j = i))"
| "undisturbed n i (Op_deregister_all m) = (m \<noteq> n)"
| "undisturbed n i (Op_health m j b) = (\<not> (m = n \<and> j = i))"
| "undisturbed n i (Op_heartbeat m j) = (\<not> (m = n \<and> j = i))"
| "undisturbed n i _ = True"

text \<open>\<open>hb\<close> is the time of the last heartbeat of the instance.\<close>

fun in_time :: "u32 \<Rightarrow> cstr \<Rightarrow> cstr \<Rightarrow> u64 \<Rightarrow> (u64 \<times> sd_op) list \<Rightarrow> bool" where
  "in_time ex n i hb [] = True"
| "in_time ex n i hb ((now, op) # ops) =
     (if op = Op_heartbeat n i then in_time ex n i now ops
      else now - hb \<le> ucast ex \<and> undisturbed n i op \<and> in_time ex n i hb ops)"

fun last_beat :: "cstr \<Rightarrow> cstr \<Rightarrow> u64 \<Rightarrow> (u64 \<times> sd_op) list \<Rightarrow> u64" where
  "last_beat n i hb [] = hb"
| "last_beat n i hb ((now, op) # ops) = last_beat n i (if op = Op_heartbeat n i then now else hb) ops"

definition alive :: "sd_config \<Rightarrow> cstr \<Rightarrow> cstr \<Rightarrow> u64 \<Rightarrow> sd_internal option \<Rightarrow> bool" where
  "alive cfg n i hb h =
     (case h of None \<Rightarrow> False
      | Some sd \<Rightarrow> sd_inv sd \<and> sd_cfg sd = cfg \<and>
          (case reg sd n i of None \<Rightarrow> False | Some x \<Rightarrow> healthy x \<and> last_heartbeat x = hb))"

context sd_memory_store
begin

lemma expire_cfg: "sd_cfg (fst (expire_stale_instances be now sd)) = sd_cfg sd"
  by (simp add: expire_stale_instances_def commit_same Let_def split: prod.split)

text \<open>A query leaves the registry without its expired instances.\<close>

lemma query_reg:
  assumes inv: "sd_inv sd" and op: "op \<in> {Op_discover s mx, Op_by_type s mx, Op_by_tags s mx, Op_select s st rnd}"
  shows "\<exists>err sd'. sd_step be (Some sd) (now, op) = (err, Some sd') \<and> sd_cfg sd' = sd_cfg sd \<and>
           (\<forall>m j. reg sd' m j = live_reg sd now m j)"
proof -
  obtain sd2 cs where e: "expire_stale_instances be now sd = (sd2, cs)" by fastforce
  have r2: "reg sd2 m j = live_reg sd now m j" "sd_cfg sd2 = sd_cfg sd" for m j
    using expire_reg [OF inv, of now] expire_cfg [of now sd] e by simp_all
  have same: "sd_cfg sd' = sd_cfg sd \<and> (\<forall>m j. reg sd' m j = live_reg sd now m j)"
    if "services sd' = services sd2" "sd_cfg sd' = sd_cfg sd2" for sd'
    using that reg_cong [OF that(1)] r2 by simp
  show ?thesis
  proof (cases "op = Op_select s st rnd")
    case True
    obtain err x sd3 where a: "sd_apply_strategy rnd sd2 st (services sd2 ! nat (find_service_index sd2 s)) = (err, x, sd3)"
      using prod_cases3 by blast
    have "services sd3 = services sd2" "sd_cfg sd3 = sd_cfg sd2"
      using a by (auto simp: sd_apply_strategy_def split: sd_lb_strategy.splits prod.splits)
    then show ?thesis using True same by (auto simp: sd_select_instance_def refresh_same e a Let_def)
  next
    case False
    then show ?thesis using op same
      by (auto simp: sd_discover_def sd_discover_by_type_def sd_discover_by_tags_def refresh_same e
          bump_discoveries_def Let_def)
  qed
qed

lemma step_alive:
  assumes al: "alive cfg n i hb h" and t: "now - hb \<le> ucast (expire_timeout_ms cfg)"
    and u: "undisturbed n i op"
  shows "alive cfg n i hb (snd (sd_step be h (now, op)))"
proof -
  from al obtain sd x where h: "h = Some sd" and inv: "sd_inv sd" and cfg: "sd_cfg sd = cfg"
    and x: "reg sd n i = Some x" "healthy x" "last_heartbeat x = hb"
    by (auto simp: alive_def split: option.splits)
  have ok: "sd_op_ok (now, op)" using u by (cases op) (auto simp: sd_op_ok_def)
  have inv': "handle_inv (snd (sd_step be h (now, op)))" using step_keeps [OF _ ok] inv h by simp
  have keep: "alive cfg n i hb (Some sd')" if "handle_inv (Some sd')" "sd_cfg sd' = sd_cfg sd"
    "\<exists>y. reg sd' n i = Some y \<and> healthy y \<and> last_heartbeat y = hb" for sd'
    using that cfg by (auto simp: alive_def)
  have lv: "live_reg sd now n i = Some x"
    using x t cfg by (auto simp: live_reg_def live_def is_instance_expired_def dest: leD)
  have query: "alive cfg n i hb (snd (sd_step be h (now, op)))"
    if "op \<in> {Op_discover s mx, Op_by_type s mx, Op_by_tags s mx, Op_select s st rnd}" for s mx st rnd
    using query_reg [OF inv that, of now] keep inv' x lv h by auto
  show ?thesis
  proof (cases op)
    case (Op_register pid m t y tags deps)
    obtain err sd' where r: "be_register be now pid sd m t y tags deps = (err, sd')" by fastforce
    have "snd (sd_step be h (now, op)) = Some sd'" by (simp add: h Op_register sd_register_def r)
    moreover have "length m < SD_MAX_NAME_LEN" "\<not> (m = n \<and> instance_id y = i)" using u Op_register by auto
    ultimately show ?thesis using keep [of sd'] inv' register_map [OF inv _ r] x by auto
  next
    case (Op_deregister m j)
    obtain err sd' where r: "be_deregister be now sd m j = (err, sd')" by fastforce
    have "snd (sd_step be h (now, op)) = Some sd'" by (simp add: h Op_deregister sd_deregister_def r Let_def)
    then show ?thesis using keep [of sd'] inv' deregister_map [OF inv r] x u Op_deregister by auto
  next
    case (Op_deregister_all m)
    obtain err sd' where r: "be_deregister_all be now sd m = (err, sd')" by fastforce
    have "snd (sd_step be h (now, op)) = Some sd'" by (simp add: h Op_deregister_all sd_deregister_all_def r)
    then show ?thesis using keep [of sd'] inv' deregister_all_map [OF inv r] x u Op_deregister_all by auto
  next
    case (Op_heartbeat m j)
    then show ?thesis using heartbeat_reg [OF inv, of now m j] keep inv' x u h by auto
  next
    case (Op_health m j b)
    then show ?thesis using health_reg [OF inv, of now m j b] keep inv' x u h by auto
  next
    case (Op_connections m j c)
    obtain err sd' where r: "sd_update_connections be (Some sd) (Some m) (Some j) c = (err, Some sd')"
      "sd_cfg sd' = sd_cfg sd"
      "reg sd' n i = (if n = m \<and> i = j then map_option (\<lambda>x. x\<lparr>active_connections := c\<rparr>) (reg sd n i) else reg sd n i)"
      using connections_reg [OF inv, of m j c] by blast
    then have "\<exists>y. reg sd' n i = Some y \<and> healthy y \<and> last_heartbeat y = hb" using x by (cases "n = m \<and> i = j") simp_all
    then show ?thesis using Op_connections keep [of sd'] inv' r h by simp
  next
    case (Op_callback cb ud)
    have "reg (sd\<lparr>callbacks := c\<rparr>) = reg sd" for c by (rule reg_cong) simp
    then show ?thesis
      using Op_callback keep inv' x h by (auto simp: sd_register_event_callback_def)
  qed (use query keep inv' inv x h in
       \<open>auto simp: sd_get_dependencies_def sd_check_dependencies_def sd_get_stats_def refresh_same Let_def split_beta\<close>)
qed

lemma beat_alive:
  assumes al: "alive cfg n i hb h"
  shows "alive cfg n i now (snd (sd_step be h (now, Op_heartbeat n i)))"
proof -
  from al obtain sd x where h: "h = Some sd" and inv: "sd_inv sd" and cfg: "sd_cfg sd = cfg"
    and x: "reg sd n i = Some x" "healthy x" by (auto simp: alive_def split: option.splits)
  have "handle_inv (snd (sd_step be h (now, Op_heartbeat n i)))"
    using step_keeps [of h "(now, Op_heartbeat n i)"] inv h by (simp add: sd_op_ok_def)
  then show ?thesis using heartbeat_reg [OF inv, of now n i] x cfg h by (auto simp: alive_def)
qed

lemma run_alive:
  "alive cfg n i hb h \<Longrightarrow> in_time (expire_timeout_ms cfg) n i hb ops \<Longrightarrow>
   alive cfg n i (last_beat n i hb ops) (snd (runs (sd_step be) h ops))"
proof (induction ops arbitrary: h hb)
  case (Cons tp ops)
  obtain now op where t: "tp = (now, op)" by (cases tp)
  show ?case
  proof (cases "op = Op_heartbeat n i")
    case True
    then show ?thesis
      using Cons.IH [OF beat_alive [OF Cons.prems(1), of now]] Cons.prems(2) t by (simp add: split_beta Let_def)
  next
    case False
    then show ?thesis
      using Cons.IH [OF step_alive [OF Cons.prems(1)], of now op] Cons.prems(2) t by (simp add: split_beta Let_def)
  qed
qed simp

end

subsection \<open>The shared-memory backend meets both contracts\<close>

lemma shm_deregister_all_facts:
  assumes inv: "sd_inv sd" and r: "shm_deregister_all now sd n = (err, sd')"
  shows "sd_inv sd'" and "sd_cfg sd' = sd_cfg sd"
    and "err = (if entry_of sd n = None then AIRY_ENOENT else AIRY_SUCCESS)"
    and "reg sd' m j = (if m = n then None else reg sd m j)"
proof -
  have "sd_inv sd' \<and> sd_cfg sd' = sd_cfg sd \<and> err = (if entry_of sd n = None then AIRY_ENOENT else AIRY_SUCCESS) \<and>
        reg sd' m j = (if m = n then None else reg sd m j)"
  proof (cases rule: service_index_cases [of sd n])
    case missing
    then show ?thesis using r inv by (auto simp: shm_deregister_all_def reg_def)
  next
    case (found k)
    let ?e = "(services sd ! k)\<lparr>instances := [], last_updated := now\<rparr>"
    have sd': "services sd' = (services sd)[k := ?e]" "sd_cfg sd' = sd_cfg sd" "err = AIRY_SUCCESS"
      using r found by (auto simp: shm_deregister_all_def)
    have ok: "entry_ok ?e" by (simp add: entry_ok_def)
    show ?thesis
      using replace_entry [OF inv found(2) _ ok sd'(1)] sd'(2,3) found(3,4) by (auto simp: reg_def inst_of_def)
  qed
  then show "sd_inv sd'" "sd_cfg sd' = sd_cfg sd"
    "err = (if entry_of sd n = None then AIRY_ENOENT else AIRY_SUCCESS)"
    "reg sd' m j = (if m = n then None else reg sd m j)" by blast+
qed

lemma add_instance_cfg: "sd_cfg (snd (sd_registry_add_instance now pid sd n t x tags deps)) = sd_cfg sd"
  by (auto simp: sd_registry_add_instance_def sd_entry_slot_def Let_def split: option.split)

lemma remove_instance_cfg: "sd_cfg (snd (snd (sd_registry_remove_instance now sd n i))) = sd_cfg sd"
  by (simp add: sd_registry_remove_instance_def Let_def)

lemmas shm_defs = sd_backend_shm_def shm_refresh_def shm_commit_def shm_register_def shm_deregister_def

interpretation shm: sd_memory_store sd_backend_shm
proof unfold_locales
  fix sd sd' n t x tags deps now pid r i err
  assume inv: "sd_inv sd"
  show "sd_inv (snd (be_refresh sd_backend_shm sd r))" "sd_inv (snd (be_commit sd_backend_shm sd r))"
    using inv by (simp_all add: shm_defs)
  show "sd_inv (snd (be_deregister sd_backend_shm now sd n i))"
    using remove_instance(1) [OF inv] by (simp add: shm_defs split: prod.split)
  show "sd_inv (snd (be_deregister_all sd_backend_shm now sd n))"
    using shm_deregister_all_facts(1) [OF inv] by (simp add: shm_defs) (metis prod.collapse)
  show "sd_inv (snd (be_register sd_backend_shm now pid sd n t x tags deps))" if "length n < SD_MAX_NAME_LEN"
    using add_instance(1) [OF inv that] by (simp add: shm_defs) (metis prod.collapse)
  show "err = (if sd_room sd n (instance_id x) then AIRY_SUCCESS else AIRY_ENOMEM) \<and> sd_cfg sd' = sd_cfg sd \<and>
      (\<forall>m j. reg sd' m j = (if err = AIRY_SUCCESS \<and> m = n \<and> j = instance_id x
         then Some (stamp now pid (reg sd n (instance_id x)) x) else reg sd m j))"
    if "length n < SD_MAX_NAME_LEN" "be_register sd_backend_shm now pid sd n t x tags deps = (err, sd')"
    using add_instance(2,3) [OF inv that(1)] add_instance_cfg [of now pid sd n t x tags deps] that(2)
    by (simp add: shm_defs)
  show "err = (if reg sd n i = None then AIRY_ENOENT else AIRY_SUCCESS) \<and> sd_cfg sd' = sd_cfg sd \<and>
      (\<forall>m j. reg sd' m j = (if m = n \<and> j = i then None else reg sd m j))"
    if d: "be_deregister sd_backend_shm now sd n i = (err, sd')"
  proof -
    obtain removed where r: "sd_registry_remove_instance now sd n i = (err, removed, sd')"
      using d by (auto simp: shm_defs split: prod.splits)
    show ?thesis using remove_instance(2,4) [OF inv r] remove_instance_cfg [of now sd n i] r by auto
  qed
  show "err = (if entry_of sd n = None then AIRY_ENOENT else AIRY_SUCCESS) \<and> sd_cfg sd' = sd_cfg sd \<and>
      (\<forall>m j. reg sd' m j = (if m = n then None else reg sd m j))"
    if "be_deregister_all sd_backend_shm now sd n = (err, sd')"
    using shm_deregister_all_facts(2,3,4) [OF inv] that by (simp add: shm_defs)
qed (simp_all add: shm_defs)

interpretation shm_run: machine_invariant "sd_step sd_backend_shm" handle_inv sd_op_ok
  by unfold_locales (rule shm.step_keeps)

subsection \<open>Dependencies\<close>

lemma dep_available_reg:
  assumes "sd_inv sd"
  shows "dep_available sd n \<longleftrightarrow> (\<exists>i x. reg sd n i = Some x \<and> healthy x)"
proof (cases rule: service_index_cases [of sd n])
  case missing
  then show ?thesis by (simp add: dep_available_def reg_def)
next
  case (found k)
  have "dep_available sd n \<longleftrightarrow> (\<exists>x \<in> set (instances (services sd ! k)). healthy x)"
    by (simp add: dep_available_def found list_ex_iff)
  also have "\<dots> \<longleftrightarrow> (\<exists>i x. reg sd n i = Some x \<and> healthy x)"
    using reg_members [OF assms found(4)] inst_of_set found(4) by (auto simp: reg_def)
  finally show ?thesis .
qed

lemma dep_scan_len:
  "0 < snd (dep_scan sd ts missing len) \<longleftrightarrow>
     0 < len \<or> (\<exists>t \<in> set ts. \<not> dep_available sd (skip_spaces t) \<and>
                   0 < length (skip_spaces t) \<and> length (skip_spaces t) + 2 < SD_MAX_DEPS_LEN)"
  by (induction ts arbitrary: missing len) (auto simp: Let_def)

subsection \<open>Properties of the registry operations\<close>

text \<open>The empty registry the witnesses start from.\<close>

definition sd_fresh :: sd_internal where
  "sd_fresh = the (sd_create True True sd_backend_shm None)"

lemma sd_fresh_simps [simp]:
  "services sd_fresh = []" "sd_cfg sd_fresh = sd_create_default_config" "callbacks sd_fresh = []"
  "sd_inv sd_fresh" "reg sd_fresh n i = None" "entry_of sd_fresh n = None"
  by (simp_all add: sd_fresh_def sd_create_def sd_backend_shm_def shm_init_def sd_inv_def reg_def entry_of_def)

lemma sd_register_returns:
  "\<exists>err sd' calls. sd_register be now pid (Some sd) (Some n) (Some t) (Some x) tags deps = (err, Some sd', calls)"
  by (cases "be_register be now pid sd n t x tags deps") (auto simp: sd_register_def)

lemma sd_deregister_returns:
  "\<exists>err sd' calls. sd_deregister be now (Some sd) (Some n) (Some i) = (err, Some sd', calls)"
  by (cases "be_deregister be now sd n i") (auto simp: sd_deregister_def Let_def)

lemma sd_discover_returns:
  "\<exists>err xs sd' calls. sd_discover be now (Some sd) (Some n) True mx = (err, Some xs, Some sd', calls)"
  by (cases "expire_stale_instances be now (snd (be_refresh be sd (Some n)))")
     (auto simp: sd_discover_def Let_def)

text \<open>A registry with one service \<open>llm\<close> and its instance \<open>x\<close>.\<close>

definition sd_one :: "sd_instance \<Rightarrow> sd_internal" where
  "sd_one x = sd_fresh\<lparr>services := [zero_entry\<lparr>svc_name := ''llm'', instances := [x]\<rparr>]\<rparr>"

lemma distinct_singletonD: "distinct xs \<Longrightarrow> set xs = {x} \<Longrightarrow> xs = [x]"
  by (cases xs) (auto simp: insert_eq_iff, metis insertI1 singletonD set_empty2 list.set_sel(1) subset_singletonD
      subset_insertI)

lemma sd_one_simps:
  "sd_inv (sd_one x)"
  "reg (sd_one x) n i = (if n = ''llm'' \<and> i = instance_id x then Some x else None)"
  "sd_cfg (sd_one x) = sd_create_default_config"
  by (auto simp: sd_one_def sd_inv_def entry_ok_def reg_def entry_of_def inst_of_def sd_limits)

text \<open>C14: Well-formedness of the registry. Whatever sequence of operations runs on a new handle of the
  shared-memory backend, with service names shorter than 64 characters, the registry holds at most 128
  services of different names, each with at most 8 instances of different ids.\<close>

theorem sd_run_well_formed:
  assumes "sd_create True True sd_backend_shm cfg = Some sd" and "list_all sd_op_ok ops"
  shows "case snd (runs (sd_step sd_backend_shm) (Some sd) ops) of
      None \<Rightarrow> False
    | Some sd' \<Rightarrow> length (services sd') \<le> SD_MAX_SERVICES \<and> distinct (map svc_name (services sd')) \<and>
        (\<forall>e \<in> set (services sd'). length (instances e) \<le> SD_MAX_INSTANCES \<and>
                                 distinct (map instance_id (instances e)))"
proof -
  have "sd_inv sd"
    using assms(1) by (auto simp: sd_create_def sd_backend_shm_def shm_init_def sd_inv_def)
  then have "handle_inv (snd (runs (sd_step sd_backend_shm) (Some sd) ops))"
    using shm_run.run_inv [OF _ assms(2), of "Some sd"] by simp
  then show ?thesis
    by (auto simp: handle_inv_def sd_inv_def entry_ok_def list_all_iff split: option.splits)
qed

theorem sd_run_well_formed_witness:
  "let ops = [(5, Op_register 7 ''llm'' ''compute'' (zero_instance\<lparr>instance_id := ''a''\<rparr>) None None),
              (9, Op_heartbeat ''llm'' ''a'')]
   in case snd (runs (sd_step sd_backend_shm) (Some sd_fresh) ops) of
      None \<Rightarrow> False
    | Some sd' \<Rightarrow> length (services sd') \<le> SD_MAX_SERVICES \<and> distinct (map svc_name (services sd')) \<and>
        (\<forall>e \<in> set (services sd'). length (instances e) \<le> SD_MAX_INSTANCES \<and>
                                 distinct (map instance_id (instances e)))"
  unfolding Let_def
  by (rule sd_run_well_formed [of None])
     (simp_all add: sd_fresh_def sd_create_def sd_backend_shm_def shm_init_def sd_op_ok_def sd_limits)

text \<open>Registration is a map update. For a name shorter than 64 characters \<open>Sd_register\<close> succeeds
  exactly when the instance is already registered, or its service is known and has a free slot, or the
  service is new and the table has one; it then stores the instance with the heartbeat set to the
  current time, changes no other instance, and tells every callback. Otherwise it returns
  \<open>AIRY_ENOMEM\<close>, changes no instance and calls nothing.\<close>

theorem sd_register_updates:
  assumes "sd_inv sd" and "length n < SD_MAX_NAME_LEN"
    and "sd_register sd_backend_shm now pid (Some sd) (Some n) (Some t) (Some x) tags deps = (err, Some sd', calls)"
  shows "err = (if sd_room sd n (instance_id x) then AIRY_SUCCESS else AIRY_ENOMEM) \<and>
         (\<forall>m j. reg sd' m j = (if sd_room sd n (instance_id x) \<and> m = n \<and> j = instance_id x
            then Some (stamp now pid (reg sd n (instance_id x)) x) else reg sd m j)) \<and>
         map (\<lambda>(cb, ev, ud). ev) calls =
           (if sd_room sd n (instance_id x)
            then replicate (length (callbacks sd')) (SD_EVENT_REGISTERED, n, x) else [])"
proof -
  obtain err1 sd1 where r: "be_register sd_backend_shm now pid sd n t x tags deps = (err1, sd1)" by fastforce
  have "err = err1" "sd' = sd1"
    "calls = (if err1 = AIRY_SUCCESS then sd_notify_event sd1 (SD_EVENT_REGISTERED, n, x) else [])"
    using assms(3) by (auto simp: sd_register_def r split: if_splits)
  moreover have "map (\<lambda>(cb, ev, ud). ev) (sd_notify_event sd1 ev) = replicate (length (callbacks sd1)) ev" for ev
    by (induction "callbacks sd1") (auto simp: sd_notify_event_def comp_def split_beta map_replicate_const)
  ultimately show ?thesis using shm.register_map [OF assms(1,2) r] by (auto simp: err_codes)
qed

theorem sd_register_updates_witness:
  "\<exists>sd' calls. let x = zero_instance\<lparr>instance_id := ''a'', healthy := True\<rparr> in
     sd_register sd_backend_shm 5 7 (Some sd_fresh) (Some ''llm'') (Some ''compute'') (Some x) None None =
       (AIRY_SUCCESS, Some sd', calls) \<and> reg sd' ''llm'' ''a'' = Some (stamp 5 7 None x)"
proof -
  let ?x = "zero_instance\<lparr>instance_id := ''a'', healthy := True\<rparr>"
  obtain err sd' calls where r: "sd_register sd_backend_shm 5 7 (Some sd_fresh) (Some ''llm'') (Some ''compute'')
      (Some ?x) None None = (err, Some sd', calls)"
    using sd_register_returns by blast
  from sd_register_updates [OF _ _ this] show ?thesis
    using r by (auto simp: sd_room_def sd_limits)
qed

text \<open>Deregistration is a map deletion. \<open>Sd_deregister\<close> returns \<open>AIRY_ENOENT\<close> exactly when the
  instance is not registered; otherwise it removes that instance and no other one, and every callback
  hears of the instance that was removed.\<close>

theorem sd_deregister_deletes:
  assumes "sd_inv sd"
    and "sd_deregister sd_backend_shm now (Some sd) (Some n) (Some i) = (err, Some sd', calls)"
  shows "err = (if reg sd n i = None then AIRY_ENOENT else AIRY_SUCCESS) \<and>
         (\<forall>m j. reg sd' m j = (if m = n \<and> j = i then None else reg sd m j)) \<and>
         (\<forall>(cb, (ev, m, x), ud) \<in> set calls. ev = SD_EVENT_DEREGISTERED \<and> m = n \<and> reg sd n i = Some x)"
proof -
  obtain err1 sd1 where r: "be_deregister sd_backend_shm now sd n i = (err1, sd1)" by fastforce
  note d = shm.deregister_map [OF assms(1) r]
  define removed where "removed =
    (if 0 \<le> find_service_index sd n then
       let entry = services sd ! nat (find_service_index sd n); inst_idx = find_instance_index entry i in
       if 0 \<le> inst_idx then instances entry ! nat inst_idx else zero_instance
     else zero_instance)"
  have eqs: "err = err1" "sd' = sd1"
    "calls = (if err1 = AIRY_SUCCESS then sd_notify_event sd1 (SD_EVENT_DEREGISTERED, n, removed) else [])"
    using assms(2) by (auto simp: sd_deregister_def r removed_def Let_def split: if_splits)
  have "reg sd n i = Some removed" if "reg sd n i \<noteq> None"
  proof (cases rule: service_index_cases [of sd n])
    case missing
    then show ?thesis using that by (simp add: reg_def)
  next
    case (found k)
    then show ?thesis using that
      by (cases rule: instance_index_cases [of "services sd ! k" i]) (auto simp: reg_def removed_def)
  qed
  then show ?thesis using d eqs by (auto simp: sd_notify_event_def err_codes split: if_splits)
qed

theorem sd_deregister_deletes_witness:
  "fst (sd_deregister sd_backend_shm 5 (Some sd_fresh) (Some ''llm'') (Some ''a'')) = AIRY_ENOENT"
proof -
  obtain err sd' calls where r: "sd_deregister sd_backend_shm 5 (Some sd_fresh) (Some ''llm'') (Some ''a'') =
      (err, Some sd', calls)"
    using sd_deregister_returns by blast
  from sd_deregister_deletes [OF _ this] r show ?thesis by simp
qed

text \<open>C13: Discovery is exact. With room for eight results, \<open>sd_discover\<close> at time \<open>now\<close> returns, without
  repetition, exactly the instances registered for the service that are healthy and, when automatic
  expiry is on, have had a heartbeat within the timeout; and the state it leaves holds exactly the
  unexpired instances of every service.\<close>

theorem sd_discover_exact:
  assumes "sd_inv sd" and "SD_MAX_INSTANCES \<le> unat mx"
    and "sd_discover sd_backend_shm now (Some sd) (Some n) True mx = (err, Some xs, Some sd', calls)"
  shows "distinct xs \<and>
         set xs = {x. healthy x \<and> live_reg sd now n (instance_id x) = Some x} \<and>
         (\<forall>m i. reg sd' m i = live_reg sd now m i)"
  using shm.discover_live [OF assms] by blast

theorem sd_discover_exact_witness:
  "let x = zero_instance\<lparr>instance_id := ''a'', healthy := True, last_heartbeat := 5\<rparr> in
   fst (snd (sd_discover sd_backend_shm 9 (Some (sd_one x)) (Some ''llm'') True 8)) = Some [x]"
proof -
  let ?x = "zero_instance\<lparr>instance_id := ''a'', healthy := True, last_heartbeat := 5\<rparr>"
  obtain err xs sd' calls where r: "sd_discover sd_backend_shm 9 (Some (sd_one ?x)) (Some ''llm'') True 8 =
      (err, Some xs, Some sd', calls)"
    using sd_discover_returns by blast
  have "live_reg (sd_one ?x) 9 ''llm'' i = (if i = ''a'' then Some ?x else None)" for i
    by (simp add: live_reg_def live_def sd_one_simps is_instance_expired_def sd_create_default_config_def
        SD_DEFAULT_EXPIRE_MS_def)
  moreover have "distinct xs \<and> set xs = {x. healthy x \<and> live_reg (sd_one ?x) 9 ''llm'' (instance_id x) = Some x}"
    using sd_discover_exact [OF sd_one_simps(1) _ r] by (simp add: sd_limits)
  ultimately have "distinct xs \<and> set xs = {?x}" by (auto split: if_splits)
  then have "xs = [?x]" by (auto intro: distinct_singletonD)
  then show ?thesis using r by simp
qed

text \<open>C25: Selection is safe. Whatever the strategy and the random number, \<open>sd_select_instance\<close> delivers
  an instance exactly when it returns \<open>AIRY_SUCCESS\<close>, and that instance is registered for the service,
  healthy and not expired. Round robin and random choice never fail while such an instance exists.\<close>

theorem sd_select_safe:
  assumes "sd_inv sd"
    and "sd_select_instance sd_backend_shm now rnd (Some sd) (Some n) strategy True = (err, y, h', calls)"
  shows "(y \<noteq> None) = (err = AIRY_SUCCESS) \<and>
         (\<forall>x. y = Some x \<longrightarrow> healthy x \<and> live_reg sd now n (instance_id x) = Some x) \<and>
         (strategy \<in> {SD_LB_ROUND_ROBIN, SD_LB_RANDOM} \<and>
          (\<exists>x. healthy x \<and> live_reg sd now n (instance_id x) = Some x) \<longrightarrow> err = AIRY_SUCCESS)"
  using shm.select_live [OF assms] by blast

theorem sd_select_safe_witness:
  "let x = zero_instance\<lparr>instance_id := ''a'', healthy := True, last_heartbeat := 5\<rparr> in
   fst (snd (sd_select_instance sd_backend_shm 9 1 (Some (sd_one x)) (Some ''llm'') SD_LB_RANDOM True)) = Some x"
proof -
  let ?x = "zero_instance\<lparr>instance_id := ''a'', healthy := True, last_heartbeat := 5\<rparr>"
  obtain err y h' calls where r: "sd_select_instance sd_backend_shm 9 1 (Some (sd_one ?x)) (Some ''llm'')
      SD_LB_RANDOM True = (err, y, h', calls)"
    using prod_cases4 by blast
  have lv: "live_reg (sd_one ?x) 9 ''llm'' i = (if i = ''a'' then Some ?x else None)" for i
    by (simp add: live_reg_def live_def sd_one_simps is_instance_expired_def sd_create_default_config_def
        SD_DEFAULT_EXPIRE_MS_def)
  then have "\<exists>x. healthy x \<and> live_reg (sd_one ?x) 9 ''llm'' (instance_id x) = Some x"
    by (intro exI [of _ ?x]) simp
  with sd_select_safe [OF sd_one_simps(1) r] obtain z where "y = Some z"
    "live_reg (sd_one ?x) 9 ''llm'' (instance_id z) = Some z" by auto
  then show ?thesis using r lv by (simp split: if_splits)
qed

text \<open>Dependency check. \<open>Sd_check_dependencies\<close> reports a missing dependency exactly when some name
  of the comma-separated list (leading spaces skipped, non-empty, short enough for the report buffer) has
  no healthy instance registered. Expired instances count: the check does not sweep.\<close>

theorem sd_check_dependencies_exact:
  assumes "sd_inv sd" and "entry_of sd n = Some e" and "length (svc_dependencies e) < SD_MAX_DEPS_LEN"
  shows "fst (sd_check_dependencies sd_backend_shm (Some sd) (Some n) outs max_len) =
         (if \<exists>t \<in> set (strtok_all (\<lambda>c. c = CHR '','') (svc_dependencies e)).
               0 < length (skip_spaces t) \<and> length (skip_spaces t) + 2 < SD_MAX_DEPS_LEN \<and>
               \<not> (\<exists>i x. reg sd (skip_spaces t) i = Some x \<and> healthy x)
          then AIRY_ERR_SVC_DEPENDENCY else AIRY_SUCCESS)"
proof (cases rule: service_index_cases [of sd n])
  case missing
  then show ?thesis using assms(2) by simp
next
  case (found k)
  then have e: "services sd ! k = e" using assms(2) by simp
  let ?ts = "strtok_all (\<lambda>c. c = CHR '','') (svc_dependencies e)"
  show ?thesis
    using dep_scan_len [of sd ?ts "[]" 0] dep_available_reg [OF assms(1)] found assms(3)
    by (auto simp: sd_check_dependencies_def shm.refresh_same e str_fit_id Let_def split_beta)
qed

theorem sd_check_dependencies_exact_witness:
  "\<exists>sd. fst (sd_check_dependencies sd_backend_shm (Some sd) (Some ''web'') True 64) = AIRY_ERR_SVC_DEPENDENCY"
proof -
  let ?e = "zero_entry\<lparr>svc_name := ''web'', svc_dependencies := '' db''\<rparr>"
  let ?sd = "sd_fresh\<lparr>services := [?e]\<rparr>"
  have "sd_inv ?sd" by (simp add: sd_inv_def entry_ok_def zero_entry_def sd_limits)
  moreover have e: "entry_of ?sd ''web'' = Some ?e" by (simp add: entry_of_def)
  moreover have "strtok_all (\<lambda>c. c = CHR '','') (svc_dependencies ?e) = ['' db'']"
    by (simp add: strtok_all.simps)
  moreover have "reg ?sd ''db'' i = None" for i by (simp add: reg_def entry_of_def)
  ultimately show ?thesis
    using sd_check_dependencies_exact [of ?sd "''web''" ?e True 64]
    by (intro exI [of _ ?sd]) (simp add: skip_spaces_def sd_limits)
qed

end
