(* ===== verification/Service_Helper.thy ===== *)
theory Service_Helper
  imports Service_Machine
begin

section \<open>Service discovery: daemon helper and bootstrap\<close>

text \<open>
  The convenience layer \<open>utils/sd/service_discovery_helper.c\<close> (registration of the own daemon,
  heartbeats, lookups) and \<open>utils/sd/daemon_bootstrap_sd.c\<close>, over the operations of
  \<open>Service_Discovery\<close>. The heartbeat thread is present as its loop body: the sleep in steps of 500 ms
  and the heartbeat it then sends; whether \<open>airy_thread_create\<close> succeeds is an argument.
\<close>

definition SDH_MAX_ENDPOINT_LEN :: nat where "SDH_MAX_ENDPOINT_LEN = 256"

record sd_helper =
  hp_sd :: "sd_internal option"
  hp_config :: sd_config
  hp_service_name :: cstr
  hp_instance_id :: cstr
  registered :: bool
  heartbeat_thread :: bool
  heartbeat_running :: bool
  hp_heartbeat_interval_ms :: u32

subsection \<open>Heartbeat loop\<close>

text \<open>The steps of 500 ms slept before a heartbeat when the helper is not stopped meanwhile:
  \<open>elapsed\<close> runs from 0 while it is below the total_ms.\<close>

definition heartbeat_total :: "u32 \<Rightarrow> int" where
  "heartbeat_total interval = (let total_ms = sint interval in if total_ms \<le> 0 then 10000 else total_ms)"

function sleep_steps :: "int \<Rightarrow> int \<Rightarrow> nat" where
  "sleep_steps total_ms elapsed = (if elapsed < total_ms then Suc (sleep_steps total_ms (elapsed + 500)) else 0)"
  by pat_completeness auto
termination
  by (relation "measure (\<lambda>(t, e). nat (t - e))") auto

declare sleep_steps.simps [simp del]

definition heartbeat_sleep_ms :: "sd_helper \<Rightarrow> int" where
  "heartbeat_sleep_ms sdh = 500 * int (sleep_steps (heartbeat_total (hp_heartbeat_interval_ms sdh)) 0)"

text \<open>The rest of the loop body at time \<open>now\<close>.\<close>

definition heartbeat_beat :: "sd_backend \<Rightarrow> u64 \<Rightarrow> sd_helper \<Rightarrow> sd_helper" where
  "heartbeat_beat be now sdh =
     (if \<not> heartbeat_running sdh then sdh
      else if registered sdh \<and> hp_service_name sdh \<noteq> [] then
        sdh\<lparr>hp_sd := snd (sd_heartbeat be now (hp_sd sdh) (Some (hp_service_name sdh)) (Some (hp_instance_id sdh)))\<rparr>
      else sdh)"

subsection \<open>Life cycle\<close>

text \<open>\<open>mem\<close>, \<open>sd_mem\<close>, \<open>mtx\<close>: the allocations of the helper and of the handle and the mutex
  initialisation succeed.\<close>

definition sd_helper_init :: "bool \<Rightarrow> bool \<Rightarrow> bool \<Rightarrow> sd_backend \<Rightarrow> sd_config option \<Rightarrow> sd_helper option" where
  "sd_helper_init mem sd_mem mtx be config =
     (if \<not> mem then None
      else
        let cfg = (case config of Some c \<Rightarrow> c | None \<Rightarrow> sd_create_default_config) in
        case sd_create sd_mem mtx be (Some cfg) of
          None \<Rightarrow> None
        | Some sd \<Rightarrow>
            let (err, h) = sd_start (Some sd) in
            if err \<noteq> AIRY_SUCCESS then None
            else Some \<lparr>hp_sd = h, hp_config = cfg, hp_service_name = [], hp_instance_id = [],
                   registered = False, heartbeat_thread = False, heartbeat_running = False,
                   hp_heartbeat_interval_ms = heartbeat_interval_ms cfg\<rparr>)"

definition sd_helper_stop_heartbeat :: "sd_helper option \<Rightarrow> sd_helper option" where
  "sd_helper_stop_heartbeat h =
     (case h of None \<Rightarrow> None
      | Some sdh \<Rightarrow>
          if \<not> heartbeat_running sdh then Some sdh
          else Some (sdh\<lparr>heartbeat_running := False, heartbeat_thread := False\<rparr>))"

text \<open>The result is the registry state that is freed with the handle, and the callback calls.\<close>

definition sd_helper_shutdown ::
  "sd_backend \<Rightarrow> u64 \<Rightarrow> sd_helper option \<Rightarrow> sd_internal option \<times> sd_call list" where
  "sd_helper_shutdown be now h =
     (case sd_helper_stop_heartbeat h of None \<Rightarrow> (None, [])
      | Some sdh \<Rightarrow>
          let (h1, calls) =
                (if registered sdh \<and> hp_service_name sdh \<noteq> [] then
                   let (err, h', cs) = sd_deregister be now (hp_sd sdh) (Some (hp_service_name sdh))
                                         (Some (hp_instance_id sdh)) in (h', cs)
                 else (hp_sd sdh, []))
          in (sd_destroy be h1, calls))"

subsection \<open>Registration\<close>

definition build_endpoint :: "nat \<Rightarrow> cstr \<Rightarrow> 16 word \<Rightarrow> cstr" where
  "build_endpoint buf_size host port = str_fit buf_size (host @ '':'' @ dec_nat (unat port))"

definition build_instance_id :: "nat \<Rightarrow> u32 \<Rightarrow> cstr \<Rightarrow> cstr \<Rightarrow> cstr" where
  "build_instance_id buf_size pid name ep = str_fit buf_size (name @ ''-'' @ ep @ ''-'' @ dec_nat (unat pid))"

text \<open>The instance both registrations fill in.\<close>

definition helper_instance :: "u64 \<Rightarrow> u32 \<Rightarrow> cstr \<Rightarrow> cstr \<Rightarrow> sd_instance" where
  "helper_instance now pid iid ep = zero_instance\<lparr>
     instance_id := str_fit SD_MAX_NAME_LEN iid, endpoint := str_fit SDH_MAX_ENDPOINT_LEN ep,
     inst_state := AIRY_SVC_STATE_RUNNING, healthy := True, weight := 100, active_connections := 0,
     max_connections := 1024, last_heartbeat := now, register_time := now, inst_pid := pid\<rparr>"

definition helper_enrol ::
  "sd_backend \<Rightarrow> u64 \<Rightarrow> u32 \<Rightarrow> sd_helper \<Rightarrow> cstr \<Rightarrow> cstr \<Rightarrow> cstr \<Rightarrow> sd_instance \<Rightarrow> cstr option \<Rightarrow>
   airy_err \<times> sd_helper \<times> sd_call list" where
  "helper_enrol be now pid sdh name type iid inst tags =
     (let (err, h, calls) = sd_register be now pid (hp_sd sdh) (Some name) (Some type) (Some inst)
            (Some (case tags of Some t \<Rightarrow> t | None \<Rightarrow> [])) (Some [])
      in if err \<noteq> AIRY_SUCCESS then (AIRY_ERR_GENERIC_FAIL, sdh\<lparr>hp_sd := h\<rparr>, calls)
         else (0, sdh\<lparr>hp_sd := h, hp_service_name := str_fit SD_MAX_NAME_LEN name,
                      hp_instance_id := str_fit SD_MAX_NAME_LEN iid, registered := True\<rparr>, calls))"

definition sd_helper_register ::
  "sd_backend \<Rightarrow> u64 \<Rightarrow> u32 \<Rightarrow> sd_helper option \<Rightarrow> cstr option \<Rightarrow> cstr option \<Rightarrow> cstr option \<Rightarrow> 16 word \<Rightarrow>
   cstr option \<Rightarrow> u32 \<Rightarrow> airy_err \<times> sd_helper option \<times> sd_call list" where
  "sd_helper_register be now pid h name type host port tags ttl_ms =
     (case (h, name, type, host) of
        (Some sdh, Some n, Some t, Some ho) \<Rightarrow>
          (let ep = build_endpoint SDH_MAX_ENDPOINT_LEN ho port;
               iid = build_instance_id SD_MAX_NAME_LEN pid n ep;
               (err, sdh', calls) = helper_enrol be now pid sdh n t iid (helper_instance now pid iid ep) tags
           in (err, Some sdh', calls))
      | _ \<Rightarrow> (AIRY_ERR_INVALID_PARAM, h, []))"

definition sd_helper_register_unix ::
  "sd_backend \<Rightarrow> u64 \<Rightarrow> u32 \<Rightarrow> sd_helper option \<Rightarrow> cstr option \<Rightarrow> cstr option \<Rightarrow> cstr option \<Rightarrow>
   cstr option \<Rightarrow> u32 \<Rightarrow> airy_err \<times> sd_helper option \<times> sd_call list" where
  "sd_helper_register_unix be now pid h name type socket_path tags ttl_ms =
     (case (h, name, type, socket_path) of
        (Some sdh, Some n, Some t, Some sp) \<Rightarrow>
          (let iid = str_fit SD_MAX_NAME_LEN (n @ ''-'' @ sp @ ''-'' @ dec_nat (unat pid));
               (err, sdh', calls) = helper_enrol be now pid sdh n t iid (helper_instance now pid iid sp) tags
           in (err, Some sdh', calls))
      | _ \<Rightarrow> (AIRY_ERR_INVALID_PARAM, h, []))"

definition sd_helper_start_heartbeat :: "bool \<Rightarrow> sd_helper option \<Rightarrow> airy_err \<times> sd_helper option" where
  "sd_helper_start_heartbeat thread_ok h =
     (case h of None \<Rightarrow> (AIRY_ERR_INVALID_PARAM, None)
      | Some sdh \<Rightarrow>
          if heartbeat_running sdh then (0, h)
          else if \<not> registered sdh then (AIRY_ERR_STATE_ERROR, h)
          else if \<not> thread_ok then (AIRY_ERR_SYS_THREAD, Some (sdh\<lparr>heartbeat_running := False\<rparr>))
          else (0, Some (sdh\<lparr>heartbeat_running := True, heartbeat_thread := True\<rparr>)))"

definition sd_helper_send_heartbeat :: "sd_backend \<Rightarrow> u64 \<Rightarrow> sd_helper option \<Rightarrow> airy_err \<times> sd_helper option" where
  "sd_helper_send_heartbeat be now h =
     (case h of None \<Rightarrow> (AIRY_ERR_INVALID_PARAM, None)
      | Some sdh \<Rightarrow>
          if \<not> registered sdh then (AIRY_ERR_INVALID_PARAM, h)
          else
            let (err, s) = sd_heartbeat be now (hp_sd sdh) (Some (hp_service_name sdh)) (Some (hp_instance_id sdh))
            in (if err = AIRY_SUCCESS then 0 else - 1, Some (sdh\<lparr>hp_sd := s\<rparr>)))"

subsection \<open>Lookups\<close>

definition sd_helper_find ::
  "sd_backend \<Rightarrow> u64 \<Rightarrow> sd_helper option \<Rightarrow> cstr option \<Rightarrow> bool \<Rightarrow> u32 \<Rightarrow>
   airy_err \<times> sd_instance list option \<times> sd_helper option" where
  "sd_helper_find be now h service_name outs max_count =
     (case (h, service_name, outs) of
        (Some sdh, Some n, True) \<Rightarrow>
          (let (err, xs, s, calls) = sd_discover be now (hp_sd sdh) (Some n) True max_count
           in (if err = AIRY_SUCCESS then 0 else - 1, xs, Some (sdh\<lparr>hp_sd := s\<rparr>)))
      | _ \<Rightarrow> (AIRY_ERR_INVALID_PARAM, None, h))"

definition sd_helper_select_with_strategy ::
  "sd_backend \<Rightarrow> u64 \<Rightarrow> u32 \<Rightarrow> sd_helper option \<Rightarrow> cstr option \<Rightarrow> sd_lb_strategy \<Rightarrow> bool \<Rightarrow>
   airy_err \<times> sd_instance option \<times> sd_helper option" where
  "sd_helper_select_with_strategy be now rnd h service_name strategy outs =
     (case (h, service_name, outs) of
        (Some sdh, Some n, True) \<Rightarrow>
          (let (err, x, s, calls) = sd_select_instance be now rnd (hp_sd sdh) (Some n) strategy True
           in (if err = AIRY_SUCCESS then 0 else - 1, x, Some (sdh\<lparr>hp_sd := s\<rparr>)))
      | _ \<Rightarrow> (AIRY_ERR_INVALID_PARAM, None, h))"

text \<open>The helper pointer is dereferenced before the NULL test: \<open>None\<close> is a fault.\<close>

definition sd_helper_select ::
  "sd_backend \<Rightarrow> u64 \<Rightarrow> u32 \<Rightarrow> sd_helper option \<Rightarrow> cstr option \<Rightarrow> bool \<Rightarrow>
   (airy_err \<times> sd_instance option \<times> sd_helper option) option" where
  "sd_helper_select be now rnd h service_name outs =
     (case h of None \<Rightarrow> None
      | Some sdh \<Rightarrow> Some (sd_helper_select_with_strategy be now rnd h service_name
                           (default_lb_strategy (hp_config sdh)) outs))"

definition sd_helper_get_sd :: "sd_helper option \<Rightarrow> sd_internal option" where
  "sd_helper_get_sd h = (case h of Some sdh \<Rightarrow> hp_sd sdh | None \<Rightarrow> None)"

definition sd_helper_is_running :: "sd_helper option \<Rightarrow> bool" where
  "sd_helper_is_running h = (case h of Some sdh \<Rightarrow> sd_is_running (hp_sd sdh) | None \<Rightarrow> False)"

definition sd_helper_service_count :: "sd_backend \<Rightarrow> sd_helper option \<Rightarrow> u32" where
  "sd_helper_service_count be h =
     (case h of Some sdh \<Rightarrow> fst (sd_service_count be (hp_sd sdh)) | None \<Rightarrow> 0)"

subsection \<open>Bootstrap\<close>

record daemon_bootstrap_sd =
  bs_sdh :: "sd_helper option"
  bs_running :: bool
  bs_service_name :: cstr

text \<open>What both start functions do after the registration: the heartbeat may fail to start.\<close>

definition bootstrap_finish :: "bool \<Rightarrow> cstr \<Rightarrow> sd_helper option \<Rightarrow> daemon_bootstrap_sd" where
  "bootstrap_finish thread_ok name h =
     \<lparr>bs_sdh = snd (sd_helper_start_heartbeat thread_ok h), bs_running = True,
      bs_service_name = str_fit 64 name\<rparr>"

definition daemon_bootstrap_sd_start ::
  "bool \<Rightarrow> bool \<Rightarrow> sd_backend \<Rightarrow> u64 \<Rightarrow> u32 \<Rightarrow> cstr option \<Rightarrow> cstr option \<Rightarrow> cstr option \<Rightarrow> 16 word \<Rightarrow>
   cstr option \<Rightarrow> u32 \<Rightarrow> daemon_bootstrap_sd option" where
  "daemon_bootstrap_sd_start mem thread_ok be now pid name type host port tags ttl_ms =
     (case (name, type) of
        (Some n, Some t) \<Rightarrow>
          (if (host = None \<and> port = 0) \<or> \<not> mem then None
           else
             case sd_helper_init mem mem mem be None of
               None \<Rightarrow> None
             | Some sdh \<Rightarrow>
                 let (err, h, calls) =
                   (if host \<noteq> None \<and> 0 < port
                    then sd_helper_register be now pid (Some sdh) name type host port tags ttl_ms
                    else sd_helper_register_unix be now pid (Some sdh) name type
                           (case host of Some s \<Rightarrow> Some s | None \<Rightarrow> name) tags ttl_ms)
                 in if err \<noteq> 0 then None else Some (bootstrap_finish thread_ok n h))
      | _ \<Rightarrow> None)"

definition daemon_bootstrap_sd_start_unix ::
  "bool \<Rightarrow> bool \<Rightarrow> sd_backend \<Rightarrow> u64 \<Rightarrow> u32 \<Rightarrow> cstr option \<Rightarrow> cstr option \<Rightarrow> cstr option \<Rightarrow>
   cstr option \<Rightarrow> u32 \<Rightarrow> daemon_bootstrap_sd option" where
  "daemon_bootstrap_sd_start_unix mem thread_ok be now pid name type socket_path tags ttl_ms =
     (case (name, type, socket_path) of
        (Some n, Some t, Some sp) \<Rightarrow>
          (if \<not> mem then None
           else
             case sd_helper_init mem mem mem be None of
               None \<Rightarrow> None
             | Some sdh \<Rightarrow>
                 let (err, h, calls) = sd_helper_register_unix be now pid (Some sdh) name type socket_path tags ttl_ms
                 in if err \<noteq> 0 then None else Some (bootstrap_finish thread_ok n h))
      | _ \<Rightarrow> None)"

definition daemon_bootstrap_sd_stop ::
  "sd_backend \<Rightarrow> u64 \<Rightarrow> daemon_bootstrap_sd option \<Rightarrow> sd_internal option \<times> sd_call list" where
  "daemon_bootstrap_sd_stop be now b =
     (case b of None \<Rightarrow> (None, []) | Some bsd \<Rightarrow> sd_helper_shutdown be now (bs_sdh bsd))"

definition daemon_bootstrap_sd_get_helper :: "daemon_bootstrap_sd option \<Rightarrow> sd_helper option" where
  "daemon_bootstrap_sd_get_helper b = (case b of Some bsd \<Rightarrow> bs_sdh bsd | None \<Rightarrow> None)"

definition daemon_bootstrap_sd_is_running :: "daemon_bootstrap_sd option \<Rightarrow> bool" where
  "daemon_bootstrap_sd_is_running b = (case b of Some bsd \<Rightarrow> bs_running bsd | None \<Rightarrow> False)"

subsection \<open>What the layer guarantees\<close>

lemma sleep_steps_bound:
  "elapsed < total_ms \<Longrightarrow> total_ms \<le> elapsed + 500 * int (sleep_steps total_ms elapsed) \<and>
     elapsed + 500 * int (sleep_steps total_ms elapsed) < total_ms + 500"
proof (induction total_ms elapsed rule: sleep_steps.induct)
  case (1 total_ms elapsed)
  then show ?case
    by (cases "elapsed + 500 < total_ms")
       (auto simp: sleep_steps.simps [of total_ms elapsed] sleep_steps.simps [of total_ms "elapsed + 500"])
qed

lemma heartbeat_sleep_bound:
  assumes "0 < sint (hp_heartbeat_interval_ms sdh)"
  shows "sint (hp_heartbeat_interval_ms sdh) \<le> heartbeat_sleep_ms sdh \<and>
         heartbeat_sleep_ms sdh < sint (hp_heartbeat_interval_ms sdh) + 500"
  using sleep_steps_bound [of 0 "sint (hp_heartbeat_interval_ms sdh)"] assms
  by (simp add: heartbeat_sleep_ms_def heartbeat_total_def Let_def)

lemma str_fit_idem [simp]: "str_fit n (str_fit n s) = str_fit n s"
  by (simp add: str_fit_def)

lemma register_alive:
  assumes "sd_inv sd" and "length n < SD_MAX_NAME_LEN" and "healthy x"
    and r: "sd_register sd_backend_shm t pid (Some sd) (Some n) (Some ty) (Some x) tags deps =
            (AIRY_SUCCESS, h, calls)"
  shows "alive (sd_cfg sd) n (instance_id x) t h"
proof -
  obtain err sd' where b: "be_register sd_backend_shm t pid sd n ty x tags deps = (err, sd')" by fastforce
  have e: "err = AIRY_SUCCESS" "h = Some sd'" using r by (auto simp: sd_register_def b split: if_splits)
  have "sd_inv sd'" using shm.register_inv [OF assms(1,2), of t pid ty x tags deps] b by simp
  moreover have "sd_cfg sd' = sd_cfg sd" "reg sd' n (instance_id x) = Some (stamp t pid (reg sd n (instance_id x)) x)"
    using shm.register_map [OF assms(1,2) b] e by auto
  ultimately show ?thesis using assms(3) e by (simp add: alive_def stamp_def)
qed

text \<open>C9: Heartbeats in time keep an instance discoverable. Register a healthy instance at time \<open>t\<close> under
  a name of fewer than 64 characters; then let any clients run any operations, except that none
  deregisters it or its whole service, registers it anew or sets its health, and that no service is
  registered under a name of 64 characters or more; every operation but the heartbeats of the instance
  comes within the expiry timeout of its last heartbeat. A discovery that is also within the timeout of
  the last heartbeat and has room for all instances returns the instance.\<close>

theorem sd_heartbeat_keeps_discoverable:
  assumes "sd_inv sd" and "length n < SD_MAX_NAME_LEN" and "healthy x"
    and "sd_register sd_backend_shm t pid (Some sd) (Some n) (Some ty) (Some x) tags deps = (AIRY_SUCCESS, h, calls)"
    and "in_time (expire_timeout_ms (sd_cfg sd)) n (instance_id x) t ops"
    and "now - last_beat n (instance_id x) t ops \<le> ucast (expire_timeout_ms (sd_cfg sd))"
    and "SD_MAX_INSTANCES \<le> unat mx"
  shows "\<exists>xs. fst (snd (sd_discover sd_backend_shm now (snd (runs (sd_step sd_backend_shm) h ops)) (Some n) True mx)) =
              Some xs \<and> instance_id x \<in> instance_id ` set xs"
proof -
  let ?i = "instance_id x"
  have "alive (sd_cfg sd) n ?i (last_beat n ?i t ops) (snd (runs (sd_step sd_backend_shm) h ops))"
    using shm.run_alive [OF register_alive [OF assms(1-4)] assms(5)] .
  then obtain sd' y where h': "snd (runs (sd_step sd_backend_shm) h ops) = Some sd'" and inv: "sd_inv sd'"
    and cfg: "sd_cfg sd' = sd_cfg sd"
    and y: "reg sd' n ?i = Some y" "healthy y" "last_heartbeat y = last_beat n ?i t ops"
    by (auto simp: alive_def split: option.splits)
  obtain err xs sd2 cs where d: "sd_discover sd_backend_shm now (Some sd') (Some n) True mx = (err, Some xs, Some sd2, cs)"
    using sd_discover_returns by blast
  have id: "instance_id y = ?i" using y(1) inst_of_set by (auto simp: reg_def split: option.splits)
  have "live_reg sd' now n ?i = Some y"
    using y assms(6) cfg by (auto simp: live_reg_def live_def is_instance_expired_def dest: leD)
  then have "y \<in> set xs" using shm.discover_live(2) [OF inv assms(7) d] y(2) id by simp
  then have "?i \<in> instance_id ` set xs" using id by (metis imageI)
  then show ?thesis using h' d by simp
qed

theorem sd_heartbeat_keeps_discoverable_witness:
  "let x = zero_instance\<lparr>instance_id := ''a'', healthy := True\<rparr>;
       h = fst (snd (sd_register sd_backend_shm 5 7 (Some sd_fresh) (Some ''llm'') (Some ''c'') (Some x) None None));
       ops = [(20000, Op_heartbeat ''llm'' ''a''), (40000, Op_discover ''llm'' 8), (45000, Op_deregister ''llm'' ''b'')]
   in \<exists>xs. fst (snd (sd_discover sd_backend_shm 50000 (snd (runs (sd_step sd_backend_shm) h ops)) (Some ''llm'') True 8)) =
          Some xs \<and> ''a'' \<in> instance_id ` set xs"
proof -
  let ?x = "zero_instance\<lparr>instance_id := ''a'', healthy := True\<rparr>"
  obtain err sd' calls where r: "sd_register sd_backend_shm 5 7 (Some sd_fresh) (Some ''llm'') (Some ''c'') (Some ?x) None None
      = (err, Some sd', calls)"
    using sd_register_returns by blast
  have "err = AIRY_SUCCESS"
    using r shm.register_map [of sd_fresh "''llm''" 5 7 "''c''" ?x None None]
    by (auto simp: sd_register_def sd_room_def sd_limits split: prod.splits if_splits)
  then show ?thesis
    using sd_heartbeat_keeps_discoverable [of sd_fresh "''llm''" ?x 5 7 "''c''" None None "Some sd'" calls
        "[(20000, Op_heartbeat ''llm'' ''a''), (40000, Op_discover ''llm'' 8), (45000, Op_deregister ''llm'' ''b'')]" 50000 8] r
    by (simp add: sd_limits sd_create_default_config_def SD_DEFAULT_EXPIRE_MS_def)
qed

lemma enrol_registered:
  assumes sd: "hp_sd sdh = Some sd" and inv: "sd_inv sd" and n: "length n < SD_MAX_NAME_LEN" "n \<noteq> []"
    and x: "healthy x" "instance_id x = str_fit SD_MAX_NAME_LEN iid"
    and r: "helper_enrol sd_backend_shm now pid sdh n t iid x tags = (0, sdh', calls)"
  shows "registered sdh' \<and> hp_service_name sdh' = n \<and>
         (\<exists>sd1. hp_sd sdh' = Some sd1 \<and> sd_inv sd1 \<and> running sd1 = running sd \<and>
           (\<forall>m j. reg sd1 m j = (if m = n \<and> j = hp_instance_id sdh'
              then Some (stamp now pid (reg sd n j) x) else reg sd m j)))"
proof -
  let ?tags = "Some (case tags of Some t \<Rightarrow> t | None \<Rightarrow> [])"
  obtain err sd1 where b: "be_register sd_backend_shm now pid sd n t x ?tags (Some []) = (err, sd1)" by fastforce
  have "err = AIRY_SUCCESS"
    using r sd b by (auto simp: helper_enrol_def sd_register_def err_codes split: if_splits)
  moreover from this have e: "sdh' = sdh\<lparr>hp_sd := Some sd1, hp_service_name := str_fit SD_MAX_NAME_LEN n,
      hp_instance_id := str_fit SD_MAX_NAME_LEN iid, registered := True\<rparr>"
    using r sd b by (auto simp: helper_enrol_def sd_register_def)
  moreover have "running sd1 = running sd"
    using b by (auto simp: shm_defs sd_registry_add_instance_def sd_entry_slot_def Let_def split: option.splits if_splits)
  ultimately show ?thesis
    using shm.register_map [OF inv n(1) b] shm.register_inv [OF inv n(1), of now pid t x ?tags "Some []"] b n x
    by (auto simp: str_fit_id)
qed

lemma shm_destroy_services:
  obtains sd' where "sd_destroy sd_backend_shm (Some sd) = Some sd'" "services sd' = services sd"
  by (cases "running sd") (simp_all add: sd_destroy_def sd_stop_def sd_backend_shm_def shm_deinit_def)

lemma send_heartbeat_own:
  assumes "registered sdh" "hp_sd sdh = Some sd" "sd_inv sd"
    and x: "reg sd (hp_service_name sdh) (hp_instance_id sdh) = Some x"
  shows "\<exists>sd'. sd_helper_send_heartbeat sd_backend_shm now (Some sdh) = (0, Some (sdh\<lparr>hp_sd := Some sd'\<rparr>)) \<and> sd_inv sd' \<and>
    (\<forall>m j. reg sd' m j = (if m = hp_service_name sdh \<and> j = hp_instance_id sdh
       then Some (x\<lparr>last_heartbeat := now\<rparr>) else reg sd m j))"
proof -
  let ?n = "hp_service_name sdh" and ?i = "hp_instance_id sdh"
  obtain sd' where h: "sd_heartbeat sd_backend_shm now (Some sd) (Some ?n) (Some ?i) = (AIRY_SUCCESS, Some sd')"
    and r: "\<And>m j. reg sd' m j = (if m = ?n \<and> j = ?i then map_option (\<lambda>x. x\<lparr>last_heartbeat := now\<rparr>) (reg sd m j) else reg sd m j)"
    using shm.heartbeat_reg [OF assms(3), of now ?n ?i] x by auto
  have "sd_inv sd'"
    using shm.step_keeps [of "Some sd" "(now, Op_heartbeat ?n ?i)"] assms(3) h by (simp add: sd_op_ok_def)
  with h r x assms(1,2) show ?thesis by (auto simp: sd_helper_send_heartbeat_def)
qed

text \<open>Heartbeats at the times \<open>ts\<close>, with the code each of them returns.\<close>

fun helper_beats :: "sd_backend \<Rightarrow> u64 list \<Rightarrow> sd_helper option \<Rightarrow> airy_err list \<times> sd_helper option" where
  "helper_beats be [] h = ([], h)"
| "helper_beats be (t # ts) h =
     (let (rc, h1) = sd_helper_send_heartbeat be t h; (rcs, h2) = helper_beats be ts h1 in (rc # rcs, h2))"

lemma beats_own:
  assumes "registered sdh" "hp_sd sdh = Some sd" "sd_inv sd"
    and "reg sd (hp_service_name sdh) (hp_instance_id sdh) = Some x"
  shows "\<exists>sd'. helper_beats sd_backend_shm ts (Some sdh) = (replicate (length ts) 0, Some (sdh\<lparr>hp_sd := Some sd'\<rparr>)) \<and>
    sd_inv sd' \<and>
    (\<forall>m j. reg sd' m j = (if m = hp_service_name sdh \<and> j = hp_instance_id sdh
       then Some (x\<lparr>last_heartbeat := last (last_heartbeat x # ts)\<rparr>) else reg sd m j))"
  using assms
proof (induction ts arbitrary: sdh sd x)
  case Nil
  then have "sdh\<lparr>hp_sd := Some sd\<rparr> = sdh" by simp
  with Nil show ?case by (intro exI [of _ sd]) auto
next
  case (Cons t ts)
  from send_heartbeat_own [OF Cons.prems, of t] obtain sd1 where
    1: "sd_helper_send_heartbeat sd_backend_shm t (Some sdh) = (0, Some (sdh\<lparr>hp_sd := Some sd1\<rparr>))" "sd_inv sd1"
    and r1: "\<And>m j. reg sd1 m j = (if m = hp_service_name sdh \<and> j = hp_instance_id sdh
       then Some (x\<lparr>last_heartbeat := t\<rparr>) else reg sd m j)" by blast
  from Cons.IH [of "sdh\<lparr>hp_sd := Some sd1\<rparr>" sd1 "x\<lparr>last_heartbeat := t\<rparr>"] Cons.prems(1) 1(2) r1 obtain sd' where
    "helper_beats sd_backend_shm ts (Some (sdh\<lparr>hp_sd := Some sd1\<rparr>)) =
       (replicate (length ts) 0, Some (sdh\<lparr>hp_sd := Some sd'\<rparr>))" "sd_inv sd'"
    "\<And>m j. reg sd' m j = (if m = hp_service_name sdh \<and> j = hp_instance_id sdh
       then Some (x\<lparr>last_heartbeat := last (t # ts)\<rparr>) else reg sd1 m j)" by auto
  with 1 r1 show ?case by (intro exI [of _ sd']) auto
qed

lemma shutdown_own:
  assumes "registered sdh" "hp_sd sdh = Some sd" "sd_inv sd" "hp_service_name sdh \<noteq> []"
  shows "\<exists>sd'. fst (sd_helper_shutdown sd_backend_shm now (Some sdh)) = Some sd' \<and>
    (\<forall>m j. reg sd' m j = (if m = hp_service_name sdh \<and> j = hp_instance_id sdh then None else reg sd m j))"
proof -
  let ?n = "hp_service_name sdh" and ?i = "hp_instance_id sdh"
  obtain err sd2 cs where d: "sd_deregister sd_backend_shm now (Some sd) (Some ?n) (Some ?i) = (err, Some sd2, cs)"
    using sd_deregister_returns by blast
  then obtain e2 where "be_deregister sd_backend_shm now sd ?n ?i = (e2, sd2)"
    by (auto simp: sd_deregister_def Let_def split: prod.splits if_splits)
  note map = shm.deregister_map [OF assms(3) this]
  have "fst (sd_helper_shutdown sd_backend_shm now (Some sdh)) = sd_destroy sd_backend_shm (Some sd2)"
    using assms(1,2,4) d
    by (cases "heartbeat_running sdh") (simp_all add: sd_helper_shutdown_def sd_helper_stop_heartbeat_def)
  moreover obtain sd3 where "sd_destroy sd_backend_shm (Some sd2) = Some sd3" "services sd3 = services sd2"
    by (rule shm_destroy_services)
  ultimately show ?thesis using reg_cong [of sd3 sd2] map by (intro exI [of _ sd3]) auto
qed

text \<open>C27: A daemon that registers through the helper under a non-empty name of fewer than 64 characters is
  found under it, refreshes exactly its own instance with heartbeats, and takes exactly that instance out at
  shutdown. After \<open>sd_helper_register\<close> returns 0 the registry holds, besides what it held before, one healthy
  instance under the id the helper remembers (the id is cut to 63 characters on both sides, so they agree);
  every one of any number of calls of \<open>sd_helper_send_heartbeat\<close> returns 0 and together they set the time of
  the last heartbeat of that instance and change no other; and the registry that \<open>sd_helper_shutdown\<close> then
  releases no longer holds the instance but every other one. No other client acts in between.\<close>

theorem sd_helper_round_trip:
  assumes "hp_sd sdh = Some sd" and "sd_inv sd" and "length n < SD_MAX_NAME_LEN" and "n \<noteq> []"
    and "sd_helper_register sd_backend_shm now pid (Some sdh) (Some n) (Some t) (Some host) port tags ttl =
         (0, Some sdh', calls)"
  shows "\<exists>sd1 x sdh2 sd2 sd3. hp_sd sdh' = Some sd1 \<and> healthy x \<and>
           (\<forall>m j. reg sd1 m j = (if m = n \<and> j = hp_instance_id sdh' then Some x else reg sd m j)) \<and>
           helper_beats sd_backend_shm ts (Some sdh') = (replicate (length ts) 0, Some sdh2) \<and> hp_sd sdh2 = Some sd2 \<and>
           (\<forall>m j. reg sd2 m j = (if m = n \<and> j = hp_instance_id sdh'
              then Some (x\<lparr>last_heartbeat := last (last_heartbeat x # ts)\<rparr>) else reg sd m j)) \<and>
           fst (sd_helper_shutdown sd_backend_shm now2 (Some sdh2)) = Some sd3 \<and>
           (\<forall>m j. reg sd3 m j = (if m = n \<and> j = hp_instance_id sdh' then None else reg sd m j))"
proof -
  define iid where "iid = build_instance_id SD_MAX_NAME_LEN pid n (build_endpoint SDH_MAX_ENDPOINT_LEN host port)"
  let ?x = "helper_instance now pid iid (build_endpoint SDH_MAX_ENDPOINT_LEN host port)"
  have r: "helper_enrol sd_backend_shm now pid sdh n t iid ?x tags = (0, sdh', calls)"
    using assms(5) by (auto simp: sd_helper_register_def iid_def Let_def split: prod.splits)
  let ?i = "hp_instance_id sdh'" and ?y = "stamp now pid (reg sd n (hp_instance_id sdh')) ?x"
  from enrol_registered [OF assms(1-4) _ _ r] obtain sd1 where
    reg': "registered sdh'" "hp_service_name sdh' = n" and sd1: "hp_sd sdh' = Some sd1" "sd_inv sd1"
    and map: "\<And>m j. reg sd1 m j = (if m = n \<and> j = ?i then Some ?y else reg sd m j)"
    by (auto simp: helper_instance_def)
  from beats_own [OF reg'(1) sd1, of ?y ts] obtain sd2 where
    b: "helper_beats sd_backend_shm ts (Some sdh') = (replicate (length ts) 0, Some (sdh'\<lparr>hp_sd := Some sd2\<rparr>))" "sd_inv sd2"
    "\<And>m j. reg sd2 m j = (if m = n \<and> j = ?i then Some (?y\<lparr>last_heartbeat := last (last_heartbeat ?y # ts)\<rparr>) else reg sd1 m j)"
    using reg'(2) map by auto
  obtain sd3 where
    "fst (sd_helper_shutdown sd_backend_shm now2 (Some (sdh'\<lparr>hp_sd := Some sd2\<rparr>))) = Some sd3"
    "\<And>m j. reg sd3 m j = (if m = n \<and> j = ?i then None else reg sd2 m j)"
    using shutdown_own [of "sdh'\<lparr>hp_sd := Some sd2\<rparr>" sd2 now2] reg' b(2) assms(4) by auto
  moreover have "healthy ?y" by (simp add: stamp_def helper_instance_def)
  ultimately show ?thesis using sd1(1) map b
    by (intro exI [of _ sd1] exI [of _ ?y] exI [of _ "sdh'\<lparr>hp_sd := Some sd2\<rparr>"] exI [of _ sd2] exI [of _ sd3]) simp
qed

text \<open>A helper around the empty registry.\<close>

definition helper_fresh :: sd_helper where
  "helper_fresh = \<lparr>hp_sd = Some sd_fresh, hp_config = sd_create_default_config, hp_service_name = [],
     hp_instance_id = [], registered = False, heartbeat_thread = False, heartbeat_running = False,
     hp_heartbeat_interval_ms = 10000\<rparr>"

theorem sd_helper_round_trip_witness:
  "\<exists>sdh' calls sdh2 sd2 sd3 y. sd_helper_register sd_backend_shm 5 7 (Some helper_fresh) (Some ''llm'') (Some ''c'')
       (Some ''localhost'') 80 None 0 = (0, Some sdh', calls) \<and>
     helper_beats sd_backend_shm [9, 11] (Some sdh') = ([0, 0], Some sdh2) \<and> hp_sd sdh2 = Some sd2 \<and>
     reg sd2 ''llm'' (hp_instance_id sdh') = Some y \<and> healthy y \<and> last_heartbeat y = 11 \<and>
     fst (sd_helper_shutdown sd_backend_shm 12 (Some sdh2)) = Some sd3 \<and> reg sd3 ''llm'' (hp_instance_id sdh') = None"
proof -
  define ep where "ep = build_endpoint SDH_MAX_ENDPOINT_LEN ''localhost'' 80"
  define iid where "iid = build_instance_id SD_MAX_NAME_LEN 7 ''llm'' ep"
  let ?x = "helper_instance 5 7 iid ep"
  obtain err sd' calls where r: "sd_register sd_backend_shm 5 7 (Some sd_fresh) (Some ''llm'') (Some ''c'')
      (Some ?x) (Some []) (Some []) = (err, Some sd', calls)"
    using sd_register_returns by blast
  have "err = AIRY_SUCCESS"
    using r shm.register_map [of sd_fresh "''llm''" 5 7 "''c''" ?x "Some []" "Some []"]
    by (auto simp: sd_register_def sd_room_def sd_limits split: prod.splits if_splits)
  then obtain sdh' where reg: "sd_helper_register sd_backend_shm 5 7 (Some helper_fresh) (Some ''llm'') (Some ''c'')
      (Some ''localhost'') 80 None 0 = (0, Some sdh', calls)"
    using r by (simp add: sd_helper_register_def helper_enrol_def helper_fresh_def Let_def flip: ep_def iid_def)
  have "\<exists>sd1 x sdh2 sd2 sd3. hp_sd sdh' = Some sd1 \<and> healthy x \<and>
      (\<forall>m j. reg sd1 m j = (if m = ''llm'' \<and> j = hp_instance_id sdh' then Some x else reg sd_fresh m j)) \<and>
      helper_beats sd_backend_shm [9, 11] (Some sdh') = (replicate (length [9, 11 :: u64]) 0, Some sdh2) \<and> hp_sd sdh2 = Some sd2 \<and>
      (\<forall>m j. reg sd2 m j = (if m = ''llm'' \<and> j = hp_instance_id sdh'
         then Some (x\<lparr>last_heartbeat := last (last_heartbeat x # [9, 11])\<rparr>) else reg sd_fresh m j)) \<and>
      fst (sd_helper_shutdown sd_backend_shm 12 (Some sdh2)) = Some sd3 \<and>
      (\<forall>m j. reg sd3 m j = (if m = ''llm'' \<and> j = hp_instance_id sdh' then None else reg sd_fresh m j))"
    by (rule sd_helper_round_trip [OF _ _ _ _ reg]) (simp_all add: helper_fresh_def sd_limits)
  then obtain x sdh2 sd2 sd3 where "healthy x"
    "helper_beats sd_backend_shm [9, 11] (Some sdh') = ([0, 0], Some sdh2)" "hp_sd sdh2 = Some sd2"
    "reg sd2 ''llm'' (hp_instance_id sdh') = Some (x\<lparr>last_heartbeat := 11\<rparr>)"
    "fst (sd_helper_shutdown sd_backend_shm 12 (Some sdh2)) = Some sd3" "reg sd3 ''llm'' (hp_instance_id sdh') = None"
    by (auto simp: numeral_2_eq_2)
  with reg show ?thesis
    by (intro exI [of _ sdh'] exI [of _ calls] exI [of _ sdh2] exI [of _ sd2] exI [of _ sd3]
        exI [of _ "x\<lparr>last_heartbeat := 11\<rparr>"]) simp
qed

end
