(* ===== verification/Svc_Model.thy ===== *)
theory Svc_Model
  imports Complex_Main Err_Codes Svc_State "HOL-Library.Monad_Syntax"
begin

section \<open>Service framework: model\<close>

text \<open>
  The in-process service framework: the life cycle of a service (\<open>utils/svc/svc_common.c\<close>), the registry of
  the services of the process (\<open>svc_common_registry.c\<close>) and the accessors (\<open>svc_common_ops.c\<close>).

  A service lives in a heap: a handle is its address, the registry is a list linked through the \<open>next\<close>
  fields, and a read or write through a dangling handle is the result \<open>None\<close>. \<open>AIRY_CALLOC\<close>, \<open>airy_mtx_init\<close>,
  the clock and the thread pool enter as arguments that hold their outcome. The functions of the service
  interface are code of the daemons: the model records which of them are set, a call is an event in the
  result, and the value it returns is an argument. While \<open>init\<close>, \<open>start\<close> or \<open>stop\<close> run no lock is held; \<open>mid\<close> lists
  the calls of \<open>airy_svc_pause\<close> (True) and \<open>airy_svc_resume\<close> (False) that other threads make in that time. These
  three operations themselves are documented as not thread safe. The array \<open>threads\<close> of a service is NULL in
  every state the code reaches, so the recovery loop of a timed-out stop has no counterpart.
\<close>

subsection \<open>Data\<close>

definition MAX_SERVICE_NAME_LEN :: nat where "MAX_SERVICE_NAME_LEN = 64"
definition MAX_SERVICE_VERSION_LEN :: nat where "MAX_SERVICE_VERSION_LEN = 32"
definition AIRY_SVC_CAP_PAUSEABLE :: u32 where "AIRY_SVC_CAP_PAUSEABLE = push_bit 3 1"

record airy_svc_config =
  sc_version :: "cstr option"
  sc_capabilities :: u32
  sc_max_concurrent :: u32
  sc_timeout_ms :: u32
  sc_priority :: int
  sc_auto_start :: bool
  sc_enable_metrics :: bool
  sc_enable_tracing :: bool

text \<open>Which function pointers of the interface are set.\<close>

record airy_svc_interface =
  if_init :: bool
  if_start :: bool
  if_stop :: bool
  if_destroy :: bool
  if_healthcheck :: bool
  if_handle_request :: bool

record airy_svc_stats =
  request_count :: u64
  success_count :: u64
  error_count :: u64
  total_time_ms :: u64
  max_time_ms :: u64
  min_time_ms :: u64
  current_concurrent :: u32
  peak_concurrent :: u32
  avg_time_ms :: rat

record svc_internal =
  si_name :: cstr
  si_version :: cstr
  si_state :: airy_svc_state
  si_config :: airy_svc_config
  si_capabilities :: u32
  si_stats :: airy_svc_stats
  si_iface :: airy_svc_interface
  last_healthcheck_time :: u64
  healthcheck_failures :: int
  si_user_data :: "addr option"
  si_thread_pool :: "addr option"
  si_next :: "addr option"

record svc_world =
  sw_heap :: "addr \<Rightarrow> svc_internal option"
  sw_services :: "addr option"
  sw_count :: u32
  sw_initialized :: bool

datatype svc_event =
    CbInit addr airy_err
  | CbStart addr airy_err
  | CbStop addr bool airy_err
  | CbDestroy addr
  | CbHealthcheck addr airy_err
  | CbRequest addr "cstr option" "cstr option"
  | CbComplete addr "cstr option" airy_err "cstr option"

definition zero_svc_stats :: airy_svc_stats where
  "zero_svc_stats = \<lparr>request_count = 0, success_count = 0, error_count = 0, total_time_ms = 0, max_time_ms = 0,
     min_time_ms = 0, current_concurrent = 0, peak_concurrent = 0, avg_time_ms = 0\<rparr>"

definition svc_world0 :: svc_world where
  "svc_world0 = \<lparr>sw_heap = (\<lambda>_. None), sw_services = None, sw_count = 0, sw_initialized = False\<rparr>"

definition svc_upd :: "svc_world \<Rightarrow> addr \<Rightarrow> (svc_internal \<Rightarrow> svc_internal) \<Rightarrow> svc_world option" where
  "svc_upd w a f = map_option (\<lambda>s. w\<lparr>sw_heap := (sw_heap w)(a := Some (f s))\<rparr>) (sw_heap w a)"

definition svc_set_state :: "svc_world \<Rightarrow> addr \<Rightarrow> airy_svc_state \<Rightarrow> svc_world option" where
  "svc_set_state w a st = svc_upd w a (\<lambda>s. s\<lparr>si_state := st\<rparr>)"

subsection \<open>Registry\<close>

text \<open>\<open>mtx\<close> is what \<open>airy_mtx_init\<close> returns.\<close>

definition svc_common_module_init :: "svc_world \<Rightarrow> airy_err \<Rightarrow> airy_err \<times> svc_world" where
  "svc_common_module_init w mtx =
     (if sw_initialized w then (AIRY_SUCCESS, w)
      else if mtx \<noteq> AIRY_SUCCESS then (AIRY_ERR_NEG AIRY_ERR_SYS_MUTEX, w)
      else (AIRY_SUCCESS, w\<lparr>sw_initialized := True\<rparr>))"

definition svc_common_module_cleanup :: "svc_world \<Rightarrow> svc_world" where
  "svc_common_module_cleanup w = (if \<not> sw_initialized w then w else w\<lparr>sw_initialized := False\<rparr>)"

text \<open>The walk along \<open>next\<close> for a name.\<close>

partial_function (option) svc_find_from :: "svc_world \<Rightarrow> addr option \<Rightarrow> cstr \<Rightarrow> addr option option" where
  "svc_find_from w p name =
     (case p of
        None \<Rightarrow> Some None
      | Some a \<Rightarrow> do {
          s \<leftarrow> sw_heap w a;
          if si_name s = name then Some (Some a) else svc_find_from w (si_next s) name
        })"

definition find_service_internal :: "svc_world \<Rightarrow> cstr option \<Rightarrow> addr option option" where
  "find_service_internal w name =
     (case name of
        None \<Rightarrow> Some None
      | Some n \<Rightarrow> if \<not> sw_initialized w then Some None else svc_find_from w (sw_services w) n)"

text \<open>Pushing a service on the list.\<close>

definition svc_push :: "svc_world \<Rightarrow> addr \<Rightarrow> svc_world option" where
  "svc_push w a = do {
     w1 \<leftarrow> svc_upd w a (\<lambda>s. s\<lparr>si_next := sw_services w\<rparr>);
     Some (w1\<lparr>sw_services := Some a, sw_count := sw_count w1 + 1\<rparr>)
   }"

definition register_service_internal :: "svc_world \<Rightarrow> addr option \<Rightarrow> (airy_err \<times> svc_world) option" where
  "register_service_internal w svc =
     (case svc of
        None \<Rightarrow> Some (AIRY_ERR_NEG AIRY_EINVAL, w)
      | Some a \<Rightarrow>
          if \<not> sw_initialized w then Some (AIRY_ERR_NEG AIRY_EINVAL, w)
          else do {
            s \<leftarrow> sw_heap w a;
            found \<leftarrow> find_service_internal w (Some (si_name s));
            if found \<noteq> None then Some (AIRY_EEXIST, w)
            else map_option (\<lambda>w1. (AIRY_SUCCESS, w1)) (svc_push w a)
          })"

text \<open>\<open>*prev = v\<close>: \<open>prev\<close> is the head of the list or the \<open>next\<close> field of a service.\<close>

definition svc_set_link :: "svc_world \<Rightarrow> addr option \<Rightarrow> addr option \<Rightarrow> svc_world option" where
  "svc_set_link w prev v =
     (case prev of
        None \<Rightarrow> Some (w\<lparr>sw_services := v\<rparr>)
      | Some p \<Rightarrow> svc_upd w p (\<lambda>s. s\<lparr>si_next := v\<rparr>))"

partial_function (option) svc_unlink_from ::
  "svc_world \<Rightarrow> addr option \<Rightarrow> addr option \<Rightarrow> addr \<Rightarrow> (bool \<times> svc_world) option" where
  "svc_unlink_from w prev cur a =
     (case cur of
        None \<Rightarrow> Some (False, w)
      | Some c \<Rightarrow> do {
          s \<leftarrow> sw_heap w c;
          if c = a then do {
            w1 \<leftarrow> svc_set_link w prev (si_next s);
            Some (True, w1\<lparr>sw_count := sw_count w1 - 1\<rparr>)
          } else svc_unlink_from w (Some c) (si_next s) a
        })"

definition unregister_service_internal :: "svc_world \<Rightarrow> addr option \<Rightarrow> (airy_err \<times> svc_world) option" where
  "unregister_service_internal w svc =
     (case svc of
        None \<Rightarrow> Some (AIRY_EINVAL, w)
      | Some a \<Rightarrow>
          if \<not> sw_initialized w then Some (AIRY_EINVAL, w)
          else do {
            (found, w1) \<leftarrow> svc_unlink_from w None (sw_services w) a;
            Some (if found then AIRY_SUCCESS else AIRY_ENOENT, w1)
          })"

partial_function (option) svc_listed_from :: "svc_world \<Rightarrow> addr option \<Rightarrow> addr \<Rightarrow> bool option" where
  "svc_listed_from w cur a =
     (case cur of
        None \<Rightarrow> Some False
      | Some c \<Rightarrow> if c = a then Some True else do { s \<leftarrow> sw_heap w c; svc_listed_from w (si_next s) a })"

definition airy_svc_register :: "svc_world \<Rightarrow> addr option \<Rightarrow> airy_err \<Rightarrow> (airy_err \<times> svc_world) option" where
  "airy_svc_register w svc mtx =
     (case svc of
        None \<Rightarrow> Some (AIRY_EINVAL, w)
      | Some a \<Rightarrow>
          let (err, w0) = (if sw_initialized w then (AIRY_SUCCESS, w) else svc_common_module_init w mtx) in
          if err \<noteq> AIRY_SUCCESS then Some (err, w0)
          else do {
            listed \<leftarrow> svc_listed_from w0 (sw_services w0) a;
            if listed then Some (AIRY_SUCCESS, w0)
            else map_option (\<lambda>w1. (AIRY_SUCCESS, w1)) (svc_push w0 a)
          })"

definition airy_svc_unregister :: "svc_world \<Rightarrow> addr option \<Rightarrow> (airy_err \<times> svc_world) option" where
  "airy_svc_unregister w svc =
     (case svc of
        None \<Rightarrow> Some (AIRY_EINVAL, w)
      | Some a \<Rightarrow>
          if \<not> sw_initialized w then Some (AIRY_ENOTINIT, w)
          else do {
            (found, w1) \<leftarrow> svc_unlink_from w None (sw_services w) a;
            Some (if found then AIRY_SUCCESS else AIRY_ENOENT, w1)
          })"

definition airy_svc_find :: "svc_world \<Rightarrow> cstr option \<Rightarrow> addr option option" where
  "airy_svc_find w name =
     (if name = None \<or> \<not> sw_initialized w then Some None else find_service_internal w name)"

definition airy_svc_count :: "svc_world \<Rightarrow> u32" where
  "airy_svc_count w = (if sw_initialized w then sw_count w else 0)"

text \<open>The services that \<open>airy_svc_foreach\<close> hands to its callback, in order.\<close>

partial_function (option) svc_walk :: "svc_world \<Rightarrow> addr option \<Rightarrow> addr list option" where
  "svc_walk w cur =
     (case cur of
        None \<Rightarrow> Some []
      | Some c \<Rightarrow> do { s \<leftarrow> sw_heap w c; rest \<leftarrow> svc_walk w (si_next s); Some (c # rest) })"

definition airy_svc_foreach :: "svc_world \<Rightarrow> bool \<Rightarrow> addr list option" where
  "airy_svc_foreach w callback = (if \<not> callback \<or> \<not> sw_initialized w then Some [] else svc_walk w (sw_services w))"

definition airy_svc_common_cleanup :: "svc_world \<Rightarrow> svc_world" where
  "airy_svc_common_cleanup w = svc_common_module_cleanup w"

declare svc_find_from.simps [code] svc_unlink_from.simps [code] svc_listed_from.simps [code] svc_walk.simps [code]

subsection \<open>Pause and resume\<close>

definition airy_svc_pause :: "svc_world \<Rightarrow> addr option \<Rightarrow> (airy_err \<times> svc_world) option" where
  "airy_svc_pause w svc =
     (case svc of
        None \<Rightarrow> Some (AIRY_EINVAL, w)
      | Some a \<Rightarrow> do {
          s \<leftarrow> sw_heap w a;
          if si_state s \<noteq> AIRY_SVC_STATE_RUNNING then Some (AIRY_ERR_SVC_NOT_READY, w)
          else if si_capabilities s AND AIRY_SVC_CAP_PAUSEABLE = 0 then Some (AIRY_EPROTONOSUPPORT, w)
          else map_option (\<lambda>w1. (AIRY_SUCCESS, w1)) (svc_set_state w a AIRY_SVC_STATE_PAUSED)
        })"

definition airy_svc_resume :: "svc_world \<Rightarrow> addr option \<Rightarrow> (airy_err \<times> svc_world) option" where
  "airy_svc_resume w svc =
     (case svc of
        None \<Rightarrow> Some (AIRY_EINVAL, w)
      | Some a \<Rightarrow> do {
          s \<leftarrow> sw_heap w a;
          if si_state s \<noteq> AIRY_SVC_STATE_PAUSED then Some (AIRY_ERR_SVC_NOT_READY, w)
          else map_option (\<lambda>w1. (AIRY_SUCCESS, w1)) (svc_set_state w a AIRY_SVC_STATE_RUNNING)
        })"

text \<open>What other threads do to the service while a function of its interface runs.\<close>

fun svc_meanwhile :: "svc_world \<Rightarrow> addr \<Rightarrow> bool list \<Rightarrow> svc_world option" where
  "svc_meanwhile w a [] = Some w"
| "svc_meanwhile w a (pause # mid) = do {
     (_, w1) \<leftarrow> (if pause then airy_svc_pause w (Some a) else airy_svc_resume w (Some a));
     svc_meanwhile w1 a mid
   }"

subsection \<open>Life cycle\<close>

text \<open>\<open>ret\<close> is what the interface function returns when it is set.\<close>

definition airy_svc_init ::
  "svc_world \<Rightarrow> addr option \<Rightarrow> airy_err \<Rightarrow> bool list \<Rightarrow> (airy_err \<times> svc_event list \<times> svc_world) option" where
  "airy_svc_init w svc ret mid =
     (case svc of
        None \<Rightarrow> Some (AIRY_EINVAL, [], w)
      | Some a \<Rightarrow> do {
          s \<leftarrow> sw_heap w a;
          if si_state s \<noteq> AIRY_SVC_STATE_CREATED then Some (AIRY_ERR_SVC_NOT_READY, [], w)
          else do {
            w1 \<leftarrow> svc_set_state w a AIRY_SVC_STATE_INITIALIZING;
            let called = if_init (si_iface s);
            let err = (if called then ret else AIRY_SUCCESS);
            w2 \<leftarrow> svc_meanwhile w1 a mid;
            w3 \<leftarrow> svc_set_state w2 a (if err = AIRY_SUCCESS then AIRY_SVC_STATE_READY else AIRY_SVC_STATE_ERROR);
            Some (err, if called then [CbInit a ret] else [], w3)
          }
        })"

definition airy_svc_start ::
  "svc_world \<Rightarrow> addr option \<Rightarrow> airy_err \<Rightarrow> bool list \<Rightarrow> (airy_err \<times> svc_event list \<times> svc_world) option" where
  "airy_svc_start w svc ret mid =
     (case svc of
        None \<Rightarrow> Some (AIRY_EINVAL, [], w)
      | Some a \<Rightarrow> do {
          s \<leftarrow> sw_heap w a;
          let old_state = si_state s;
          if old_state \<noteq> AIRY_SVC_STATE_READY \<and> old_state \<noteq> AIRY_SVC_STATE_STOPPED \<and>
             old_state \<noteq> AIRY_SVC_STATE_PAUSED \<and> old_state \<noteq> AIRY_SVC_STATE_ZOMBIE
          then Some (AIRY_ERR_SVC_NOT_READY, [], w)
          else do {
            w1 \<leftarrow> svc_set_state w a AIRY_SVC_STATE_RUNNING;
            let called = if_start (si_iface s);
            let err = (if called then ret else AIRY_SUCCESS);
            w2 \<leftarrow> svc_meanwhile w1 a mid;
            w3 \<leftarrow> (if err \<noteq> AIRY_SUCCESS then svc_set_state w2 a old_state else Some w2);
            Some (err, if called then [CbStart a ret] else [], w3)
          }
        })"

text \<open>\<open>timeout\<close> says that the alarm of a forced stop went off while \<open>stop\<close> ran.\<close>

definition airy_svc_stop ::
  "svc_world \<Rightarrow> addr option \<Rightarrow> bool \<Rightarrow> airy_err \<Rightarrow> bool \<Rightarrow> bool list \<Rightarrow>
   (airy_err \<times> svc_event list \<times> svc_world) option" where
  "airy_svc_stop w svc force ret timeout mid =
     (case svc of
        None \<Rightarrow> Some (AIRY_EINVAL, [], w)
      | Some a \<Rightarrow> do {
          s \<leftarrow> sw_heap w a;
          if si_state s \<noteq> AIRY_SVC_STATE_RUNNING \<and> si_state s \<noteq> AIRY_SVC_STATE_PAUSED
          then Some (AIRY_ERR_SVC_NOT_READY, [], w)
          else do {
            w1 \<leftarrow> svc_set_state w a AIRY_SVC_STATE_STOPPING;
            let called = if_stop (si_iface s);
            let err = (if called then ret else AIRY_SUCCESS);
            let zombie = (called \<and> force \<and> timeout);
            w2 \<leftarrow> svc_meanwhile w1 a mid;
            w3 \<leftarrow> svc_set_state w2 a
                   (if err = AIRY_SUCCESS \<or> force
                    then (if zombie then AIRY_SVC_STATE_ZOMBIE else AIRY_SVC_STATE_STOPPED)
                    else AIRY_SVC_STATE_ERROR);
            Some (err, if called then [CbStop a force ret] else [], w3)
          }
        })"

subsection \<open>Creation and destruction\<close>

text \<open>\<open>mem\<close> is the address \<open>AIRY_CALLOC\<close> returns, \<open>mtx0\<close>, \<open>mtx1\<close>, \<open>mtx2\<close> the results of the three mutex
  initialisations. The handle is returned beside the code.\<close>

definition airy_svc_create ::
  "svc_world \<Rightarrow> cstr option \<Rightarrow> airy_svc_interface option \<Rightarrow> airy_svc_config option \<Rightarrow>
   airy_err \<Rightarrow> addr option \<Rightarrow> airy_err \<Rightarrow> airy_err \<Rightarrow> (airy_err \<times> addr option \<times> svc_world) option" where
  "airy_svc_create w name iface config mtx0 mem mtx1 mtx2 =
     (case (name, iface, config) of
        (Some n, Some ifc, Some cfg) \<Rightarrow>
          let (err, w0) = svc_common_module_init w mtx0 in
          if err \<noteq> AIRY_SUCCESS then Some (err, None, w0)
          else if length n = 0 \<or> length n \<ge> MAX_SERVICE_NAME_LEN then Some (AIRY_EINVAL, None, w0)
          else (case mem of
             None \<Rightarrow> Some (AIRY_ERR_NEG AIRY_ENOMEM, None, w0)
           | Some a \<Rightarrow>
               if \<not> (case sc_version cfg of None \<Rightarrow> True | Some v \<Rightarrow> length v < MAX_SERVICE_VERSION_LEN)
               then Some (AIRY_ERR_NEG AIRY_EINVAL, None, w0)
               else if mtx1 \<noteq> AIRY_SUCCESS then Some (AIRY_ERR_NEG mtx1, None, w0)
               else if mtx2 \<noteq> AIRY_SUCCESS then Some (mtx2, None, w0)
               else do {
                 let s = \<lparr>si_name = n, si_version = (case sc_version cfg of None \<Rightarrow> [] | Some v \<Rightarrow> v),
                   si_state = AIRY_SVC_STATE_CREATED, si_config = cfg, si_capabilities = sc_capabilities cfg,
                   si_stats = zero_svc_stats, si_iface = ifc, last_healthcheck_time = 0, healthcheck_failures = 0,
                   si_user_data = None, si_thread_pool = None, si_next = None\<rparr>;
                 (err', w1) \<leftarrow> register_service_internal (w0\<lparr>sw_heap := (sw_heap w0)(a := Some s)\<rparr>) (Some a);
                 Some (if err' \<noteq> AIRY_SUCCESS then (err', None, w1\<lparr>sw_heap := (sw_heap w1)(a := None)\<rparr>)
                       else (AIRY_SUCCESS, Some a, w1))
               })
      | _ \<Rightarrow> Some (AIRY_EINVAL, None, w))"

text \<open>
  \<open>frees\<close> says that the \<open>destroy\<close> function of the interface frees the service, which is what \<open>svc_common.h\<close>
  documents for it. Afterwards the two mutexes inside the service are destroyed.
\<close>

definition airy_svc_destroy ::
  "svc_world \<Rightarrow> addr option \<Rightarrow> bool \<Rightarrow> airy_err \<Rightarrow> bool \<Rightarrow> bool list \<Rightarrow> (svc_event list \<times> svc_world) option" where
  "airy_svc_destroy w svc frees ret timeout mid =
     (case svc of
        None \<Rightarrow> Some ([], w)
      | Some a \<Rightarrow> do {
          s \<leftarrow> sw_heap w a;
          (ev, w1) \<leftarrow>
            (if si_state s = AIRY_SVC_STATE_RUNNING \<or> si_state s = AIRY_SVC_STATE_PAUSED
             then map_option snd (airy_svc_stop w (Some a) True ret timeout mid)
             else Some ([], w));
          (_, w2) \<leftarrow> unregister_service_internal w1 (Some a);
          s2 \<leftarrow> sw_heap w2 a;
          let called = if_destroy (si_iface s2);
          let w3 = (if called \<and> frees then w2\<lparr>sw_heap := (sw_heap w2)(a := None)\<rparr> else w2);
          s3 \<leftarrow> sw_heap w3 a;
          Some (ev @ (if called then [CbDestroy a] else []), w3\<lparr>sw_heap := (sw_heap w3)(a := None)\<rparr>)
        })"

subsection \<open>Accessors\<close>

definition airy_svc_get_state :: "svc_world \<Rightarrow> addr option \<Rightarrow> airy_svc_state option" where
  "airy_svc_get_state w svc =
     (case svc of None \<Rightarrow> Some AIRY_SVC_STATE_NONE | Some a \<Rightarrow> map_option si_state (sw_heap w a))"

definition airy_svc_is_ready :: "svc_world \<Rightarrow> addr option \<Rightarrow> bool option" where
  "airy_svc_is_ready w svc = map_option (\<lambda>st. st = AIRY_SVC_STATE_READY) (airy_svc_get_state w svc)"

definition airy_svc_is_running :: "svc_world \<Rightarrow> addr option \<Rightarrow> bool option" where
  "airy_svc_is_running w svc = map_option (\<lambda>st. st = AIRY_SVC_STATE_RUNNING) (airy_svc_get_state w svc)"

definition airy_svc_get_name :: "svc_world \<Rightarrow> addr option \<Rightarrow> cstr option option" where
  "airy_svc_get_name w svc =
     (case svc of None \<Rightarrow> Some None | Some a \<Rightarrow> map_option (\<lambda>s. Some (si_name s)) (sw_heap w a))"

text \<open>\<open>release\<close> is \<open>AIRYRT_VERSION\<close>, which the build supplies.\<close>

definition airy_svc_get_version :: "cstr \<Rightarrow> svc_world \<Rightarrow> addr option \<Rightarrow> cstr option option" where
  "airy_svc_get_version release w svc =
     (case svc of
        None \<Rightarrow> Some None
      | Some a \<Rightarrow> map_option (\<lambda>s. Some (if si_version s \<noteq> [] then si_version s else release)) (sw_heap w a))"

definition airy_svc_get_stats :: "svc_world \<Rightarrow> addr option \<Rightarrow> bool \<Rightarrow> (airy_err \<times> airy_svc_stats option) option" where
  "airy_svc_get_stats w svc out_stats =
     (case svc of
        None \<Rightarrow> Some (AIRY_EINVAL, None)
      | Some a \<Rightarrow>
          if \<not> out_stats then Some (AIRY_EINVAL, None)
          else map_option (\<lambda>s. (AIRY_SUCCESS, Some (si_stats s))) (sw_heap w a))"

definition airy_svc_reset_stats :: "svc_world \<Rightarrow> addr option \<Rightarrow> svc_world option" where
  "airy_svc_reset_stats w svc =
     (case svc of None \<Rightarrow> Some w | Some a \<Rightarrow> svc_upd w a (\<lambda>s. s\<lparr>si_stats := zero_svc_stats\<rparr>))"

definition airy_svc_healthcheck ::
  "svc_world \<Rightarrow> addr option \<Rightarrow> airy_err \<Rightarrow> u64 \<Rightarrow> (airy_err \<times> svc_event list \<times> svc_world) option" where
  "airy_svc_healthcheck w svc ret now =
     (case svc of
        None \<Rightarrow> Some (AIRY_EINVAL, [], w)
      | Some a \<Rightarrow> do {
          s \<leftarrow> sw_heap w a;
          if if_healthcheck (si_iface s) then do {
            w1 \<leftarrow> svc_upd w a (\<lambda>s. s\<lparr>last_healthcheck_time := now,
                    healthcheck_failures := (if ret \<noteq> AIRY_SUCCESS then healthcheck_failures s + 1 else 0)\<rparr>);
            Some (ret, [CbHealthcheck a ret], w1)
          }
          else Some
            (if si_state s \<in> {AIRY_SVC_STATE_READY, AIRY_SVC_STATE_RUNNING, AIRY_SVC_STATE_PAUSED} then AIRY_SUCCESS
             else if si_state s = AIRY_SVC_STATE_ERROR then AIRY_ERR_SVC_HEALTH
             else AIRY_ERR_SVC_NOT_READY, [], w)
        })"

definition airy_svc_has_capability :: "svc_world \<Rightarrow> addr option \<Rightarrow> u32 \<Rightarrow> bool option" where
  "airy_svc_has_capability w svc capability =
     (case svc of
        None \<Rightarrow> Some False
      | Some a \<Rightarrow> map_option (\<lambda>s. si_capabilities s AND capability \<noteq> 0) (sw_heap w a))"

definition airy_svc_set_user_data :: "svc_world \<Rightarrow> addr option \<Rightarrow> addr option \<Rightarrow> (airy_err \<times> svc_world) option" where
  "airy_svc_set_user_data w svc d =
     (case svc of
        None \<Rightarrow> Some (AIRY_EINVAL, w)
      | Some a \<Rightarrow> map_option (\<lambda>w1. (AIRY_SUCCESS, w1)) (svc_upd w a (\<lambda>s. s\<lparr>si_user_data := d\<rparr>)))"

definition airy_svc_get_user_data :: "svc_world \<Rightarrow> addr option \<Rightarrow> addr option option" where
  "airy_svc_get_user_data w svc =
     (case svc of None \<Rightarrow> Some None | Some a \<Rightarrow> map_option si_user_data (sw_heap w a))"

definition airy_svc_set_thread_pool :: "svc_world \<Rightarrow> addr option \<Rightarrow> addr option \<Rightarrow> (airy_err \<times> svc_world) option" where
  "airy_svc_set_thread_pool w svc pool =
     (case svc of
        None \<Rightarrow> Some (AIRY_EINVAL, w)
      | Some a \<Rightarrow> map_option (\<lambda>w1. (AIRY_SUCCESS, w1)) (svc_upd w a (\<lambda>s. s\<lparr>si_thread_pool := pool\<rparr>)))"

subsection \<open>Requests\<close>

text \<open>The worker runs now or later in the pool; \<open>ret\<close> and \<open>resp\<close> are what \<open>handle_request\<close> gives.\<close>

definition async_request_worker ::
  "svc_world \<Rightarrow> addr \<Rightarrow> cstr option \<Rightarrow> cstr option \<Rightarrow> bool \<Rightarrow> airy_err \<Rightarrow> cstr option \<Rightarrow> svc_event list option" where
  "async_request_worker w a meth params on_complete ret resp = do {
     s \<leftarrow> sw_heap w a;
     let called = if_handle_request (si_iface s);
     let (err, r) = (if called then (ret, resp) else (AIRY_EINVAL, None));
     Some ((if called then [CbRequest a meth params] else []) @ (if on_complete then [CbComplete a meth err r] else []))
   }"

text \<open>\<open>ctx\<close>, \<open>dup_m\<close>, \<open>dup_p\<close>: the allocations succeed; \<open>rc\<close>: the result of \<open>thread_pool_submit\<close>. The second
  component says whether the worker was handed to the pool.\<close>

definition airy_svc_handle_request_async ::
  "svc_world \<Rightarrow> addr option \<Rightarrow> cstr option \<Rightarrow> cstr option \<Rightarrow> bool \<Rightarrow> bool \<Rightarrow> bool \<Rightarrow> bool \<Rightarrow> int \<Rightarrow> airy_err \<Rightarrow> cstr option \<Rightarrow>
   (airy_err \<times> bool \<times> svc_event list) option" where
  "airy_svc_handle_request_async w svc meth params on_complete ctx dup_m dup_p rc ret resp =
     (case (svc, meth) of
        (Some a, Some m) \<Rightarrow>
          if \<not> ctx then Some (AIRY_ERR_NEG AIRY_ERR_OUT_OF_MEMORY, False, [])
          else do {
            s \<leftarrow> sw_heap w a;
            if si_thread_pool s \<noteq> None then Some (if rc \<noteq> 0 then (rc, False, []) else (0, True, []))
            else do {
              ev \<leftarrow> async_request_worker w a (if dup_m then Some m else None) (if dup_p then params else None)
                      on_complete ret resp;
              Some (0, False, ev)
            }
          }
      | _ \<Rightarrow> Some (AIRY_ERR_NEG AIRY_ERR_INVALID_PARAM, False, []))"

end
