(* ===== verification/Svc_Lifecycle.thy ===== *)
theory Svc_Lifecycle
  imports Svc_Model
begin

section \<open>Service framework: life cycle\<close>

text \<open>
  What the life cycle promises the code of a service: its \<open>init\<close>, \<open>start\<close> and \<open>stop\<close> functions are only ever
  called in a legal order, whatever sequence of calls the clients make and whatever the functions return.
\<close>

subsection \<open>Updates of one service\<close>

definition svc_only :: "svc_world \<Rightarrow> svc_world \<Rightarrow> addr \<Rightarrow> airy_svc_state \<Rightarrow> bool" where
  "svc_only w w' a st =
     (\<exists>s. sw_heap w a = Some s \<and> w' = w\<lparr>sw_heap := (sw_heap w)(a := Some (s\<lparr>si_state := st\<rparr>))\<rparr>)"

lemma set_state_only: "sw_heap w a = Some s \<Longrightarrow> \<exists>w'. svc_set_state w a st = Some w' \<and> svc_only w w' a st"
  by (simp add: svc_set_state_def svc_upd_def svc_only_def)

lemma svc_only_read: "svc_only w w' a st \<Longrightarrow> sw_heap w a = Some s \<Longrightarrow> sw_heap w' a = Some (s\<lparr>si_state := st\<rparr>)"
  by (auto simp: svc_only_def)

lemma svc_only_refl: "sw_heap w a = Some s \<Longrightarrow> svc_only w w a (si_state s)"
  by (auto simp: svc_only_def fun_upd_idem)

lemma svc_only_trans: "svc_only w w1 a st1 \<Longrightarrow> svc_only w1 w2 a st2 \<Longrightarrow> svc_only w w2 a st2"
  by (auto simp: svc_only_def)

definition svc_active :: "airy_svc_state \<Rightarrow> bool" where
  "svc_active st = (st = AIRY_SVC_STATE_RUNNING \<or> st = AIRY_SVC_STATE_PAUSED)"

lemma pause_only:
  "sw_heap w a = Some s \<Longrightarrow> \<exists>err w' st. airy_svc_pause w (Some a) = Some (err, w') \<and> svc_only w w' a st \<and>
     (if svc_active (si_state s) then svc_active st else st = si_state s)"
  using set_state_only [of w a s] svc_only_refl [of w a s]
  by (fastforce simp: airy_svc_pause_def svc_active_def)

lemma resume_only:
  "sw_heap w a = Some s \<Longrightarrow> \<exists>err w' st. airy_svc_resume w (Some a) = Some (err, w') \<and> svc_only w w' a st \<and>
     (if svc_active (si_state s) then svc_active st else st = si_state s)"
  using set_state_only [of w a s] svc_only_refl [of w a s]
  by (fastforce simp: airy_svc_resume_def svc_active_def)

lemma meanwhile_only:
  "sw_heap w a = Some s \<Longrightarrow> \<exists>w' st. svc_meanwhile w a mid = Some w' \<and> svc_only w w' a st \<and>
     (if svc_active (si_state s) then svc_active st else st = si_state s)"
proof (induction mid arbitrary: w s)
  case Nil
  then show ?case using svc_only_refl by fastforce
next
  case (Cons pause mid)
  obtain err w1 st1 where 1: "(if pause then airy_svc_pause w (Some a) else airy_svc_resume w (Some a)) = Some (err, w1)"
    and o1: "svc_only w w1 a st1" "if svc_active (si_state s) then svc_active st1 else st1 = si_state s"
    using pause_only [OF Cons.prems] resume_only [OF Cons.prems] by (cases pause) fastforce+
  obtain w2 st2 where "svc_meanwhile w1 a mid = Some w2" "svc_only w1 w2 a st2"
    "if svc_active st1 then svc_active st2 else st2 = st1"
    using Cons.IH [OF svc_only_read [OF o1(1) Cons.prems]] by auto
  then show ?case using 1 o1 svc_only_trans [of w w1 a st1 w2 st2] by (auto split: if_splits)
qed

subsection \<open>The three transitions\<close>

lemma init_ok:
  assumes s: "sw_heap w a = Some s" and f: "if_init (si_iface s)"
  shows "if si_state s = AIRY_SVC_STATE_CREATED
    then \<exists>w'. airy_svc_init w (Some a) ret mid = Some (ret, [CbInit a ret], w') \<and>
      svc_only w w' a (if ret = AIRY_SUCCESS then AIRY_SVC_STATE_READY else AIRY_SVC_STATE_ERROR)
    else airy_svc_init w (Some a) ret mid = Some (AIRY_ERR_SVC_NOT_READY, [], w)"
proof (cases "si_state s = AIRY_SVC_STATE_CREATED")
  case True
  let ?st = "if ret = AIRY_SUCCESS then AIRY_SVC_STATE_READY else AIRY_SVC_STATE_ERROR"
  obtain w1 where 1: "svc_set_state w a AIRY_SVC_STATE_INITIALIZING = Some w1" "svc_only w w1 a AIRY_SVC_STATE_INITIALIZING"
    using set_state_only [OF s] by blast
  obtain w2 st2 where 2: "svc_meanwhile w1 a mid = Some w2" "svc_only w1 w2 a st2"
    using meanwhile_only [OF svc_only_read [OF 1(2) s]] by blast
  obtain w3 where 3: "svc_set_state w2 a ?st = Some w3" "svc_only w2 w3 a ?st"
    using set_state_only [OF svc_only_read [OF 2(2) svc_only_read [OF 1(2) s]]] by blast
  have "airy_svc_init w (Some a) ret mid = Some (ret, [CbInit a ret], w3)"
    using True s f 1(1) 2(1) 3(1) by (simp add: airy_svc_init_def Let_def)
  moreover have "svc_only w w3 a ?st" using svc_only_trans 1(2) 2(2) 3(2) by blast
  ultimately show ?thesis using True by auto
qed (simp add: airy_svc_init_def s)

lemma start_ok:
  assumes s: "sw_heap w a = Some s" and f: "if_start (si_iface s)"
  shows "if si_state s \<in> {AIRY_SVC_STATE_READY, AIRY_SVC_STATE_STOPPED, AIRY_SVC_STATE_PAUSED, AIRY_SVC_STATE_ZOMBIE}
    then \<exists>w' st. airy_svc_start w (Some a) ret mid = Some (ret, [CbStart a ret], w') \<and> svc_only w w' a st \<and>
      (if ret = AIRY_SUCCESS then svc_active st else st = si_state s)
    else airy_svc_start w (Some a) ret mid = Some (AIRY_ERR_SVC_NOT_READY, [], w)"
proof (cases "si_state s \<in> {AIRY_SVC_STATE_READY, AIRY_SVC_STATE_STOPPED, AIRY_SVC_STATE_PAUSED, AIRY_SVC_STATE_ZOMBIE}")
  case True
  obtain w1 where 1: "svc_set_state w a AIRY_SVC_STATE_RUNNING = Some w1" "svc_only w w1 a AIRY_SVC_STATE_RUNNING"
    using set_state_only [OF s] by blast
  note s1 = svc_only_read [OF 1(2) s]
  obtain w2 st2 where 2: "svc_meanwhile w1 a mid = Some w2" "svc_only w1 w2 a st2" "svc_active st2"
    using meanwhile_only [OF s1, of mid] by (auto simp: svc_active_def split: if_splits)
  obtain w3 where 3: "svc_set_state w2 a (si_state s) = Some w3" "svc_only w2 w3 a (si_state s)"
    using set_state_only [OF svc_only_read [OF 2(2) s1]] by blast
  have "svc_only w w2 a st2" "svc_only w w3 a (si_state s)" using svc_only_trans 1(2) 2(2) 3(2) by blast+
  moreover have "airy_svc_start w (Some a) ret mid = Some (ret, [CbStart a ret], if ret = AIRY_SUCCESS then w2 else w3)"
    using True s f 1(1) 2(1) 3(1) by (auto simp: airy_svc_start_def Let_def)
  ultimately show ?thesis using True 2(3) by auto
qed (simp add: airy_svc_start_def s)

lemma stop_ok:
  assumes s: "sw_heap w a = Some s" and f: "if_stop (si_iface s)"
  shows "if svc_active (si_state s)
    then \<exists>w' st. airy_svc_stop w (Some a) force ret timeout mid = Some (ret, [CbStop a force ret], w') \<and> svc_only w w' a st \<and>
      (if ret = AIRY_SUCCESS \<or> force then st \<in> {AIRY_SVC_STATE_STOPPED, AIRY_SVC_STATE_ZOMBIE} else st = AIRY_SVC_STATE_ERROR)
    else airy_svc_stop w (Some a) force ret timeout mid = Some (AIRY_ERR_SVC_NOT_READY, [], w)"
proof (cases "svc_active (si_state s)")
  case True
  let ?st = "if ret = AIRY_SUCCESS \<or> force then (if force \<and> timeout then AIRY_SVC_STATE_ZOMBIE else AIRY_SVC_STATE_STOPPED)
    else AIRY_SVC_STATE_ERROR"
  obtain w1 where 1: "svc_set_state w a AIRY_SVC_STATE_STOPPING = Some w1" "svc_only w w1 a AIRY_SVC_STATE_STOPPING"
    using set_state_only [OF s] by blast
  obtain w2 st2 where 2: "svc_meanwhile w1 a mid = Some w2" "svc_only w1 w2 a st2"
    using meanwhile_only [OF svc_only_read [OF 1(2) s]] by blast
  obtain w3 where 3: "svc_set_state w2 a ?st = Some w3" "svc_only w2 w3 a ?st"
    using set_state_only [OF svc_only_read [OF 2(2) svc_only_read [OF 1(2) s]]] by blast
  have "airy_svc_stop w (Some a) force ret timeout mid = Some (ret, [CbStop a force ret], w3)"
    using True s f 1(1) 2(1) 3(1) by (auto simp: airy_svc_stop_def svc_active_def Let_def)
  moreover have "svc_only w w3 a ?st" using svc_only_trans 1(2) 2(2) 3(2) by blast
  ultimately show ?thesis using True by (auto intro!: exI [of _ ?st])
qed (simp add: airy_svc_stop_def s svc_active_def)

subsection \<open>The order of the calls\<close>

text \<open>The clients' calls on one service, with what the interface functions return.\<close>

datatype svc_call =
    CallInit airy_err "bool list"
  | CallStart airy_err "bool list"
  | CallStop bool airy_err bool "bool list"
  | CallPause
  | CallResume
  | CallHealth airy_err u64

definition svc_call_step :: "svc_world \<Rightarrow> addr \<Rightarrow> svc_call \<Rightarrow> (svc_event list \<times> svc_world) option" where
  "svc_call_step w a c =
     (case c of
        CallInit ret mid \<Rightarrow> map_option snd (airy_svc_init w (Some a) ret mid)
      | CallStart ret mid \<Rightarrow> map_option snd (airy_svc_start w (Some a) ret mid)
      | CallStop force ret timeout mid \<Rightarrow> map_option snd (airy_svc_stop w (Some a) force ret timeout mid)
      | CallPause \<Rightarrow> map_option (\<lambda>(_, w'). ([], w')) (airy_svc_pause w (Some a))
      | CallResume \<Rightarrow> map_option (\<lambda>(_, w'). ([], w')) (airy_svc_resume w (Some a))
      | CallHealth ret now \<Rightarrow> map_option snd (airy_svc_healthcheck w (Some a) ret now))"

fun svc_calls :: "svc_world \<Rightarrow> addr \<Rightarrow> svc_call list \<Rightarrow> (svc_event list \<times> svc_world) option" where
  "svc_calls w a [] = Some ([], w)"
| "svc_calls w a (c # cs) = do {
     (ev, w1) \<leftarrow> svc_call_step w a c;
     (evs, w2) \<leftarrow> svc_calls w1 a cs;
     Some (ev @ evs, w2)
   }"

text \<open>The contract: \<open>init\<close> comes first and only once; \<open>start\<close> needs a successful \<open>init\<close>, \<open>stop\<close> a successful \<open>start\<close>;
  after a failed \<open>init\<close> or a failed graceful \<open>stop\<close> only \<open>destroy\<close> is left; \<open>destroy\<close> never meets a started service.\<close>

datatype svc_phase = PFresh | PReady | PStarted | PDead | PGone

fun svc_phase_next :: "svc_phase \<Rightarrow> svc_event \<Rightarrow> svc_phase option" where
  "svc_phase_next PFresh (CbInit a e) = Some (if e = AIRY_SUCCESS then PReady else PDead)"
| "svc_phase_next PReady (CbStart a e) = Some (if e = AIRY_SUCCESS then PStarted else PReady)"
| "svc_phase_next PStarted (CbStart a e) = Some PStarted"
| "svc_phase_next PStarted (CbStop a force e) = Some (if e = AIRY_SUCCESS \<or> force then PReady else PDead)"
| "svc_phase_next PFresh (CbDestroy a) = Some PGone"
| "svc_phase_next PReady (CbDestroy a) = Some PGone"
| "svc_phase_next PDead (CbDestroy a) = Some PGone"
| "svc_phase_next PGone e = None"
| "svc_phase_next p (CbHealthcheck a e) = Some p"
| "svc_phase_next p e = None"

fun svc_phases :: "svc_phase \<Rightarrow> svc_event list \<Rightarrow> svc_phase option" where
  "svc_phases p [] = Some p"
| "svc_phases p (e # es) = do { p' \<leftarrow> svc_phase_next p e; svc_phases p' es }"

lemma svc_phases_append: "svc_phases p (es @ fs) = do { p' \<leftarrow> svc_phases p es; svc_phases p' fs }"
  by (induction es arbitrary: p) (auto split: Option.bind_split)

fun svc_phase_of :: "airy_svc_state \<Rightarrow> svc_phase option" where
  "svc_phase_of AIRY_SVC_STATE_CREATED = Some PFresh"
| "svc_phase_of AIRY_SVC_STATE_READY = Some PReady"
| "svc_phase_of AIRY_SVC_STATE_STOPPED = Some PReady"
| "svc_phase_of AIRY_SVC_STATE_ZOMBIE = Some PReady"
| "svc_phase_of AIRY_SVC_STATE_RUNNING = Some PStarted"
| "svc_phase_of AIRY_SVC_STATE_PAUSED = Some PStarted"
| "svc_phase_of AIRY_SVC_STATE_ERROR = Some PDead"
| "svc_phase_of _ = None"

text \<open>Every function of the interface is set.\<close>

definition svc_full :: "svc_internal \<Rightarrow> bool" where
  "svc_full s = (let f = si_iface s in if_init f \<and> if_start f \<and> if_stop f \<and> if_destroy f)"

definition svc_in :: "svc_world \<Rightarrow> addr \<Rightarrow> svc_phase \<Rightarrow> bool" where
  "svc_in w a p = (\<exists>s. sw_heap w a = Some s \<and> svc_full s \<and> svc_phase_of (si_state s) = Some p)"

lemma svc_in_only:
  "svc_only w w' a st \<Longrightarrow> sw_heap w a = Some s \<Longrightarrow> svc_full s \<Longrightarrow> svc_phase_of st = Some p \<Longrightarrow> svc_in w' a p"
  by (auto simp: svc_only_def svc_in_def svc_full_def Let_def)

lemma active_phase: "svc_active st \<longleftrightarrow> svc_phase_of st = Some PStarted"
  by (cases st) (simp_all add: svc_active_def)

lemma svc_call_step_ok:
  assumes "svc_in w a p"
  shows "\<exists>ev w' p'. svc_call_step w a c = Some (ev, w') \<and> svc_phases p ev = Some p' \<and> svc_in w' a p'"
proof -
  obtain s where s: "sw_heap w a = Some s" "svc_full s" and p: "svc_phase_of (si_state s) = Some p"
    using assms by (auto simp: svc_in_def)
  have f: "if_init (si_iface s)" "if_start (si_iface s)" "if_stop (si_iface s)" using s(2) by (simp_all add: svc_full_def Let_def)
  note only = svc_in_only [OF _ s]
  show ?thesis
  proof (cases c)
    case (CallInit ret mid)
    show ?thesis
    proof (cases "si_state s = AIRY_SVC_STATE_CREATED")
      case True
      then obtain w' where "airy_svc_init w (Some a) ret mid = Some (ret, [CbInit a ret], w')"
        "svc_only w w' a (if ret = AIRY_SUCCESS then AIRY_SVC_STATE_READY else AIRY_SVC_STATE_ERROR)"
        using init_ok [OF s(1) f(1), of ret mid] by auto
      then show ?thesis using True p only [of w'] by (auto simp: CallInit svc_call_step_def)
    next
      case False
      then show ?thesis using init_ok [OF s(1) f(1), of ret mid] assms by (auto simp: CallInit svc_call_step_def)
    qed
  next
    case (CallStart ret mid)
    show ?thesis
    proof (cases "si_state s \<in> {AIRY_SVC_STATE_READY, AIRY_SVC_STATE_STOPPED, AIRY_SVC_STATE_PAUSED, AIRY_SVC_STATE_ZOMBIE}")
      case True
      then obtain w' st where w': "airy_svc_start w (Some a) ret mid = Some (ret, [CbStart a ret], w')"
        "svc_only w w' a st" "if ret = AIRY_SUCCESS then svc_active st else st = si_state s"
        using start_ok [OF s(1) f(2), of ret mid] by auto
      then show ?thesis using True p only [OF w'(2)] active_phase [of st]
        by (auto simp: CallStart svc_call_step_def split: if_splits)
    next
      case False
      then show ?thesis using start_ok [OF s(1) f(2), of ret mid] assms by (auto simp: CallStart svc_call_step_def)
    qed
  next
    case (CallStop force ret timeout mid)
    show ?thesis
    proof (cases "svc_active (si_state s)")
      case True
      then obtain w' st where w': "airy_svc_stop w (Some a) force ret timeout mid = Some (ret, [CbStop a force ret], w')"
        "svc_only w w' a st"
        "if ret = AIRY_SUCCESS \<or> force then st \<in> {AIRY_SVC_STATE_STOPPED, AIRY_SVC_STATE_ZOMBIE} else st = AIRY_SVC_STATE_ERROR"
        using stop_ok [OF s(1) f(3), of force ret timeout mid] by auto
      have "p = PStarted" using True p active_phase by simp
      then show ?thesis using w' only [OF w'(2)] by (auto simp: CallStop svc_call_step_def split: if_splits)
    next
      case False
      then show ?thesis using stop_ok [OF s(1) f(3), of force ret timeout mid] assms by (auto simp: CallStop svc_call_step_def)
    qed
  next
    case CallPause
    then show ?thesis using pause_only [OF s(1)] p only active_phase
      by (fastforce simp: svc_call_step_def split: if_splits)
  next
    case CallResume
    then show ?thesis using resume_only [OF s(1)] p only active_phase
      by (fastforce simp: svc_call_step_def split: if_splits)
  next
    case (CallHealth ret now)
    have "svc_phases p [CbHealthcheck a ret] = Some p" using p by (cases p; cases "si_state s") simp_all
    then show ?thesis using s p assms
      by (auto simp: CallHealth svc_call_step_def airy_svc_healthcheck_def svc_upd_def svc_in_def svc_full_def Let_def)
  qed
qed

lemma svc_calls_ok:
  "svc_in w a p \<Longrightarrow> \<exists>evs w' p'. svc_calls w a cs = Some (evs, w') \<and> svc_phases p evs = Some p' \<and> svc_in w' a p'"
proof (induction cs arbitrary: w p)
  case (Cons c cs)
  obtain ev w1 p1 where "svc_call_step w a c = Some (ev, w1)" "svc_phases p ev = Some p1" "svc_in w1 a p1"
    using svc_call_step_ok [OF Cons.prems] by blast
  moreover obtain evs w2 p2 where "svc_calls w1 a cs = Some (evs, w2)" "svc_phases p1 evs = Some p2" "svc_in w2 a p2"
    using Cons.IH calculation(3) by blast
  ultimately show ?case by (simp add: svc_phases_append)
qed simp

end
