(* ===== verification/Svc_Registry.thy ===== *)
theory Svc_Registry
  imports Svc_Lifecycle
begin

section \<open>Service framework: the registry\<close>

text \<open>
  The linked list of registered services. As long as the module is not cleaned up, every sequence of
  operations behaves like the obvious registry on a list of handles, no operation touches freed memory, and
  the count is exact. Cleaning up breaks this: a service that is destroyed afterwards stays in the list. So
  does a \<open>destroy\<close> function that frees its service, as the header file asks it to: the service is used again.
\<close>

subsection \<open>The list\<close>

fun svc_chain :: "(addr \<Rightarrow> svc_internal option) \<Rightarrow> addr option \<Rightarrow> addr list \<Rightarrow> bool" where
  "svc_chain h p [] = (p = None)"
| "svc_chain h p (a # as) = (p = Some a \<and> (\<exists>s. h a = Some s \<and> svc_chain h (si_next s) as))"

definition next_at :: "(addr \<Rightarrow> svc_internal option) \<Rightarrow> addr \<Rightarrow> addr option option" where
  "next_at h a = map_option si_next (h a)"

definition name_at :: "svc_world \<Rightarrow> addr \<Rightarrow> cstr" where
  "name_at w a = (case sw_heap w a of None \<Rightarrow> [] | Some s \<Rightarrow> si_name s)"

lemma chain_cong: "(\<And>a. a \<in> set as \<Longrightarrow> next_at h' a = next_at h a) \<Longrightarrow> svc_chain h' p as = svc_chain h p as"
proof (induction as arbitrary: p)
  case (Cons a as)
  then have "next_at h' a = next_at h a" "\<And>p. svc_chain h' p as = svc_chain h p as" by simp_all
  then show ?case by (cases "h a"; cases "h' a") (simp_all add: next_at_def)
qed simp

lemma chain_live: "svc_chain h p as \<Longrightarrow> a \<in> set as \<Longrightarrow> h a \<noteq> None"
  by (induction as arbitrary: p) auto

lemma find_from_ok: "svc_chain (sw_heap w) p as \<Longrightarrow> svc_find_from w p name = Some (find (\<lambda>a. name_at w a = name) as)"
proof (induction as arbitrary: p)
  case Nil
  then show ?case by (simp add: svc_find_from.simps)
next
  case (Cons a as)
  then obtain s where "sw_heap w a = Some s" "p = Some a" "svc_chain (sw_heap w) (si_next s) as" by auto
  with Cons.IH show ?case by (simp add: svc_find_from.simps [of w "Some a"] name_at_def)
qed

lemma listed_from_ok: "svc_chain (sw_heap w) p as \<Longrightarrow> svc_listed_from w p a = Some (a \<in> set as)"
proof (induction as arbitrary: p)
  case Nil
  then show ?case by (simp add: svc_listed_from.simps)
next
  case (Cons b as)
  then obtain s where "sw_heap w b = Some s" "p = Some b" "svc_chain (sw_heap w) (si_next s) as" by auto
  with Cons.IH show ?case by (auto simp: svc_listed_from.simps [of w "Some b"])
qed

lemma walk_ok: "svc_chain (sw_heap w) p as \<Longrightarrow> svc_walk w p = Some as"
proof (induction as arbitrary: p)
  case Nil
  then show ?case by (simp add: svc_walk.simps)
next
  case (Cons a as)
  then obtain s where "sw_heap w a = Some s" "p = Some a" "svc_chain (sw_heap w) (si_next s) as" by auto
  with Cons.IH show ?case by (simp add: svc_walk.simps [of w "Some a"])
qed

text \<open>Worlds that differ in their links only.\<close>

definition same_svcs :: "svc_world \<Rightarrow> svc_world \<Rightarrow> bool" where
  "same_svcs w w' = (\<forall>a. map_option (si_next_update (\<lambda>_. None)) (sw_heap w' a) = map_option (si_next_update (\<lambda>_. None)) (sw_heap w a))"

lemma same_svcs_refl [simp]: "same_svcs w w"
  by (simp add: same_svcs_def)

lemma same_svcs_upd: "same_svcs w (w\<lparr>sw_heap := (sw_heap w)(a := map_option (\<lambda>s. s\<lparr>si_next := v\<rparr>) (sw_heap w a))\<rparr>)"
  by (auto simp: same_svcs_def option.map_comp o_def)

definition reg_ok :: "svc_world \<Rightarrow> addr list \<Rightarrow> bool" where
  "reg_ok w as = (svc_chain (sw_heap w) (sw_services w) as \<and> distinct as \<and> sw_count w = of_nat (length as))"

lemma push_ok:
  assumes "reg_ok w as" and "a \<notin> set as" and "sw_heap w a = Some s"
  shows "\<exists>w'. svc_push w a = Some w' \<and> reg_ok w' (a # as) \<and> same_svcs w w' \<and> sw_initialized w' = sw_initialized w"
proof -
  let ?h = "(sw_heap w)(a := Some (s\<lparr>si_next := sw_services w\<rparr>))"
  let ?w = "w\<lparr>sw_heap := ?h, sw_services := Some a, sw_count := sw_count w + 1\<rparr>"
  have "svc_chain ?h (sw_services w) as = svc_chain (sw_heap w) (sw_services w) as"
    using assms(2) by (intro chain_cong) (auto simp: next_at_def)
  then have "svc_chain ?h (sw_services w) as" using assms(1) by (simp add: reg_ok_def)
  then have "reg_ok ?w (a # as)" using assms(1,2) by (auto simp: reg_ok_def)
  moreover have "same_svcs w ?w" using same_svcs_upd [of w a "sw_services w"] assms(3) by (simp add: same_svcs_def)
  moreover have "svc_push w a = Some ?w" by (simp add: svc_push_def svc_upd_def assms(3))
  ultimately show ?thesis by auto
qed

lemma chain_relink:
  assumes "svc_chain h p (us @ c # bs)" and "us \<noteq> []" and "distinct (us @ c # bs)" and "h c = Some sc"
  shows "svc_chain (h(last us := map_option (\<lambda>s. s\<lparr>si_next := si_next sc\<rparr>) (h (last us)))) p (us @ bs)"
  using assms
proof (induction us arbitrary: p)
  case (Cons u us)
  then obtain s where s: "h u = Some s" "p = Some u" "svc_chain h (si_next s) (us @ c # bs)" by auto
  show ?case
  proof (cases "us = []")
    case True
    let ?h = "h(u := Some (s\<lparr>si_next := si_next sc\<rparr>))"
    have "u \<notin> set bs" using Cons.prems(3) by simp
    then have "svc_chain ?h (si_next sc) bs = svc_chain h (si_next sc) bs"
      by (intro chain_cong) (auto simp: next_at_def)
    then show ?thesis using True s Cons.prems(4) by (auto simp: fun_upd_def)
  next
    case False
    then have l: "last us \<noteq> u" using Cons.prems(3) by (auto dest: last_in_set)
    from Cons.IH [OF s(3) False _ Cons.prems(4)] Cons.prems(3) show ?thesis using s l False by auto
  qed
qed simp

lemma unlink_from_ok:
  assumes "svc_chain (sw_heap w) (sw_services w) (us @ bs)" and "distinct (us @ bs)" and "svc_chain (sw_heap w) cur bs"
    and "prev = (if us = [] then None else Some (last us))"
  shows "\<exists>w'. svc_unlink_from w prev cur a = Some (a \<in> set bs, w') \<and> same_svcs w w' \<and>
    sw_initialized w' = sw_initialized w \<and>
    (if a \<in> set bs then svc_chain (sw_heap w') (sw_services w') (us @ remove1 a bs) \<and> sw_count w' = sw_count w - 1
     else w' = w)"
  using assms
proof (induction bs arbitrary: us cur prev)
  case Nil
  then show ?case by (simp add: svc_unlink_from.simps)
next
  case (Cons c bs)
  obtain s where s: "cur = Some c" "sw_heap w c = Some s" "svc_chain (sw_heap w) (si_next s) bs" using Cons.prems(3) by auto
  show ?case
  proof (cases "c = a")
    case False
    have "svc_chain (sw_heap w) (sw_services w) ((us @ [c]) @ bs)" "distinct ((us @ [c]) @ bs)" using Cons.prems by auto
    from Cons.IH [OF this s(3) refl] show ?thesis
      using s False by (auto simp: svc_unlink_from.simps [of w prev "Some c"] split: if_splits)
  next
    case True
    show ?thesis
    proof (cases "us = []")
      case us: True
      then show ?thesis
        using s True Cons.prems(4) by (simp add: svc_unlink_from.simps [of w None "Some a"] svc_set_link_def same_svcs_def)
    next
      case False
      let ?h = "(sw_heap w)(last us := map_option (\<lambda>x. x\<lparr>si_next := si_next s\<rparr>) (sw_heap w (last us)))"
      have l: "sw_heap w (last us) \<noteq> None" using chain_live [OF Cons.prems(1)] False by simp
      have "svc_chain ?h (sw_services w) (us @ bs)" by (rule chain_relink [OF Cons.prems(1) False Cons.prems(2) s(2)])
      moreover have "same_svcs w (w\<lparr>sw_heap := ?h, sw_count := sw_count w - 1\<rparr>)"
        using same_svcs_upd [of w "last us" "si_next s"] by (simp add: same_svcs_def)
      moreover have "svc_unlink_from w prev cur a = Some (True, w\<lparr>sw_heap := ?h, sw_count := sw_count w - 1\<rparr>)"
        using s True Cons.prems(4) False l
        by (auto simp: svc_unlink_from.simps [of w "Some (last us)" "Some a"] svc_set_link_def svc_upd_def)
      ultimately show ?thesis using True by simp
    qed
  qed
qed

lemma unlink_ok:
  assumes "reg_ok w as"
  shows "\<exists>w'. svc_unlink_from w None (sw_services w) a = Some (a \<in> set as, w') \<and> same_svcs w w' \<and>
    sw_initialized w' = sw_initialized w \<and> reg_ok w' (remove1 a as)"
proof -
  have c: "svc_chain (sw_heap w) (sw_services w) as" "distinct as" "sw_count w = of_nat (length as)"
    using assms by (auto simp: reg_ok_def)
  obtain w' where w': "svc_unlink_from w None (sw_services w) a = Some (a \<in> set as, w')" "same_svcs w w'"
    "sw_initialized w' = sw_initialized w"
    "if a \<in> set as then svc_chain (sw_heap w') (sw_services w') (remove1 a as) \<and> sw_count w' = sw_count w - 1 else w' = w"
    using unlink_from_ok [of w "[]" as "sw_services w" None a, unfolded append_Nil] c by (simp only: simp_thms if_True) blast
  have "reg_ok w' (remove1 a as)"
  proof (cases "a \<in> set as")
    case True
    have "sw_count w' = of_nat (length as) - 1" using w'(4) True c(3) by simp
    also obtain m where "length as = Suc m" using True by (cases as) auto
    then have "of_nat (length as) - 1 = (of_nat (length (remove1 a as)) :: u32)" using True by (simp add: length_remove1)
    finally show ?thesis using w'(4) True c(2) by (simp add: reg_ok_def)
  next
    case False
    then show ?thesis using assms w'(4) by (simp add: remove1_idem)
  qed
  then show ?thesis using w' by blast
qed

subsection \<open>Any sequence of operations\<close>

text \<open>The operations of the clients, with the outcomes of their allocations, mutex initialisations and callbacks.\<close>

datatype svc_op =
    OpCreate cstr airy_svc_interface airy_svc_config airy_err "addr option" airy_err airy_err
  | OpDestroy addr bool airy_err bool "bool list"
  | OpRegister addr airy_err
  | OpUnregister addr
  | OpFind cstr
  | OpCount
  | OpForeach
  | OpCall addr svc_call

datatype svc_out = OCode airy_err | OHandle airy_err "addr option" | OAddr "addr option" | OCount u32 | OAddrs "addr list" | ODone

definition svc_step :: "svc_world \<Rightarrow> svc_op \<Rightarrow> (svc_out \<times> svc_world) option" where
  "svc_step w opn =
     (case opn of
        OpCreate n ifc cfg mtx0 mem mtx1 mtx2 \<Rightarrow>
          map_option (\<lambda>(err, hd, w'). (OHandle err hd, w'))
            (airy_svc_create w (Some n) (Some ifc) (Some cfg) mtx0 mem mtx1 mtx2)
      | OpDestroy a frees ret timeout mid \<Rightarrow>
          map_option (\<lambda>(ev, w'). (ODone, w')) (airy_svc_destroy w (Some a) frees ret timeout mid)
      | OpRegister a mtx \<Rightarrow> map_option (\<lambda>(err, w'). (OCode err, w')) (airy_svc_register w (Some a) mtx)
      | OpUnregister a \<Rightarrow> map_option (\<lambda>(err, w'). (OCode err, w')) (airy_svc_unregister w (Some a))
      | OpFind n \<Rightarrow> map_option (\<lambda>r. (OAddr r, w)) (airy_svc_find w (Some n))
      | OpCount \<Rightarrow> Some (OCount (airy_svc_count w), w)
      | OpForeach \<Rightarrow> map_option (\<lambda>as. (OAddrs as, w)) (airy_svc_foreach w True)
      | OpCall a c \<Rightarrow> map_option (\<lambda>(ev, w'). (ODone, w')) (svc_call_step w a c))"

fun svc_run :: "svc_world \<Rightarrow> svc_op list \<Rightarrow> (svc_out list \<times> svc_world) option" where
  "svc_run w [] = Some ([], w)"
| "svc_run w (opn # ops) = do {
     (o1, w1) \<leftarrow> svc_step w opn;
     (os, w2) \<leftarrow> svc_run w1 ops;
     Some (o1 # os, w2)
   }"

text \<open>
  The specification: the names of the live services and the list of the registered ones, last registered
  first. The module is initialised, so that the outcome of initialising its mutex again plays no role. A
  service is created unless its name is empty or too long, there is no memory, its version is too long, one
  of its two mutexes cannot be initialised, or the name is taken, in this order; a failure changes nothing.
\<close>

record svc_spec =
  sp_names :: "addr \<Rightarrow> cstr option"
  sp_list :: "addr list"

definition spec_find :: "svc_spec \<Rightarrow> cstr \<Rightarrow> addr option" where
  "spec_find sp n = find (\<lambda>a. sp_names sp a = Some n) (sp_list sp)"

definition spec_step :: "svc_spec \<Rightarrow> svc_op \<Rightarrow> svc_out \<times> svc_spec" where
  "spec_step sp opn =
     (case opn of
        OpCreate n ifc cfg mtx0 mem mtx1 mtx2 \<Rightarrow>
          if n = [] \<or> length n \<ge> 64 then (OHandle AIRY_EINVAL None, sp)
          else (case mem of
              None \<Rightarrow> (OHandle AIRY_ENOMEM None, sp)
            | Some a \<Rightarrow>
                if (case sc_version cfg of None \<Rightarrow> False | Some v \<Rightarrow> length v \<ge> 32) then (OHandle AIRY_EINVAL None, sp)
                else if mtx1 \<noteq> AIRY_SUCCESS then (OHandle (AIRY_ERR_NEG mtx1) None, sp)
                else if mtx2 \<noteq> AIRY_SUCCESS then (OHandle mtx2 None, sp)
                else if spec_find sp n \<noteq> None then (OHandle AIRY_EEXIST None, sp)
                else (OHandle AIRY_SUCCESS (Some a), sp\<lparr>sp_names := (sp_names sp)(a := Some n), sp_list := a # sp_list sp\<rparr>))
      | OpDestroy a frees ret timeout mid \<Rightarrow>
          (ODone, sp\<lparr>sp_list := remove1 a (sp_list sp), sp_names := (sp_names sp)(a := None)\<rparr>)
      | OpRegister a mtx \<Rightarrow> (OCode AIRY_SUCCESS, if a \<in> set (sp_list sp) then sp else sp\<lparr>sp_list := a # sp_list sp\<rparr>)
      | OpUnregister a \<Rightarrow>
          (OCode (if a \<in> set (sp_list sp) then AIRY_SUCCESS else AIRY_ENOENT), sp\<lparr>sp_list := remove1 a (sp_list sp)\<rparr>)
      | OpFind n \<Rightarrow> (OAddr (spec_find sp n), sp)
      | OpCount \<Rightarrow> (OCount (of_nat (length (sp_list sp))), sp)
      | OpForeach \<Rightarrow> (OAddrs (sp_list sp), sp)
      | OpCall a c \<Rightarrow> (ODone, sp))"

text \<open>The allocator returns unused memory, handles of live services are used, and \<open>destroy\<close> functions do not free the service.\<close>

fun svc_op_valid :: "svc_spec \<Rightarrow> svc_op \<Rightarrow> bool" where
  "svc_op_valid sp (OpCreate n ifc cfg mtx0 mem mtx1 mtx2) = (case mem of None \<Rightarrow> True | Some a \<Rightarrow> sp_names sp a = None)"
| "svc_op_valid sp (OpDestroy a frees ret timeout mid) = (sp_names sp a \<noteq> None \<and> \<not> frees)"
| "svc_op_valid sp (OpRegister a mtx) = (sp_names sp a \<noteq> None)"
| "svc_op_valid sp (OpUnregister a) = (sp_names sp a \<noteq> None)"
| "svc_op_valid sp (OpCall a c) = (sp_names sp a \<noteq> None)"
| "svc_op_valid sp _ = True"

fun svc_ops_valid :: "svc_spec \<Rightarrow> svc_op list \<Rightarrow> bool" where
  "svc_ops_valid sp [] = True"
| "svc_ops_valid sp (opn # ops) = (svc_op_valid sp opn \<and> svc_ops_valid (snd (spec_step sp opn)) ops)"

text \<open>The refinement relation.\<close>

definition svc_refines :: "svc_world \<Rightarrow> svc_spec \<Rightarrow> bool" where
  "svc_refines w sp =
     (sw_initialized w \<and> reg_ok w (sp_list sp) \<and> (\<forall>a. sp_names sp a = map_option si_name (sw_heap w a)))"

lemma refines_live: "svc_refines w sp \<Longrightarrow> (sp_names sp a \<noteq> None) = (\<exists>s. sw_heap w a = Some s)"
  by (auto simp: svc_refines_def)

lemma refines_listed_live: "svc_refines w sp \<Longrightarrow> a \<in> set (sp_list sp) \<Longrightarrow> sw_heap w a \<noteq> None"
  by (auto simp: svc_refines_def reg_ok_def dest: chain_live)

lemma same_svcs_names: "same_svcs w w' \<Longrightarrow> map_option si_name (sw_heap w' a) = map_option si_name (sw_heap w a)"
proof -
  assume "same_svcs w w'"
  then have "map_option (si_next_update (\<lambda>_. None)) (sw_heap w' a) = map_option (si_next_update (\<lambda>_. None)) (sw_heap w a)"
    by (simp add: same_svcs_def)
  then have "map_option (si_name \<circ> si_next_update (\<lambda>_. None)) (sw_heap w' a) =
      map_option (si_name \<circ> si_next_update (\<lambda>_. None)) (sw_heap w a)"
    by (metis option.map_comp)
  then show ?thesis by (simp add: o_def)
qed

lemma svc_find_ok:
  assumes "svc_refines w sp"
  shows "find_service_internal w (Some n) = Some (spec_find sp n)"
proof -
  have "find (\<lambda>a. name_at w a = n) as = find (\<lambda>a. sp_names sp a = Some n) as" if "\<forall>a \<in> set as. sw_heap w a \<noteq> None" for as
    using that assms by (induction as) (auto simp: name_at_def svc_refines_def)
  then have "find (\<lambda>a. name_at w a = n) (sp_list sp) = spec_find sp n"
    using refines_listed_live [OF assms] by (simp add: spec_find_def)
  then show ?thesis
    using assms find_from_ok [of w "sw_services w" "sp_list sp" n] by (simp add: find_service_internal_def svc_refines_def reg_ok_def)
qed

text \<open>A call on one service leaves its name, its link and its interface alone.\<close>

definition svc_frame :: "svc_world \<Rightarrow> svc_world \<Rightarrow> addr \<Rightarrow> bool" where
  "svc_frame w w' a = (\<exists>s s'. sw_heap w a = Some s \<and> w' = w\<lparr>sw_heap := (sw_heap w)(a := Some s')\<rparr> \<and>
     si_name s' = si_name s \<and> si_next s' = si_next s \<and> si_iface s' = si_iface s)"

lemma frameI:
  "sw_heap w a = Some s \<Longrightarrow> si_name s' = si_name s \<Longrightarrow> si_next s' = si_next s \<Longrightarrow> si_iface s' = si_iface s \<Longrightarrow>
   svc_frame w (w\<lparr>sw_heap := (sw_heap w)(a := Some s')\<rparr>) a"
  unfolding svc_frame_def by blast

lemma only_frame: "svc_only w w' a st \<Longrightarrow> svc_frame w w' a"
  by (auto simp: svc_only_def intro: frameI)

lemma frame_refl: "sw_heap w a = Some s \<Longrightarrow> svc_frame w w a"
  using frameI [of w a s s] by (simp add: fun_upd_idem)

lemma refines_frame:
  assumes r: "svc_refines w sp" and f: "svc_frame w w' a"
  shows "svc_refines w' sp"
proof -
  obtain s s' where h: "sw_heap w a = Some s" "w' = w\<lparr>sw_heap := (sw_heap w)(a := Some s')\<rparr>" "si_name s' = si_name s" "si_next s' = si_next s"
    using f by (auto simp: svc_frame_def)
  have "svc_chain (sw_heap w') (sw_services w) (sp_list sp) = svc_chain (sw_heap w) (sw_services w) (sp_list sp)"
    by (rule chain_cong) (simp add: next_at_def h)
  then show ?thesis using r by (auto simp: svc_refines_def reg_ok_def h)
qed

lemma meanwhile_any:
  assumes s: "sw_heap w a = Some s"
  shows "\<exists>w1 w2 st w3. svc_set_state w a st0 = Some w1 \<and> svc_meanwhile w1 a mid = Some w2 \<and> svc_only w w2 a st \<and>
    svc_set_state w2 a st1 = Some w3 \<and> svc_only w w3 a st1"
proof -
  obtain w1 where 1: "svc_set_state w a st0 = Some w1" "svc_only w w1 a st0" using set_state_only [OF s] by blast
  obtain w2 st where 2: "svc_meanwhile w1 a mid = Some w2" "svc_only w1 w2 a st"
    using meanwhile_only [OF svc_only_read [OF 1(2) s]] by blast
  obtain w3 where 3: "svc_set_state w2 a st1 = Some w3" "svc_only w2 w3 a st1"
    using set_state_only [OF svc_only_read [OF 2(2) svc_only_read [OF 1(2) s]]] by blast
  show ?thesis using 1 2 3 svc_only_trans by blast
qed

lemma stop_frame:
  assumes s: "sw_heap w a = Some s"
  shows "\<exists>err ev w'. airy_svc_stop w (Some a) force ret timeout mid = Some (err, ev, w') \<and> svc_frame w w' a"
proof -
  let ?st = "if (if if_stop (si_iface s) then ret else AIRY_SUCCESS) = AIRY_SUCCESS \<or> force
    then (if if_stop (si_iface s) \<and> force \<and> timeout then AIRY_SVC_STATE_ZOMBIE else AIRY_SVC_STATE_STOPPED) else AIRY_SVC_STATE_ERROR"
  obtain w1 w2 st w3 where m: "svc_set_state w a AIRY_SVC_STATE_STOPPING = Some w1" "svc_meanwhile w1 a mid = Some w2"
    "svc_set_state w2 a ?st = Some w3" "svc_only w w3 a ?st"
    using meanwhile_any [OF s] by blast
  show ?thesis
  proof (cases "si_state s = AIRY_SVC_STATE_RUNNING \<or> si_state s = AIRY_SVC_STATE_PAUSED")
    case True
    then have "map_option (snd \<circ> snd) (airy_svc_stop w (Some a) force ret timeout mid) = Some w3"
      using s m(1,2,3) unfolding airy_svc_stop_def by (auto simp: Let_def)
    then show ?thesis using only_frame [OF m(4)] by auto
  qed (use s frame_refl [OF s] in \<open>simp add: airy_svc_stop_def\<close>)
qed

lemma init_frame:
  assumes s: "sw_heap w a = Some s"
  shows "\<exists>err ev w'. airy_svc_init w (Some a) ret mid = Some (err, ev, w') \<and> svc_frame w w' a"
proof -
  let ?st = "if (if if_init (si_iface s) then ret else AIRY_SUCCESS) = AIRY_SUCCESS then AIRY_SVC_STATE_READY else AIRY_SVC_STATE_ERROR"
  obtain w1 w2 st w3 where m: "svc_set_state w a AIRY_SVC_STATE_INITIALIZING = Some w1" "svc_meanwhile w1 a mid = Some w2"
    "svc_set_state w2 a ?st = Some w3" "svc_only w w3 a ?st"
    using meanwhile_any [OF s] by blast
  show ?thesis
  proof (cases "si_state s = AIRY_SVC_STATE_CREATED")
    case True
    then have "map_option (snd \<circ> snd) (airy_svc_init w (Some a) ret mid) = Some w3"
      using s m(1,2,3) unfolding airy_svc_init_def by (auto simp: Let_def)
    then show ?thesis using only_frame [OF m(4)] by auto
  qed (use s frame_refl [OF s] in \<open>simp add: airy_svc_init_def\<close>)
qed

lemma start_frame:
  assumes s: "sw_heap w a = Some s"
  shows "\<exists>err ev w'. airy_svc_start w (Some a) ret mid = Some (err, ev, w') \<and> svc_frame w w' a"
proof -
  obtain w1 w2 st w3 where m: "svc_set_state w a AIRY_SVC_STATE_RUNNING = Some w1" "svc_meanwhile w1 a mid = Some w2"
    "svc_only w w2 a st" "svc_set_state w2 a (si_state s) = Some w3" "svc_only w w3 a (si_state s)"
    using meanwhile_any [OF s] by blast
  show ?thesis
  proof (cases "si_state s \<in> {AIRY_SVC_STATE_READY, AIRY_SVC_STATE_STOPPED, AIRY_SVC_STATE_PAUSED, AIRY_SVC_STATE_ZOMBIE}")
    case True
    then have "map_option (snd \<circ> snd) (airy_svc_start w (Some a) ret mid) =
        Some (if (if if_start (si_iface s) then ret else AIRY_SUCCESS) \<noteq> AIRY_SUCCESS then w3 else w2)"
      using s m(1,2,4) unfolding airy_svc_start_def by (auto simp: Let_def)
    then show ?thesis using only_frame [OF m(3)] only_frame [OF m(5)] by (auto split: if_splits)
  qed (use s frame_refl [OF s] in \<open>simp add: airy_svc_start_def\<close>)
qed

lemma call_frame:
  assumes s: "sw_heap w a = Some s"
  shows "\<exists>ev w'. svc_call_step w a c = Some (ev, w') \<and> svc_frame w w' a"
proof (cases c)
  case (CallInit ret mid)
  then show ?thesis using init_frame [OF s, of ret mid] by (auto simp: svc_call_step_def)
next
  case (CallStart ret mid)
  then show ?thesis using start_frame [OF s, of ret mid] by (auto simp: svc_call_step_def)
next
  case (CallStop force ret timeout mid)
  then show ?thesis using stop_frame [OF s, of force ret timeout mid] by (auto simp: svc_call_step_def)
next
  case CallPause
  then show ?thesis using pause_only [OF s] only_frame by (fastforce simp: svc_call_step_def)
next
  case CallResume
  then show ?thesis using resume_only [OF s] only_frame by (fastforce simp: svc_call_step_def)
next
  case (CallHealth ret now)
  have "svc_frame w (w\<lparr>sw_heap := (sw_heap w)(a := Some (s\<lparr>last_healthcheck_time := now, healthcheck_failures := k\<rparr>))\<rparr>) a" for k
    by (rule frameI [OF s]) simp_all
  then show ?thesis using s frame_refl [OF s] by (simp add: CallHealth svc_call_step_def airy_svc_healthcheck_def svc_upd_def)
qed

lemma refines_heap_out:
  assumes r: "svc_refines w sp" and a: "a \<notin> set (sp_list sp)"
  shows "svc_refines (w\<lparr>sw_heap := (sw_heap w)(a := v)\<rparr>) (sp\<lparr>sp_names := (sp_names sp)(a := map_option si_name v)\<rparr>)"
proof -
  have "svc_chain ((sw_heap w)(a := v)) (sw_services w) (sp_list sp) = svc_chain (sw_heap w) (sw_services w) (sp_list sp)"
    by (rule chain_cong) (use a in \<open>auto simp: next_at_def\<close>)
  then show ?thesis using r by (auto simp: svc_refines_def reg_ok_def)
qed

lemma refines_links:
  "svc_refines w sp \<Longrightarrow> same_svcs w w' \<Longrightarrow> sw_initialized w' = sw_initialized w \<Longrightarrow> reg_ok w' as \<Longrightarrow>
   svc_refines w' (sp\<lparr>sp_list := as\<rparr>)"
  by (simp add: svc_refines_def same_svcs_names)

lemma spec_find_out: "a \<notin> set (sp_list sp) \<Longrightarrow> spec_find (sp\<lparr>sp_names := (sp_names sp)(a := v)\<rparr>) n = spec_find sp n"
  unfolding spec_find_def by (rule find_cong) auto

lemma create_fails:
  assumes "svc_refines w sp" and "n = [] \<or> length n \<ge> 64 \<or> mem = None \<or>
    (case sc_version cfg of None \<Rightarrow> False | Some v \<Rightarrow> length v \<ge> 32) \<or> mtx1 \<noteq> AIRY_SUCCESS \<or> mtx2 \<noteq> AIRY_SUCCESS"
  shows "svc_step w (OpCreate n ifc cfg mtx0 mem mtx1 mtx2) =
      Some (fst (spec_step sp (OpCreate n ifc cfg mtx0 mem mtx1 mtx2)), w) \<and>
    snd (spec_step sp (OpCreate n ifc cfg mtx0 mem mtx1 mtx2)) = sp"
proof -
  have v: "(case sc_version cfg of None \<Rightarrow> True | Some v \<Rightarrow> length v < MAX_SERVICE_VERSION_LEN) \<longleftrightarrow>
      \<not> (case sc_version cfg of None \<Rightarrow> False | Some v \<Rightarrow> length v \<ge> 32)"
    by (auto simp: MAX_SERVICE_VERSION_LEN_def split: option.split)
  have "svc_common_module_init w mtx0 = (AIRY_SUCCESS, w)" "AIRY_ERR_NEG AIRY_EINVAL = AIRY_EINVAL"
    "AIRY_ERR_NEG AIRY_ENOMEM = AIRY_ENOMEM"
    using assms(1) by (simp_all add: svc_common_module_init_def svc_refines_def AIRY_ERR_NEG_def AIRY_EINVAL_def AIRY_ENOMEM_def)
  then show ?thesis
    using assms(2) unfolding svc_step_def spec_step_def airy_svc_create_def
    by (cases mem) (auto simp: v MAX_SERVICE_NAME_LEN_def)
qed

lemma create_refines:
  fixes ifc mtx0
  assumes r: "svc_refines w sp" and a: "sp_names sp a = None"
    and ok: "\<not> (n = [] \<or> length n \<ge> 64 \<or> (case sc_version cfg of None \<Rightarrow> False | Some v \<Rightarrow> length v \<ge> 32))"
  defines "opn \<equiv> OpCreate n ifc cfg mtx0 (Some a) AIRY_SUCCESS AIRY_SUCCESS"
  shows "\<exists>w'. svc_step w opn = Some (fst (spec_step sp opn), w') \<and> svc_refines w' (snd (spec_step sp opn))"
proof -
  define s where "s = \<lparr>si_name = n, si_version = (case sc_version cfg of None \<Rightarrow> [] | Some v \<Rightarrow> v),
    si_state = AIRY_SVC_STATE_CREATED, si_config = cfg, si_capabilities = sc_capabilities cfg,
    si_stats = zero_svc_stats, si_iface = ifc, last_healthcheck_time = 0, healthcheck_failures = 0,
    si_user_data = None, si_thread_pool = None, si_next = None\<rparr>"
  let ?w1 = "w\<lparr>sw_heap := (sw_heap w)(a := Some s)\<rparr>" and ?sp1 = "sp\<lparr>sp_names := (sp_names sp)(a := Some n)\<rparr>"
  have dead: "sw_heap w a = None" "a \<notin> set (sp_list sp)"
    using a r refines_live [OF r, of a] refines_listed_live [OF r, of a] by auto
  have r1: "svc_refines ?w1 ?sp1" using refines_heap_out [OF r dead(2), of "Some s"] by (simp add: s_def)
  have init: "sw_initialized w" using r by (simp add: svc_refines_def)
  have create: "airy_svc_create w (Some n) (Some ifc) (Some cfg) mtx0 (Some a) AIRY_SUCCESS AIRY_SUCCESS = do {
      (err', w1) \<leftarrow> register_service_internal ?w1 (Some a);
      Some (if err' \<noteq> AIRY_SUCCESS then (err', None, w1\<lparr>sw_heap := (sw_heap w1)(a := None)\<rparr>) else (AIRY_SUCCESS, Some a, w1)) }"
    using ok init by (auto simp: airy_svc_create_def svc_common_module_init_def MAX_SERVICE_NAME_LEN_def
        MAX_SERVICE_VERSION_LEN_def s_def split: option.splits)
  have found: "find_service_internal ?w1 (Some n) = Some (spec_find sp n)"
    using svc_find_ok [OF r1, of n] spec_find_out [OF dead(2), of "Some n" n] by simp
  have reg: "register_service_internal ?w1 (Some a) = (if spec_find sp n \<noteq> None then Some (AIRY_EEXIST, ?w1)
      else map_option (\<lambda>w1. (AIRY_SUCCESS, w1)) (svc_push ?w1 a))"
    using found init by (simp add: register_service_internal_def s_def)
  show ?thesis
  proof (cases "spec_find sp n")
    case None
    have "reg_ok ?w1 (sp_list sp)" using r1 by (simp add: svc_refines_def)
    then obtain w2 where w2: "svc_push ?w1 a = Some w2" "reg_ok w2 (a # sp_list sp)" "same_svcs ?w1 w2"
      "sw_initialized w2 = sw_initialized ?w1"
      using push_ok [of ?w1 "sp_list sp" a s] dead(2) by auto
    have "svc_refines w2 (?sp1\<lparr>sp_list := a # sp_list sp\<rparr>)" by (rule refines_links [OF r1 w2(3,4,2)])
    then show ?thesis using create reg w2(1) None ok by (auto simp: opn_def svc_step_def spec_step_def split: option.splits)
  next
    case (Some b)
    have "?w1\<lparr>sw_heap := (sw_heap ?w1)(a := None)\<rparr> = w" using dead(1) by (simp add: fun_upd_idem)
    then show ?thesis using create reg Some ok r
      by (auto simp: opn_def svc_step_def spec_step_def AIRY_EEXIST_def AIRY_SUCCESS_def split: option.splits)
  qed
qed

lemma same_svcs_iface: "same_svcs w w' \<Longrightarrow> sw_heap w a = Some s \<Longrightarrow> sw_heap w' a = Some s' \<Longrightarrow> si_iface s' = si_iface s"
proof -
  assume "same_svcs w w'" and "sw_heap w a = Some s" and "sw_heap w' a = Some s'"
  then have "s'\<lparr>si_next := None\<rparr> = s\<lparr>si_next := None\<rparr>" by (metis option.inject option.simps(9) same_svcs_def)
  then show ?thesis by (metis svc_internal.select_convs(7) svc_internal.surjective svc_internal.update_convs(12))
qed

text \<open>What destroying a live service comes to: its last event, and the world in which it is unlinked but not yet freed.\<close>

lemma destroy_unlinks:
  assumes r: "svc_refines w sp" and s: "sw_heap w a = Some s"
  shows "\<exists>ev w2. svc_refines w2 (sp\<lparr>sp_list := remove1 a (sp_list sp)\<rparr>) \<and>
    (\<forall>frees. airy_svc_destroy w (Some a) frees ret timeout mid =
       (if if_destroy (si_iface s) \<and> frees then None
        else Some (ev @ (if if_destroy (si_iface s) then [CbDestroy a] else []), w2\<lparr>sw_heap := (sw_heap w2)(a := None)\<rparr>)))"
proof -
  obtain ev w1 where 1: "(if si_state s = AIRY_SVC_STATE_RUNNING \<or> si_state s = AIRY_SVC_STATE_PAUSED
      then map_option snd (airy_svc_stop w (Some a) True ret timeout mid) else Some ([], w)) = Some (ev, w1)" "svc_frame w w1 a"
    using stop_frame [OF s, of True ret timeout mid] frame_refl [OF s]
    by (cases "si_state s = AIRY_SVC_STATE_RUNNING \<or> si_state s = AIRY_SVC_STATE_PAUSED") auto
  have r1: "svc_refines w1 sp" by (rule refines_frame [OF r 1(2)])
  then obtain w2 where 2: "svc_unlink_from w1 None (sw_services w1) a = Some (a \<in> set (sp_list sp), w2)" "same_svcs w1 w2"
    "sw_initialized w2 = sw_initialized w1" "reg_ok w2 (remove1 a (sp_list sp))"
    using unlink_ok [of w1 "sp_list sp" a] by (auto simp: svc_refines_def)
  have r2: "svc_refines w2 (sp\<lparr>sp_list := remove1 a (sp_list sp)\<rparr>)" by (rule refines_links [OF r1 2(2,3,4)])
  have "sp_names sp a \<noteq> None" using refines_live [OF r] s by auto
  then obtain s2 where s2: "sw_heap w2 a = Some s2" using refines_live [OF r2, of a] by auto
  obtain s1 where s1: "sw_heap w1 a = Some s1" "si_iface s1 = si_iface s" using 1(2) s by (auto simp: svc_frame_def)
  have "si_iface s2 = si_iface s" using same_svcs_iface [OF 2(2) s1(1) s2] s1(2) by simp
  moreover have "\<exists>err. unregister_service_internal w1 (Some a) = Some (err, w2)"
    using 2(1) r1 by (simp add: unregister_service_internal_def svc_refines_def)
  ultimately show ?thesis using s 1(1) s2 r2
    by (intro exI [of _ ev] exI [of _ w2]) (auto simp: airy_svc_destroy_def)
qed

lemma destroy_refines:
  assumes r: "svc_refines w sp" and a: "sp_names sp a \<noteq> None"
  shows "\<exists>w'. svc_step w (OpDestroy a False ret timeout mid) = Some (ODone, w') \<and>
    svc_refines w' (snd (spec_step sp (OpDestroy a False ret timeout mid)))"
proof -
  let ?sp2 = "sp\<lparr>sp_list := remove1 a (sp_list sp)\<rparr>"
  obtain s where s: "sw_heap w a = Some s" using refines_live [OF r] a by blast
  from destroy_unlinks [OF r s, of ret timeout mid] obtain ev w2 where r2: "svc_refines w2 ?sp2"
    and d: "airy_svc_destroy w (Some a) False ret timeout mid =
      Some (ev @ (if if_destroy (si_iface s) then [CbDestroy a] else []), w2\<lparr>sw_heap := (sw_heap w2)(a := None)\<rparr>)"
    by auto
  have "distinct (sp_list sp)" using r by (simp add: svc_refines_def reg_ok_def)
  then have "a \<notin> set (sp_list ?sp2)" by simp
  from refines_heap_out [OF r2 this, of None] d show ?thesis by (simp add: svc_step_def spec_step_def)
qed

text \<open>A \<open>destroy\<close> function that takes ownership and frees, as documented, makes the destruction use freed memory.\<close>

lemma destroy_documented_faults:
  assumes "svc_refines w sp" "sw_heap w a = Some s" "if_destroy (si_iface s)"
  shows "airy_svc_destroy w (Some a) True ret timeout mid = None"
  using destroy_unlinks [OF assms(1,2), of ret timeout mid] assms(3) by auto

lemma svc_step_refines:
  assumes r: "svc_refines w sp" and v: "svc_op_valid sp opn"
  shows "\<exists>w'. svc_step w opn = Some (fst (spec_step sp opn), w') \<and> svc_refines w' (snd (spec_step sp opn))"
proof (cases opn)
  case (OpCreate n ifc cfg mtx0 mem mtx1 mtx2)
  show ?thesis
  proof (cases "n = [] \<or> length n \<ge> 64 \<or> mem = None \<or> (case sc_version cfg of None \<Rightarrow> False | Some v \<Rightarrow> length v \<ge> 32) \<or>
      mtx1 \<noteq> AIRY_SUCCESS \<or> mtx2 \<noteq> AIRY_SUCCESS")
    case True
    from create_fails [OF r this] r OpCreate show ?thesis by simp
  next
    case False
    with create_refines [OF r] v OpCreate show ?thesis by auto
  qed
next
  case (OpDestroy a frees ret timeout mid)
  then show ?thesis using destroy_refines [OF r, of a ret timeout mid] v by (auto simp: spec_step_def)
next
  case (OpRegister a mtx)
  then obtain s where s: "sw_heap w a = Some s" using v refines_live [OF r] by auto
  have ok: "reg_ok w (sp_list sp)" "sw_initialized w" using r by (auto simp: svc_refines_def)
  then have l: "svc_listed_from w (sw_services w) a = Some (a \<in> set (sp_list sp))"
    by (simp add: reg_ok_def listed_from_ok)
  show ?thesis
  proof (cases "a \<in> set (sp_list sp)")
    case True
    then show ?thesis using r l ok OpRegister by (simp add: svc_step_def airy_svc_register_def spec_step_def)
  next
    case False
    obtain w' where w': "svc_push w a = Some w'" "reg_ok w' (a # sp_list sp)" "same_svcs w w'" "sw_initialized w' = sw_initialized w"
      using push_ok [OF ok(1) False s] by blast
    then show ?thesis using refines_links [OF r w'(3,4,2)] l ok False OpRegister
      by (simp add: svc_step_def airy_svc_register_def spec_step_def)
  qed
next
  case (OpUnregister a)
  obtain w' where w': "svc_unlink_from w None (sw_services w) a = Some (a \<in> set (sp_list sp), w')" "same_svcs w w'"
    "sw_initialized w' = sw_initialized w" "reg_ok w' (remove1 a (sp_list sp))"
    using unlink_ok [of w "sp_list sp" a] r by (auto simp: svc_refines_def)
  then show ?thesis using refines_links [OF r w'(2,3,4)] r OpUnregister
    by (simp add: svc_step_def airy_svc_unregister_def spec_step_def svc_refines_def)
next
  case (OpFind n)
  then show ?thesis using svc_find_ok [OF r, of n] r by (simp add: svc_step_def airy_svc_find_def spec_step_def svc_refines_def)
next
  case OpCount
  then show ?thesis using r by (simp add: svc_step_def airy_svc_count_def spec_step_def svc_refines_def reg_ok_def)
next
  case OpForeach
  then show ?thesis using r walk_ok [of w "sw_services w" "sp_list sp"]
    by (simp add: svc_step_def airy_svc_foreach_def spec_step_def svc_refines_def reg_ok_def)
next
  case (OpCall a c)
  then obtain s where "sw_heap w a = Some s" using v refines_live [OF r] by auto
  from call_frame [OF this, of c] show ?thesis using refines_frame [OF r] OpCall by (auto simp: svc_step_def spec_step_def)
qed

fun spec_run :: "svc_spec \<Rightarrow> svc_op list \<Rightarrow> svc_out list \<times> svc_spec" where
  "spec_run sp [] = ([], sp)"
| "spec_run sp (opn # ops) = (let (o1, sp1) = spec_step sp opn; (os, sp2) = spec_run sp1 ops in (o1 # os, sp2))"

lemma svc_run_refines:
  "svc_refines w sp \<Longrightarrow> svc_ops_valid sp ops \<Longrightarrow>
   \<exists>w'. svc_run w ops = Some (fst (spec_run sp ops), w') \<and> svc_refines w' (snd (spec_run sp ops))"
proof (induction ops arbitrary: w sp)
  case (Cons opn ops)
  obtain w1 where 1: "svc_step w opn = Some (fst (spec_step sp opn), w1)" "svc_refines w1 (snd (spec_step sp opn))"
    using svc_step_refines [OF Cons.prems(1)] Cons.prems(2) by auto
  from Cons.IH [OF 1(2)] Cons.prems(2) obtain w2 where
    "svc_run w1 ops = Some (fst (spec_run (snd (spec_step sp opn)) ops), w2)"
    "svc_refines w2 (snd (spec_run (snd (spec_step sp opn)) ops))" by auto
  then show ?case using 1 by (simp add: split_beta Let_def)
qed simp

subsection \<open>Destruction\<close>

lemma calls_refine: "svc_refines w sp \<Longrightarrow> sp_names sp a \<noteq> None \<Longrightarrow> \<exists>evs w'. svc_calls w a cs = Some (evs, w') \<and> svc_refines w' sp"
proof (induction cs arbitrary: w)
  case (Cons c cs)
  obtain s where "sw_heap w a = Some s" using refines_live [OF Cons.prems(1)] Cons.prems(2) by blast
  then obtain ev w1 where 1: "svc_call_step w a c = Some (ev, w1)" "svc_frame w w1 a" using call_frame by blast
  obtain evs w2 where "svc_calls w1 a cs = Some (evs, w2)" "svc_refines w2 sp"
    using Cons.IH [OF refines_frame [OF Cons.prems(1) 1(2)] Cons.prems(2)] by blast
  then show ?case using 1 by auto
qed simp

lemma destroy_trace:
  assumes r: "svc_refines w sp" and p: "svc_in w a p"
  shows "\<exists>ev w'. airy_svc_destroy w (Some a) False ret timeout mid = Some (ev, w') \<and> svc_phases p ev = Some PGone \<and> sw_heap w' a = None"
proof -
  obtain s where s: "sw_heap w a = Some s" "svc_full s" and st: "svc_phase_of (si_state s) = Some p"
    using p by (auto simp: svc_in_def)
  have f: "if_stop (si_iface s)" "if_destroy (si_iface s)" using s(2) by (simp_all add: svc_full_def Let_def)
  have act: "si_state s = AIRY_SVC_STATE_RUNNING \<or> si_state s = AIRY_SVC_STATE_PAUSED \<longleftrightarrow> p = PStarted"
    using active_phase [of "si_state s"] st by (auto simp: svc_active_def)
  obtain ev w1 where 1: "(if si_state s = AIRY_SVC_STATE_RUNNING \<or> si_state s = AIRY_SVC_STATE_PAUSED
      then map_option snd (airy_svc_stop w (Some a) True ret timeout mid) else Some ([], w)) = Some (ev, w1)"
    and fr: "svc_frame w w1 a" and ev: "ev = (if p = PStarted then [CbStop a True ret] else [])"
  proof (cases "p = PStarted")
    case True
    then obtain w' st' where "airy_svc_stop w (Some a) True ret timeout mid = Some (ret, [CbStop a True ret], w')" "svc_only w w' a st'"
      using stop_ok [OF s(1) f(1), of True ret timeout mid] st active_phase [of "si_state s"] by auto
    then show ?thesis using that [of "[CbStop a True ret]" w'] True act only_frame by auto
  next
    case False
    then show ?thesis using that [of "[]" w] act frame_refl [OF s(1)] by auto
  qed
  have r1: "svc_refines w1 sp" by (rule refines_frame [OF r fr])
  obtain s1 where s1: "sw_heap w1 a = Some s1" "si_iface s1 = si_iface s" using fr s(1) by (auto simp: svc_frame_def)
  obtain w2 where 2: "svc_unlink_from w1 None (sw_services w1) a = Some (a \<in> set (sp_list sp), w2)" "same_svcs w1 w2"
    using unlink_ok [of w1 "sp_list sp" a] r1 by (auto simp: svc_refines_def)
  obtain s2 where s2: "sw_heap w2 a = Some s2" using 2(2) s1(1) by (metis option.exhaust option.simps(8,9) same_svcs_def option.distinct(1))
  have "si_iface s2 = si_iface s" using same_svcs_iface [OF 2(2) s1(1) s2] s1(2) by simp
  then have "airy_svc_destroy w (Some a) False ret timeout mid = Some (ev @ [CbDestroy a], w2\<lparr>sw_heap := (sw_heap w2)(a := None)\<rparr>)"
    using s(1) 1 2(1) r1 s2 f(2) by (simp add: airy_svc_destroy_def unregister_service_internal_def svc_refines_def)
  moreover have "svc_phases p (ev @ [CbDestroy a]) = Some PGone" using st by (cases p; cases "si_state s") (simp_all add: ev)
  ultimately show ?thesis by simp
qed

lemma walk_fault:
  "svc_chain h p as \<Longrightarrow> a \<in> set as \<Longrightarrow> distinct as \<Longrightarrow> sw_heap w = h(a := None) \<Longrightarrow> svc_walk w p = None"
proof (induction as arbitrary: p)
  case (Cons b as)
  then obtain s where s: "h b = Some s" "p = Some b" "svc_chain h (si_next s) as" by auto
  show ?case
  proof (cases "b = a")
    case True
    then show ?thesis using s Cons.prems(4) by (simp add: svc_walk.simps [of w "Some a"])
  next
    case False
    then have "svc_walk w (si_next s) = None" using Cons.IH [OF s(3)] Cons.prems by simp
    then show ?thesis using s False Cons.prems(4) by (simp add: svc_walk.simps [of w "Some b"])
  qed
qed simp

subsection \<open>Properties\<close>

definition svc_ready0 :: svc_world where
  "svc_ready0 = snd (svc_common_module_init svc_world0 AIRY_SUCCESS)"

definition svc_spec0 :: svc_spec where
  "svc_spec0 = \<lparr>sp_names = (\<lambda>_. None), sp_list = []\<rparr>"

lemma ready0_refines: "svc_refines svc_ready0 svc_spec0"
  by (simp add: svc_refines_def reg_ok_def svc_ready0_def svc_spec0_def svc_common_module_init_def svc_world0_def AIRY_SUCCESS_def)

text \<open>C31: once the module is initialised, the service registry is correct for every sequence of operations on live
  handles, whatever their allocations, mutex initialisations and callbacks give, as long as no \<open>destroy\<close> function frees
  its service itself: creating, destroying, registering and unregistering services, their life-cycle calls,
  lookups, counting and enumeration never touch freed memory and always return; the answers are those of a list of
  registered handles, the last registered first. A creation that fails for a bad name or version, for want of
  memory or of a mutex, or because a registered service has the name, returns the code for it and leaves no trace; a
  lookup gives the service registered last under the name, and the count is exact modulo \<open>2 ^ 32\<close>. The header
  file asks \<open>destroy\<close> functions to free the service; \<open>destroy_documented_faults\<close> shows that the service is then
  used after it was freed.\<close>

theorem svc_run_registry:
  assumes "svc_ops_valid svc_spec0 ops"
  shows "\<exists>w. svc_run svc_ready0 ops = Some (fst (spec_run svc_spec0 ops), w) \<and> reg_ok w (sp_list (snd (spec_run svc_spec0 ops)))"
  using svc_run_refines [OF ready0_refines assms] by (auto simp: svc_refines_def)

definition sample_iface :: airy_svc_interface where
  "sample_iface = \<lparr>if_init = True, if_start = True, if_stop = True, if_destroy = True, if_healthcheck = False, if_handle_request = False\<rparr>"

definition sample_config :: airy_svc_config where
  "sample_config = \<lparr>sc_version = Some ''1.0'', sc_capabilities = 8, sc_max_concurrent = 1, sc_timeout_ms = 100, sc_priority = 0,
     sc_auto_start = False, sc_enable_metrics = False, sc_enable_tracing = False\<rparr>"

definition sample_ops :: "svc_op list" where
  "sample_ops = [OpCreate ''a'' sample_iface sample_config 0 (Some 1) 0 0, OpCreate ''b'' sample_iface sample_config 0 (Some 2) 0 0,
     OpCreate ''a'' sample_iface sample_config 0 (Some 3) 0 0, OpCall 1 (CallInit 0 []), OpCall 1 (CallStart 0 [True]),
     OpFind ''a'',
     OpCreate ''c'' sample_iface sample_config 0 None 0 0, OpCreate ''c'' sample_iface sample_config 0 (Some 4) 0 (- 1),
     OpDestroy 1 False 0 False [], OpFind ''a'', OpCount]"

theorem svc_run_registry_witness:
  "\<exists>w. svc_run svc_ready0 sample_ops =
     Some ([OHandle 0 (Some 1), OHandle 0 (Some 2), OHandle (- 17) None, ODone, ODone, OAddr (Some 1),
       OHandle AIRY_ENOMEM None, OHandle (- 1) None, ODone, OAddr None, OCount 1], w) \<and>
   reg_ok w [2]"
proof -
  have "svc_ops_valid svc_spec0 sample_ops"
    by (simp add: sample_ops_def svc_spec0_def spec_step_def spec_find_def sample_config_def AIRY_SUCCESS_def)
  from svc_run_registry [OF this] show ?thesis
    by (simp add: sample_ops_def svc_spec0_def spec_step_def spec_find_def sample_config_def AIRY_SUCCESS_def AIRY_EEXIST_def)
qed

text \<open>C6: the functions of a service are called in a legal order. For every sequence of \<open>init\<close>, \<open>start\<close>, \<open>stop\<close>, \<open>pause\<close>, \<open>resume\<close>
  and health-check calls on a fresh service, whatever its functions return and however other threads pause and resume
  it meanwhile: \<open>init\<close> runs first and once, \<open>start\<close> only after a successful \<open>init\<close>, \<open>stop\<close> only after a successful \<open>start\<close>;
  after a failed \<open>init\<close> or a failed graceful \<open>stop\<close> nothing but \<open>destroy\<close> runs. A final destruction stops a started
  service first, runs \<open>destroy\<close> last and frees the service. The interface has all of \<open>init\<close>, \<open>start\<close>, \<open>stop\<close> and \<open>destroy\<close>
  (\<open>svc_full\<close>), and \<open>destroy\<close> does not itself free the service.\<close>

theorem svc_callbacks_ordered:
  assumes "svc_refines w sp" and "sw_heap w a = Some s" and "si_state s = AIRY_SVC_STATE_CREATED" and "svc_full s"
  shows "\<exists>evs w1 ev w2. svc_calls w a cs = Some (evs, w1) \<and> airy_svc_destroy w1 (Some a) False ret timeout mid = Some (ev, w2) \<and>
    svc_phases PFresh (evs @ ev) = Some PGone \<and> sw_heap w2 a = None"
proof -
  have "svc_in w a PFresh" using assms(2-4) by (simp add: svc_in_def)
  then obtain evs w1 p where 1: "svc_calls w a cs = Some (evs, w1)" "svc_phases PFresh evs = Some p" "svc_in w1 a p"
    using svc_calls_ok by blast
  have "sp_names sp a \<noteq> None" using refines_live [OF assms(1)] assms(2) by blast
  then have "svc_refines w1 sp" using calls_refine [OF assms(1), of a cs] 1(1) by auto
  from destroy_trace [OF this 1(3), of ret timeout mid] show ?thesis using 1 by (auto simp: svc_phases_append)
qed

definition sample_world :: svc_world where
  "sample_world = snd (the (svc_run svc_ready0 [OpCreate ''a'' sample_iface sample_config 0 (Some 1) 0 0]))"

definition sample_spec :: svc_spec where
  "sample_spec = snd (spec_run svc_spec0 [OpCreate ''a'' sample_iface sample_config 0 (Some 1) 0 0])"

lemma sample_refines: "svc_refines sample_world sample_spec"
proof -
  have "svc_ops_valid svc_spec0 [OpCreate ''a'' sample_iface sample_config 0 (Some 1) 0 0]" by (simp add: svc_spec0_def)
  from svc_run_refines [OF ready0_refines this] show ?thesis by (auto simp: sample_world_def sample_spec_def)
qed

lemma sample_world_service:
  "sw_heap sample_world 1 \<noteq> None" "si_state (the (sw_heap sample_world 1)) = AIRY_SVC_STATE_CREATED"
  "svc_full (the (sw_heap sample_world 1))"
  by code_simp+

theorem svc_callbacks_ordered_witness:
  "\<exists>evs w1 ev w2. svc_calls sample_world 1 [CallInit 0 [], CallStart 0 [True], CallPause, CallStop False (- 1) False []] = Some (evs, w1) \<and>
    airy_svc_destroy w1 (Some 1) False 0 False [] = Some (ev, w2) \<and> svc_phases PFresh (evs @ ev) = Some PGone \<and> sw_heap w2 1 = None"
proof -
  obtain s where s: "sw_heap sample_world 1 = Some s" using sample_world_service(1) by blast
  show ?thesis
    by (rule svc_callbacks_ordered [OF sample_refines s]) (use sample_world_service(2,3) s in auto)
qed

text \<open>C32: \<open>airy_svc_common_cleanup\<close> leaves the list of services in place, and destroying a service is then unable to
  unlink it. After cleaning up, destroying any registered service (whose \<open>destroy\<close> function does not free it) and
  initialising the module again, the enumeration of the services reads freed memory.\<close>

theorem svc_cleanup_dangling:
  assumes "svc_refines w sp" and "a \<in> set (sp_list sp)"
  shows "\<exists>ev w'. airy_svc_destroy (airy_svc_common_cleanup w) (Some a) False ret timeout mid = Some (ev, w') \<and>
    airy_svc_foreach (snd (svc_common_module_init w' AIRY_SUCCESS)) True = None"
proof -
  let ?w = "w\<lparr>sw_initialized := False\<rparr>"
  have i: "airy_svc_common_cleanup w = ?w"
    using assms(1) by (simp add: svc_refines_def airy_svc_common_cleanup_def svc_common_module_cleanup_def)
  obtain s where s: "sw_heap ?w a = Some s" using refines_listed_live [OF assms] by auto
  obtain ev w1 where 1: "(if si_state s = AIRY_SVC_STATE_RUNNING \<or> si_state s = AIRY_SVC_STATE_PAUSED
      then map_option snd (airy_svc_stop ?w (Some a) True ret timeout mid) else Some ([], ?w)) = Some (ev, w1)" "svc_frame ?w w1 a"
    using stop_frame [OF s, of True ret timeout mid] frame_refl [OF s]
    by (cases "si_state s = AIRY_SVC_STATE_RUNNING \<or> si_state s = AIRY_SVC_STATE_PAUSED") auto
  obtain s1 where s1: "sw_heap w1 = (sw_heap w)(a := Some s1)" "sw_services w1 = sw_services w" "\<not> sw_initialized w1"
    using 1(2) by (auto simp: svc_frame_def)
  let ?w2 = "w1\<lparr>sw_heap := (sw_heap w1)(a := None)\<rparr>"
  let ?ev = "ev @ (if if_destroy (si_iface s1) then [CbDestroy a] else [])"
  have "airy_svc_destroy ?w (Some a) False ret timeout mid = Some (?ev, ?w2)"
    using s 1(1) s1 by (simp add: airy_svc_destroy_def unregister_service_internal_def)
  moreover have "airy_svc_foreach (snd (svc_common_module_init ?w2 AIRY_SUCCESS)) True = None"
  proof -
    let ?w3 = "?w2\<lparr>sw_initialized := True\<rparr>"
    have "svc_chain (sw_heap w) (sw_services w) (sp_list sp)" "distinct (sp_list sp)"
      using assms(1) by (auto simp: svc_refines_def reg_ok_def)
    moreover have "sw_heap ?w3 = (sw_heap w)(a := None)" by (simp add: s1)
    ultimately have "svc_walk ?w3 (sw_services w) = None" using walk_fault assms(2) by blast
    then show ?thesis using s1 by (simp add: svc_common_module_init_def airy_svc_foreach_def)
  qed
  ultimately show ?thesis unfolding i by blast
qed

theorem svc_cleanup_dangling_witness:
  "\<exists>ev w'. airy_svc_destroy (airy_svc_common_cleanup sample_world) (Some 1) False 0 False [] = Some (ev, w') \<and>
    airy_svc_foreach (snd (svc_common_module_init w' AIRY_SUCCESS)) True = None"
proof -
  have "1 \<in> set (sp_list sample_spec)" by (simp add: sample_spec_def svc_spec0_def spec_step_def spec_find_def sample_config_def AIRY_SUCCESS_def)
  with sample_refines show ?thesis by (rule svc_cleanup_dangling)
qed

end
