(* ===== verification/Regex_Parse.thy ===== *)
theory Regex_Parse
  imports Airy_Prelude "HOL-Library.Monad_Syntax"
begin

section \<open>Regular expressions: parser\<close>

text \<open>
  The parser of the backtracking engine, \<open>utils/compat/airy_regex_parse.c\<close>. A pattern is the list of
  its characters; \<open>ps_p\<close> is the text from the read position to the end. An AST list (the nodes chained
  by \<open>next\<close>) is a list, NULL the empty one. Allocation is a budget: \<open>ps_mem\<close> counts the allocations
  that still succeed.

  The results are options. \<open>None\<close> stands for undefined behaviour, which is the overflow of the \<open>int\<close> that
  collects the digits of a bound, and for the end of the recursion budget of the four mutually
  recursive functions, which \<open>parse_returns\<close> shows is never reached from \<open>re_fuel\<close>.
\<close>

definition AIRY_RE_MAX_GROUPS :: nat where "AIRY_RE_MAX_GROUPS = 10"
definition AIRY_RE_MAX_BODY :: int where "AIRY_RE_MAX_BODY = 256"

type_synonym re_tbl = "byte list"

datatype re_ast =
    AIRY_RE_A_EMPTY
  | AIRY_RE_A_CHAR nat
  | AIRY_RE_A_ANY
  | AIRY_RE_A_CLASS re_tbl
  | AIRY_RE_A_ANCHOR nat
  | AIRY_RE_A_ALT "re_ast list" "re_ast list"
  | AIRY_RE_A_REPEAT re_ast int int bool
  | AIRY_RE_A_GROUP nat "re_ast list"

record re_parser =
  ps_p :: cstr
  ngroups :: nat
  ps_error :: bool
  ps_mem :: nat

definition ps_fail :: "re_parser \<Rightarrow> re_parser" where
  "ps_fail ps = ps\<lparr>ps_error := True\<rparr>"

definition airy_re_ast_new :: "re_parser \<Rightarrow> bool \<times> re_parser" where
  "airy_re_ast_new ps =
     (if ps_mem ps = 0 then (False, ps_fail ps) else (True, ps\<lparr>ps_mem := ps_mem ps - 1\<rparr>))"

definition airy_re_peek :: "re_parser \<Rightarrow> int" where
  "airy_re_peek ps = (case ps_p ps of [] \<Rightarrow> - 1 | c # cs \<Rightarrow> of_char c)"

definition airy_re_next :: "re_parser \<Rightarrow> int \<times> re_parser" where
  "airy_re_next ps = (case ps_p ps of [] \<Rightarrow> (- 1, ps) | c # cs \<Rightarrow> (of_char c, ps\<lparr>ps_p := cs\<rparr>))"

definition code :: "char \<Rightarrow> int" where "code c = of_char c"

subsection \<open>Character classes\<close>

text \<open>\<open>tbl[k >> 3] |= 1u << (k & 7)\<close>\<close>

definition tbl_set :: "re_tbl \<Rightarrow> nat \<Rightarrow> re_tbl" where
  "tbl_set t k = t[k div 8 := (t ! (k div 8)) OR push_bit (k mod 8) 1]"

definition tbl_has :: "re_tbl \<Rightarrow> nat \<Rightarrow> bool" where
  "tbl_has t k = ((t ! (k div 8)) AND push_bit (k mod 8) 1 \<noteq> 0)"

text \<open>A byte read through \<open>char\<close>, which is signed.\<close>

definition schar :: "char \<Rightarrow> int" where
  "schar c = (let k = of_char c in if k < 128 then k else k - 256)"

text \<open>The loop of \<open>airy_re_parse_class_body\<close>: success, the table and the text that is left.\<close>

function re_class_scan :: "cstr \<Rightarrow> re_tbl \<Rightarrow> bool \<times> re_tbl \<times> cstr" where
  "re_class_scan [] t = (False, t, [])"
| "re_class_scan (ch # cs) t =
     (if ch = CHR '']'' then (True, t, cs)
      else if ch = CHR 0x5C \<and> cs \<noteq> [] then re_class_scan (tl cs) (tbl_set t (of_char (hd cs)))
      else if 2 \<le> length cs \<and> cs ! 0 = CHR ''-'' \<and> cs ! 1 \<noteq> CHR '']'' then
        (if schar (cs ! 1) < of_char ch then (False, t, drop 2 cs)
         else re_class_scan (drop 2 cs) (foldl tbl_set t [of_char ch..<nat (schar (cs ! 1)) + 1]))
      else re_class_scan cs (tbl_set t (of_char ch)))"
  by pat_completeness auto
termination
  by (relation "measure (\<lambda>(cs, t). length cs)") auto

definition airy_re_parse_class_body :: "bool \<Rightarrow> re_parser \<Rightarrow> re_tbl option \<times> re_parser" where
  "airy_re_parse_class_body neg ps =
     (let (ok, t, rest) = re_class_scan (ps_p ps) (replicate 32 0); ps1 = ps\<lparr>ps_p := rest\<rparr> in
      if \<not> ok then (None, ps_fail ps1)
      else (Some (if neg then map (\<lambda>b. NOT b) t else t), ps1))"

subsection \<open>Atoms without recursion\<close>

definition airy_re_char :: "int \<Rightarrow> re_parser \<Rightarrow> re_ast option \<times> re_parser" where
  "airy_re_char ch ps =
     (let (ok, ps1) = airy_re_ast_new ps in (if ok then Some (AIRY_RE_A_CHAR (nat ch)) else None, ps1))"

definition airy_re_class :: "re_parser \<Rightarrow> re_ast option \<times> re_parser" where
  "airy_re_class ps =
     (let neg = (airy_re_peek ps = code (CHR 0x5E));
          ps1 = (if neg then snd (airy_re_next ps) else ps);
          (ok, ps2) = airy_re_ast_new ps1
      in if \<not> ok then (None, ps2)
         else let (t, ps3) = airy_re_parse_class_body neg ps2 in (map_option AIRY_RE_A_CLASS t, ps3))"

definition airy_re_escape :: "re_parser \<Rightarrow> re_ast option \<times> re_parser" where
  "airy_re_escape ps =
     (let (esc, ps1) = airy_re_next ps in
      if esc < 0 then (None, ps_fail ps1) else airy_re_char esc ps1)"

subsection \<open>Quantifiers\<close>

definition INT_MAX :: int where "INT_MAX = 2147483647"

text \<open>The digits read from \<open>cs\<close> with the value \<open>n\<close> so far: value and rest; \<open>None\<close> when the value
  leaves the range of \<open>int\<close>.\<close>

fun re_digits_loop :: "int \<Rightarrow> cstr \<Rightarrow> (int \<times> cstr) option" where
  "re_digits_loop n [] = Some (n, [])"
| "re_digits_loop n (c # cs) =
     (if code (CHR ''0'') \<le> code c \<and> code c \<le> code (CHR ''9'') then
        (let n' = n * 10 + (code c - code (CHR ''0'')) in
         if n' > INT_MAX then None else re_digits_loop n' cs)
      else Some (n, c # cs))"

definition airy_re_digits :: "re_parser \<Rightarrow> (int \<times> re_parser) option" where
  "airy_re_digits ps =
     map_option (\<lambda>(n, rest). (if rest = ps_p ps then - 1 else n, ps\<lparr>ps_p := rest\<rparr>)) (re_digits_loop 0 (ps_p ps))"

text \<open>The bounds \<open>(lo, hi)\<close> of \<open>{n}\<close>, \<open>{n,}\<close> and \<open>{n,m}\<close>.\<close>

definition airy_re_bounds :: "re_parser \<Rightarrow> ((int \<times> int) option \<times> re_parser) option" where
  "airy_re_bounds ps = do {
     (n, ps1) \<leftarrow> airy_re_digits ps;
     if n < 0 then Some (None, ps_fail ps1)
     else do {
       (hi, ps2) \<leftarrow>
         (if airy_re_peek ps1 = code (CHR '','') then do {
            (m, ps2) \<leftarrow> airy_re_digits (snd (airy_re_next ps1));
            Some (if 0 \<le> m then m else - 1, ps2)
          } else Some (n, ps1));
       if airy_re_peek ps2 \<noteq> code (CHR ''}'') then Some (None, ps_fail ps2)
       else Some (Some (n, hi), snd (airy_re_next ps2))
     }
   }"

definition airy_re_rep_ok :: "int \<Rightarrow> int \<Rightarrow> bool" where
  "airy_re_rep_ok lo hi =
     (if lo > AIRY_RE_MAX_BODY \<or> (hi \<ge> 0 \<and> hi > AIRY_RE_MAX_BODY) then False
      else if hi \<ge> 0 \<and> lo > hi then False
      else True)"

definition airy_re_repeat :: "re_parser \<Rightarrow> re_ast \<Rightarrow> (re_ast option \<times> re_parser) option" where
  "airy_re_repeat ps atom =
     (let q = airy_re_peek ps in
      if q \<notin> {code (CHR ''*''), code (CHR ''+''), code (CHR ''?''), code (CHR ''{'')} then Some (Some atom, ps)
      else
        let ps1 = snd (airy_re_next ps); (ok, ps2) = airy_re_ast_new ps1 in
        if \<not> ok then Some (None, ps2)
        else do {
          (bounds, ps3) \<leftarrow>
            (if q = code (CHR ''*'') then Some (Some (0, - 1), ps2)
             else if q = code (CHR ''+'') then Some (Some (1, - 1), ps2)
             else if q = code (CHR ''?'') then Some (Some (0, 1), ps2)
             else airy_re_bounds ps2);
          case bounds of
            None \<Rightarrow> Some (None, ps3)
          | Some (lo, hi) \<Rightarrow>
              if \<not> airy_re_rep_ok lo hi then Some (None, ps_fail ps3)
              else if airy_re_peek ps3 = code (CHR ''?'')
              then Some (Some (AIRY_RE_A_REPEAT atom lo hi False), snd (airy_re_next ps3))
              else Some (Some (AIRY_RE_A_REPEAT atom lo hi True), ps3)
        })"

text \<open>The cases of \<open>airy_re_atom\<close> other than the group; \<open>ch\<close> is the character at the read position.\<close>

definition re_simple_atom :: "re_parser \<Rightarrow> int \<Rightarrow> re_ast option \<times> re_parser" where
  "re_simple_atom ps ch =
     (let ps1 = snd (airy_re_next ps) in
      if ch = code (CHR 0x5E) \<or> ch = code (CHR ''$'') then
        (let (ok, ps2) = airy_re_ast_new ps1 in (if ok then Some (AIRY_RE_A_ANCHOR (nat ch)) else None, ps2))
      else if ch = code (CHR ''.'') then
        (let (ok, ps2) = airy_re_ast_new ps1 in (if ok then Some AIRY_RE_A_ANY else None, ps2))
      else if ch = code (CHR ''['') then airy_re_class ps1
      else if ch = code (CHR 0x5C) then airy_re_escape ps1
      else if ch \<in> {code (CHR ''|''), code (CHR ''+''), code (CHR ''*''), code (CHR ''?''),
                     code (CHR ''{''), code (CHR ''}'')} then (None, ps_fail ps)
      else airy_re_char ch ps1)"

subsection \<open>Alternation, concatenation and groups\<close>

fun airy_re_parse_alt :: "nat \<Rightarrow> re_parser \<Rightarrow> (re_ast list \<times> re_parser) option"
and re_alt_loop :: "nat \<Rightarrow> re_ast list \<Rightarrow> re_parser \<Rightarrow> (re_ast list \<times> re_parser) option"
and airy_re_parse_concat :: "nat \<Rightarrow> re_ast list \<Rightarrow> re_parser \<Rightarrow> (re_ast list \<times> re_parser) option"
and airy_re_atom :: "nat \<Rightarrow> int \<Rightarrow> re_parser \<Rightarrow> (re_ast option \<times> re_parser) option"
and airy_re_group :: "nat \<Rightarrow> re_parser \<Rightarrow> (re_ast option \<times> re_parser) option" where
  "airy_re_parse_alt 0 ps = None"
| "airy_re_parse_alt (Suc f) ps = do {
     (left, ps1) \<leftarrow> airy_re_parse_concat f [] ps;
     if left = [] \<and> ps_error ps1 then Some ([], ps1) else re_alt_loop f left ps1
   }"
| "re_alt_loop 0 left ps = None"
| "re_alt_loop (Suc f) left ps =
     (if airy_re_peek ps = code (CHR ''|'') then do {
        (right, ps2) \<leftarrow> airy_re_parse_concat f [] (snd (airy_re_next ps));
        if right = [] then Some ([], ps2)
        else (let (ok, ps3) = airy_re_ast_new ps2 in
              if \<not> ok then Some ([], ps3) else re_alt_loop f [AIRY_RE_A_ALT left right] ps3)
      } else Some (left, ps))"
| "airy_re_parse_concat 0 acc ps = None"
| "airy_re_parse_concat (Suc f) acc ps =
     (let ch = airy_re_peek ps in
      if ch < 0 \<or> ch = code (CHR '')'') \<or> ch = code (CHR ''|'') then Some (acc, ps)
      else do {
        (atom, ps1) \<leftarrow> airy_re_atom f ch ps;
        case atom of
          None \<Rightarrow> Some ([], ps1)
        | Some a \<Rightarrow> do {
            (r, ps2) \<leftarrow> airy_re_repeat ps1 a;
            case r of
              None \<Rightarrow> Some ([], ps2)
            | Some a' \<Rightarrow> airy_re_parse_concat f (acc @ [a']) ps2
          }
      })"
| "airy_re_atom 0 ch ps = None"
| "airy_re_atom (Suc f) ch ps =
     (if ch = code (CHR ''('') then airy_re_group f (snd (airy_re_next ps))
      else Some (re_simple_atom ps ch))"
| "airy_re_group 0 ps = None"
| "airy_re_group (Suc f) ps =
     (if ngroups ps \<ge> AIRY_RE_MAX_GROUPS - 1 then Some (None, ps_fail ps)
      else
        let gid = ngroups ps + 1 in do {
          (inner, ps1) \<leftarrow> airy_re_parse_alt f (ps\<lparr>ngroups := gid\<rparr>);
          if inner = [] then Some (None, ps1)
          else if airy_re_peek ps1 \<noteq> code (CHR '')'') then Some (None, ps_fail ps1)
          else
            let (ok, ps2) = airy_re_ast_new (snd (airy_re_next ps1)) in
            Some (if ok then Some (AIRY_RE_A_GROUP gid inner) else None, ps2)
        })"

definition re_fuel :: "cstr \<Rightarrow> nat" where
  "re_fuel pattern = 5 * length pattern + 4"

end
