(* ===== verification/Regex_Engine.thy ===== *)
theory Regex_Engine
  imports Regex_Parse
begin

section \<open>Regular expressions: compiler and executor\<close>

text \<open>
  The compiler \<open>utils/compat/airy_regex_compile.c\<close> and the executor and interface
  \<open>utils/compat/airy_regex.c\<close>. The instructions of a program live in one list in the order of their
  allocation, an instruction pointer is an index into it and NULL is \<open>None\<close>; the ownership links need no
  counterpart. \<open>co_mem\<close> counts the allocations that still succeed.

  \<open>None\<close> as the result of the compiler or of the executor stands for a loop that does not end: the
  walks along the \<open>a\<close> links and the instruction loop of \<open>airy_re_run\<close> have no bound of their own.
  Positions and capture offsets are numbers without a bound, as the subjects are shorter than \<open>INT_MAX\<close>.
\<close>

definition AIRY_RE_MAX_DEPTH :: nat where "AIRY_RE_MAX_DEPTH = 4096"

datatype re_op =
    AIRY_RE_I_CHAR | AIRY_RE_I_ANY | AIRY_RE_I_CLASS | AIRY_RE_I_ANCHOR | AIRY_RE_I_SAVE
  | AIRY_RE_I_SPLIT | AIRY_RE_I_JMP | AIRY_RE_I_MATCH

record re_inst =
  i_op :: re_op
  i_c :: nat
  i_a :: "nat option"
  i_b :: "nat option"

record re_comp =
  co_all :: "re_inst list"
  co_tables :: "re_tbl list"
  co_error :: bool
  co_mem :: nat

subsection \<open>Instruction graph\<close>

definition co_fail :: "re_comp \<Rightarrow> re_comp" where
  "co_fail co = co\<lparr>co_error := True\<rparr>"

definition airy_re_inst_new :: "re_comp \<Rightarrow> re_op \<Rightarrow> nat option \<times> re_comp" where
  "airy_re_inst_new co op =
     (if co_mem co = 0 then (None, co_fail co)
      else (Some (length (co_all co)),
            co\<lparr>co_all := co_all co @ [\<lparr>i_op = op, i_c = 0, i_a = None, i_b = None\<rparr>], co_mem := co_mem co - 1\<rparr>))"

definition co_upd :: "re_comp \<Rightarrow> nat \<Rightarrow> (re_inst \<Rightarrow> re_inst) \<Rightarrow> re_comp" where
  "co_upd co x f = co\<lparr>co_all := (co_all co)[x := f (co_all co ! x)]\<rparr>"

text \<open>The copying loop; \<open>it\<close> is the instruction to copy, \<open>head\<close> and \<open>tail\<close> the copy so far.\<close>

function re_clone_loop ::
  "re_comp \<Rightarrow> nat option \<Rightarrow> nat option \<Rightarrow> nat option \<Rightarrow> nat option \<times> re_comp" where
  "re_clone_loop co it head tail =
     (case it of
        None \<Rightarrow> (head, co)
      | Some x \<Rightarrow>
          (case airy_re_inst_new co (i_op (co_all co ! x)) of
             (None, co1) \<Rightarrow> (None, co1)
           | (Some cp, co1) \<Rightarrow>
               let co2 = co_upd co1 cp (\<lambda>ip. ip\<lparr>i_c := i_c (co_all co1 ! x)\<rparr>);
                   co3 = (case tail of Some t \<Rightarrow> co_upd co2 t (\<lambda>ip. ip\<lparr>i_a := Some cp\<rparr>) | None \<Rightarrow> co2);
                   head' = (case tail of Some t \<Rightarrow> head | None \<Rightarrow> Some cp)
               in re_clone_loop co3 (i_a (co_all co3 ! x)) head' (Some cp)))"
  by pat_completeness auto
termination
  by (relation "measure (\<lambda>(co, it, head, tail). co_mem co)")
     (auto simp: airy_re_inst_new_def co_upd_def split: if_splits option.splits)

declare re_clone_loop.simps [simp del]

definition airy_re_clone_linear :: "re_comp \<Rightarrow> nat \<Rightarrow> nat option \<times> re_comp" where
  "airy_re_clone_linear co body = re_clone_loop co (Some body) None None"

text \<open>\<open>while (t && t->a) t = t->a\<close>\<close>

partial_function (option) re_tail :: "re_inst list \<Rightarrow> nat \<Rightarrow> nat option" where
  "re_tail is t = (case i_a (is ! t) of None \<Rightarrow> Some t | Some t' \<Rightarrow> re_tail is t')"

definition airy_re_chain_tail :: "re_comp \<Rightarrow> nat \<Rightarrow> nat option \<Rightarrow> re_comp option" where
  "airy_re_chain_tail co f nx =
     map_option (\<lambda>t. co_upd co t (\<lambda>ip. ip\<lparr>i_a := nx\<rparr>)) (re_tail (co_all co) f)"

text \<open>The check that the body of a repeat has no branch.\<close>

partial_function (option) re_is_linear :: "re_inst list \<Rightarrow> nat option \<Rightarrow> bool option" where
  "re_is_linear is it =
     (case it of
        None \<Rightarrow> Some True
      | Some x \<Rightarrow> if i_b (is ! x) \<noteq> None then Some False else re_is_linear is (i_a (is ! x)))"

subsection \<open>Repeats\<close>

text \<open>A copy of \<open>body\<close> that continues with \<open>nx\<close>; the inner option is NULL.\<close>

definition re_copy :: "re_comp \<Rightarrow> nat \<Rightarrow> nat option \<Rightarrow> (nat option \<times> re_comp) option" where
  "re_copy co body nx =
     (case airy_re_clone_linear co body of
        (None, co1) \<Rightarrow> Some (None, co1)
      | (Some cp, co1) \<Rightarrow> map_option (\<lambda>co2. (Some cp, co2)) (airy_re_chain_tail co1 cp nx))"

definition re_set_split :: "re_comp \<Rightarrow> nat \<Rightarrow> bool \<Rightarrow> nat option \<Rightarrow> nat option \<Rightarrow> re_comp" where
  "re_set_split co sp greedy cp seq =
     co_upd co sp (\<lambda>ip. if greedy then ip\<lparr>i_a := cp, i_b := seq\<rparr> else ip\<lparr>i_a := seq, i_b := cp\<rparr>)"

text \<open>The unbounded tail: a SPLIT between a copy of the body that returns to it and the rest.\<close>

definition re_unbounded :: "re_comp \<Rightarrow> nat \<Rightarrow> bool \<Rightarrow> nat option \<Rightarrow> (nat option \<times> re_comp) option" where
  "re_unbounded co body greedy seq =
     (case airy_re_inst_new co AIRY_RE_I_SPLIT of
        (None, co1) \<Rightarrow> Some (None, co1)
      | (Some loop, co1) \<Rightarrow>
          (case airy_re_clone_linear co1 body of
             (None, co2) \<Rightarrow> Some (None, co2)
           | (Some cp, co2) \<Rightarrow>
               map_option (\<lambda>co4. (Some loop, co4))
                 (airy_re_chain_tail (re_set_split co2 loop greedy (Some cp) seq) cp (Some loop))))"

primrec re_optional ::
  "nat \<Rightarrow> re_comp \<Rightarrow> nat \<Rightarrow> bool \<Rightarrow> nat option \<Rightarrow> (nat option option \<times> re_comp) option" where
  "re_optional 0 co body greedy seq = Some (Some seq, co)"
| "re_optional (Suc k) co body greedy seq =
     (case airy_re_inst_new co AIRY_RE_I_SPLIT of
        (None, co1) \<Rightarrow> Some (None, co1)
      | (Some sp, co1) \<Rightarrow>
          (case airy_re_clone_linear co1 body of
             (None, co2) \<Rightarrow> Some (None, co2)
           | (Some cp, co2) \<Rightarrow> do {
               co4 \<leftarrow> airy_re_chain_tail (re_set_split co2 sp greedy (Some cp) seq) cp seq;
               re_optional k co4 body greedy (Some sp)
             }))"

primrec re_mandatory ::
  "nat \<Rightarrow> re_comp \<Rightarrow> nat \<Rightarrow> nat option \<Rightarrow> (nat option option \<times> re_comp) option" where
  "re_mandatory 0 co body seq = Some (Some seq, co)"
| "re_mandatory (Suc k) co body seq = do {
     (cp, co1) \<leftarrow> re_copy co body seq;
     case cp of None \<Rightarrow> Some (None, co1) | Some c \<Rightarrow> re_mandatory k co1 body (Some c)
   }"

text \<open>\<open>airy_re_compile_repeat\<close> after the body is compiled. In the two loops the outer option is an early
  return with NULL, the inner one the pointer \<open>seq\<close>.\<close>

definition re_compile_repeat ::
  "re_comp \<Rightarrow> nat \<Rightarrow> int \<Rightarrow> int \<Rightarrow> bool \<Rightarrow> nat option \<Rightarrow> (nat option \<times> re_comp) option" where
  "re_compile_repeat co body lo hi greedy after = do {
     linear \<leftarrow> re_is_linear (co_all co) (Some body);
     if \<not> linear then Some (None, co_fail co)
     else do {
       (seq, co1) \<leftarrow>
         (if hi < 0 then map_option (\<lambda>(s, c). (map_option Some s, c)) (re_unbounded co body greedy after)
          else re_optional (nat (hi - lo)) co body greedy after);
       case seq of
         None \<Rightarrow> Some (None, co1)
       | Some s \<Rightarrow> do {
           (seq', co2) \<leftarrow> re_mandatory (nat lo) co1 body s;
           Some (case seq' of None \<Rightarrow> None | Some s' \<Rightarrow> s', co2)
         }
     }
   }"

subsection \<open>Compiler\<close>

text \<open>A simple instruction with its operand and continuation.\<close>

definition re_emit :: "re_comp \<Rightarrow> re_op \<Rightarrow> nat \<Rightarrow> nat option \<Rightarrow> nat option \<times> re_comp" where
  "re_emit co op c after =
     (case airy_re_inst_new co op of
        (None, co1) \<Rightarrow> (None, co1)
      | (Some x, co1) \<Rightarrow> (Some x, co_upd co1 x (\<lambda>ip. ip\<lparr>i_c := c, i_a := after\<rparr>)))"

lemma size_list_take: "size_list f (take n xs) \<le> size_list f xs"
  by (induction xs arbitrary: n) (auto simp: take_Cons split: nat.split)

function airy_re_compile_one :: "re_comp \<Rightarrow> re_ast \<Rightarrow> nat option \<Rightarrow> (nat option \<times> re_comp) option"
and airy_re_compile_seq :: "re_comp \<Rightarrow> re_ast list \<Rightarrow> nat option \<Rightarrow> (nat option \<times> re_comp) option"
and re_compile_nodes :: "re_comp \<Rightarrow> re_ast list \<Rightarrow> nat option \<Rightarrow> (nat option \<times> re_comp) option" where
  "airy_re_compile_one co AIRY_RE_A_EMPTY after = Some (after, co)"
| "airy_re_compile_one co (AIRY_RE_A_CHAR c) after = Some (re_emit co AIRY_RE_I_CHAR c after)"
| "airy_re_compile_one co (AIRY_RE_A_ANCHOR c) after = Some (re_emit co AIRY_RE_I_ANCHOR c after)"
| "airy_re_compile_one co AIRY_RE_A_ANY after = Some (re_emit co AIRY_RE_I_ANY 0 after)"
| "airy_re_compile_one co (AIRY_RE_A_CLASS t) after =
     (if co_mem co = 0 then Some (None, co_fail co)
      else
        let co1 = co\<lparr>co_tables := co_tables co @ [t], co_mem := co_mem co - 1\<rparr>
        in Some (re_emit co1 AIRY_RE_I_CLASS (length (co_tables co)) after))"
| "airy_re_compile_one co (AIRY_RE_A_GROUP gid xs) after =
     (case re_emit co AIRY_RE_I_SAVE (gid * 2) None of
        (None, co1) \<Rightarrow> Some (None, co1)
      | (Some save0, co1) \<Rightarrow>
          (case re_emit co1 AIRY_RE_I_SAVE (gid * 2 + 1) after of
             (None, co2) \<Rightarrow> Some (None, co2)
           | (Some save1, co2) \<Rightarrow> do {
               (body, co3) \<leftarrow> airy_re_compile_seq co2 xs (Some save1);
               case body of
                 None \<Rightarrow> Some (None, co3)
               | Some b \<Rightarrow> Some (Some save0, co_upd co3 save0 (\<lambda>ip. ip\<lparr>i_a := Some b\<rparr>))
             }))"
| "airy_re_compile_one co (AIRY_RE_A_ALT xs ys) after = do {
     (b1, co1) \<leftarrow> airy_re_compile_seq co xs after;
     case b1 of
       None \<Rightarrow> Some (None, co1)
     | Some p1 \<Rightarrow> do {
         (b2, co2) \<leftarrow> airy_re_compile_seq co1 ys after;
         case b2 of
           None \<Rightarrow> Some (None, co2)
         | Some p2 \<Rightarrow>
             Some (case airy_re_inst_new co2 AIRY_RE_I_SPLIT of
                     (None, co3) \<Rightarrow> (None, co3)
                   | (Some sp, co3) \<Rightarrow>
                       (Some sp, co_upd co3 sp (\<lambda>ip. ip\<lparr>i_a := Some p1, i_b := Some p2\<rparr>)))
       }
   }"
| "airy_re_compile_one co (AIRY_RE_A_REPEAT x lo hi greedy) after = do {
     (body, co1) \<leftarrow> airy_re_compile_one co x None;
     case body of None \<Rightarrow> Some (None, co1) | Some b \<Rightarrow> re_compile_repeat co1 b lo hi greedy after
   }"
| "airy_re_compile_seq co xs after = re_compile_nodes co (take 256 xs) after"
| "re_compile_nodes co [] after = Some (after, co)"
| "re_compile_nodes co (n # ns) after = do {
     (cont, co1) \<leftarrow> re_compile_nodes co ns after;
     if ns \<noteq> [] \<and> cont = None then Some (None, co1) else airy_re_compile_one co1 n cont
   }"
  by pat_completeness auto
termination
  by (relation "measure (\<lambda>arg. case arg of
        Inl (co, n, after) \<Rightarrow> 2 * size n
      | Inr (Inl (co, xs, after)) \<Rightarrow> 2 * size_list size xs + 1
      | Inr (Inr (co, xs, after)) \<Rightarrow> 2 * size_list size xs)")
     (auto simp: less_Suc_eq_le size_list_take)

subsection \<open>Executor\<close>

text \<open>An instruction that continues with its successor: the new position and captures, \<open>None\<close> when it
  fails. \<open>s\<close> is the subject, \<open>sp\<close> a position in it (its length is the terminator).\<close>

fun re_exec1 :: "re_op \<Rightarrow> nat \<Rightarrow> re_tbl list \<Rightarrow> cstr \<Rightarrow> nat \<Rightarrow> nat \<Rightarrow> int list \<Rightarrow> (nat \<times> int list) option" where
  "re_exec1 AIRY_RE_I_CHAR c tb s start sp caps =
     (if sp < length s \<and> of_char (s ! sp) = c then Some (sp + 1, caps) else None)"
| "re_exec1 AIRY_RE_I_ANY c tb s start sp caps = (if sp < length s then Some (sp + 1, caps) else None)"
| "re_exec1 AIRY_RE_I_CLASS c tb s start sp caps =
     (if sp < length s \<and> tbl_has (tb ! c) (of_char (s ! sp)) then Some (sp + 1, caps) else None)"
| "re_exec1 AIRY_RE_I_ANCHOR c tb s start sp caps =
     (if int c = code (CHR 0x5E) then (if sp = 0 then Some (sp, caps) else None)
      else (if sp = length s then Some (sp, caps) else None))"
| "re_exec1 AIRY_RE_I_SAVE c tb s start sp caps = Some (sp, caps[c := int sp - int start])"
| "re_exec1 AIRY_RE_I_JMP c tb s start sp caps = Some (sp, caps)"
| "re_exec1 _ c tb s start sp caps = None"

text \<open>The instruction loop at recursion depth \<open>d\<close>, entered with \<open>++depth\<close> already counted: match, captures
  and overflow flag.\<close>

partial_function (option) re_loop ::
  "re_inst list \<Rightarrow> re_tbl list \<Rightarrow> cstr \<Rightarrow> nat \<Rightarrow> nat \<Rightarrow> nat option \<Rightarrow> nat \<Rightarrow> int list \<Rightarrow>
   (bool \<times> int list \<times> bool) option" where
  "re_loop is tb s start d pc sp caps =
     (case pc of
        None \<Rightarrow> Some (True, caps, False)
      | Some x \<Rightarrow>
          if i_op (is ! x) = AIRY_RE_I_SPLIT then
            (if d + 1 > AIRY_RE_MAX_DEPTH then Some (False, caps, True)
             else do {
               (r, caps', ov) \<leftarrow> re_loop is tb s start (d + 1) (i_a (is ! x)) sp caps;
               if r then Some (True, caps', ov)
               else if ov then Some (False, caps', True)
               else re_loop is tb s start (d + 1) (i_b (is ! x)) sp caps
             })
          else if i_op (is ! x) = AIRY_RE_I_MATCH then Some (True, caps, False)
          else
            (case re_exec1 (i_op (is ! x)) (i_c (is ! x)) tb s start sp caps of
               None \<Rightarrow> Some (False, caps, False)
             | Some (sp', caps') \<Rightarrow> re_loop is tb s start d (i_a (is ! x)) sp' caps'))"

definition airy_re_run ::
  "re_inst list \<Rightarrow> re_tbl list \<Rightarrow> cstr \<Rightarrow> nat \<Rightarrow> nat option \<Rightarrow> (bool \<times> int list \<times> bool) option" where
  "airy_re_run is tb s start pc = re_loop is tb s start 1 pc start (replicate (2 * AIRY_RE_MAX_GROUPS) 0)"

subsection \<open>Interface\<close>

record airy_regex =
  re_prog :: "nat option"
  re_insts :: "re_inst list"
  re_tables :: "re_tbl list"
  re_nsub :: nat
  re_flags :: u32

definition zero_regex :: airy_regex where
  "zero_regex = \<lparr>re_prog = None, re_insts = [], re_tables = [], re_nsub = 0, re_flags = 0\<rparr>"

definition REG_EXTENDED :: u32 where "REG_EXTENDED = 1"
definition REG_NOSUB :: u32 where "REG_NOSUB = 2"
definition REG_NOMATCH :: int where "REG_NOMATCH = 1"

text \<open>The result and the caller's object afterwards, which a NULL pattern leaves as it was.\<close>

definition airy_re_regcomp ::
  "nat \<Rightarrow> airy_regex option \<Rightarrow> cstr option \<Rightarrow> u32 \<Rightarrow> (int \<times> airy_regex option) option" where
  "airy_re_regcomp mem preg pattern cflags =
     (case (preg, pattern) of
        (Some _, Some pat) \<Rightarrow>
          if cflags AND NOT (REG_EXTENDED OR REG_NOSUB) \<noteq> 0 then Some (- 1, Some zero_regex)
          else if mem = 0 then Some (- 1, Some zero_regex)
          else do {
            (root, ps) \<leftarrow> airy_re_parse_alt (re_fuel pat)
              \<lparr>ps_p = pat, ngroups = 0, ps_error = False, ps_mem = mem - 1\<rparr>;
            if root = [] \<or> ps_error ps then Some (- 1, Some zero_regex)
            else do {
              (prog, co) \<leftarrow> airy_re_compile_seq
                \<lparr>co_all = [], co_tables = [], co_error = False, co_mem = ps_mem ps\<rparr> root None;
              if prog = None \<or> co_error co then Some (- 1, Some zero_regex)
              else Some (0, Some \<lparr>re_prog = prog, re_insts = co_all co, re_tables = co_tables co,
                                  re_nsub = ngroups ps + 1, re_flags = cflags\<rparr>)
            }
          }
      | _ \<Rightarrow> Some (- 1, preg))"

text \<open>The loop over the start positions; the captures of the match are the result.\<close>

function re_search :: "airy_regex \<Rightarrow> cstr \<Rightarrow> nat \<Rightarrow> (int \<times> int list) option" where
  "re_search preg s start =
     (case airy_re_run (re_insts preg) (re_tables preg) s start (re_prog preg) of
        None \<Rightarrow> None
      | Some (r, caps, ov) \<Rightarrow>
          if r then Some (0, caps)
          else if ov then Some (- 1, [])
          else if start \<ge> length s then Some (REG_NOMATCH, [])
          else re_search preg s (start + 1))"
  by pat_completeness auto
termination
  by (relation "measure (\<lambda>(preg, s, start). length s - start)") auto

declare re_search.simps [simp del]

definition airy_re_regexec ::
  "airy_regex option \<Rightarrow> cstr option \<Rightarrow> nat \<Rightarrow> (int \<times> (int \<times> int) list) option" where
  "airy_re_regexec preg str nmatch =
     (case (preg, str) of
        (Some re, Some s) \<Rightarrow>
          if re_prog re = None then Some (- 1, [])
          else
            map_option (\<lambda>(ret, caps).
              (ret, if ret = 0
                    then map (\<lambda>g. (caps ! (2 * g), caps ! (2 * g + 1)))
                           [0..<(if nmatch < AIRY_RE_MAX_GROUPS then nmatch else AIRY_RE_MAX_GROUPS)]
                    else []))
              (re_search re s 0)
      | _ \<Rightarrow> Some (- 1, []))"

text \<open>\<open>airy_re_regfree\<close>: the owned nodes are released and the object is zeroed.\<close>

definition airy_re_regfree :: "airy_regex option \<Rightarrow> airy_regex option" where
  "airy_re_regfree preg = map_option (\<lambda>_. zero_regex) preg"

declare re_tail.simps [code] re_is_linear.simps [code] re_loop.simps [code]

end
