(* ===== verification/Regex_Paths.thy ===== *)
theory Regex_Paths
  imports Regex_Engine
begin

section \<open>Regular expressions: what a program accepts\<close>

text \<open>
  The semantics the executor and the compiler are measured against. \<open>re_match\<close> says which stretch of the
  subject a node matches. \<open>accepts\<close> says that some path through an instruction graph from a given
  instruction and position ends at NULL, in a position that satisfies a continuation predicate;
  \<open>deep_ok\<close> bounds the SPLITs on every path, \<open>ends\<close> says that the \<open>a\<close> chain of an instruction reaches
  NULL or a SPLIT. A straight chain of instructions is described by its list of operations (\<open>lin\<close>).
\<close>

subsection \<open>Meaning of the syntax tree\<close>

fun re_match :: "cstr \<Rightarrow> re_ast \<Rightarrow> nat \<Rightarrow> nat \<Rightarrow> bool"
and re_matches :: "cstr \<Rightarrow> re_ast list \<Rightarrow> nat \<Rightarrow> nat \<Rightarrow> bool" where
  "re_match s AIRY_RE_A_EMPTY i j = (j = i)"
| "re_match s (AIRY_RE_A_CHAR c) i j = (i < length s \<and> of_char (s ! i) = c \<and> j = i + 1)"
| "re_match s AIRY_RE_A_ANY i j = (i < length s \<and> j = i + 1)"
| "re_match s (AIRY_RE_A_CLASS t) i j = (i < length s \<and> tbl_has t (of_char (s ! i)) \<and> j = i + 1)"
| "re_match s (AIRY_RE_A_ANCHOR c) i j = ((if int c = code (CHR 0x5E) then i = 0 else i = length s) \<and> j = i)"
| "re_match s (AIRY_RE_A_ALT xs ys) i j = (re_matches s xs i j \<or> re_matches s ys i j)"
| "re_match s (AIRY_RE_A_REPEAT x lo hi greedy) i j =
     (\<exists>k. lo \<le> int k \<and> (hi < 0 \<or> int k \<le> hi) \<and> ((\<lambda>p q. re_match s x p q) ^^ k) i j)"
| "re_match s (AIRY_RE_A_GROUP gid xs) i j = re_matches s xs i j"
| "re_matches s [] i j = (j = i)"
| "re_matches s (x # xs) i j = (\<exists>m. re_match s x i m \<and> re_matches s xs m j)"

subsection \<open>Paths\<close>

definition re_pos :: "re_op \<Rightarrow> nat \<Rightarrow> re_tbl list \<Rightarrow> cstr \<Rightarrow> nat \<Rightarrow> nat option" where
  "re_pos op c tb s sp = map_option fst (re_exec1 op c tb s 0 sp [])"

lemma re_exec1_pos: "map_option fst (re_exec1 op c tb s start sp caps) = re_pos op c tb s sp"
  by (cases op) (auto simp: re_pos_def)

lemma re_pos_bounds: "re_pos op c tb s i = Some j \<Longrightarrow> i \<le> j \<and> (i \<le> length s \<longrightarrow> j \<le> length s)"
  by (cases op) (auto simp: re_pos_def split: if_splits)

fun accn ::
  "re_inst list \<Rightarrow> re_tbl list \<Rightarrow> cstr \<Rightarrow> (nat \<Rightarrow> bool) \<Rightarrow> nat \<Rightarrow> nat option \<Rightarrow> nat \<Rightarrow> bool" where
  "accn G T s F n None i = F i"
| "accn G T s F 0 (Some x) i = False"
| "accn G T s F (Suc n) (Some x) i =
     (if i_op (G ! x) = AIRY_RE_I_SPLIT
      then accn G T s F n (i_a (G ! x)) i \<or> accn G T s F n (i_b (G ! x)) i
      else if i_op (G ! x) = AIRY_RE_I_MATCH then True
      else (case re_pos (i_op (G ! x)) (i_c (G ! x)) T s i of
              None \<Rightarrow> False | Some i' \<Rightarrow> accn G T s F n (i_a (G ! x)) i'))"

definition accepts ::
  "re_inst list \<Rightarrow> re_tbl list \<Rightarrow> cstr \<Rightarrow> (nat \<Rightarrow> bool) \<Rightarrow> nat option \<Rightarrow> nat \<Rightarrow> bool" where
  "accepts G T s F pc i = (\<exists>n. accn G T s F n pc i)"

text \<open>At most \<open>K\<close> SPLITs on every path of at most \<open>n\<close> steps.\<close>

fun dk :: "re_inst list \<Rightarrow> re_tbl list \<Rightarrow> cstr \<Rightarrow> nat \<Rightarrow> nat option \<Rightarrow> nat \<Rightarrow> nat \<Rightarrow> bool" where
  "dk G T s n None i K = True"
| "dk G T s 0 (Some x) i K = True"
| "dk G T s (Suc n) (Some x) i K =
     (if i_op (G ! x) = AIRY_RE_I_SPLIT
      then 0 < K \<and> dk G T s n (i_a (G ! x)) i (K - 1) \<and> dk G T s n (i_b (G ! x)) i (K - 1)
      else if i_op (G ! x) = AIRY_RE_I_MATCH then True
      else (case re_pos (i_op (G ! x)) (i_c (G ! x)) T s i of
              None \<Rightarrow> True | Some i' \<Rightarrow> dk G T s n (i_a (G ! x)) i' K))"

definition deep_ok :: "re_inst list \<Rightarrow> re_tbl list \<Rightarrow> cstr \<Rightarrow> nat option \<Rightarrow> nat \<Rightarrow> nat \<Rightarrow> bool" where
  "deep_ok G T s pc i K = (\<forall>n. dk G T s n pc i K)"

inductive ends :: "re_inst list \<Rightarrow> nat option \<Rightarrow> bool" for G where
  ends_None: "ends G None"
| ends_Split: "i_op (G ! x) = AIRY_RE_I_SPLIT \<Longrightarrow> ends G (Some x)"
| ends_step: "ends G (i_a (G ! x)) \<Longrightarrow> ends G (Some x)"

lemma accn_mono: "accn G T s F n pc i \<Longrightarrow> n \<le> m \<Longrightarrow> accn G T s F m pc i"
proof (induction n arbitrary: m pc i)
  case 0
  then show ?case by (cases pc) auto
next
  case (Suc n)
  then obtain m' where "m = Suc m'" "n \<le> m'" by (cases m) auto
  with Suc show ?case by (cases pc) (auto split: if_splits option.splits)
qed

lemma dk_antimono: "dk G T s m pc i K \<Longrightarrow> n \<le> m \<Longrightarrow> K \<le> K' \<Longrightarrow> dk G T s n pc i K'"
proof (induction n arbitrary: m pc i K K')
  case 0
  then show ?case by (cases pc) auto
next
  case (Suc n)
  then obtain m' where m: "m = Suc m'" "n \<le> m'" by (cases m) auto
  have "K - 1 \<le> K' - 1" using Suc.prems(3) by simp
  with Suc m show ?case by (cases pc) (fastforce split: if_splits option.splits)+
qed

lemma deep_ok_mono: "deep_ok G T s pc i K \<Longrightarrow> K \<le> K' \<Longrightarrow> deep_ok G T s pc i K'"
  using dk_antimono by (meson deep_ok_def order_refl)

lemma deep_ok_None [simp]: "deep_ok G T s None i K"
  by (simp add: deep_ok_def)

lemma accepts_None [simp]: "accepts G T s F None i = F i"
  by (simp add: accepts_def)

lemma accepts_split:
  assumes "i_op (G ! x) = AIRY_RE_I_SPLIT"
  shows "accepts G T s F (Some x) i = (accepts G T s F (i_a (G ! x)) i \<or> accepts G T s F (i_b (G ! x)) i)"
proof
  assume "accepts G T s F (Some x) i"
  then obtain n where "accn G T s F n (Some x) i" by (auto simp: accepts_def)
  with assms show "accepts G T s F (i_a (G ! x)) i \<or> accepts G T s F (i_b (G ! x)) i"
    by (cases n) (auto simp: accepts_def)
next
  assume "accepts G T s F (i_a (G ! x)) i \<or> accepts G T s F (i_b (G ! x)) i"
  then obtain n where "accn G T s F n (i_a (G ! x)) i \<or> accn G T s F n (i_b (G ! x)) i"
    by (auto simp: accepts_def)
  with assms have "accn G T s F (Suc n) (Some x) i" by simp
  then show "accepts G T s F (Some x) i" unfolding accepts_def by blast
qed

lemma accepts_simple:
  assumes "i_op (G ! x) \<noteq> AIRY_RE_I_SPLIT" and "i_op (G ! x) \<noteq> AIRY_RE_I_MATCH"
  shows "accepts G T s F (Some x) i =
    (case re_pos (i_op (G ! x)) (i_c (G ! x)) T s i of
       None \<Rightarrow> False | Some i' \<Rightarrow> accepts G T s F (i_a (G ! x)) i')"
proof -
  have "accn G T s F (Suc n) (Some x) i =
      (case re_pos (i_op (G ! x)) (i_c (G ! x)) T s i of
         None \<Rightarrow> False | Some i' \<Rightarrow> accn G T s F n (i_a (G ! x)) i')" for n
    using assms by simp
  moreover have "accepts G T s F (Some x) i = (\<exists>n. accn G T s F (Suc n) (Some x) i)"
    unfolding accepts_def by (metis accn.simps(2) not0_implies_Suc)
  ultimately show ?thesis
    by (cases "re_pos (i_op (G ! x)) (i_c (G ! x)) T s i") (simp_all add: accepts_def)
qed

lemma deep_ok_split:
  assumes "i_op (G ! x) = AIRY_RE_I_SPLIT"
    and "deep_ok G T s (i_a (G ! x)) i K" and "deep_ok G T s (i_b (G ! x)) i K"
  shows "deep_ok G T s (Some x) i (Suc K)"
  unfolding deep_ok_def
proof
  fix n show "dk G T s n (Some x) i (Suc K)" using assms by (cases n) (auto simp: deep_ok_def)
qed

lemma deep_ok_simple:
  assumes "i_op (G ! x) \<noteq> AIRY_RE_I_SPLIT"
    and "\<And>i'. re_pos (i_op (G ! x)) (i_c (G ! x)) T s i = Some i' \<Longrightarrow> deep_ok G T s (i_a (G ! x)) i' K"
  shows "deep_ok G T s (Some x) i K"
  unfolding deep_ok_def
proof
  fix n show "dk G T s n (Some x) i K"
    using assms by (cases n) (auto simp: deep_ok_def split: option.split)
qed

subsection \<open>Straight chains\<close>

fun run_ops :: "re_tbl list \<Rightarrow> cstr \<Rightarrow> (re_op \<times> nat) list \<Rightarrow> nat \<Rightarrow> nat option" where
  "run_ops T s [] i = Some i"
| "run_ops T s ((op, c) # L) i =
     (case re_pos op c T s i of None \<Rightarrow> None | Some i' \<Rightarrow> run_ops T s L i')"

fun lin :: "re_inst list \<Rightarrow> nat option \<Rightarrow> (re_op \<times> nat) list \<Rightarrow> nat option \<Rightarrow> bool" where
  "lin G pc [] nx = (pc = nx)"
| "lin G pc ((op, c) # L) nx =
     (case pc of
        None \<Rightarrow> False
      | Some x \<Rightarrow> x < length G \<and> i_op (G ! x) = op \<and> op \<noteq> AIRY_RE_I_SPLIT \<and> op \<noteq> AIRY_RE_I_MATCH \<and>
          i_c (G ! x) = c \<and> i_b (G ! x) = None \<and> lin G (i_a (G ! x)) L nx)"

lemma run_ops_bounds: "run_ops T s L i = Some j \<Longrightarrow> i \<le> j \<and> (i \<le> length s \<longrightarrow> j \<le> length s)"
proof (induction L arbitrary: i)
  case (Cons a L)
  then show ?case by (cases a) (fastforce dest: re_pos_bounds split: option.splits)
qed simp

lemma lin_accn:
  "lin G pc L nx \<Longrightarrow> accn G T s F n pc i \<Longrightarrow> \<exists>j. run_ops T s L i = Some j \<and> accn G T s F n nx j"
proof (induction L arbitrary: pc i n)
  case (Cons a L)
  obtain op c where a: "a = (op, c)" by (cases a)
  with Cons.prems(1) obtain x where x: "pc = Some x" "i_op (G ! x) = op" "op \<noteq> AIRY_RE_I_SPLIT"
    "op \<noteq> AIRY_RE_I_MATCH" "i_c (G ! x) = c" "lin G (i_a (G ! x)) L nx"
    by (auto split: option.splits)
  with Cons.prems(2) obtain m i' where "n = Suc m" "re_pos op c T s i = Some i'"
    "accn G T s F m (i_a (G ! x)) i'"
    by (cases n) (auto split: option.splits)
  with Cons.IH [OF x(6) this(3)] a accn_mono show ?case by fastforce
qed simp

lemma lin_accepts_iff:
  "lin G pc L nx \<Longrightarrow>
   accepts G T s F pc i = (case run_ops T s L i of None \<Rightarrow> False | Some j \<Rightarrow> accepts G T s F nx j)"
proof (induction L arbitrary: pc i)
  case (Cons a L)
  obtain op c where a: "a = (op, c)" by (cases a)
  with Cons.prems obtain x where x: "pc = Some x" "i_op (G ! x) = op" "op \<noteq> AIRY_RE_I_SPLIT"
    "op \<noteq> AIRY_RE_I_MATCH" "i_c (G ! x) = c" "lin G (i_a (G ! x)) L nx"
    by (auto split: option.splits)
  have "accepts G T s F pc i =
      (case re_pos op c T s i of None \<Rightarrow> False | Some i' \<Rightarrow> accepts G T s F (i_a (G ! x)) i')"
    using accepts_simple [of G x T s F i] x by simp
  then show ?case using Cons.IH [OF x(6)] a by (auto split: option.split)
qed simp

lemma lin_dk:
  "lin G pc L nx \<Longrightarrow> (\<And>j. run_ops T s L i = Some j \<Longrightarrow> dk G T s n nx j K) \<Longrightarrow> dk G T s n pc i K"
proof (induction L arbitrary: pc i n)
  case (Cons a L)
  obtain op c where a: "a = (op, c)" by (cases a)
  with Cons.prems(1) obtain x where x: "pc = Some x" "i_op (G ! x) = op" "op \<noteq> AIRY_RE_I_SPLIT"
    "i_c (G ! x) = c" "lin G (i_a (G ! x)) L nx"
    by (auto split: option.splits)
  show ?case
  proof (cases n)
    case (Suc m)
    have "dk G T s m (i_a (G ! x)) i' K" if "re_pos op c T s i = Some i'" for i'
    proof (rule Cons.IH [OF x(5)])
      fix j assume "run_ops T s L i' = Some j"
      then have "dk G T s n nx j K" using Cons.prems(2) that a by simp
      then show "dk G T s m nx j K" using Suc dk_antimono by (metis le_SucI order_refl)
    qed
    then show ?thesis using x Suc by (auto split: option.split)
  qed (simp add: x)
qed simp

lemma lin_deep_ok:
  "lin G pc L nx \<Longrightarrow> (\<And>j. run_ops T s L i = Some j \<Longrightarrow> deep_ok G T s nx j K) \<Longrightarrow> deep_ok G T s pc i K"
  unfolding deep_ok_def using lin_dk by blast

lemma lin_ends: "lin G pc L nx \<Longrightarrow> ends G nx \<Longrightarrow> ends G pc"
proof (induction L arbitrary: pc)
  case (Cons a L)
  then show ?case by (cases a) (auto intro: ends_step split: option.splits)
qed simp

end
