(* ===== verification/Regex_Fragments.thy ===== *)
theory Regex_Fragments
  imports Regex_Paths
begin

section \<open>Regular expressions: compiled fragments\<close>

text \<open>
  A compiled fragment accepts, from its entry, exactly what its syntax tree matches followed by what its
  continuation accepts (\<open>compiled\<close>); it bounds the SPLITs on a path by \<open>re_cost\<close>, and its instructions
  only point to each other, to the continuation or to NULL. The predicate speaks about every graph
  that agrees with the result on the instructions of the fragment, so that fragments compose.
\<close>

subsection \<open>Conditions on syntax trees\<close>

text \<open>What the parser builds: a quantifier applies to an atom, its bounds are in order, no sequence has
  more than \<open>N\<close> nodes, and the group numbers fit the capture array.\<close>

fun re_atomic :: "re_ast \<Rightarrow> bool" where
  "re_atomic (AIRY_RE_A_REPEAT x lo hi g) = False"
| "re_atomic (AIRY_RE_A_ALT xs ys) = False"
| "re_atomic AIRY_RE_A_EMPTY = False"
| "re_atomic _ = True"

fun re_shape :: "nat \<Rightarrow> re_ast \<Rightarrow> bool" where
  "re_shape N AIRY_RE_A_EMPTY = False"
| "re_shape N (AIRY_RE_A_ALT xs ys) =
     (list_all (re_shape N) xs \<and> list_all (re_shape N) ys \<and> length xs \<le> N \<and> length ys \<le> N)"
| "re_shape N (AIRY_RE_A_REPEAT x lo hi g) = (re_atomic x \<and> re_shape N x \<and> 0 \<le> lo \<and> (hi < 0 \<or> lo \<le> hi))"
| "re_shape N (AIRY_RE_A_GROUP gid xs) = (list_all (re_shape N) xs \<and> length xs \<le> N \<and> gid < AIRY_RE_MAX_GROUPS)"
| "re_shape N _ = True"

text \<open>Trees whose every match is non-empty, and trees whose unbounded repeats only repeat such trees.\<close>

fun re_nonempty :: "re_ast \<Rightarrow> bool" where
  "re_nonempty AIRY_RE_A_EMPTY = False"
| "re_nonempty (AIRY_RE_A_ANCHOR c) = False"
| "re_nonempty (AIRY_RE_A_ALT xs ys) = (list_ex re_nonempty xs \<and> list_ex re_nonempty ys)"
| "re_nonempty (AIRY_RE_A_REPEAT x lo hi g) = (0 < lo \<and> re_nonempty x)"
| "re_nonempty (AIRY_RE_A_GROUP gid xs) = list_ex re_nonempty xs"
| "re_nonempty _ = True"

fun re_stars_ok :: "re_ast \<Rightarrow> bool" where
  "re_stars_ok (AIRY_RE_A_ALT xs ys) = (list_all re_stars_ok xs \<and> list_all re_stars_ok ys)"
| "re_stars_ok (AIRY_RE_A_REPEAT x lo hi g) = (hi < 0 \<longrightarrow> re_nonempty x)"
| "re_stars_ok (AIRY_RE_A_GROUP gid xs) = list_all re_stars_ok xs"
| "re_stars_ok _ = True"

text \<open>A bound for the SPLITs on a path, for a subject of length \<open>n\<close>.\<close>

fun re_cost :: "nat \<Rightarrow> re_ast \<Rightarrow> nat" where
  "re_cost n (AIRY_RE_A_ALT xs ys) = 1 + max (sum_list (map (re_cost n) xs)) (sum_list (map (re_cost n) ys))"
| "re_cost n (AIRY_RE_A_REPEAT x lo hi g) = (if hi < 0 then n + 1 else nat (hi - lo))"
| "re_cost n (AIRY_RE_A_GROUP gid xs) = sum_list (map (re_cost n) xs)"
| "re_cost n _ = 0"

definition re_costs :: "nat \<Rightarrow> re_ast list \<Rightarrow> nat" where
  "re_costs n xs = sum_list (map (re_cost n) xs)"

lemma re_match_le:
  "re_match s x i j \<Longrightarrow> i \<le> j" "re_matches s xs i j \<Longrightarrow> i \<le> j"
proof (induction s x i j and s xs i j rule: re_match_re_matches.induct)
  case (7 s x lo hi greedy i j)
  then obtain k where "((\<lambda>p q. re_match s x p q) ^^ k) i j" by auto
  then show ?case
  proof (induction k arbitrary: j)
    case (Suc k)
    then obtain m where "((\<lambda>p q. re_match s x p q) ^^ k) i m" "re_match s x m j" by auto
    then show ?case using Suc.IH "7.IH" le_trans by blast
  qed simp
next
  case (10 s x xs i j)
  then show ?case by (meson le_trans re_matches.simps(2))
qed auto

lemma re_match_nonempty:
  "re_match s x i j \<Longrightarrow> re_nonempty x \<Longrightarrow> i < j"
  "re_matches s xs i j \<Longrightarrow> list_ex re_nonempty xs \<Longrightarrow> i < j"
proof (induction s x i j and s xs i j rule: re_match_re_matches.induct)
  case (7 s x lo hi greedy i j)
  then obtain k where k: "lo \<le> int k" "((\<lambda>p q. re_match s x p q) ^^ k) i j" by auto
  with 7 obtain k' where "k = Suc k'" by (cases k) auto
  with k obtain m where m: "((\<lambda>p q. re_match s x p q) ^^ k') i m" "re_match s x m j" by auto
  have "i \<le> m" using m(1)
  proof (induction k' arbitrary: m)
    case (Suc k')
    then show ?case by (auto dest: re_match_le(1)) (meson le_trans re_match_le(1))
  qed simp
  moreover have "m < j" using "7.IH" m(2) "7.prems"(2) by auto
  ultimately show ?case by simp
next
  case (10 s x xs i j)
  then obtain m where m: "re_match s x i m" "re_matches s xs m j" by auto
  then have "i \<le> m" "m \<le> j" using re_match_le by auto
  moreover have "i < m \<or> m < j" using "10.IH" m "10.prems"(2) by auto
  ultimately show ?case by linarith
qed auto

subsection \<open>Fragments\<close>

definition same_on :: "'a list \<Rightarrow> 'a list \<Rightarrow> nat \<Rightarrow> nat \<Rightarrow> bool" where
  "same_on G H lo hi = (hi \<le> length G \<and> (\<forall>x. lo \<le> x \<and> x < hi \<longrightarrow> G ! x = H ! x))"

definition good ::
  "re_inst list \<Rightarrow> re_tbl list \<Rightarrow> cstr \<Rightarrow> nat option \<Rightarrow> (nat \<Rightarrow> nat \<Rightarrow> bool) \<Rightarrow> bool \<Rightarrow> nat \<Rightarrow> nat option \<Rightarrow> bool" where
  "good G T s e R C c after =
     ((\<forall>F i. accepts G T s F e i = (\<exists>j. R i j \<and> accepts G T s F after j)) \<and>
      (C \<longrightarrow> (\<forall>K. (\<forall>i \<le> length s. deep_ok G T s after i K) \<longrightarrow>
                  (\<forall>i \<le> length s. deep_ok G T s e i (K + c)))))"

definition ptr_ok :: "nat \<Rightarrow> nat \<Rightarrow> nat option \<Rightarrow> nat option \<Rightarrow> bool" where
  "ptr_ok lo hi after p = (p = None \<or> p = after \<or> (\<exists>y. p = Some y \<and> lo \<le> y \<and> y < hi))"

definition save_ok :: "re_op \<Rightarrow> nat \<Rightarrow> bool" where
  "save_ok op c = (op = AIRY_RE_I_SAVE \<longrightarrow> c < 2 * AIRY_RE_MAX_GROUPS)"

definition inst_ok :: "nat \<Rightarrow> nat \<Rightarrow> nat option \<Rightarrow> bool \<Rightarrow> re_inst \<Rightarrow> bool" where
  "inst_ok lo hi after A ip =
     (ptr_ok lo hi after (i_a ip) \<and> ptr_ok lo hi after (i_b ip) \<and> i_op ip \<noteq> AIRY_RE_I_MATCH \<and> save_ok (i_op ip) (i_c ip) \<and>
      ((after \<noteq> None \<or> A) \<and> i_op ip = AIRY_RE_I_SPLIT \<longrightarrow> i_b ip \<noteq> None))"

definition compiled_under ::
  "(re_tbl list \<Rightarrow> bool) \<Rightarrow> re_comp \<Rightarrow> re_comp \<Rightarrow> nat option \<Rightarrow> nat option \<Rightarrow> (cstr \<Rightarrow> nat \<Rightarrow> nat \<Rightarrow> bool) \<Rightarrow>
   bool \<Rightarrow> (nat \<Rightarrow> nat) \<Rightarrow> bool \<Rightarrow> bool" where
  "compiled_under Q co co' e after R C c A =
     ((\<exists>is tb. co_all co' = co_all co @ is \<and> co_tables co' = co_tables co @ tb \<and>
         (\<forall>ip \<in> set is. inst_ok (length (co_all co)) (length (co_all co')) after A ip)) \<and>
      (e = after \<or> (\<exists>y. e = Some y \<and> length (co_all co) \<le> y \<and> y < length (co_all co'))) \<and>
      (\<forall>G T. same_on G (co_all co') (length (co_all co)) (length (co_all co')) \<and> Q T \<longrightarrow>
         (\<forall>s. good G T s e (R s) C (c (length s)) after) \<and>
         (ends G after \<longrightarrow> ends G e \<and>
            (\<forall>x. length (co_all co) \<le> x \<and> x < length (co_all co') \<longrightarrow> ends G (Some x)))))"

definition compiled ::
  "re_comp \<Rightarrow> re_comp \<Rightarrow> nat option \<Rightarrow> nat option \<Rightarrow> (cstr \<Rightarrow> nat \<Rightarrow> nat \<Rightarrow> bool) \<Rightarrow> bool \<Rightarrow> (nat \<Rightarrow> nat) \<Rightarrow> bool \<Rightarrow> bool" where
  "compiled co co' e after R C c A = compiled_under
     (\<lambda>T. same_on T (co_tables co') (length (co_tables co)) (length (co_tables co'))) co co' e after R C c A"

lemmas compiled_defs = compiled_def compiled_under_def

lemma goodI:
  assumes "\<And>F i. accepts G T s F e i = (\<exists>j. R i j \<and> accepts G T s F after j)"
    and "\<And>K i. C \<Longrightarrow> \<forall>i \<le> length s. deep_ok G T s after i K \<Longrightarrow> i \<le> length s \<Longrightarrow> deep_ok G T s e i (K + c)"
  shows "good G T s e R C c after"
  using assms by (simp add: good_def)

lemma good_refl: "good G T s e (\<lambda>i j. j = i) C 0 e"
  by (simp add: good_def)

lemma good_trans:
  assumes 1: "good G T s e R1 C1 c1 m" and 2: "good G T s m R2 C2 c2 after"
  shows "good G T s e (\<lambda>i j. \<exists>k. R1 i k \<and> R2 k j) (C1 \<and> C2) (c1 + c2) after"
proof (rule goodI)
  fix F i show "accepts G T s F e i = (\<exists>j. (\<exists>k. R1 i k \<and> R2 k j) \<and> accepts G T s F after j)"
    using assms by (auto simp: good_def)
next
  fix K i assume "C1 \<and> C2" "\<forall>i \<le> length s. deep_ok G T s after i K" "i \<le> length s"
  then have "deep_ok G T s e i (K + c2 + c1)" using assms unfolding good_def by blast
  then show "deep_ok G T s e i (K + (c1 + c2))" by (simp add: ac_simps)
qed

lemma ptr_ok_mono:
  assumes "ptr_ok lo hi after p" "lo' \<le> lo" "hi \<le> hi'" "ptr_ok lo' hi' after' after"
  shows "ptr_ok lo' hi' after' p"
proof (cases "p = after")
  case False
  then have "p = None \<or> (\<exists>y. p = Some y \<and> lo' \<le> y \<and> y < hi')"
    using assms(1-3) by (auto simp: ptr_ok_def)
  then show ?thesis by (auto simp: ptr_ok_def)
qed (use assms in simp)

lemma inst_ok_mono:
  assumes "inst_ok lo hi after A ip" "lo' \<le> lo" "hi \<le> hi'" "ptr_ok lo' hi' after' after"
    and "after' \<noteq> None \<or> A' \<longrightarrow> after \<noteq> None \<or> A"
  shows "inst_ok lo' hi' after' A' ip"
  using assms(1,5) ptr_ok_mono [OF _ assms(2-4)] unfolding inst_ok_def by blast

lemma same_on_sub: "same_on G H lo hi \<Longrightarrow> lo \<le> lo' \<Longrightarrow> hi' \<le> hi \<Longrightarrow> same_on G H lo' hi'"
  unfolding same_on_def by (meson le_trans less_le_trans)

lemma same_on_prefix: "same_on G (xs @ ys) lo (length xs) \<longleftrightarrow> same_on G xs lo (length xs)"
  by (auto simp: same_on_def nth_append)

lemma compiled_under_refl: "compiled_under Q co co e e (\<lambda>s i j. j = i) C (\<lambda>n. 0) A"
  by (auto simp: compiled_under_def good_refl)

lemma compiled_under_trans:
  assumes 1: "compiled_under Q co co1 m after R1 C1 c1 A1" and 2: "compiled_under Q co1 co2 e m R2 C2 c2 A2"
    and m: "after = None \<Longrightarrow> A \<Longrightarrow> A1 \<and> (m \<noteq> None \<or> A2)"
  shows "compiled_under Q co co2 e after (\<lambda>s i j. \<exists>k. R2 s i k \<and> R1 s k j) (C2 \<and> C1) (\<lambda>n. c2 n + c1 n) A"
proof -
  let ?l = "length (co_all co)" and ?m = "length (co_all co1)" and ?h = "length (co_all co2)"
  obtain is1 tb1 where g1: "co_all co1 = co_all co @ is1" "co_tables co1 = co_tables co @ tb1"
    and ok1: "\<forall>ip \<in> set is1. inst_ok ?l ?m after A1 ip" using 1 unfolding compiled_under_def by blast
  obtain is2 tb2 where g2: "co_all co2 = co_all co1 @ is2" "co_tables co2 = co_tables co1 @ tb2"
    and ok2: "\<forall>ip \<in> set is2. inst_ok ?m ?h m A2 ip" using 2 unfolding compiled_under_def by blast
  have len: "?l \<le> ?m" "?m \<le> ?h" using g1 g2 by auto
  have mp: "m = after \<or> (\<exists>y. m = Some y \<and> ?l \<le> y \<and> y < ?m)" using 1 unfolding compiled_under_def by blast
  have ep: "e = m \<or> (\<exists>y. e = Some y \<and> ?m \<le> y \<and> y < ?h)" using 2 unfolding compiled_under_def by blast
  have "inst_ok ?l ?h after A ip" if "ip \<in> set is1" for ip
    by (rule inst_ok_mono [OF bspec [OF ok1 that]]) (use len m in \<open>auto simp: ptr_ok_def\<close>)
  moreover have "inst_ok ?l ?h after A ip" if "ip \<in> set is2" for ip
    by (rule inst_ok_mono [OF bspec [OF ok2 that]]) (use len m mp in \<open>auto simp: ptr_ok_def\<close>)
  ultimately have "\<exists>is tb. co_all co2 = co_all co @ is \<and> co_tables co2 = co_tables co @ tb \<and>
      (\<forall>ip \<in> set is. inst_ok ?l ?h after A ip)"
    using g1 g2 by (intro exI [of _ "is1 @ is2"] exI [of _ "tb1 @ tb2"]) auto
  moreover have "e = after \<or> (\<exists>y. e = Some y \<and> ?l \<le> y \<and> y < ?h)" using mp ep len by auto
  moreover have "(\<forall>s. good G T s e (\<lambda>i j. \<exists>k. R2 s i k \<and> R1 s k j) (C2 \<and> C1) (c2 (length s) + c1 (length s)) after) \<and>
      (ends G after \<longrightarrow> ends G e \<and> (\<forall>x. ?l \<le> x \<and> x < ?h \<longrightarrow> ends G (Some x)))"
    if G: "same_on G (co_all co2) ?l ?h" and Q: "Q T" for G T
  proof -
    have "same_on G (co_all co1) ?l ?m"
      using same_on_sub [OF G, of ?l ?m] len same_on_prefix [of G "co_all co1" is2] g2 by auto
    then have f1: "(\<forall>s. good G T s m (R1 s) C1 (c1 (length s)) after) \<and>
        (ends G after \<longrightarrow> ends G m \<and> (\<forall>x. ?l \<le> x \<and> x < ?m \<longrightarrow> ends G (Some x)))"
      using 1 Q unfolding compiled_under_def by blast
    have "same_on G (co_all co2) ?m ?h" using same_on_sub [OF G, of ?m ?h] len by auto
    then have f2: "(\<forall>s. good G T s e (R2 s) C2 (c2 (length s)) m) \<and>
        (ends G m \<longrightarrow> ends G e \<and> (\<forall>x. ?m \<le> x \<and> x < ?h \<longrightarrow> ends G (Some x)))"
      using 2 Q unfolding compiled_under_def by blast
    show ?thesis using f1 f2 good_trans [of G T _ e "R2 _" C2 "c2 _" m "R1 _" C1 "c1 _" after]
      by (meson not_le)
  qed
  ultimately show ?thesis unfolding compiled_under_def by blast
qed

lemma compiled_under_mono:
  "compiled_under Q co co' e after R C c A \<Longrightarrow> (\<And>T. Q' T \<Longrightarrow> Q T) \<Longrightarrow> compiled_under Q' co co' e after R C c A"
  unfolding compiled_under_def by blast

lemma compiled_under_cong:
  assumes "compiled_under Q co co' e after R C c A"
    and "\<And>s i j. R s i j = R' s i j" and "C' \<Longrightarrow> C" and "\<And>n. c n \<le> c' n"
  shows "compiled_under Q co co' e after R' C' c' A"
proof -
  have "R = R'" using assms(2) by (simp add: fun_eq_iff)
  moreover have "good G T s e R1 C' (c' n) after" if "good G T s e R1 C (c n) after" for G T s R1 n
    using that assms(3) assms(4) [of n] unfolding good_def by (meson add_left_mono deep_ok_mono)
  ultimately show ?thesis using assms(1) unfolding compiled_under_def by blast
qed

lemma compiled_trans:
  assumes 1: "compiled co co1 m after R1 C1 c1 A1" and 2: "compiled co1 co2 e m R2 C2 c2 A2"
    and m: "after = None \<Longrightarrow> A \<Longrightarrow> A1 \<and> (m \<noteq> None \<or> A2)"
  shows "compiled co co2 e after (\<lambda>s i j. \<exists>k. R2 s i k \<and> R1 s k j) (C2 \<and> C1) (\<lambda>n. c2 n + c1 n) A"
proof -
  let ?tl = "length (co_tables co)" and ?tm = "length (co_tables co1)" and ?th = "length (co_tables co2)"
  let ?Q = "\<lambda>T. same_on T (co_tables co2) ?tl ?th"
  obtain tb2 where g: "co_tables co2 = co_tables co1 @ tb2" using 2 unfolding compiled_defs by blast
  have "?tl \<le> ?tm" using 1 unfolding compiled_defs by auto
  then have "same_on T (co_tables co1) ?tl ?tm" "same_on T (co_tables co2) ?tm ?th" if "?Q T" for T
    using same_on_sub [OF that, of ?tl ?tm] same_on_sub [OF that, of ?tm ?th] same_on_prefix [of T "co_tables co1" tb2] g
    by auto
  then show ?thesis
    using 1 2 m unfolding compiled_def by (intro compiled_under_trans) (blast intro: compiled_under_mono)+
qed

end
