(* ===== verification/Regex_Blocks.thy ===== *)
theory Regex_Blocks
  imports Regex_Fragments
begin

section \<open>Regular expressions: the blocks of the compiler\<close>

text \<open>
  The instruction blocks that the compiler appends (single instructions, branches, groups, copies of a
  straight body, optional copies, loops) and, for each, the fragment it is.
\<close>

subsection \<open>Appending instructions\<close>

lemma inst_new_Some:
  "airy_re_inst_new co op = (Some x, co1) \<Longrightarrow>
   x = length (co_all co) \<and> co_all co1 = co_all co @ [\<lparr>i_op = op, i_c = 0, i_a = None, i_b = None\<rparr>] \<and>
   co_tables co1 = co_tables co"
  by (auto simp: airy_re_inst_new_def split: if_splits)

lemma upd_last: "co_all co = xs @ [ip] \<Longrightarrow> co_upd co (length xs) f = co\<lparr>co_all := xs @ [f ip]\<rparr>"
  by (simp add: co_upd_def)

lemma emit_Some:
  "re_emit co op c after = (Some x, co1) \<Longrightarrow>
   x = length (co_all co) \<and> co_all co1 = co_all co @ [\<lparr>i_op = op, i_c = c, i_a = after, i_b = None\<rparr>] \<and>
   co_tables co1 = co_tables co"
  by (auto simp: re_emit_def upd_last dest: inst_new_Some split: prod.splits option.splits)

lemma same_on_nth:
  "same_on G (xs @ ys) (length xs) (length xs + length ys) \<Longrightarrow> k < length ys \<Longrightarrow>
   length xs + k < length G \<and> G ! (length xs + k) = ys ! k"
  by (auto simp: same_on_def nth_append)

lemma compiled_simple:
  assumes all: "co_all co' = co_all co @ [\<lparr>i_op = op, i_c = c, i_a = after, i_b = None\<rparr>]"
    and tb: "co_tables co' = co_tables co @ tb" and e: "e = Some (length (co_all co))"
    and op: "op \<noteq> AIRY_RE_I_SPLIT" "op \<noteq> AIRY_RE_I_MATCH" "save_ok op c"
    and R: "\<And>T s i j. same_on T (co_tables co') (length (co_tables co)) (length (co_tables co')) \<Longrightarrow>
              R s i j = (re_pos op c T s i = Some j)"
  shows "compiled co co' e after R C (\<lambda>n. 0) A"
proof -
  let ?x = "length (co_all co)"
  have "good G T s e (R s) C 0 after \<and> (ends G after \<longrightarrow> ends G e)"
    if G: "same_on G (co_all co') ?x (length (co_all co'))"
      and T: "same_on T (co_tables co') (length (co_tables co)) (length (co_tables co'))" for G T s
  proof -
    have x: "i_op (G ! ?x) = op" "i_c (G ! ?x) = c" "i_a (G ! ?x) = after"
      using same_on_nth [of G "co_all co" "[\<lparr>i_op = op, i_c = c, i_a = after, i_b = None\<rparr>]" 0] G by (auto simp: all)
    have "accepts G T s F e i = (\<exists>j. R s i j \<and> accepts G T s F after j)" for F i
      unfolding e R [OF T] using accepts_simple [of G ?x T s F i] x op by (auto split: option.split)
    moreover have "deep_ok G T s e i K" if "\<forall>i \<le> length s. deep_ok G T s after i K" "i \<le> length s" for i K
      unfolding e using deep_ok_simple [of G ?x T s i K] x op that re_pos_bounds by blast
    ultimately have "good G T s e (R s) C 0 after" by (simp add: good_def)
    then show ?thesis using x ends_step [of G ?x] e by simp
  qed
  then show ?thesis
    unfolding compiled_defs using op e
    by (auto simp: all tb inst_ok_def ptr_ok_def le_less_Suc_eq)
qed

subsection \<open>Branches\<close>

lemma good_alt:
  assumes op: "i_op (G ! x) = AIRY_RE_I_SPLIT"
    and 1: "good G T s (i_a (G ! x)) R1 C1 c1 after" and 2: "good G T s (i_b (G ! x)) R2 C2 c2 after"
  shows "good G T s (Some x) (\<lambda>i j. R1 i j \<or> R2 i j) (C1 \<and> C2) (1 + max c1 c2) after"
proof (rule goodI)
  fix F i
  show "accepts G T s F (Some x) i = (\<exists>j. (R1 i j \<or> R2 i j) \<and> accepts G T s F after j)"
    using accepts_split [OF op] 1 2 by (auto simp: good_def)
next
  fix K i assume "C1 \<and> C2" "\<forall>i \<le> length s. deep_ok G T s after i K" "i \<le> length s"
  then have "deep_ok G T s (i_a (G ! x)) i (K + c1)" "deep_ok G T s (i_b (G ! x)) i (K + c2)"
    using 1 2 unfolding good_def by blast+
  then have "deep_ok G T s (i_a (G ! x)) i (K + max c1 c2)" "deep_ok G T s (i_b (G ! x)) i (K + max c1 c2)"
    by (auto elim: deep_ok_mono)
  from deep_ok_split [OF op this] show "deep_ok G T s (Some x) i (K + (1 + max c1 c2))" by simp
qed

lemma compiled_alt:
  assumes 1: "compiled co co1 (Some p1) after R1 C1 c1 False"
    and 2: "compiled co1 co2 (Some p2) after R2 C2 c2 False"
    and 3: "co_all co3 = co_all co2 @ [\<lparr>i_op = AIRY_RE_I_SPLIT, i_c = 0, i_a = Some p1, i_b = Some p2\<rparr>]"
      "co_tables co3 = co_tables co2"
  shows "compiled co co3 (Some (length (co_all co2))) after (\<lambda>s i j. R1 s i j \<or> R2 s i j) (C1 \<and> C2)
           (\<lambda>n. 1 + max (c1 n) (c2 n)) False"
proof -
  let ?l = "length (co_all co)" and ?m = "length (co_all co1)" and ?h = "length (co_all co2)"
  let ?tl = "length (co_tables co)" and ?tm = "length (co_tables co1)" and ?th = "length (co_tables co2)"
  obtain is1 tb1 where g1: "co_all co1 = co_all co @ is1" "co_tables co1 = co_tables co @ tb1"
    and ok1: "\<forall>ip \<in> set is1. inst_ok ?l ?m after False ip" using 1 unfolding compiled_defs by blast
  obtain is2 tb2 where g2: "co_all co2 = co_all co1 @ is2" "co_tables co2 = co_tables co1 @ tb2"
    and ok2: "\<forall>ip \<in> set is2. inst_ok ?m ?h after False ip" using 2 unfolding compiled_defs by blast
  let ?sp = "\<lparr>i_op = AIRY_RE_I_SPLIT, i_c = 0, i_a = Some p1, i_b = Some p2\<rparr>"
  have len: "?l \<le> ?m" "?m \<le> ?h" "length (co_all co3) = Suc ?h" using g1 g2 3 by auto
  have p1: "ptr_ok ?l (Suc ?h) after (Some p1)" and p2: "ptr_ok ?l (Suc ?h) after (Some p2)"
    using 1 2 len unfolding compiled_defs ptr_ok_def by auto
  have "inst_ok ?l (Suc ?h) after False ip" if "ip \<in> set is1" for ip
    by (rule inst_ok_mono [OF bspec [OF ok1 that]]) (use len in \<open>simp_all add: ptr_ok_def\<close>)
  moreover have "inst_ok ?l (Suc ?h) after False ip" if "ip \<in> set is2" for ip
    by (rule inst_ok_mono [OF bspec [OF ok2 that]]) (use len in \<open>simp_all add: ptr_ok_def\<close>)
  moreover have "inst_ok ?l (Suc ?h) after False ?sp" using p1 p2 by (simp add: inst_ok_def save_ok_def)
  ultimately have "\<forall>ip \<in> set (is1 @ is2 @ [?sp]). inst_ok ?l (Suc ?h) after False ip" by auto
  moreover have "(\<forall>s. good G T s (Some ?h) (\<lambda>i j. R1 s i j \<or> R2 s i j) (C1 \<and> C2)
        (1 + max (c1 (length s)) (c2 (length s))) after) \<and>
      (ends G after \<longrightarrow> ends G (Some ?h) \<and> (\<forall>x. ?l \<le> x \<and> x < Suc ?h \<longrightarrow> ends G (Some x)))"
    if G: "same_on G (co_all co3) ?l (Suc ?h)" and T: "same_on T (co_tables co3) ?tl ?th" for G T
  proof -
    have x: "G ! ?h = ?sp" using same_on_sub [OF G, of ?h "Suc ?h"] len by (auto simp: same_on_def 3)
    have "same_on G (co_all co1) ?l ?m" "same_on T (co_tables co1) ?tl ?tm"
      using same_on_sub [OF G, of ?l ?m] same_on_sub [OF T, of ?tl ?tm] len g1 g2 3
        same_on_prefix [of G "co_all co1" "is2 @ [?sp]"] same_on_prefix [of T "co_tables co1" tb2] by auto
    then have f1: "(\<forall>s. good G T s (Some p1) (R1 s) C1 (c1 (length s)) after) \<and>
        (ends G after \<longrightarrow> (\<forall>x. ?l \<le> x \<and> x < ?m \<longrightarrow> ends G (Some x)))"
      using 1 unfolding compiled_defs by blast
    have "same_on G (co_all co2) ?m ?h" "same_on T (co_tables co2) ?tm ?th"
      using same_on_sub [OF G, of ?m ?h] same_on_sub [OF T, of ?tm ?th] len g1 g2 3
        same_on_prefix [of G "co_all co2" "[?sp]"] by auto
    then have f2: "(\<forall>s. good G T s (Some p2) (R2 s) C2 (c2 (length s)) after) \<and>
        (ends G after \<longrightarrow> (\<forall>x. ?m \<le> x \<and> x < ?h \<longrightarrow> ends G (Some x)))"
      using 2 unfolding compiled_defs by blast
    have "ends G (Some ?h)" using x by (intro ends_Split) simp
    moreover have "x = ?h \<or> x < ?m \<or> ?m \<le> x \<and> x < ?h" if "x < Suc ?h" for x using that by linarith
    moreover have "good G T s (Some ?h) (\<lambda>i j. R1 s i j \<or> R2 s i j) (C1 \<and> C2)
        (1 + max (c1 (length s)) (c2 (length s))) after" for s
      using good_alt [of G ?h T s "R1 s" C1 "c1 (length s)" after "R2 s" C2 "c2 (length s)"] f1 f2 x by simp
    ultimately show ?thesis using f1 f2 by blast
  qed
  moreover have "co_all co3 = co_all co @ is1 @ is2 @ [?sp]" "co_tables co3 = co_tables co @ tb1 @ tb2"
    using g1 g2 3 by simp_all
  ultimately show ?thesis unfolding compiled_defs len(3) 3(2) using len by auto
qed

subsection \<open>Groups\<close>

lemma good_save:
  assumes "i_op (G ! x) = AIRY_RE_I_SAVE"
  shows "good G T s (Some x) (\<lambda>i j. j = i) C 0 (i_a (G ! x))"
proof (rule goodI)
  have pos: "re_pos AIRY_RE_I_SAVE c T s i = Some i" for c i by (simp add: re_pos_def)
  fix F i show "accepts G T s F (Some x) i = (\<exists>j. j = i \<and> accepts G T s F (i_a (G ! x)) j)"
    using accepts_simple [of G x T s F i] assms pos by simp
  fix K assume "\<forall>i \<le> length s. deep_ok G T s (i_a (G ! x)) i K" "i \<le> length s"
  then show "deep_ok G T s (Some x) i (K + 0)"
    using deep_ok_simple [of G x T s i K] assms pos by simp
qed

lemma compiled_group:
  assumes l: "l = length (co_all co)"
    and 2: "co_all co2 = co_all co @ [s0, \<lparr>i_op = AIRY_RE_I_SAVE, i_c = c1, i_a = after, i_b = None\<rparr>]"
      "co_tables co2 = co_tables co"
    and 3: "compiled co2 co3 (Some b) (Some (l + 1)) R C c False"
    and 4: "co4 = co_upd co3 l (\<lambda>ip. ip\<lparr>i_a := Some b\<rparr>)"
    and s0: "i_op s0 = AIRY_RE_I_SAVE" "i_b s0 = None" "save_ok (i_op s0) (i_c s0)" "save_ok AIRY_RE_I_SAVE c1"
  shows "compiled co co4 (Some l) after R C c True"
proof -
  let ?h = "length (co_all co3)" and ?s1 = "\<lparr>i_op = AIRY_RE_I_SAVE, i_c = c1, i_a = after, i_b = None\<rparr>"
  obtain is3 tb3 where g3: "co_all co3 = co_all co2 @ is3" "co_tables co3 = co_tables co2 @ tb3"
    and ok3: "\<forall>ip \<in> set is3. inst_ok (l + 2) ?h (Some (l + 1)) False ip"
    using 3 unfolding compiled_defs by (auto simp: 2 l)
  let ?s0 = "s0\<lparr>i_a := Some b\<rparr>"
  have all4: "co_all co4 = co_all co @ ?s0 # ?s1 # is3"
    by (simp add: 4 co_upd_def g3 2 l)
  have len: "length (co_all co4) = ?h" "l + 2 \<le> ?h" by (simp_all add: all4 g3 2 l)
  have tb4: "co_tables co4 = co_tables co @ tb3" "co_tables co4 = co_tables co3" by (simp_all add: 4 co_upd_def g3 2)
  have b: "Some b = Some (l + 1) \<or> l + 2 \<le> b \<and> b < ?h" using 3 unfolding compiled_defs by (auto simp: 2 l)
  have "inst_ok l ?h after True ip" if "ip \<in> set is3" for ip
    by (rule inst_ok_mono [OF bspec [OF ok3 that]]) (use len in \<open>simp_all add: ptr_ok_def\<close>)
  moreover have "inst_ok l ?h after True ?s0" "inst_ok l ?h after True ?s1"
    using b len s0 by (auto simp: inst_ok_def ptr_ok_def)
  ultimately have ok: "\<forall>ip \<in> set (?s0 # ?s1 # is3). inst_ok l ?h after True ip" by auto
  have "(\<forall>s. good G T s (Some l) (R s) C (c (length s)) after) \<and>
      (ends G after \<longrightarrow> ends G (Some l) \<and> (\<forall>x. l \<le> x \<and> x < ?h \<longrightarrow> ends G (Some x)))"
    if G: "same_on G (co_all co4) l ?h" and T: "same_on T (co_tables co4) (length (co_tables co)) (length (co_tables co4))" for G T
  proof -
    have nth: "G ! l = ?s0" "G ! (l + 1) = ?s1"
      using G len by (auto simp: same_on_def all4 l nth_append)
    have "same_on G (co_all co3) (l + 2) ?h"
      using G by (auto simp: same_on_def all4 g3 2 l nth_append nth_Cons' split: if_splits)
    moreover have "same_on T (co_tables co3) (length (co_tables co2)) (length (co_tables co3))"
      using T unfolding tb4(2) 2(2) .
    ultimately have f3: "(\<forall>s. good G T s (Some b) (R s) C (c (length s)) (Some (l + 1))) \<and>
        (ends G (Some (l + 1)) \<longrightarrow> ends G (Some b) \<and> (\<forall>x. l + 2 \<le> x \<and> x < ?h \<longrightarrow> ends G (Some x)))"
      using 3 unfolding compiled_defs by (auto simp: 2 l)
    have "good G T s (Some l) (R s) C (c (length s)) after" for s
    proof -
      have "good G T s (Some l) (\<lambda>i j. j = i) True 0 (Some b)" "good G T s (Some (l + 1)) (\<lambda>i j. j = i) True 0 after"
        using good_save [of G l T s True] good_save [of G "l + 1" T s True] nth s0 by simp_all
      then show ?thesis using f3 good_trans [OF good_trans] by fastforce
    qed
    moreover have "ends G (Some l) \<and> (\<forall>x. l \<le> x \<and> x < ?h \<longrightarrow> ends G (Some x))" if "ends G after"
    proof -
      have "ends G (Some (l + 1))" using that nth by (intro ends_step) simp
      then have "ends G (Some b)" "\<And>x. l + 2 \<le> x \<and> x < ?h \<longrightarrow> ends G (Some x)" using f3 by blast+
      moreover from this have "ends G (Some l)" using nth by (intro ends_step) simp
      moreover have "x = l \<or> x = l + 1 \<or> l + 2 \<le> x" if "l \<le> x" for x using that by linarith
      ultimately show ?thesis using \<open>ends G (Some (l + 1))\<close> by metis
    qed
    ultimately show ?thesis by blast
  qed
  then show ?thesis
    unfolding compiled_defs len(1) using ok len all4 tb4 by (auto simp: l [symmetric])
qed

subsection \<open>Copies of a straight body\<close>

fun blk :: "nat \<Rightarrow> (re_op \<times> nat) list \<Rightarrow> nat option \<Rightarrow> re_inst list" where
  "blk n [] nx = []"
| "blk n ((op, c) # L) nx =
     \<lparr>i_op = op, i_c = c, i_a = (if L = [] then nx else Some (Suc n)), i_b = None\<rparr> # blk (Suc n) L nx"

lemma length_blk [simp]: "length (blk n L nx) = length L"
  by (induction n L nx rule: blk.induct) auto

lemma blk_snoc:
  "blk n (L @ [(op, c)]) nx =
     blk n L (Some (n + length L)) @ [\<lparr>i_op = op, i_c = c, i_a = nx, i_b = None\<rparr>]"
  by (induction n L "Some (n + length L)" rule: blk.induct) auto

lemma blk_last:
  assumes "L \<noteq> []"
  shows "(pre @ blk n L nx)[length pre + length L - 1 :=
            ((pre @ blk n L nx) ! (length pre + length L - 1))\<lparr>i_a := nx'\<rparr>] = pre @ blk n L nx'"
proof -
  obtain L' op c where L: "L = L' @ [(op, c)]" using assms by (cases L rule: rev_cases) auto
  have "length pre + length L - 1 = length (pre @ blk n L' (Some (n + length L')))" by (simp add: L)
  then show ?thesis unfolding L blk_snoc by (simp add: nth_append list_update_append)
qed

lemma lin_blk:
  assumes "same_on G (pre @ blk (length pre) L nx) (length pre) (length pre + length L)" and "L \<noteq> []"
    and "\<forall>(op, c) \<in> set L. op \<noteq> AIRY_RE_I_SPLIT \<and> op \<noteq> AIRY_RE_I_MATCH"
  shows "lin G (Some (length pre)) L nx"
  using assms
proof (induction L arbitrary: pre)
  case (Cons a L)
  obtain op c where a: "a = (op, c)" by (cases a)
  let ?ip = "\<lparr>i_op = op, i_c = c, i_a = (if L = [] then nx else Some (Suc (length pre))), i_b = None\<rparr>"
  have x: "length pre < length G" "G ! length pre = ?ip"
    using Cons.prems(1) by (auto simp: same_on_def a)
  show ?case
  proof (cases "L = []")
    case True
    then show ?thesis using x Cons.prems(3) a by simp
  next
    case False
    have "same_on G ((pre @ [?ip]) @ blk (length (pre @ [?ip])) L nx) (length (pre @ [?ip])) (length (pre @ [?ip]) + length L)"
      using same_on_sub [OF Cons.prems(1), of "Suc (length pre)"] False by (simp add: a)
    from Cons.IH [OF this False] Cons.prems(3) have "lin G (Some (Suc (length pre))) L nx" by simp
    then show ?thesis using x Cons.prems(3) a False by simp
  qed
qed simp

lemma lin_ops: "lin G pc L nx \<Longrightarrow> \<forall>(op, c) \<in> set L. op \<noteq> AIRY_RE_I_SPLIT \<and> op \<noteq> AIRY_RE_I_MATCH"
proof (induction L arbitrary: pc)
  case (Cons a L)
  then show ?case by (cases a) (auto split: option.splits)
qed simp

lemma re_tail_blk:
  "L \<noteq> [] \<Longrightarrow> re_tail (pre @ blk (length pre) L None) (length pre) = Some (length pre + length L - 1)"
proof (induction L arbitrary: pre)
  case (Cons a L)
  obtain op c where a: "a = (op, c)" by (cases a)
  show ?case
  proof (cases "L = []")
    case True
    then show ?thesis by (subst re_tail.simps) (simp add: a)
  next
    case False
    let ?ip = "\<lparr>i_op = op, i_c = c, i_a = Some (Suc (length pre)), i_b = None\<rparr>"
    have "re_tail ((pre @ [?ip]) @ blk (length (pre @ [?ip])) L None) (length (pre @ [?ip])) =
        Some (length (pre @ [?ip]) + length L - 1)"
      by (rule Cons.IH [OF False])
    then show ?thesis using False by (subst re_tail.simps) (simp add: a)
  qed
qed simp

lemma chain_tail_blk:
  assumes "co_all co = pre @ blk (length pre) L None" and "L \<noteq> []"
  shows "airy_re_chain_tail co (length pre) nx = Some (co\<lparr>co_all := pre @ blk (length pre) L nx\<rparr>)"
  using re_tail_blk [OF assms(2), of pre] blk_last [OF assms(2), of pre "length pre" None nx] assms(1)
  by (simp add: airy_re_chain_tail_def co_upd_def)

lemma clone_loop_ok:
  assumes "lin base it L None" and "co_all co = base @ blk (length base) D None"
    and "head = (if D = [] then None else Some (length base))"
    and "tail = (if D = [] then None else Some (length base + length D - 1))"
    and "re_clone_loop co it head tail = (Some cp, co')"
  shows "cp = length base \<and> co_all co' = base @ blk (length base) (D @ L) None \<and> co_tables co' = co_tables co \<and> D @ L \<noteq> []"
  using assms
proof (induction L arbitrary: it D co head tail)
  case Nil
  then show ?case by (auto simp: re_clone_loop.simps split: if_splits)
next
  case (Cons a L)
  obtain op c where a: "a = (op, c)" by (cases a)
  from Cons.prems(1) obtain x where x: "it = Some x" "x < length base" "i_op (base ! x) = op" "i_c (base ! x) = c"
    "lin base (i_a (base ! x)) L None"
    by (auto simp: a split: option.splits)
  let ?n = "length base"
  have bx: "co_all co ! x = base ! x" using x(2) Cons.prems(2) by (simp add: nth_append)
  obtain cp1 co1 where new: "airy_re_inst_new co op = (Some cp1, co1)"
    using Cons.prems(5) x bx by (subst (asm) re_clone_loop.simps) (auto split: prod.splits option.splits)
  note n1 = inst_new_Some [OF new]
  let ?new = "\<lparr>i_op = op, i_c = c, i_a = None, i_b = None\<rparr>"
  define co2 where "co2 = co_upd co1 cp1 (\<lambda>ip. ip\<lparr>i_c := i_c (co_all co1 ! x)\<rparr>)"
  have c1: "i_c (co_all co1 ! x) = c" using n1 x Cons.prems(2) by (simp add: nth_append)
  have all2: "co_all co2 = base @ blk ?n D None @ [?new]" "co_tables co2 = co_tables co"
    unfolding co2_def c1 using n1 Cons.prems(2) upd_last [of co1 "co_all co"] by simp_all
  define co3 where "co3 = (case tail of Some t \<Rightarrow> co_upd co2 t (\<lambda>ip. ip\<lparr>i_a := Some cp1\<rparr>) | None \<Rightarrow> co2)"
  have cp1: "cp1 = ?n + length D" using n1 Cons.prems(2) by simp
  have all3: "co_all co3 = base @ blk ?n (D @ [(op, c)]) None" "co_tables co3 = co_tables co"
  proof -
    show "co_tables co3 = co_tables co" using all2 by (auto simp: co3_def co_upd_def split: option.split)
    show "co_all co3 = base @ blk ?n (D @ [(op, c)]) None"
    proof (cases "D = []")
      case True
      then show ?thesis using all2 Cons.prems(4) by (simp add: co3_def)
    next
      case False
      let ?t = "?n + length D - 1"
      have lt: "?t < length (base @ blk ?n D None)" using False by simp
      have "co_all co3 = ((base @ blk ?n D None) @ [?new])[?t := (((base @ blk ?n D None) @ [?new]) ! ?t)\<lparr>i_a := Some cp1\<rparr>]"
        using False Cons.prems(4) all2 by (simp add: co3_def co_upd_def)
      also have "\<dots> = (base @ blk ?n D (Some cp1)) @ [?new]"
        using lt blk_last [OF False, of base ?n None "Some cp1"]
        by (simp only: list_update_append1 nth_append if_True)
      finally show ?thesis by (simp add: blk_snoc cp1)
    qed
  qed
  have ax: "i_a (co_all co3 ! x) = i_a (base ! x)" using all3 x(2) by (simp add: nth_append)
  have "re_clone_loop co it head tail =
      re_clone_loop co3 (i_a (co_all co3 ! x)) (case tail of Some t \<Rightarrow> head | None \<Rightarrow> Some cp1) (Some cp1)"
    by (subst re_clone_loop.simps) (simp add: x(1,3) bx new co3_def [unfolded co2_def] Let_def)
  then have "re_clone_loop co3 (i_a (base ! x)) (Some ?n) (Some cp1) = (Some cp, co')"
    using Cons.prems(3,4,5) cp1 ax by (simp split: if_splits)
  from Cons.IH [OF x(5) all3(1) _ _ this] show ?case using all3(2) cp1 a by auto
qed

lemma clone_linear_ok:
  assumes "lin (co_all co) (Some body) L None" and "airy_re_clone_linear co body = (Some cp, co1)"
  shows "cp = length (co_all co) \<and> co_all co1 = co_all co @ blk (length (co_all co)) L None \<and>
         co_tables co1 = co_tables co \<and> L \<noteq> []"
  using clone_loop_ok [of "co_all co" "Some body" L co "[]" None None cp co1] assms
  by (simp add: airy_re_clone_linear_def)

lemma lin_append: "lin G pc L nx \<Longrightarrow> lin (G @ H) pc L nx"
proof (induction L arbitrary: pc)
  case (Cons a L)
  then show ?case by (cases a) (auto simp: nth_append split: option.splits)
qed simp

lemma blk_ok:
  assumes "\<forall>(op, c) \<in> set L. op \<noteq> AIRY_RE_I_SPLIT \<and> op \<noteq> AIRY_RE_I_MATCH \<and> save_ok op c"
    and "lo \<le> n" and "n + length L \<le> hi" and "ptr_ok lo hi after nx"
  shows "\<forall>ip \<in> set (blk n L nx). inst_ok lo hi after A ip"
  using assms
proof (induction n L nx rule: blk.induct)
  case (2 n op c L nx)
  have "ptr_ok lo hi after (Some (Suc n))" if "L \<noteq> []" using 2 that by (cases L) (auto simp: ptr_ok_def)
  then show ?case using 2 by (auto simp: inst_ok_def) (auto simp: ptr_ok_def)
qed simp

lemma blk_ends:
  assumes "same_on G (pre @ blk (length pre) L nx) (length pre) (length pre + length L)" and "ends G nx"
  shows "\<forall>x. length pre \<le> x \<and> x < length pre + length L \<longrightarrow> ends G (Some x)"
  using assms
proof (induction L arbitrary: pre)
  case (Cons a L)
  obtain op c where a: "a = (op, c)" by (cases a)
  let ?ip = "\<lparr>i_op = op, i_c = c, i_a = (if L = [] then nx else Some (Suc (length pre))), i_b = None\<rparr>"
  have p: "G ! length pre = ?ip" using Cons.prems(1) by (auto simp: same_on_def a)
  have "same_on G ((pre @ [?ip]) @ blk (length (pre @ [?ip])) L nx) (length (pre @ [?ip])) (length (pre @ [?ip]) + length L)"
    using same_on_sub [OF Cons.prems(1), of "Suc (length pre)"] by (cases "L = []") (auto simp: a)
  from Cons.IH [OF this Cons.prems(2)]
  have IH: "ends G (Some x)" if "Suc (length pre) \<le> x" "x < Suc (length pre + length L)" for x using that by simp
  have "ends G (i_a (G ! length pre))" using p IH [of "Suc (length pre)"] Cons.prems(2) by (cases L) auto
  then have "ends G (Some (length pre))" by (rule ends_step)
  then show ?case using IH by (metis Suc_leI add_Suc_right le_neq_implies_less length_Cons)
qed auto

lemma good_lin:
  assumes "lin G e L after" and "\<And>i j. R i j = (run_ops T s L i = Some j)"
  shows "good G T s e R C 0 after"
proof (rule goodI)
  fix F i show "accepts G T s F e i = (\<exists>j. R i j \<and> accepts G T s F after j)"
    using lin_accepts_iff [OF assms(1), of T s F i] assms(2) by (auto split: option.split)
next
  fix K i assume "\<forall>i \<le> length s. deep_ok G T s after i K" "i \<le> length s"
  then show "deep_ok G T s e i (K + 0)"
    using lin_deep_ok [OF assms(1), of T s i K] run_ops_bounds by (metis add_0_right)
qed

text \<open>The setting of a repeat: \<open>L\<close> are the operations of the straight body, \<open>R\<close> what they match.\<close>

definition body_ops :: "(re_tbl list \<Rightarrow> bool) \<Rightarrow> (re_op \<times> nat) list \<Rightarrow> (cstr \<Rightarrow> nat \<Rightarrow> nat \<Rightarrow> bool) \<Rightarrow> bool" where
  "body_ops Q L R =
     (L \<noteq> [] \<and> (\<forall>(op, c) \<in> set L. op \<noteq> AIRY_RE_I_SPLIT \<and> op \<noteq> AIRY_RE_I_MATCH \<and> save_ok op c) \<and>
      (\<forall>T s i j. Q T \<longrightarrow> R s i j = (run_ops T s L i = Some j)))"

lemma copy_under:
  assumes b: "body_ops Q L R" and all: "co_all co' = co_all co @ blk (length (co_all co)) L nx"
    and tb: "co_tables co' = co_tables co"
  shows "compiled_under Q co co' (Some (length (co_all co))) nx R C (\<lambda>n. 0) A"
proof -
  let ?n = "length (co_all co)"
  have len: "length (co_all co') = ?n + length L" "0 < length L" using b by (auto simp: all body_ops_def)
  have ops: "\<forall>(op, c) \<in> set L. op \<noteq> AIRY_RE_I_SPLIT \<and> op \<noteq> AIRY_RE_I_MATCH" "L \<noteq> []"
    "\<forall>(op, c) \<in> set L. op \<noteq> AIRY_RE_I_SPLIT \<and> op \<noteq> AIRY_RE_I_MATCH \<and> save_ok op c"
    using b by (auto simp: body_ops_def)
  have "\<forall>ip \<in> set (blk ?n L nx). inst_ok ?n (?n + length L) nx A ip"
    by (rule blk_ok [OF ops(3)]) (simp_all add: ptr_ok_def)
  moreover have "(\<forall>s. good G T s (Some ?n) (R s) C 0 nx) \<and>
      (ends G nx \<longrightarrow> ends G (Some ?n) \<and> (\<forall>x. ?n \<le> x \<and> x < ?n + length L \<longrightarrow> ends G (Some x)))"
    if G: "same_on G (co_all co') ?n (?n + length L)" and Q: "Q T" for G T
  proof -
    have "lin G (Some ?n) L nx" using lin_blk [OF _ ops(2,1), of G "co_all co" nx] G all by simp
    then have "good G T s (Some ?n) (R s) C 0 nx" for s
      using b Q by (intro good_lin) (auto simp: body_ops_def)
    then show ?thesis using blk_ends [of G "co_all co" L nx] G all len(2) by auto
  qed
  ultimately show ?thesis unfolding compiled_under_def len(1) using len all tb by auto
qed

text \<open>A SPLIT before a copy: the two successors are the copy and \<open>seq\<close> in either order.\<close>

definition split_inst :: "bool \<Rightarrow> nat option \<Rightarrow> nat option \<Rightarrow> re_inst" where
  "split_inst greedy cp seq =
     (if greedy then \<lparr>i_op = AIRY_RE_I_SPLIT, i_c = 0, i_a = cp, i_b = seq\<rparr>
      else \<lparr>i_op = AIRY_RE_I_SPLIT, i_c = 0, i_a = seq, i_b = cp\<rparr>)"

lemma split_copy:
  assumes b: "body_ops Q L R" and lin: "lin (co_all co) (Some body) L None"
    and 1: "airy_re_inst_new co AIRY_RE_I_SPLIT = (Some sp, co1)"
    and 2: "airy_re_clone_linear co1 body = (Some cp, co2)"
  shows "sp = length (co_all co)"
    and "airy_re_chain_tail (re_set_split co2 sp greedy (Some cp) seq) cp nx =
           Some (co2\<lparr>co_all := co_all co @ split_inst greedy (Some (Suc sp)) seq # blk (Suc sp) L nx\<rparr>)"
    and "co_tables co2 = co_tables co"
proof -
  note n1 = inst_new_Some [OF 1]
  have "lin (co_all co1) (Some body) L None" using n1 lin_append [OF lin] by simp
  note n2 = clone_linear_ok [OF this 2]
  show sp: "sp = length (co_all co)" "co_tables co2 = co_tables co" using n1 n2 by simp_all
  let ?pre = "co_all co @ [split_inst greedy (Some (Suc sp)) seq]"
  let ?co = "re_set_split co2 sp greedy (Some cp) seq"
  have "co_all ?co = ?pre @ blk (length ?pre) L None"
    using n1 n2 by (simp add: re_set_split_def co_upd_def split_inst_def)
  then have "airy_re_chain_tail ?co (length ?pre) nx = Some (?co\<lparr>co_all := ?pre @ blk (length ?pre) L nx\<rparr>)"
    using chain_tail_blk n2 by blast
  then show "airy_re_chain_tail ?co cp nx =
      Some (co2\<lparr>co_all := co_all co @ split_inst greedy (Some (Suc sp)) seq # blk (Suc sp) L nx\<rparr>)"
    using n1 n2 by (simp add: re_set_split_def co_upd_def)
qed

lemma split_blk_facts:
  assumes b: "body_ops Q L R"
    and all: "co_all co' = co_all co @ split_inst greedy (Some (Suc (length (co_all co)))) seq # blk (Suc (length (co_all co))) L nx"
    and G: "same_on G (co_all co') (length (co_all co)) (length (co_all co'))" and Q: "Q T"
  shows "i_op (G ! length (co_all co)) = AIRY_RE_I_SPLIT"
    and "{i_a (G ! length (co_all co)), i_b (G ! length (co_all co))} = {Some (Suc (length (co_all co))), seq}"
    and "lin G (Some (Suc (length (co_all co)))) L nx"
    and "good G T s (Some (Suc (length (co_all co)))) (R s) C 0 nx"
    and "ends G nx \<Longrightarrow> \<forall>x. length (co_all co) \<le> x \<and> x < length (co_all co') \<longrightarrow> ends G (Some x)"
proof -
  let ?n = "length (co_all co)" and ?sp = "split_inst greedy (Some (Suc (length (co_all co)))) seq"
  have ops: "\<forall>(op, c) \<in> set L. op \<noteq> AIRY_RE_I_SPLIT \<and> op \<noteq> AIRY_RE_I_MATCH" "L \<noteq> []"
    using b by (auto simp: body_ops_def)
  have n: "G ! ?n = ?sp" using G by (auto simp: same_on_def all)
  show op: "i_op (G ! ?n) = AIRY_RE_I_SPLIT" "{i_a (G ! ?n), i_b (G ! ?n)} = {Some (Suc ?n), seq}"
    by (auto simp: n split_inst_def)
  let ?pre = "co_all co @ [?sp]"
  have s: "same_on G (?pre @ blk (length ?pre) L nx) (length ?pre) (length ?pre + length L)"
    using same_on_sub [OF G, of "Suc ?n" "Suc ?n + length L"] by (simp add: all)
  show l: "lin G (Some (Suc ?n)) L nx" using lin_blk [OF s ops(2,1)] by simp
  show "good G T s (Some (Suc ?n)) (R s) C 0 nx"
    using b Q by (intro good_lin [OF l]) (auto simp: body_ops_def)
  show "\<forall>x. ?n \<le> x \<and> x < length (co_all co') \<longrightarrow> ends G (Some x)" if "ends G nx"
  proof -
    have "ends G (Some ?n)" using op by (intro ends_Split)
    moreover have "\<forall>x. Suc ?n \<le> x \<and> x < Suc ?n + length L \<longrightarrow> ends G (Some x)"
      using blk_ends [OF s that] by simp
    moreover have "x = ?n \<or> Suc ?n \<le> x" if "?n \<le> x" for x using that by linarith
    moreover have "length (co_all co') = Suc ?n + length L" by (simp add: all)
    ultimately show ?thesis by metis
  qed
qed

lemma split_blk_ok:
  assumes b: "body_ops Q L R" and nx: "nx = seq \<or> nx = Some n" and n: "n = length (co_all co)"
    and all: "co_all co' = co_all co @ split_inst greedy (Some (Suc n)) seq # blk (Suc n) L nx"
  shows "\<forall>ip \<in> set (split_inst greedy (Some (Suc n)) seq # blk (Suc n) L nx). inst_ok n (length (co_all co')) seq False ip"
proof -
  have ops: "\<forall>(op, c) \<in> set L. op \<noteq> AIRY_RE_I_SPLIT \<and> op \<noteq> AIRY_RE_I_MATCH \<and> save_ok op c" "0 < length L"
    using b by (auto simp: body_ops_def)
  have len: "length (co_all co') = Suc n + length L" by (simp add: all n)
  have "\<forall>ip \<in> set (blk (Suc n) L nx). inst_ok n (Suc n + length L) seq False ip"
    by (rule blk_ok [OF ops(1)]) (use nx in \<open>auto simp: ptr_ok_def\<close>)
  moreover have "inst_ok n (Suc n + length L) seq False (split_inst greedy (Some (Suc n)) seq)"
    using ops(2) by (auto simp: inst_ok_def ptr_ok_def save_ok_def split_inst_def)
  ultimately show ?thesis by (simp add: len)
qed

lemma optional_under:
  assumes b: "body_ops Q L R" and n: "n = length (co_all co)"
    and all: "co_all co' = co_all co @ split_inst greedy (Some (Suc n)) seq # blk (Suc n) L seq"
    and tb: "co_tables co' = co_tables co"
  shows "compiled_under Q co co' (Some n) seq (\<lambda>s i j. j = i \<or> R s i j) True (\<lambda>n. 1) False"
proof -
  have "good G T s (Some n) (\<lambda>i j. j = i \<or> R s i j) True 1 seq \<and>
      (ends G seq \<longrightarrow> ends G (Some n) \<and> (\<forall>x. n \<le> x \<and> x < length (co_all co') \<longrightarrow> ends G (Some x)))"
    if G: "same_on G (co_all co') n (length (co_all co'))" and Q: "Q T" for G T s
  proof -
    note f = split_blk_facts [OF b all [unfolded n] G [unfolded n] Q, folded n]
    have 1: "good G T s (Some (Suc n)) (R s) True 0 seq" by (rule f(4))
    have 2: "good G T s seq (\<lambda>i j. j = i) True 0 seq" by (rule good_refl)
    have "good G T s (Some n) (\<lambda>i j. j = i \<or> R s i j) True 1 seq"
    proof (cases "i_a (G ! n) = seq")
      case True
      then have "i_b (G ! n) = Some (Suc n)" using f(2) by (auto simp: doubleton_eq_iff)
      then show ?thesis using good_alt [of G n T s "\<lambda>i j. j = i" True 0 seq "R s" True 0] f(1) 1 2 True by simp
    next
      case False
      then have "i_a (G ! n) = Some (Suc n)" "i_b (G ! n) = seq" using f(2) by (auto simp: doubleton_eq_iff)
      then show ?thesis using good_alt [of G n T s "R s" True 0 seq "\<lambda>i j. j = i" True 0] f(1) 1 2 by (simp add: disj_commute)
    qed
    then show ?thesis using f(5) all n by auto
  qed
  then show ?thesis
    unfolding compiled_under_def using split_blk_ok [OF b _ n all] all tb n by auto
qed

lemma loop_accn:
  assumes op: "i_op (G ! n) = AIRY_RE_I_SPLIT" and ab: "{i_a (G ! n), i_b (G ! n)} = {Some (Suc n), seq}"
    and lin: "lin G (Some (Suc n)) L (Some n)"
  shows "accn G T s F m (Some n) i \<Longrightarrow> \<exists>j. (\<lambda>p q. run_ops T s L p = Some q)\<^sup>*\<^sup>* i j \<and> accepts G T s F seq j"
proof (induction m arbitrary: i)
  case (Suc m)
  then have "accn G T s F m (i_a (G ! n)) i \<or> accn G T s F m (i_b (G ! n)) i" using op by simp
  then have "accn G T s F m (Some (Suc n)) i \<or> accn G T s F m seq i" using ab by (auto simp: doubleton_eq_iff)
  then show ?case
  proof
    assume "accn G T s F m (Some (Suc n)) i"
    then obtain k where k: "run_ops T s L i = Some k" "accn G T s F m (Some n) k" using lin_accn [OF lin] by blast
    with Suc.IH show ?thesis by (meson converse_rtranclp_into_rtranclp)
  next
    assume "accn G T s F m seq i"
    then show ?thesis unfolding accepts_def by blast
  qed
qed simp

lemma loop_dk:
  assumes op: "i_op (G ! n) = AIRY_RE_I_SPLIT" and ab: "{i_a (G ! n), i_b (G ! n)} = {Some (Suc n), seq}"
    and lin: "lin G (Some (Suc n)) L (Some n)" and adv: "\<And>i j. run_ops T s L i = Some j \<Longrightarrow> i < j"
    and seq: "\<forall>i \<le> length s. deep_ok G T s seq i K"
  shows "i \<le> length s \<Longrightarrow> dk G T s m (Some n) i (K + 1 + (length s - i))"
proof (induction m arbitrary: i)
  case (Suc m)
  have "dk G T s m (Some (Suc n)) i (K + (length s - i))"
  proof (rule lin_dk [OF lin])
    fix j assume j: "run_ops T s L i = Some j"
    then have "i < j" "j \<le> length s" using adv run_ops_bounds Suc.prems by blast+
    then show "dk G T s m (Some n) j (K + (length s - i))"
      using dk_antimono [OF Suc.IH [of j], of m] by simp
  qed
  moreover have "dk G T s m seq i (K + (length s - i))"
    using seq Suc.prems deep_ok_mono [of G T s seq i K] unfolding deep_ok_def by simp
  ultimately have "dk G T s m (i_a (G ! n)) i (K + (length s - i)) \<and> dk G T s m (i_b (G ! n)) i (K + (length s - i))"
    using ab by (auto simp: doubleton_eq_iff)
  then show ?case using op by simp
qed simp

lemma good_loop:
  assumes op: "i_op (G ! n) = AIRY_RE_I_SPLIT" and ab: "{i_a (G ! n), i_b (G ! n)} = {Some (Suc n), seq}"
    and lin: "lin G (Some (Suc n)) L (Some n)" and R: "\<And>i j. R i j = (run_ops T s L i = Some j)"
  shows "good G T s (Some n) R\<^sup>*\<^sup>* (\<forall>i j. R i j \<longrightarrow> i < j) (length s + 1) seq"
proof (rule goodI)
  fix F i
  have RR: "R = (\<lambda>p q. run_ops T s L p = Some q)" using R by (simp add: fun_eq_iff)
  have step: "accepts G T s F (Some n) i = (accepts G T s F (Some (Suc n)) i \<or> accepts G T s F seq i)" for i
    using accepts_split [OF op, of T s F i] ab by (auto simp: doubleton_eq_iff)
  have "accepts G T s F (Some n) i" if "R\<^sup>*\<^sup>* i j" "accepts G T s F seq j" for j
    using that
  proof (induction rule: converse_rtranclp_induct)
    case (step p q)
    then have "accepts G T s F (Some (Suc n)) p" using lin_accepts_iff [OF lin] R by simp
    then show ?case using \<open>\<And>i. accepts G T s F (Some n) i = _\<close> by simp
  qed (simp add: step)
  then show "accepts G T s F (Some n) i = (\<exists>j. R\<^sup>*\<^sup>* i j \<and> accepts G T s F seq j)"
    using loop_accn [OF op ab lin, of T s F _ i] unfolding RR accepts_def by blast
next
  fix K i assume "\<forall>i j. R i j \<longrightarrow> i < j" "\<forall>i \<le> length s. deep_ok G T s seq i K" "i \<le> length s"
  then have "dk G T s m (Some n) i (K + 1 + (length s - i))" for m using loop_dk [OF op ab lin] R by blast
  then have "deep_ok G T s (Some n) i (K + 1 + (length s - i))" by (simp add: deep_ok_def)
  then show "deep_ok G T s (Some n) i (K + (length s + 1))" by (rule deep_ok_mono) simp
qed

lemma loop_under:
  assumes b: "body_ops Q L R" and n: "n = length (co_all co)"
    and all: "co_all co' = co_all co @ split_inst greedy (Some (Suc n)) seq # blk (Suc n) L (Some n)"
    and tb: "co_tables co' = co_tables co"
  shows "compiled_under Q co co' (Some n) seq (\<lambda>s. (R s)\<^sup>*\<^sup>*) (\<forall>s i j. R s i j \<longrightarrow> i < j) (\<lambda>n. n + 1) False"
proof -
  have "good G T s (Some n) (R s)\<^sup>*\<^sup>* (\<forall>s i j. R s i j \<longrightarrow> i < j) (length s + 1) seq \<and>
      ends G (Some n) \<and> (\<forall>x. n \<le> x \<and> x < length (co_all co') \<longrightarrow> ends G (Some x))"
    if G: "same_on G (co_all co') n (length (co_all co'))" and Q: "Q T" for G T s
  proof -
    note f = split_blk_facts [OF b all [unfolded n] G [unfolded n] Q, folded n]
    have "R s i j = (run_ops T s L i = Some j)" for i j using b Q by (auto simp: body_ops_def)
    from good_loop [OF f(1,2,3), of "R s", OF this]
    have "good G T s (Some n) (R s)\<^sup>*\<^sup>* (\<forall>s i j. R s i j \<longrightarrow> i < j) (length s + 1) seq"
      unfolding good_def by blast
    then show ?thesis using f(5) ends_Split [of G n] f(1) by auto
  qed
  then show ?thesis
    unfolding compiled_under_def using split_blk_ok [OF b _ n all] all tb n by auto
qed

subsection \<open>Repeats\<close>

lemma optional_step_rel: "(\<exists>p. (\<exists>m\<le>k. (R ^^ m) i p) \<and> (j = p \<or> R p j)) = (\<exists>m\<le>Suc k. (R ^^ m) i j)"
proof
  assume "\<exists>p. (\<exists>m\<le>k. (R ^^ m) i p) \<and> (j = p \<or> R p j)"
  then obtain p m where "m \<le> k" "(R ^^ m) i p" "j = p \<or> R p j" by blast
  then have "(R ^^ m) i j \<and> m \<le> Suc k \<or> (R ^^ Suc m) i j \<and> Suc m \<le> Suc k" by auto
  then show "\<exists>m\<le>Suc k. (R ^^ m) i j" by blast
next
  assume "\<exists>m\<le>Suc k. (R ^^ m) i j"
  then obtain m where m: "m \<le> Suc k" "(R ^^ m) i j" by blast
  show "\<exists>p. (\<exists>m\<le>k. (R ^^ m) i p) \<and> (j = p \<or> R p j)"
  proof (cases "m \<le> k")
    case False
    then have "m = Suc k" using m by simp
    then obtain p where "(R ^^ k) i p" "R p j" using m by auto
    then show ?thesis by blast
  qed (use m in blast)
qed

lemma optional_iter:
  assumes b: "body_ops Q L R" and "lin (co_all co) (Some body) L None"
  shows "\<exists>r co'. re_optional k co body greedy seq = Some (r, co') \<and>
    (\<forall>e. r = Some e \<longrightarrow> compiled_under Q co co' e seq (\<lambda>s i j. \<exists>m\<le>k. (R s ^^ m) i j) True (\<lambda>n. k) False)"
  using assms(2)
proof (induction k arbitrary: co seq)
  case 0
  then show ?case using compiled_under_refl by (auto simp: eq_commute)
next
  case (Suc k)
  show ?case
  proof (cases "airy_re_inst_new co AIRY_RE_I_SPLIT")
    case (Pair x co1)
    show ?thesis
    proof (cases "\<exists>sp cp co2. x = Some sp \<and> airy_re_clone_linear co1 body = (Some cp, co2)")
      case False
      then show ?thesis using Pair by (cases x; cases "airy_re_clone_linear co1 body"; cases "fst (airy_re_clone_linear co1 body)") auto
    next
      case True
      then obtain sp cp co2 where new: "airy_re_inst_new co AIRY_RE_I_SPLIT = (Some sp, co1)"
        and cl: "airy_re_clone_linear co1 body = (Some cp, co2)" using Pair by auto
      note f = split_copy [OF b Suc.prems new cl]
      define co4 where "co4 = co2\<lparr>co_all := co_all co @ split_inst greedy (Some (Suc sp)) seq # blk (Suc sp) L seq\<rparr>"
      have 1: "compiled_under Q co co4 (Some sp) seq (\<lambda>s i j. j = i \<or> R s i j) True (\<lambda>n. 1) False"
        by (rule optional_under [OF b f(1)]) (simp_all add: co4_def f(3))
      have "lin (co_all co4) (Some body) L None" using lin_append [OF Suc.prems] by (simp add: co4_def)
      from Suc.IH [OF this, of "Some sp"] obtain r co' where r: "re_optional k co4 body greedy (Some sp) = Some (r, co')"
        and 2: "\<And>e. r = Some e \<Longrightarrow> compiled_under Q co4 co' e (Some sp) (\<lambda>s i j. \<exists>m\<le>k. (R s ^^ m) i j) True (\<lambda>n. k) False"
        by blast
      have "compiled_under Q co co' e seq (\<lambda>s i j. \<exists>m\<le>Suc k. (R s ^^ m) i j) True (\<lambda>n. Suc k) False" if "r = Some e" for e
        by (rule compiled_under_cong [OF compiled_under_trans [OF 1 2 [OF that]]]) (simp_all add: optional_step_rel)
      then show ?thesis using new cl f(2) r by (simp add: co4_def)
    qed
  qed
qed

lemma copy_ok:
  assumes b: "body_ops Q L R" and lin: "lin (co_all co) (Some body) L None"
  shows "\<exists>r co'. re_copy co body nx = Some (r, co') \<and> (\<forall>e. r = Some e \<longrightarrow>
    compiled_under Q co co' (Some e) nx R True (\<lambda>n. 0) False \<and> lin (co_all co') (Some body) L None)"
proof (cases "airy_re_clone_linear co body")
  case (Pair x co1)
  show ?thesis
  proof (cases x)
    case (Some cp)
    note f = clone_linear_ok [OF lin Pair [unfolded Some]]
    let ?co' = "co1\<lparr>co_all := co_all co @ blk (length (co_all co)) L nx\<rparr>"
    have "re_copy co body nx = Some (Some cp, ?co')"
      using f chain_tail_blk [of co1 "co_all co" L nx] Pair Some by (simp add: re_copy_def)
    then show ?thesis using f copy_under [OF b, of ?co' co nx True False] lin_append [OF lin] by auto
  qed (use Pair in \<open>simp add: re_copy_def\<close>)
qed

lemma mandatory_iter:
  assumes b: "body_ops Q L R" and "lin (co_all co) (Some body) L None"
  shows "\<exists>r co'. re_mandatory k co body seq = Some (r, co') \<and>
    (\<forall>e. r = Some e \<longrightarrow> compiled_under Q co co' e seq (\<lambda>s i j. (R s ^^ k) i j) True (\<lambda>n. 0) False)"
  using assms(2)
proof (induction k arbitrary: co seq)
  case 0
  then show ?case using compiled_under_refl by (auto simp: eq_commute)
next
  case (Suc k)
  obtain r co1 where r: "re_copy co body seq = Some (r, co1)"
    and 1: "\<And>e. r = Some e \<Longrightarrow> compiled_under Q co co1 (Some e) seq R True (\<lambda>n. 0) False \<and> lin (co_all co1) (Some body) L None"
    using copy_ok [OF b Suc.prems] by blast
  show ?case
  proof (cases r)
    case (Some c)
    note 1 = 1 [OF Some]
    obtain r' co' where r': "re_mandatory k co1 body (Some c) = Some (r', co')"
      and 2: "\<And>e. r' = Some e \<Longrightarrow> compiled_under Q co1 co' e (Some c) (\<lambda>s i j. (R s ^^ k) i j) True (\<lambda>n. 0) False"
      using Suc.IH [of co1 "Some c"] 1 by blast
    have "compiled_under Q co co' e seq (\<lambda>s i j. (R s ^^ Suc k) i j) True (\<lambda>n. 0) False" if "r' = Some e" for e
      by (rule compiled_under_cong [OF compiled_under_trans [OF conjunct1 [OF 1] 2 [OF that]]]) (auto simp: relcompp_apply)
    then show ?thesis using r r' Some by simp
  qed (simp add: r)
qed

lemma unbounded_ok:
  assumes b: "body_ops Q L R" and lin: "lin (co_all co) (Some body) L None"
  shows "\<exists>r co'. re_unbounded co body greedy seq = Some (r, co') \<and> (\<forall>e. r = Some e \<longrightarrow>
    compiled_under Q co co' (Some e) seq (\<lambda>s. (R s)\<^sup>*\<^sup>*) (\<forall>s i j. R s i j \<longrightarrow> i < j) (\<lambda>n. n + 1) False)"
proof (cases "\<exists>sp co1 cp co2. airy_re_inst_new co AIRY_RE_I_SPLIT = (Some sp, co1) \<and> airy_re_clone_linear co1 body = (Some cp, co2)")
  case False
  then show ?thesis by (auto simp: re_unbounded_def split: prod.split option.split)
next
  case True
  then obtain sp co1 cp co2 where new: "airy_re_inst_new co AIRY_RE_I_SPLIT = (Some sp, co1)"
    and cl: "airy_re_clone_linear co1 body = (Some cp, co2)" by blast
  note f = split_copy [OF b lin new cl]
  show ?thesis
    using new cl f(2) loop_under [OF b f(1), of "co2\<lparr>co_all := co_all co @ split_inst greedy (Some (Suc sp)) seq # blk (Suc sp) L (Some sp)\<rparr>" greedy seq] f(3)
    by (simp add: re_unbounded_def)
qed

end
