(* ===== verification/Regex_Correct.thy ===== *)
theory Regex_Correct
  imports Regex_Blocks
begin

section \<open>Regular expressions: the compiler is correct\<close>

text \<open>
  By induction over the syntax tree, every program that the compiler returns is a fragment for its
  tree; in particular the compiler always returns.
\<close>

subsection \<open>The test for a straight body\<close>

lemma is_linear_returns:
  assumes "ends G pc" and "\<forall>x. pc = Some x \<longrightarrow> l \<le> x \<and> x < h"
    and ok: "\<forall>x. l \<le> x \<and> x < h \<longrightarrow> inst_ok l h None True (G ! x)" and h: "h \<le> length G"
  shows "\<exists>r. re_is_linear G pc = Some r \<and> (r \<longrightarrow> (\<exists>L. lin G pc L None \<and> (\<forall>(op, c) \<in> set L. save_ok op c)))"
  using assms(1,2)
proof (induction rule: ends.induct)
  case ends_None
  have "re_is_linear G None = Some True" by (subst re_is_linear.simps) simp
  then show ?case by (intro exI [of _ True]) (simp add: exI [of _ "[]"])
next
  case (ends_Split x)
  then have "i_b (G ! x) \<noteq> None" using ok by (auto simp: inst_ok_def)
  then show ?case using re_is_linear.simps [of G "Some x"] by auto
next
  case (ends_step x)
  show ?case
  proof (cases "i_b (G ! x)")
    case None
    have x: "inst_ok l h None True (G ! x)" "x < length G" using ends_step.prems ok h by auto
    then have "\<forall>y. i_a (G ! x) = Some y \<longrightarrow> l \<le> y \<and> y < h" by (auto simp: inst_ok_def ptr_ok_def)
    from ends_step.IH [OF this] obtain r where r: "re_is_linear G (i_a (G ! x)) = Some r"
      "r \<longrightarrow> (\<exists>L. lin G (i_a (G ! x)) L None \<and> (\<forall>(op, c) \<in> set L. save_ok op c))" by blast
    have "lin G (Some x) ((i_op (G ! x), i_c (G ! x)) # L) None \<and>
        (\<forall>(op, c) \<in> set ((i_op (G ! x), i_c (G ! x)) # L). save_ok op c)"
      if "lin G (i_a (G ! x)) L None \<and> (\<forall>(op, c) \<in> set L. save_ok op c)" for L
      using that x None by (auto simp: inst_ok_def)
    moreover have "re_is_linear G (Some x) = Some r" using r re_is_linear.simps [of G "Some x"] None by simp
    ultimately show ?thesis using r(2) by blast
  qed (use re_is_linear.simps [of G "Some x"] in auto)
qed

lemma body_linear:
  assumes c: "compiled co co1 (Some b) None R C c True"
  shows "\<exists>r. re_is_linear (co_all co1) (Some b) = Some r \<and> (r \<longrightarrow> (\<exists>L. lin (co_all co1) (Some b) L None \<and>
    body_ops (\<lambda>T. same_on T (co_tables co1) (length (co_tables co)) (length (co_tables co1))) L R))"
proof -
  let ?G = "co_all co1" and ?l = "length (co_all co)" and ?h = "length (co_all co1)"
  have G: "same_on ?G ?G ?l ?h" by (simp add: same_on_def)
  have b: "?l \<le> b" "b < ?h" using c unfolding compiled_defs by auto
  obtain new where "?G = co_all co @ new" "\<forall>ip \<in> set new. inst_ok ?l ?h None True ip"
    using c unfolding compiled_defs by auto
  then have "\<forall>x. ?l \<le> x \<and> x < ?h \<longrightarrow> inst_ok ?l ?h None True (?G ! x)" by (auto simp: nth_append)
  moreover have "ends ?G (Some b)"
  proof -
    have "same_on (co_tables co1) (co_tables co1) (length (co_tables co)) (length (co_tables co1))" by (simp add: same_on_def)
    then show ?thesis using c G ends_None unfolding compiled_defs by blast
  qed
  ultimately obtain r where r: "re_is_linear ?G (Some b) = Some r" "r \<longrightarrow> (\<exists>L. lin ?G (Some b) L None \<and> (\<forall>(op, c) \<in> set L. save_ok op c))"
    using is_linear_returns [of ?G "Some b" ?l ?h] b by auto
  have "body_ops (\<lambda>T. same_on T (co_tables co1) (length (co_tables co)) (length (co_tables co1))) L R"
    if L: "lin ?G (Some b) L None" and sv: "\<forall>(op, c) \<in> set L. save_ok op c" for L
  proof -
    have "R s i j = (run_ops T s L i = Some j)"
      if T: "same_on T (co_tables co1) (length (co_tables co)) (length (co_tables co1))" for T s i j
    proof -
      have "good ?G T s (Some b) (R s) C (c (length s)) None" using c G T unfolding compiled_defs by blast
      then have "accepts ?G T s (\<lambda>x. x = j) (Some b) i = R s i j" by (auto simp: good_def)
      then show ?thesis using lin_accepts_iff [OF L, of T s "\<lambda>x. x = j" i] by (auto split: option.splits)
    qed
    moreover have "L \<noteq> []" using L by auto
    ultimately show ?thesis using lin_ops [OF L] sv by (auto simp: body_ops_def)
  qed
  then show ?thesis using r by blast
qed

subsection \<open>Repeats\<close>

lemma join_body:
  assumes 1: "compiled co co1 (Some b) None R0 C0 c0 True"
    and 2: "compiled_under (\<lambda>T. same_on T (co_tables co1) (length (co_tables co)) (length (co_tables co1))) co1 co2 e after R C c False"
  shows "compiled co co2 e after R C c False"
proof -
  let ?l = "length (co_all co)" and ?m = "length (co_all co1)" and ?h = "length (co_all co2)"
  let ?tl = "length (co_tables co)" and ?tm = "length (co_tables co1)" and ?th = "length (co_tables co2)"
  obtain is1 tb1 where g1: "co_all co1 = co_all co @ is1" "co_tables co1 = co_tables co @ tb1"
    and ok1: "\<forall>ip \<in> set is1. inst_ok ?l ?m None True ip" using 1 unfolding compiled_defs by blast
  obtain is2 tb2 where g2: "co_all co2 = co_all co1 @ is2" "co_tables co2 = co_tables co1 @ tb2"
    and ok2: "\<forall>ip \<in> set is2. inst_ok ?m ?h after False ip" using 2 unfolding compiled_under_def by blast
  have len: "?l \<le> ?m" "?m \<le> ?h" "?tl \<le> ?tm" "?tm \<le> ?th" using g1 g2 by auto
  have "inst_ok ?l ?h after False ip" if "ip \<in> set is1" for ip
    by (rule inst_ok_mono [OF bspec [OF ok1 that]]) (use len in \<open>simp_all add: ptr_ok_def\<close>)
  moreover have "inst_ok ?l ?h after False ip" if "ip \<in> set is2" for ip
    by (rule inst_ok_mono [OF bspec [OF ok2 that]]) (use len in \<open>simp_all add: ptr_ok_def\<close>)
  ultimately have "\<exists>is tb. co_all co2 = co_all co @ is \<and> co_tables co2 = co_tables co @ tb \<and>
      (\<forall>ip \<in> set is. inst_ok ?l ?h after False ip)"
    using g1 g2 by (intro exI [of _ "is1 @ is2"] exI [of _ "tb1 @ tb2"]) auto
  moreover have "e = after \<or> (\<exists>y. e = Some y \<and> ?l \<le> y \<and> y < ?h)"
    using 2 len unfolding compiled_under_def by auto
  moreover have "(\<forall>s. good G T s e (R s) C (c (length s)) after) \<and>
      (ends G after \<longrightarrow> ends G e \<and> (\<forall>x. ?l \<le> x \<and> x < ?h \<longrightarrow> ends G (Some x)))"
    if G: "same_on G (co_all co2) ?l ?h" and T: "same_on T (co_tables co2) ?tl ?th" for G T
  proof -
    have s1: "same_on G (co_all co1) ?l ?m" "same_on T (co_tables co1) ?tl ?tm"
      using same_on_sub [OF G, of ?l ?m] same_on_sub [OF T, of ?tl ?tm] len g2
        same_on_prefix [of G "co_all co1" is2] same_on_prefix [of T "co_tables co1" tb2] by auto
    then have "\<forall>x. ?l \<le> x \<and> x < ?m \<longrightarrow> ends G (Some x)" using 1 ends_None unfolding compiled_defs by blast
    moreover have "same_on G (co_all co2) ?m ?h" using same_on_sub [OF G, of ?m ?h] len by auto
    then have "(\<forall>s. good G T s e (R s) C (c (length s)) after) \<and>
        (ends G after \<longrightarrow> ends G e \<and> (\<forall>x. ?m \<le> x \<and> x < ?h \<longrightarrow> ends G (Some x)))"
      using 2 s1 unfolding compiled_under_def by blast
    ultimately show ?thesis by (meson not_le)
  qed
  ultimately show ?thesis unfolding compiled_defs by blast
qed

lemma repeat_rel_unbounded:
  "0 \<le> lo \<Longrightarrow> (\<exists>p. (R ^^ nat lo) i p \<and> R\<^sup>*\<^sup>* p j) = (\<exists>k. lo \<le> int k \<and> (R ^^ k) i j)"
proof
  assume lo: "0 \<le> lo" and "\<exists>k. lo \<le> int k \<and> (R ^^ k) i j"
  then obtain k where k: "nat lo \<le> k" "(R ^^ k) i j" by (meson nat_le_iff)
  then have "(R ^^ (nat lo + (k - nat lo))) i j" by simp
  then obtain p where "(R ^^ nat lo) i p" "(R ^^ (k - nat lo)) p j" unfolding relpowp_add by blast
  then show "\<exists>p. (R ^^ nat lo) i p \<and> R\<^sup>*\<^sup>* p j" using relpowp_imp_rtranclp by fast
next
  assume lo: "0 \<le> lo" and "\<exists>p. (R ^^ nat lo) i p \<and> R\<^sup>*\<^sup>* p j"
  then obtain p where p: "(R ^^ nat lo) i p" "R\<^sup>*\<^sup>* p j" by blast
  obtain m where "(R ^^ m) p j" using rtranclp_imp_relpowp [OF p(2)] by blast
  with p(1) have "(R ^^ (nat lo + m)) i j" unfolding relpowp_add by blast
  then show "\<exists>k. lo \<le> int k \<and> (R ^^ k) i j" using lo by (intro exI [of _ "nat lo + m"]) simp
qed

lemma repeat_rel_bounded:
  "0 \<le> lo \<Longrightarrow> lo \<le> hi \<Longrightarrow> (\<exists>p. (R ^^ nat lo) i p \<and> (\<exists>m\<le>nat (hi - lo). (R ^^ m) p j)) =
     (\<exists>k. lo \<le> int k \<and> int k \<le> hi \<and> (R ^^ k) i j)"
proof
  assume lo: "0 \<le> lo" "lo \<le> hi" and "\<exists>k. lo \<le> int k \<and> int k \<le> hi \<and> (R ^^ k) i j"
  then obtain k where k: "nat lo \<le> k" "int k \<le> hi" "(R ^^ k) i j" by (meson nat_le_iff)
  then have "(R ^^ (nat lo + (k - nat lo))) i j" by simp
  then obtain p where "(R ^^ nat lo) i p" "(R ^^ (k - nat lo)) p j" unfolding relpowp_add by blast
  moreover have "k - nat lo \<le> nat (hi - lo)" using k lo by linarith
  ultimately show "\<exists>p. (R ^^ nat lo) i p \<and> (\<exists>m\<le>nat (hi - lo). (R ^^ m) p j)" by blast
next
  assume lo: "0 \<le> lo" "lo \<le> hi" and "\<exists>p. (R ^^ nat lo) i p \<and> (\<exists>m\<le>nat (hi - lo). (R ^^ m) p j)"
  then obtain p m where m: "(R ^^ nat lo) i p" "m \<le> nat (hi - lo)" "(R ^^ m) p j" by blast
  then have "(R ^^ (nat lo + m)) i j" unfolding relpowp_add by blast
  then show "\<exists>k. lo \<le> int k \<and> int k \<le> hi \<and> (R ^^ k) i j" using lo m by (intro exI [of _ "nat lo + m"]) simp
qed

text \<open>The repeats before and after the mandatory copies.\<close>

definition tail_rel :: "int \<Rightarrow> int \<Rightarrow> (nat \<Rightarrow> nat \<Rightarrow> bool) \<Rightarrow> nat \<Rightarrow> nat \<Rightarrow> bool" where
  "tail_rel lo hi R = (if hi < 0 then R\<^sup>*\<^sup>* else (\<lambda>i j. \<exists>m\<le>nat (hi - lo). (R ^^ m) i j))"

lemma repeat_rel:
  "0 \<le> lo \<Longrightarrow> hi < 0 \<or> lo \<le> hi \<Longrightarrow> (\<exists>p. (R ^^ nat lo) i p \<and> tail_rel lo hi R p j) =
     (\<exists>k. lo \<le> int k \<and> (hi < 0 \<or> int k \<le> hi) \<and> (R ^^ k) i j)"
  using repeat_rel_unbounded [of lo R i j] repeat_rel_bounded [of lo hi R i j] by (auto simp: tail_rel_def)

lemma tail_ok:
  assumes b: "body_ops Q L R" and lin: "lin (co_all co) (Some body) L None"
  shows "\<exists>r co'. (if hi < 0 then map_option (\<lambda>(s, c). (map_option Some s, c)) (re_unbounded co body greedy after)
      else re_optional (nat (hi - lo)) co body greedy after) = Some (r, co') \<and>
    (\<forall>e. r = Some e \<longrightarrow> compiled_under Q co co' e after (\<lambda>s. tail_rel lo hi (R s)) (hi < 0 \<longrightarrow> (\<forall>s i j. R s i j \<longrightarrow> i < j))
       (\<lambda>n. if hi < 0 then n + 1 else nat (hi - lo)) False)"
proof (cases "hi < 0")
  case True
  obtain r co' where r: "re_unbounded co body greedy after = Some (r, co')"
    and c: "\<And>e. r = Some e \<Longrightarrow> compiled_under Q co co' (Some e) after (\<lambda>s. (R s)\<^sup>*\<^sup>*) (\<forall>s i j. R s i j \<longrightarrow> i < j) (\<lambda>n. n + 1) False"
    using unbounded_ok [OF b lin] by blast
  have "compiled_under Q co co' e after (\<lambda>s. tail_rel lo hi (R s)) (hi < 0 \<longrightarrow> (\<forall>s i j. R s i j \<longrightarrow> i < j))
       (\<lambda>n. if hi < 0 then n + 1 else nat (hi - lo)) False" if "map_option Some r = Some e" for e
    using c True that by (auto simp: tail_rel_def)
  then show ?thesis using r True by auto
next
  case False
  then have tl: "tail_rel lo hi = (\<lambda>R i j. \<exists>m\<le>nat (hi - lo). (R ^^ m) i j)" by (simp add: tail_rel_def fun_eq_iff)
  show ?thesis using optional_iter [OF b lin, of "nat (hi - lo)" greedy after] False by (simp add: tl)
qed

lemma compile_repeat_ok:
  assumes body: "compiled co co1 (Some b) None R C0 c0 True" and lo: "0 \<le> lo" "hi < 0 \<or> lo \<le> hi"
  shows "\<exists>r co'. re_compile_repeat co1 b lo hi greedy after = Some (r, co') \<and> (r \<noteq> None \<longrightarrow>
    compiled co co' r after (\<lambda>s i j. \<exists>k. lo \<le> int k \<and> (hi < 0 \<or> int k \<le> hi) \<and> (R s ^^ k) i j)
      (hi < 0 \<longrightarrow> (\<forall>s i j. R s i j \<longrightarrow> i < j)) (\<lambda>n. if hi < 0 then n + 1 else nat (hi - lo)) False)"
proof -
  let ?Q = "\<lambda>T. same_on T (co_tables co1) (length (co_tables co)) (length (co_tables co1))"
  obtain lr where lr: "re_is_linear (co_all co1) (Some b) = Some lr"
    and L: "lr \<Longrightarrow> \<exists>L. lin (co_all co1) (Some b) L None \<and> body_ops ?Q L R"
    using body_linear [OF body] by blast
  show ?thesis
  proof (cases lr)
    case True
    then obtain L where lin: "lin (co_all co1) (Some b) L None" and ops: "body_ops ?Q L R" using L by blast
    obtain r co2 where t: "(if hi < 0 then map_option (\<lambda>(s, c). (map_option Some s, c)) (re_unbounded co1 b greedy after)
        else re_optional (nat (hi - lo)) co1 b greedy after) = Some (r, co2)"
      and c2: "\<And>e. r = Some e \<Longrightarrow> compiled_under ?Q co1 co2 e after (\<lambda>s. tail_rel lo hi (R s))
        (hi < 0 \<longrightarrow> (\<forall>s i j. R s i j \<longrightarrow> i < j)) (\<lambda>n. if hi < 0 then n + 1 else nat (hi - lo)) False"
      using tail_ok [OF ops lin] by blast
    show ?thesis
    proof (cases r)
      case (Some e)
      note c2 = c2 [OF Some]
      obtain new where "co_all co2 = co_all co1 @ new" using c2 unfolding compiled_under_def by blast
      then have "lin (co_all co2) (Some b) L None" using lin_append [OF lin] by simp
      from mandatory_iter [OF ops this] obtain r' co3 where m: "re_mandatory (nat lo) co2 b e = Some (r', co3)"
        and c3: "\<And>e'. r' = Some e' \<Longrightarrow> compiled_under ?Q co2 co3 e' e (\<lambda>s i j. (R s ^^ nat lo) i j) True (\<lambda>n. 0) False"
        by blast
      have "compiled co co3 e' after (\<lambda>s i j. \<exists>k. lo \<le> int k \<and> (hi < 0 \<or> int k \<le> hi) \<and> (R s ^^ k) i j)
        (hi < 0 \<longrightarrow> (\<forall>s i j. R s i j \<longrightarrow> i < j)) (\<lambda>n. if hi < 0 then n + 1 else nat (hi - lo)) False" if "r' = Some e'" for e'
        by (rule join_body [OF body compiled_under_cong [OF compiled_under_trans [OF c2 c3 [OF that]]]])
           (rule repeat_rel [OF lo] TrueI | simp)+
      then show ?thesis using lr True t Some m by (cases r') (simp_all add: re_compile_repeat_def)
    qed (use lr True t in \<open>simp add: re_compile_repeat_def\<close>)
  qed (use lr in \<open>simp add: re_compile_repeat_def\<close>)
qed

subsection \<open>The compiler\<close>

lemma emit_compiled:
  assumes "re_emit co op c after = (r, co')" and "r \<noteq> None"
    and "op \<noteq> AIRY_RE_I_SPLIT" "op \<noteq> AIRY_RE_I_MATCH" "save_ok op c"
    and "\<And>T s i j. R s i j = (re_pos op c T s i = Some j)"
  shows "compiled co co' r after R C (\<lambda>n. 0) A"
proof -
  obtain x where r: "r = Some x" using assms(2) by blast
  show ?thesis using emit_Some [OF assms(1) [unfolded r]] assms(3-6) r by (intro compiled_simple [where tb = "[]"]) auto
qed

lemma class_compiled:
  assumes e: "re_emit (co\<lparr>co_tables := co_tables co @ [t], co_mem := m\<rparr>) AIRY_RE_I_CLASS (length (co_tables co)) after = (r, co')"
    and r: "r \<noteq> None"
  shows "compiled co co' r after (\<lambda>s. re_match s (AIRY_RE_A_CLASS t)) C (\<lambda>n. 0) A"
proof -
  obtain x where r: "r = Some x" using r by blast
  note f = emit_Some [OF e [unfolded r]]
  have "re_match s (AIRY_RE_A_CLASS t) i j = (re_pos AIRY_RE_I_CLASS (length (co_tables co)) T s i = Some j)"
    if "same_on T (co_tables co') (length (co_tables co)) (length (co_tables co'))" for T s i j
    using that f by (auto simp: re_pos_def same_on_def)
  then show ?thesis using f r by (intro compiled_simple [where tb = "[t]"]) (auto simp: save_ok_def)
qed

definition one_ok :: "re_comp \<Rightarrow> re_ast \<Rightarrow> nat option \<Rightarrow> bool" where
  "one_ok co x after = (\<exists>r co'. airy_re_compile_one co x after = Some (r, co') \<and> (r \<noteq> None \<longrightarrow>
     compiled co co' r after (\<lambda>s. re_match s x) (re_stars_ok x) (\<lambda>n. re_cost n x) (re_atomic x)))"

definition seq_ok :: "re_comp \<Rightarrow> re_ast list \<Rightarrow> nat option \<Rightarrow> bool" where
  "seq_ok co xs after = (\<exists>r co'. airy_re_compile_seq co xs after = Some (r, co') \<and> (r \<noteq> None \<longrightarrow>
     compiled co co' r after (\<lambda>s. re_matches s xs) (list_all re_stars_ok xs) (\<lambda>n. re_costs n xs) False))"

definition nodes_ok :: "re_comp \<Rightarrow> re_ast list \<Rightarrow> nat option \<Rightarrow> bool" where
  "nodes_ok co xs after = (\<exists>r co'. re_compile_nodes co xs after = Some (r, co') \<and> (r \<noteq> None \<or> xs = [] \<longrightarrow>
     compiled co co' r after (\<lambda>s. re_matches s xs) (list_all re_stars_ok xs) (\<lambda>n. re_costs n xs) False))"

lemma re_match_fun:
  "re_match s (AIRY_RE_A_GROUP gid xs) = re_matches s xs"
  "re_match s (AIRY_RE_A_ALT xs ys) = (\<lambda>i j. re_matches s xs i j \<or> re_matches s ys i j)"
  "re_matches s (x # xs) = (\<lambda>i j. \<exists>k. re_match s x i k \<and> re_matches s xs k j)"
  by (simp_all add: fun_eq_iff)

lemma group_ok:
  assumes IH: "\<And>save0 co1 save1 co2. re_emit co AIRY_RE_I_SAVE (gid * 2) None = (Some save0, co1) \<Longrightarrow>
      re_emit co1 AIRY_RE_I_SAVE (gid * 2 + 1) after = (Some save1, co2) \<Longrightarrow> seq_ok co2 xs (Some save1)"
    and gid: "gid < AIRY_RE_MAX_GROUPS"
  shows "one_ok co (AIRY_RE_A_GROUP gid xs) after"
proof (cases "\<exists>s0 co1 s1 co2. re_emit co AIRY_RE_I_SAVE (gid * 2) None = (Some s0, co1) \<and>
    re_emit co1 AIRY_RE_I_SAVE (gid * 2 + 1) after = (Some s1, co2)")
  case True
  then obtain s0 co1 s1 co2 where e0: "re_emit co AIRY_RE_I_SAVE (gid * 2) None = (Some s0, co1)"
    and e1: "re_emit co1 AIRY_RE_I_SAVE (gid * 2 + 1) after = (Some s1, co2)" by blast
  note f0 = emit_Some [OF e0] and f1 = emit_Some [OF e1]
  obtain r co3 where b: "airy_re_compile_seq co2 xs (Some s1) = Some (r, co3)"
    and c: "r \<noteq> None \<Longrightarrow> compiled co2 co3 r (Some s1) (\<lambda>s. re_matches s xs) (list_all re_stars_ok xs) (\<lambda>n. re_costs n xs) False"
    using IH [OF e0 e1] unfolding seq_ok_def by blast
  show ?thesis
  proof (cases r)
    case (Some y)
    have "compiled co (co_upd co3 s0 (\<lambda>ip. ip\<lparr>i_a := Some y\<rparr>)) (Some s0) after
        (\<lambda>s. re_matches s xs) (list_all re_stars_ok xs) (\<lambda>n. re_costs n xs) True"
      by (rule compiled_group [where ?s0.0 = "\<lparr>i_op = AIRY_RE_I_SAVE, i_c = gid * 2, i_a = None, i_b = None\<rparr>"
            and ?c1.0 = "gid * 2 + 1" and b = y and ?co2.0 = co2])
         (use f0 f1 c Some gid in \<open>simp_all add: save_ok_def\<close>)
    then show ?thesis using e0 e1 b Some by (simp add: one_ok_def re_costs_def re_match_fun)
  qed (use e0 e1 b in \<open>simp add: one_ok_def\<close>)
qed (auto simp: one_ok_def split: prod.split option.split)

lemma alt_ok:
  assumes 1: "seq_ok co xs after" and 2: "\<And>co1. seq_ok co1 ys after"
  shows "one_ok co (AIRY_RE_A_ALT xs ys) after"
proof -
  obtain r1 co1 where b1: "airy_re_compile_seq co xs after = Some (r1, co1)"
    and c1: "r1 \<noteq> None \<Longrightarrow> compiled co co1 r1 after (\<lambda>s. re_matches s xs) (list_all re_stars_ok xs) (\<lambda>n. re_costs n xs) False"
    using 1 unfolding seq_ok_def by blast
  obtain r2 co2 where b2: "airy_re_compile_seq co1 ys after = Some (r2, co2)"
    and c2: "r2 \<noteq> None \<Longrightarrow> compiled co1 co2 r2 after (\<lambda>s. re_matches s ys) (list_all re_stars_ok ys) (\<lambda>n. re_costs n ys) False"
    using 2 [of co1] unfolding seq_ok_def by blast
  obtain r3 co3 where new: "airy_re_inst_new co2 AIRY_RE_I_SPLIT = (r3, co3)" by (cases "airy_re_inst_new co2 AIRY_RE_I_SPLIT")
  show ?thesis
  proof (cases "r1 = None \<or> r2 = None \<or> r3 = None")
    case False
    then obtain p1 p2 sp where p: "r1 = Some p1" "r2 = Some p2" "r3 = Some sp" by auto
    note n = inst_new_Some [OF new [unfolded p(3)]]
    let ?co4 = "co_upd co3 sp (\<lambda>ip. ip\<lparr>i_a := Some p1, i_b := Some p2\<rparr>)"
    have "compiled co ?co4 (Some sp) after (\<lambda>s i j. re_matches s xs i j \<or> re_matches s ys i j)
        (list_all re_stars_ok xs \<and> list_all re_stars_ok ys) (\<lambda>m. 1 + max (re_costs m xs) (re_costs m ys)) False"
      using compiled_alt [OF c1 [unfolded p] c2 [unfolded p], of ?co4] n upd_last [of co3 "co_all co2"] by simp
    then show ?thesis using b1 b2 new p by (simp add: one_ok_def re_costs_def re_match_fun)
  qed (use b1 b2 new in \<open>auto simp: one_ok_def split: option.split\<close>)
qed

lemma repeat_ok:
  assumes 1: "one_ok co x None" and x: "re_atomic x" "0 \<le> lo" "hi < 0 \<or> lo \<le> hi"
  shows "one_ok co (AIRY_RE_A_REPEAT x lo hi g) after"
proof -
  obtain r1 co1 where b: "airy_re_compile_one co x None = Some (r1, co1)"
    and c: "r1 \<noteq> None \<Longrightarrow> compiled co co1 r1 None (\<lambda>s. re_match s x) (re_stars_ok x) (\<lambda>n. re_cost n x) True"
    using 1 x(1) unfolding one_ok_def by auto
  show ?thesis
  proof (cases r1)
    case (Some y)
    obtain r co' where r: "re_compile_repeat co1 y lo hi g after = Some (r, co')" and cr: "r \<noteq> None \<Longrightarrow>
        compiled co co' r after (\<lambda>s i j. \<exists>k. lo \<le> int k \<and> (hi < 0 \<or> int k \<le> hi) \<and> (re_match s x ^^ k) i j)
          (hi < 0 \<longrightarrow> (\<forall>s i j. re_match s x i j \<longrightarrow> i < j)) (\<lambda>n. if hi < 0 then n + 1 else nat (hi - lo)) False"
      using compile_repeat_ok [OF c [unfolded Some] x(2,3)] by blast
    have "compiled co co' r after (\<lambda>s. re_match s (AIRY_RE_A_REPEAT x lo hi g)) (re_stars_ok (AIRY_RE_A_REPEAT x lo hi g))
        (\<lambda>n. re_cost n (AIRY_RE_A_REPEAT x lo hi g)) False" if "r \<noteq> None"
      unfolding compiled_def
      by (rule compiled_under_cong [OF cr [OF that, unfolded compiled_def]]) (use re_match_nonempty(1) in auto)
    then show ?thesis using b r Some by (simp add: one_ok_def)
  qed (use b in \<open>simp add: one_ok_def\<close>)
qed

lemma nodes_Cons_ok:
  assumes 1: "nodes_ok co xs after" and 2: "\<And>co1 cont. one_ok co1 x cont"
  shows "nodes_ok co (x # xs) after"
proof -
  obtain r1 co1 where b1: "re_compile_nodes co xs after = Some (r1, co1)" and c1: "r1 \<noteq> None \<or> xs = [] \<Longrightarrow>
      compiled co co1 r1 after (\<lambda>s. re_matches s xs) (list_all re_stars_ok xs) (\<lambda>n. re_costs n xs) False"
    using 1 unfolding nodes_ok_def by blast
  obtain r2 co2 where b2: "airy_re_compile_one co1 x r1 = Some (r2, co2)"
    and c2: "r2 \<noteq> None \<Longrightarrow> compiled co1 co2 r2 r1 (\<lambda>s. re_match s x) (re_stars_ok x) (\<lambda>n. re_cost n x) (re_atomic x)"
    using 2 [of co1 r1] unfolding one_ok_def by blast
  show ?thesis
  proof (cases "xs \<noteq> [] \<and> r1 = None")
    case False
    then have "compiled co co2 r2 after (\<lambda>s i j. \<exists>k. re_match s x i k \<and> re_matches s xs k j)
        (re_stars_ok x \<and> list_all re_stars_ok xs) (\<lambda>n. re_cost n x + re_costs n xs) False" if "r2 \<noteq> None"
      using compiled_trans [OF c1 c2 [OF that]] by blast
    then show ?thesis using b1 b2 False by (simp add: nodes_ok_def re_costs_def re_match_fun)
  qed (use b1 in \<open>simp add: nodes_ok_def\<close>)
qed

lemma nodes_all_ok: "(\<And>x co cont. x \<in> set xs \<Longrightarrow> one_ok co x cont) \<Longrightarrow> nodes_ok co xs after"
proof (induction xs arbitrary: co)
  case Nil
  have "compiled co co after after (\<lambda>s. re_matches s []) True (\<lambda>n. 0) False"
    unfolding compiled_def by (rule compiled_under_cong [OF compiled_under_refl]) auto
  then show ?case by (simp add: nodes_ok_def re_costs_def)
qed (simp add: nodes_Cons_ok)

lemma seq_all_ok:
  "length xs \<le> 256 \<Longrightarrow> (\<And>x co cont. x \<in> set xs \<Longrightarrow> one_ok co x cont) \<Longrightarrow> seq_ok co xs after"
  using nodes_all_ok [of xs co after] unfolding seq_ok_def nodes_ok_def by auto

lemma emit_ok:
  assumes "airy_re_compile_one co x after = Some (re_emit co op c after)"
    and "op \<noteq> AIRY_RE_I_SPLIT" "op \<noteq> AIRY_RE_I_MATCH" "save_ok op c"
    and "\<And>T s i j. re_match s x i j = (re_pos op c T s i = Some j)" and "\<And>n. re_cost n x = 0"
  shows "one_ok co x after"
proof (cases "re_emit co op c after")
  case (Pair r co')
  then show ?thesis using emit_compiled [OF Pair _ assms(2-4), of "\<lambda>s. re_match s x"] assms by (simp add: one_ok_def)
qed

lemma compile_one_ok: "re_shape 256 x \<Longrightarrow> one_ok co x after"
proof (induction x arbitrary: co after)
  case (AIRY_RE_A_CHAR c)
  show ?case by (rule emit_ok) (auto simp: re_pos_def save_ok_def split: if_splits)
next
  case AIRY_RE_A_ANY
  show ?case by (rule emit_ok) (auto simp: re_pos_def save_ok_def split: if_splits)
next
  case (AIRY_RE_A_ANCHOR c)
  show ?case by (rule emit_ok) (auto simp: re_pos_def save_ok_def split: if_splits)
next
  case (AIRY_RE_A_CLASS t co after)
  let ?e = "re_emit (co\<lparr>co_tables := co_tables co @ [t], co_mem := co_mem co - 1\<rparr>) AIRY_RE_I_CLASS (length (co_tables co)) after"
  obtain r co' where e: "?e = (r, co')" by (cases ?e)
  have "compiled co co' r after (\<lambda>s. re_match s (AIRY_RE_A_CLASS t)) True (\<lambda>n. 0) True" if "r \<noteq> None"
    by (rule class_compiled [OF e that])
  then show ?case using e by (simp add: one_ok_def Let_def)
next
  case (AIRY_RE_A_ALT xs ys)
  then show ?case by (intro alt_ok seq_all_ok) (auto simp: list_all_iff)
next
  case (AIRY_RE_A_GROUP gid xs)
  then show ?case by (intro group_ok seq_all_ok) (auto simp: list_all_iff)
next
  case (AIRY_RE_A_REPEAT x lo hi g)
  then show ?case by (intro repeat_ok) auto
qed simp

lemma compile_seq_ok: "list_all (re_shape 256) xs \<Longrightarrow> length xs \<le> 256 \<Longrightarrow> seq_ok co xs after"
  using seq_all_ok compile_one_ok by (simp add: list_all_iff)

end
