(* ===== verification/Regex_Vm.thy ===== *)
theory Regex_Vm
  imports Regex_Correct
begin

section \<open>Regular expressions: the executor is correct\<close>

text \<open>
  On a closed program, one whose pointers stay inside it and whose straight chains end, the instruction
  loop always returns. Its answer agrees with the paths of the program unless the depth limit was
  reached, and the limit is not reached when every path has few enough SPLITs.
\<close>

definition vm_closed :: "re_inst list \<Rightarrow> bool" where
  "vm_closed G = (\<forall>x < length G. ends G (Some x) \<and> inst_ok 0 (length G) None False (G ! x))"

definition vm_ptr :: "re_inst list \<Rightarrow> nat option \<Rightarrow> bool" where
  "vm_ptr G pc = (\<forall>x. pc = Some x \<longrightarrow> x < length G)"

lemma vm_closed_ptrs: "vm_closed G \<Longrightarrow> x < length G \<Longrightarrow> vm_ptr G (i_a (G ! x)) \<and> vm_ptr G (i_b (G ! x))"
  by (auto simp: vm_closed_def vm_ptr_def inst_ok_def ptr_ok_def)

lemma vm_closed_ends: "vm_closed G \<Longrightarrow> vm_ptr G pc \<Longrightarrow> ends G pc"
  by (cases pc) (auto simp: vm_closed_def vm_ptr_def intro: ends_None)

text \<open>What a result of the instruction loop means.\<close>

definition vm_result ::
  "re_inst list \<Rightarrow> re_tbl list \<Rightarrow> cstr \<Rightarrow> nat \<Rightarrow> nat option \<Rightarrow> nat \<Rightarrow> int list \<Rightarrow> bool \<times> int list \<times> bool \<Rightarrow> bool" where
  "vm_result G T s d pc i caps = (\<lambda>(r, caps', ov).
     length caps' = length caps \<and> (r \<longrightarrow> \<not> ov \<and> accepts G T s (\<lambda>_. True) pc i) \<and>
     (\<not> r \<and> \<not> ov \<longrightarrow> \<not> accepts G T s (\<lambda>_. True) pc i) \<and>
     (\<forall>K. deep_ok G T s pc i K \<and> d + K \<le> AIRY_RE_MAX_DEPTH \<longrightarrow> \<not> ov))"

lemma deep_ok_splitD:
  assumes "i_op (G ! x) = AIRY_RE_I_SPLIT" and "deep_ok G T s (Some x) i K"
  shows "0 < K \<and> deep_ok G T s (i_a (G ! x)) i (K - 1) \<and> deep_ok G T s (i_b (G ! x)) i (K - 1)"
  using assms unfolding deep_ok_def by (metis dk.simps(3))

lemma deep_ok_simpleD:
  assumes "i_op (G ! x) \<noteq> AIRY_RE_I_SPLIT" "i_op (G ! x) \<noteq> AIRY_RE_I_MATCH"
    and "re_pos (i_op (G ! x)) (i_c (G ! x)) T s i = Some i'" and "deep_ok G T s (Some x) i K"
  shows "deep_ok G T s (i_a (G ! x)) i' K"
  unfolding deep_ok_def
proof
  fix n
  have "dk G T s (Suc n) (Some x) i K" using assms(4) unfolding deep_ok_def by blast
  then show "dk G T s n (i_a (G ! x)) i' K" using assms(1-3) by simp
qed

lemma exec1_caps: "re_exec1 op c T s start i caps = Some (i', caps') \<Longrightarrow> length caps' = length caps"
  by (cases op) (auto split: if_splits)

lemma vm_step_split:
  assumes op: "i_op (G ! x) = AIRY_RE_I_SPLIT"
    and IH: "\<And>pc. pc \<in> {i_a (G ! x), i_b (G ! x)} \<Longrightarrow> d < AIRY_RE_MAX_DEPTH \<Longrightarrow>
      \<exists>r. re_loop G T s start (d + 1) pc i caps = Some r \<and> vm_result G T s (d + 1) pc i caps r"
  shows "\<exists>r. re_loop G T s start d (Some x) i caps = Some r \<and> vm_result G T s d (Some x) i caps r"
proof (cases "d < AIRY_RE_MAX_DEPTH")
  case False
  then have "re_loop G T s start d (Some x) i caps = Some (False, caps, True)"
    by (subst re_loop.simps) (simp add: op)
  moreover have "\<not> (deep_ok G T s (Some x) i K \<and> d + K \<le> AIRY_RE_MAX_DEPTH)" for K
    using deep_ok_splitD [OF op, of T s i K] False by auto
  ultimately show ?thesis by (simp add: vm_result_def)
next
  case True
  obtain r1 c1 o1 where a: "re_loop G T s start (d + 1) (i_a (G ! x)) i caps = Some (r1, c1, o1)"
    and va: "vm_result G T s (d + 1) (i_a (G ! x)) i caps (r1, c1, o1)" using IH [of "i_a (G ! x)"] True by auto
  obtain r2 c2 o2 where b: "re_loop G T s start (d + 1) (i_b (G ! x)) i caps = Some (r2, c2, o2)"
    and vb: "vm_result G T s (d + 1) (i_b (G ! x)) i caps (r2, c2, o2)" using IH [of "i_b (G ! x)"] True by auto
  have deep: "\<not> o1 \<and> \<not> o2" if "deep_ok G T s (Some x) i K" "d + K \<le> AIRY_RE_MAX_DEPTH" for K
  proof -
    have "d + 1 + (K - 1) \<le> AIRY_RE_MAX_DEPTH" using deep_ok_splitD [OF op that(1)] that(2) by simp
    then show ?thesis using deep_ok_splitD [OF op that(1)] va vb unfolding vm_result_def by auto
  qed
  note acc = accepts_split [OF op, of T s "\<lambda>_. True" i]
  have loop: "re_loop G T s start d (Some x) i caps =
      (if r1 then Some (True, c1, o1) else if o1 then Some (False, c1, True) else Some (r2, c2, o2))"
    by (subst re_loop.simps) (use op True a b in simp)
  consider "r1" | "\<not> r1" "o1" | "\<not> r1" "\<not> o1" by blast
  then show ?thesis
    using loop va vb deep by cases (auto simp: vm_result_def acc)
qed

lemma vm_step_simple:
  assumes op: "i_op (G ! x) \<noteq> AIRY_RE_I_SPLIT" "i_op (G ! x) \<noteq> AIRY_RE_I_MATCH"
    and IH: "\<And>i' caps'. \<exists>r. re_loop G T s start d (i_a (G ! x)) i' caps' = Some r \<and> vm_result G T s d (i_a (G ! x)) i' caps' r"
  shows "\<exists>r. re_loop G T s start d (Some x) i caps = Some r \<and> vm_result G T s d (Some x) i caps r"
proof (cases "re_exec1 (i_op (G ! x)) (i_c (G ! x)) T s start i caps")
  case None
  then have "re_pos (i_op (G ! x)) (i_c (G ! x)) T s i = None" by (metis map_option_is_None re_exec1_pos)
  then have "\<not> accepts G T s (\<lambda>_. True) (Some x) i" using accepts_simple [OF op] by simp
  moreover have "re_loop G T s start d (Some x) i caps = Some (False, caps, False)"
    by (subst re_loop.simps) (use op None in simp)
  ultimately show ?thesis by (simp add: vm_result_def)
next
  case (Some p)
  obtain i' caps' where p: "p = (i', caps')" by (cases p)
  have pos: "re_pos (i_op (G ! x)) (i_c (G ! x)) T s i = Some i'"
    using re_exec1_pos [of "i_op (G ! x)" "i_c (G ! x)" T s start i caps] Some p by simp
  then have acc: "accepts G T s (\<lambda>_. True) (Some x) i = accepts G T s (\<lambda>_. True) (i_a (G ! x)) i'"
    using accepts_simple [OF op] by simp
  have len: "length caps' = length caps" using exec1_caps Some p by blast
  obtain r where r: "re_loop G T s start d (i_a (G ! x)) i' caps' = Some r" "vm_result G T s d (i_a (G ! x)) i' caps' r"
    using IH by blast
  have "re_loop G T s start d (Some x) i caps = Some r"
    by (subst re_loop.simps) (use op Some p r(1) in simp)
  moreover have "vm_result G T s d (Some x) i caps r"
    using r(2) deep_ok_simpleD [OF op pos] unfolding vm_result_def acc by (auto simp: len)
  ultimately show ?thesis by blast
qed

lemma re_loop_ok:
  assumes G: "vm_closed G" and "vm_ptr G pc"
  shows "\<exists>r. re_loop G T s start d pc i caps = Some r \<and> vm_result G T s d pc i caps r"
  using assms(2)
proof (induction "AIRY_RE_MAX_DEPTH - d" arbitrary: d pc i caps rule: less_induct)
  case (less d)
  have split: "\<exists>r. re_loop G T s start d (Some x) i caps = Some r \<and> vm_result G T s d (Some x) i caps r"
    if op: "i_op (G ! x) = AIRY_RE_I_SPLIT" and x: "x < length G" for x i caps
  proof (rule vm_step_split [OF op])
    fix pc assume pc: "pc \<in> {i_a (G ! x), i_b (G ! x)}" and d: "d < AIRY_RE_MAX_DEPTH"
    then have "AIRY_RE_MAX_DEPTH - (d + 1) < AIRY_RE_MAX_DEPTH - d" by simp
    moreover have "vm_ptr G pc" using pc vm_closed_ptrs [OF G x] by auto
    ultimately show "\<exists>r. re_loop G T s start (d + 1) pc i caps = Some r \<and> vm_result G T s (d + 1) pc i caps r"
      by (rule less.hyps)
  qed
  have "ends G pc" using vm_closed_ends [OF G less.prems] .
  then show ?case using less.prems
  proof (induction arbitrary: i caps rule: ends.induct)
    case ends_None
    have "re_loop G T s start d None i caps = Some (True, caps, False)" by (subst re_loop.simps) simp
    then show ?case by (simp add: vm_result_def)
  next
    case (ends_Split x)
    then show ?case by (intro split) (auto simp: vm_ptr_def)
  next
    case (ends_step x)
    have x: "x < length G" using ends_step.prems by (simp add: vm_ptr_def)
    show ?case
    proof (cases "i_op (G ! x) = AIRY_RE_I_SPLIT")
      case False
      have "i_op (G ! x) \<noteq> AIRY_RE_I_MATCH" using G x by (simp add: vm_closed_def inst_ok_def)
      moreover have "vm_ptr G (i_a (G ! x))" using vm_closed_ptrs [OF G x] by blast
      ultimately show ?thesis by (rule vm_step_simple [OF False _ ends_step.IH])
    qed (use split x in blast)
  qed
qed

subsection \<open>Programs\<close>

text \<open>A program for what \<open>R\<close> matches, as the compiler returns it at the end.\<close>

definition re_program ::
  "re_inst list \<Rightarrow> re_tbl list \<Rightarrow> nat option \<Rightarrow> (cstr \<Rightarrow> nat \<Rightarrow> nat \<Rightarrow> bool) \<Rightarrow> bool \<Rightarrow> (nat \<Rightarrow> nat) \<Rightarrow> bool" where
  "re_program G T e R C c =
     (vm_closed G \<and> vm_ptr G e \<and> e \<noteq> None \<and> (\<forall>s. good G T s e (R s) C (c (length s)) None))"

lemma compiled_program:
  assumes c: "compiled co co' e None R C c A" and co: "co_all co = []" "co_tables co = []" and e: "e \<noteq> None"
  shows "re_program (co_all co') (co_tables co') e R C c"
proof -
  let ?G = "co_all co'" and ?T = "co_tables co'"
  have s: "same_on ?G ?G 0 (length ?G)" "same_on ?T ?T 0 (length ?T)" by (simp_all add: same_on_def)
  have "\<forall>ip \<in> set ?G. inst_ok 0 (length ?G) None A ip" using c co unfolding compiled_defs by auto
  then have "\<forall>ip \<in> set ?G. inst_ok 0 (length ?G) None False ip" by (auto simp: inst_ok_def)
  moreover have "\<forall>x < length ?G. ends ?G (Some x)" "\<forall>s. good ?G ?T s e (R s) C (c (length s)) None"
    using c s ends_None unfolding compiled_defs by (auto simp: co)
  moreover have "vm_ptr ?G e" using c e unfolding compiled_defs by (auto simp: vm_ptr_def)
  ultimately show ?thesis using e by (auto simp: re_program_def vm_closed_def)
qed

definition run_result :: "cstr \<Rightarrow> (nat \<Rightarrow> bool) \<Rightarrow> bool \<Rightarrow> bool \<times> int list \<times> bool \<Rightarrow> nat \<Rightarrow> bool" where
  "run_result s M small = (\<lambda>(r, caps, ov) start. length caps = 2 * AIRY_RE_MAX_GROUPS \<and>
     (r \<longrightarrow> M start) \<and> (\<not> r \<and> \<not> ov \<longrightarrow> \<not> M start) \<and> (small \<longrightarrow> \<not> ov))"

lemma run_ok:
  assumes p: "re_program G T e R C c" and "start \<le> length s"
  shows "\<exists>r. airy_re_run G T s start e = Some r \<and>
    run_result s (\<lambda>i. \<exists>j. R s i j) (C \<and> 1 + c (length s) \<le> AIRY_RE_MAX_DEPTH) r start"
proof -
  obtain r where r: "airy_re_run G T s start e = Some r"
    and v: "vm_result G T s 1 e start (replicate (2 * AIRY_RE_MAX_GROUPS) 0) r"
    using re_loop_ok [of G e T s start 1 start] p unfolding airy_re_run_def re_program_def by blast
  have g: "good G T s e (R s) C (c (length s)) None" using p by (simp add: re_program_def)
  then have "accepts G T s (\<lambda>_. True) e start = (\<exists>j. R s start j)" by (simp add: good_def)
  moreover have "deep_ok G T s e start (c (length s))" if C
    using g that assms(2) unfolding good_def by (metis add_0 deep_ok_None)
  ultimately have "run_result s (\<lambda>i. \<exists>j. R s i j) (C \<and> 1 + c (length s) \<le> AIRY_RE_MAX_DEPTH) r start"
    using v by (auto simp: run_result_def vm_result_def)
  then show ?thesis using r by blast
qed

definition re_found :: "(cstr \<Rightarrow> nat \<Rightarrow> nat \<Rightarrow> bool) \<Rightarrow> cstr \<Rightarrow> nat \<Rightarrow> bool" where
  "re_found R s start = (\<exists>i j. start \<le> i \<and> i \<le> length s \<and> R s i j)"

lemma search_ok:
  assumes p: "re_program (re_insts re) (re_tables re) (re_prog re) R C c"
  shows "start \<le> length s \<Longrightarrow> \<exists>ret caps. re_search re s start = Some (ret, caps) \<and> ret \<in> {0, REG_NOMATCH, - 1} \<and>
    (ret = 0 \<longrightarrow> length caps = 2 * AIRY_RE_MAX_GROUPS \<and> re_found R s start) \<and>
    (ret = REG_NOMATCH \<longrightarrow> \<not> re_found R s start) \<and>
    (C \<and> 1 + c (length s) \<le> AIRY_RE_MAX_DEPTH \<longrightarrow> ret \<noteq> - 1)"
proof (induction "length s - start" arbitrary: start)
  case 0
  obtain r caps ov where r: "airy_re_run (re_insts re) (re_tables re) s start (re_prog re) = Some (r, caps, ov)"
    and v: "run_result s (\<lambda>i. \<exists>j. R s i j) (C \<and> 1 + c (length s) \<le> AIRY_RE_MAX_DEPTH) (r, caps, ov) start"
    using run_ok [OF p "0.prems"] by auto
  have "start = length s" using 0 by simp
  then show ?case using r v by (subst re_search.simps) (auto simp: run_result_def re_found_def REG_NOMATCH_def)
next
  case (Suc n)
  obtain r caps ov where r: "airy_re_run (re_insts re) (re_tables re) s start (re_prog re) = Some (r, caps, ov)"
    and v: "run_result s (\<lambda>i. \<exists>j. R s i j) (C \<and> 1 + c (length s) \<le> AIRY_RE_MAX_DEPTH) (r, caps, ov) start"
    using run_ok [OF p Suc.prems] by auto
  show ?case
  proof (cases "r \<or> ov")
    case True
    then show ?thesis using r v Suc.prems
      by (subst re_search.simps) (auto simp: run_result_def re_found_def REG_NOMATCH_def)
  next
    case False
    have lt: "start < length s" using Suc.hyps(2) by simp
    then have step: "re_search re s start = re_search re s (start + 1)"
      using r False by (subst re_search.simps) simp
    have no: "\<not> R s start j" for j using v False by (auto simp: run_result_def)
    have "start \<le> i \<and> R s i j \<longleftrightarrow> start + 1 \<le> i \<and> R s i j" for i j
      using no by (metis Suc_eq_plus1 Suc_leD le_neq_implies_less less_eq_Suc_le)
    then have "re_found R s start = re_found R s (start + 1)" unfolding re_found_def by blast
    then show ?thesis unfolding step using Suc.hyps(1) [of "start + 1"] Suc.hyps(2) lt by simp
  qed
qed

text \<open>The search from position \<open>k\<close> hits the depth limit.\<close>

definition re_cut_short :: "airy_regex \<Rightarrow> cstr \<Rightarrow> nat \<Rightarrow> bool" where
  "re_cut_short re s k \<longleftrightarrow>
     (case airy_re_run (re_insts re) (re_tables re) s k (re_prog re) of
        None \<Rightarrow> False | Some (r, caps, ov) \<Rightarrow> \<not> r \<and> ov)"

lemma cut_short_deep:
  assumes p: "re_program (re_insts re) (re_tables re) (re_prog re) R C c" and cut: "re_cut_short re s k"
  shows "\<not> deep_ok (re_insts re) (re_tables re) s (re_prog re) k (AIRY_RE_MAX_DEPTH - 1)"
proof -
  obtain r caps ov where r: "airy_re_run (re_insts re) (re_tables re) s k (re_prog re) = Some (r, caps, ov)"
    "vm_result (re_insts re) (re_tables re) s 1 (re_prog re) k (replicate (2 * AIRY_RE_MAX_GROUPS) 0) (r, caps, ov)"
    using re_loop_ok [of "re_insts re" "re_prog re" "re_tables re" s k 1 k] p
    unfolding airy_re_run_def re_program_def by (metis surj_pair)
  have "ov" using cut r(1) by (simp add: re_cut_short_def)
  moreover have "1 + (AIRY_RE_MAX_DEPTH - 1) \<le> AIRY_RE_MAX_DEPTH" by (simp add: AIRY_RE_MAX_DEPTH_def)
  ultimately show ?thesis using r(2) unfolding vm_result_def by blast
qed

text \<open>The error is reported exactly when the limit is hit at a position before which nothing matches and the limit is not hit.\<close>

lemma search_cut:
  assumes p: "re_program (re_insts re) (re_tables re) (re_prog re) R C c"
  shows "start \<le> length s \<Longrightarrow> re_search re s start = Some (ret, caps) \<Longrightarrow>
    ret = - 1 \<longleftrightarrow> (\<exists>k. start \<le> k \<and> k \<le> length s \<and> re_cut_short re s k \<and>
      (\<forall>i. start \<le> i \<and> i < k \<longrightarrow> \<not> re_cut_short re s i \<and> (\<nexists>j. R s i j)))"
proof (induction "length s - start" arbitrary: start)
  case 0
  obtain r cs ov where r: "airy_re_run (re_insts re) (re_tables re) s start (re_prog re) = Some (r, cs, ov)"
    using run_ok [OF p "0.prems"(1)] by auto
  have "start = length s" using 0 by simp
  then have "ret = - 1 \<longleftrightarrow> re_cut_short re s start"
    using "0.prems"(2) r by (subst (asm) re_search.simps) (auto simp: re_cut_short_def REG_NOMATCH_def split: if_splits)
  then show ?case using \<open>start = length s\<close> by (metis le_antisym not_le order_refl)
next
  case (Suc n)
  obtain r cs ov where r: "airy_re_run (re_insts re) (re_tables re) s start (re_prog re) = Some (r, cs, ov)"
    and v: "run_result s (\<lambda>i. \<exists>j. R s i j) (C \<and> 1 + c (length s) \<le> AIRY_RE_MAX_DEPTH) (r, cs, ov) start"
    using run_ok [OF p Suc.prems(1)] by auto
  have cut: "re_cut_short re s start \<longleftrightarrow> \<not> r \<and> ov" using r by (simp add: re_cut_short_def)
  consider (hit) r | (over) "\<not> r" ov | (plain) "\<not> r" "\<not> ov" by blast
  then show ?case
  proof cases
    case hit
    then have "ret = 0" using Suc.prems(2) r by (subst (asm) re_search.simps) simp
    moreover have "\<exists>j. R s start j" "\<not> re_cut_short re s start" using hit v cut by (auto simp: run_result_def)
    ultimately show ?thesis by (metis le_neq_implies_less order_refl zero_neq_neg_one)
  next
    case over
    then have "ret = - 1" using Suc.prems(2) r by (subst (asm) re_search.simps) simp
    with over cut Suc.prems(1) show ?thesis by (intro iffI exI [of _ start]) auto
  next
    case plain
    have lt: "start < length s" using Suc.hyps(2) by simp
    then have "re_search re s (start + 1) = Some (ret, caps)"
      using Suc.prems(2) r plain by (subst (asm) re_search.simps) simp
    note IH = Suc.hyps(1) [of "start + 1", OF _ _ this]
    have no: "\<not> re_cut_short re s start" "\<nexists>j. R s start j" using plain v cut by (auto simp: run_result_def)
    have "(start \<le> k \<and> k \<le> length s \<and> re_cut_short re s k \<and> (\<forall>i. start \<le> i \<and> i < k \<longrightarrow> \<not> re_cut_short re s i \<and> (\<nexists>j. R s i j))) \<longleftrightarrow>
      (start + 1 \<le> k \<and> k \<le> length s \<and> re_cut_short re s k \<and> (\<forall>i. start + 1 \<le> i \<and> i < k \<longrightarrow> \<not> re_cut_short re s i \<and> (\<nexists>j. R s i j)))" for k
      using no by (metis Suc_eq_plus1 Suc_leD le_neq_implies_less less_eq_Suc_le)
    then show ?thesis using IH Suc.hyps(2) lt by simp
  qed
qed

end
