(* ===== verification/Regex_Syntax.thy ===== *)
theory Regex_Syntax
  imports Regex_Fragments "HOL-Library.Sublist"
begin

section \<open>Regular expressions: the parser\<close>

text \<open>
  The parser only moves forward, builds trees of the shape the compiler relies on, and returns with the
  fuel that \<open>re_fuel\<close> gives it, provided that the decimal numbers of the pattern fit an \<open>int\<close>.
\<close>

subsection \<open>Moving forward\<close>

lemma ps_fail_p [simp]: "ps_p (ps_fail ps) = ps_p ps" "ngroups (ps_fail ps) = ngroups ps"
  by (simp_all add: ps_fail_def)

lemma next_suffix: "suffix (ps_p (snd (airy_re_next ps))) (ps_p ps)"
  by (auto simp: airy_re_next_def suffix_Cons split: list.split)

lemma next_shorter: "0 \<le> airy_re_peek ps \<Longrightarrow> length (ps_p (snd (airy_re_next ps))) < length (ps_p ps)"
  by (auto simp: airy_re_next_def airy_re_peek_def split: list.split)

lemma next_ngroups [simp]: "ngroups (snd (airy_re_next ps)) = ngroups ps"
  by (auto simp: airy_re_next_def split: list.split)

lemma ast_new_p:
  "airy_re_ast_new ps = (ok, ps') \<Longrightarrow> ps_p ps' = ps_p ps \<and> ngroups ps' = ngroups ps"
  by (auto simp: airy_re_ast_new_def split: if_splits)

lemma class_scan_suffix: "suffix (snd (snd (re_class_scan cs t))) cs"
proof (induction cs t rule: re_class_scan.induct)
  case (2 ch cs t)
  have "suffix (tl cs) cs" "suffix (drop 2 cs) cs" by (simp_all add: suffix_tl suffix_drop)
  then show ?case using 2 by (auto simp: suffix_Cons intro: suffix_order.trans)
qed simp

lemma digits_loop_suffix: "re_digits_loop n cs = Some (m, rest) \<Longrightarrow> suffix rest cs \<and> (0 \<le> n \<longrightarrow> 0 \<le> m)"
proof (induction n cs rule: re_digits_loop.induct)
  case (2 n c cs)
  then show ?case by (auto simp: Let_def suffix_Cons split: if_splits)
qed simp

lemma digits_suffix: "airy_re_digits ps = Some (n, ps') \<Longrightarrow> suffix (ps_p ps') (ps_p ps) \<and> ngroups ps' = ngroups ps"
  by (auto simp: airy_re_digits_def dest: digits_loop_suffix)

lemma bounds_ok:
  assumes "airy_re_bounds ps = Some (b, ps')"
  shows "suffix (ps_p ps') (ps_p ps) \<and> ngroups ps' = ngroups ps \<and> (\<forall>lo hi. b = Some (lo, hi) \<longrightarrow> 0 \<le> lo)"
proof -
  obtain n ps1 where 1: "airy_re_digits ps = Some (n, ps1)" using assms by (auto simp: airy_re_bounds_def bind_eq_Some_conv)
  show ?thesis
  proof (cases "n < 0")
    case True
    then show ?thesis using assms 1 digits_suffix [OF 1] by (auto simp: airy_re_bounds_def)
  next
    case False
    obtain hi ps2 where 2: "suffix (ps_p ps2) (ps_p ps1)" "ngroups ps2 = ngroups ps1"
      and r: "(if airy_re_peek ps2 \<noteq> code (CHR ''}'') then Some (None, ps_fail ps2)
         else Some (Some (n, hi), snd (airy_re_next ps2))) = Some (b, ps')"
    proof (cases "airy_re_peek ps1 = code (CHR '','')")
      case True
      then obtain m ps2 where "airy_re_digits (snd (airy_re_next ps1)) = Some (m, ps2)"
        using assms 1 False by (auto simp: airy_re_bounds_def bind_eq_Some_conv)
      moreover from digits_suffix [OF this] next_suffix [of ps1]
      have "suffix (ps_p ps2) (ps_p ps1)" "ngroups ps2 = ngroups ps1" by (auto intro: suffix_order.trans)
      ultimately show ?thesis using assms 1 False True that by (auto simp: airy_re_bounds_def bind_eq_Some_conv)
    next
      case nc: False
      then show ?thesis using assms 1 False that [of ps1 n] by (auto simp: airy_re_bounds_def)
    qed
    have "suffix (ps_p ps2) (ps_p ps)" using 2(1) digits_suffix [OF 1] by (auto intro: suffix_order.trans)
    moreover have "suffix (ps_p (snd (airy_re_next ps2))) (ps_p ps)"
      using calculation next_suffix [of ps2] by (auto intro: suffix_order.trans)
    ultimately show ?thesis using r False 2(2) digits_suffix [OF 1] by (auto split: if_splits)
  qed
qed

lemma parse_repeat_ok:
  assumes "airy_re_repeat ps a = Some (r, ps')" and "re_atomic a" and "re_shape N a"
  shows "suffix (ps_p ps') (ps_p ps) \<and> (\<forall>x. r = Some x \<longrightarrow> re_shape N x)"
proof (cases "airy_re_peek ps \<notin> {code (CHR ''*''), code (CHR ''+''), code (CHR ''?''), code (CHR ''{'')}")
  case True
  then show ?thesis using assms by (auto simp: airy_re_repeat_def Let_def)
next
  case q: False
  let ?ps1 = "snd (airy_re_next ps)"
  obtain ok ps2 where new: "airy_re_ast_new ?ps1 = (ok, ps2)" by (cases "airy_re_ast_new ?ps1")
  have 2: "suffix (ps_p ps2) (ps_p ps)" using next_suffix [of ps] ast_new_p [OF new] by simp
  show ?thesis
  proof (cases ok)
    case False
    then show ?thesis using assms q new 2 by (auto simp: airy_re_repeat_def Let_def)
  next
    case True
    obtain b ps3 where b: "(if airy_re_peek ps = code (CHR ''*'') then Some (Some (0, - 1), ps2)
         else if airy_re_peek ps = code (CHR ''+'') then Some (Some (1, - 1), ps2)
         else if airy_re_peek ps = code (CHR ''?'') then Some (Some (0, 1), ps2) else airy_re_bounds ps2) = Some (b, ps3)"
      and r: "(case b of None \<Rightarrow> Some (None, ps3) | Some (lo, hi) \<Rightarrow>
           if \<not> airy_re_rep_ok lo hi then Some (None, ps_fail ps3)
           else if airy_re_peek ps3 = code (CHR ''?'')
           then Some (Some (AIRY_RE_A_REPEAT a lo hi False), snd (airy_re_next ps3))
           else Some (Some (AIRY_RE_A_REPEAT a lo hi True), ps3)) = Some (r, ps')"
      using assms(1) q new True by (auto simp: airy_re_repeat_def Let_def bind_eq_Some_conv simp del: bind_assoc)
    have 3: "suffix (ps_p ps3) (ps_p ps2)" "\<forall>lo hi. b = Some (lo, hi) \<longrightarrow> 0 \<le> lo"
      using b bounds_ok [of ps2 b ps3] by (auto split: if_splits)
    have s3: "suffix (ps_p ps3) (ps_p ps)" using 2 3(1) by (rule suffix_order.trans [rotated])
    have s4: "suffix (ps_p (snd (airy_re_next ps3))) (ps_p ps)" using next_suffix s3 by (rule suffix_order.trans)
    show ?thesis
    proof (cases b)
      case (Some p)
      obtain lo hi where p: "p = (lo, hi)" by (cases p)
      have "re_shape N (AIRY_RE_A_REPEAT a lo hi g)" if "airy_re_rep_ok lo hi" for g
        using that 3(2) assms(2,3) Some p by (auto simp: airy_re_rep_ok_def split: if_splits)
      then show ?thesis using r s3 s4 unfolding Some p by (auto split: if_splits)
    qed (use r s3 in simp)
  qed
qed

definition atom_fwd :: "nat \<Rightarrow> re_parser \<Rightarrow> re_ast option \<times> re_parser \<Rightarrow> bool" where
  "atom_fwd N ps = (\<lambda>(a, ps'). suffix (ps_p ps') (ps_p ps) \<and> (\<forall>x. a = Some x \<longrightarrow> re_atomic x \<and> re_shape N x))"

lemma atom_fwd_trans: "atom_fwd N ps1 r \<Longrightarrow> suffix (ps_p ps1) (ps_p ps) \<Longrightarrow> atom_fwd N ps r"
  by (auto simp: atom_fwd_def intro: suffix_order.trans)

lemma char_fwd: "atom_fwd N ps (airy_re_char ch ps)"
  by (simp add: airy_re_char_def airy_re_ast_new_def atom_fwd_def)

lemma class_body_fwd: "suffix (ps_p (snd (airy_re_parse_class_body neg ps))) (ps_p ps)"
  using class_scan_suffix [of "ps_p ps" "replicate 32 0"]
  by (simp add: airy_re_parse_class_body_def split_beta Let_def)

lemma class_fwd: "atom_fwd N ps (airy_re_class ps)"
proof -
  define ps1 where "ps1 = (if airy_re_peek ps = code (CHR 0x5E) then snd (airy_re_next ps) else ps)"
  obtain ok ps2 where 2: "airy_re_ast_new ps1 = (ok, ps2)" by (cases "airy_re_ast_new ps1")
  let ?b = "airy_re_parse_class_body (airy_re_peek ps = code (CHR 0x5E)) ps2"
  have "suffix (ps_p ps1) (ps_p ps)" by (simp add: ps1_def next_suffix)
  then have s2: "suffix (ps_p ps2) (ps_p ps)" using ast_new_p [OF 2] by simp
  then have "suffix (ps_p (snd ?b)) (ps_p ps)" using class_body_fwd by (rule suffix_order.trans [rotated])
  moreover have "airy_re_class ps = (if \<not> ok then (None, ps2) else (map_option AIRY_RE_A_CLASS (fst ?b), snd ?b))"
    unfolding airy_re_class_def by (simp add: 2 Let_def split_beta ps1_def [symmetric])
  ultimately show ?thesis using s2 by (auto simp: atom_fwd_def)
qed

lemma escape_fwd: "atom_fwd N ps (airy_re_escape ps)"
  using atom_fwd_trans [OF char_fwd next_suffix] next_suffix [of ps]
  by (simp add: airy_re_escape_def split_beta atom_fwd_def)

lemma simple_atom_ok:
  assumes "re_simple_atom ps (airy_re_peek ps) = (r, ps')" and "0 \<le> airy_re_peek ps"
  shows "suffix (ps_p ps') (ps_p ps) \<and>
    (\<forall>x. r = Some x \<longrightarrow> re_atomic x \<and> re_shape N x \<and> length (ps_p ps') < length (ps_p ps))"
proof -
  let ?ps1 = "snd (airy_re_next ps)" and ?ch = "airy_re_peek ps"
  have 1: "suffix (ps_p ?ps1) (ps_p ps)" "length (ps_p ?ps1) < length (ps_p ps)"
    using next_suffix next_shorter [OF assms(2)] by auto
  have new: "atom_fwd N ?ps1 (let (ok, ps2) = airy_re_ast_new ?ps1 in (if ok then Some a else None, ps2))"
    if "re_atomic a" "re_shape N a" for a
    using that by (simp add: airy_re_ast_new_def atom_fwd_def)
  have "re_simple_atom ps ?ch = (None, ps_fail ps) \<or> atom_fwd N ?ps1 (re_simple_atom ps ?ch)"
    using new [of "AIRY_RE_A_ANCHOR (nat ?ch)"] new [of AIRY_RE_A_ANY] class_fwd escape_fwd char_fwd
    unfolding re_simple_atom_def Let_def by simp
  then show ?thesis
  proof
    assume "atom_fwd N ?ps1 (re_simple_atom ps ?ch)"
    then have f: "suffix (ps_p ps') (ps_p ?ps1)" "\<forall>x. r = Some x \<longrightarrow> re_atomic x \<and> re_shape N x"
      using assms(1) by (simp_all add: atom_fwd_def)
    then show ?thesis using 1 suffix_length_le [OF f(1)] suffix_order.trans [OF f(1) 1(1)] by auto
  qed (use assms(1) in simp)
qed

subsection \<open>Shape of the trees\<close>

definition parsed_ok :: "nat \<Rightarrow> re_parser \<Rightarrow> re_ast list \<times> re_parser \<Rightarrow> bool" where
  "parsed_ok N ps = (\<lambda>(r, ps'). suffix (ps_p ps') (ps_p ps) \<and> length r \<le> N \<and> list_all (re_shape N) r)"

definition alt_spec :: "nat \<Rightarrow> nat \<Rightarrow> bool" where
  "alt_spec N f = (\<forall>ps r. airy_re_parse_alt f ps = Some r \<and> length (ps_p ps) \<le> N \<longrightarrow> parsed_ok N ps r)"

definition loop_spec :: "nat \<Rightarrow> nat \<Rightarrow> bool" where
  "loop_spec N f = (\<forall>left ps r. re_alt_loop f left ps = Some r \<and> length (ps_p ps) \<le> N \<and>
     length left \<le> N \<and> list_all (re_shape N) left \<longrightarrow> parsed_ok N ps r)"

definition concat_spec :: "nat \<Rightarrow> nat \<Rightarrow> bool" where
  "concat_spec N f = (\<forall>acc ps r. airy_re_parse_concat f acc ps = Some r \<and>
     length acc + length (ps_p ps) \<le> N \<and> list_all (re_shape N) acc \<longrightarrow> parsed_ok N ps r)"

definition atom_ok :: "nat \<Rightarrow> re_parser \<Rightarrow> re_ast option \<times> re_parser \<Rightarrow> bool" where
  "atom_ok N ps = (\<lambda>(a, ps'). suffix (ps_p ps') (ps_p ps) \<and>
     (\<forall>x. a = Some x \<longrightarrow> re_atomic x \<and> re_shape N x \<and> length (ps_p ps') < length (ps_p ps)))"

definition atom_spec :: "nat \<Rightarrow> nat \<Rightarrow> bool" where
  "atom_spec N f = (\<forall>ps r. airy_re_atom f (airy_re_peek ps) ps = Some r \<and> 0 \<le> airy_re_peek ps \<and>
     length (ps_p ps) \<le> N \<longrightarrow> atom_ok N ps r)"

definition group_spec :: "nat \<Rightarrow> nat \<Rightarrow> bool" where
  "group_spec N f = (\<forall>ps r. airy_re_group f ps = Some r \<and> length (ps_p ps) \<le> N \<longrightarrow> atom_fwd N ps r)"

lemma alt_specD:
  "alt_spec N f \<Longrightarrow> airy_re_parse_alt f ps = Some r \<Longrightarrow> length (ps_p ps) \<le> N \<Longrightarrow> parsed_ok N ps r"
  unfolding alt_spec_def by blast

lemma loop_specD:
  "loop_spec N f \<Longrightarrow> re_alt_loop f left ps = Some r \<Longrightarrow> length (ps_p ps) \<le> N \<Longrightarrow> length left \<le> N \<Longrightarrow>
   list_all (re_shape N) left \<Longrightarrow> parsed_ok N ps r"
  unfolding loop_spec_def by blast

lemma concat_specD:
  "concat_spec N f \<Longrightarrow> airy_re_parse_concat f acc ps = Some r \<Longrightarrow> length acc + length (ps_p ps) \<le> N \<Longrightarrow>
   list_all (re_shape N) acc \<Longrightarrow> parsed_ok N ps r"
  unfolding concat_spec_def by blast

lemma atom_specD:
  "atom_spec N f \<Longrightarrow> airy_re_atom f (airy_re_peek ps) ps = Some r \<Longrightarrow> 0 \<le> airy_re_peek ps \<Longrightarrow>
   length (ps_p ps) \<le> N \<Longrightarrow> atom_ok N ps r"
  unfolding atom_spec_def by blast

lemma group_specD:
  "group_spec N f \<Longrightarrow> airy_re_group f ps = Some r \<Longrightarrow> length (ps_p ps) \<le> N \<Longrightarrow> atom_fwd N ps r"
  unfolding group_spec_def by blast

lemma parsed_ok_trans: "parsed_ok N ps1 r \<Longrightarrow> suffix (ps_p ps1) (ps_p ps) \<Longrightarrow> parsed_ok N ps r"
  by (auto simp: parsed_ok_def intro: suffix_order.trans)

lemma alt_step: "concat_spec N f \<Longrightarrow> loop_spec N f \<Longrightarrow> alt_spec N (Suc f)"
  unfolding alt_spec_def
proof (intro allI impI)
  fix ps r
  assume c: "concat_spec N f" and l: "loop_spec N f" and r: "airy_re_parse_alt (Suc f) ps = Some r \<and> length (ps_p ps) \<le> N"
  then obtain left ps1 where 1: "airy_re_parse_concat f [] ps = Some (left, ps1)"
    and 2: "(if left = [] \<and> ps_error ps1 then Some ([], ps1) else re_alt_loop f left ps1) = Some r"
    by (auto simp: bind_eq_Some_conv)
  have p: "parsed_ok N ps (left, ps1)" using concat_specD [OF c 1] r by simp
  then have "length (ps_p ps1) \<le> N" using r by (auto simp: parsed_ok_def dest: suffix_length_le)
  with l p have "parsed_ok N ps1 r" if "re_alt_loop f left ps1 = Some r"
    using loop_specD [OF l that] by (simp add: parsed_ok_def)
  then show "parsed_ok N ps r" using 2 p parsed_ok_trans [of N ps1 r ps] by (auto simp: parsed_ok_def split: if_splits)
qed

lemma loop_step:
  assumes c: "concat_spec N f" and l: "loop_spec N f"
  shows "loop_spec N (Suc f)"
  unfolding loop_spec_def
proof (intro allI impI)
  fix left ps r
  assume a: "re_alt_loop (Suc f) left ps = Some r \<and> length (ps_p ps) \<le> N \<and> length left \<le> N \<and> list_all (re_shape N) left"
  show "parsed_ok N ps r"
  proof (cases "airy_re_peek ps = code (CHR ''|'')")
    case False
    then show ?thesis using a by (auto simp: parsed_ok_def)
  next
    case True
    let ?ps1 = "snd (airy_re_next ps)"
    have "0 \<le> airy_re_peek ps" unfolding True by (simp add: code_def)
    then have n: "length (ps_p ?ps1) < length (ps_p ps)" by (rule next_shorter)
    obtain right ps2 where 1: "airy_re_parse_concat f [] ?ps1 = Some (right, ps2)"
      using a True by (auto simp: bind_eq_Some_conv)
    have "parsed_ok N ?ps1 (right, ps2)" using concat_specD [OF c 1] n a by simp
    then have p: "parsed_ok N ps (right, ps2)" using next_suffix by (rule parsed_ok_trans)
    obtain ok ps3 where 3: "airy_re_ast_new ps2 = (ok, ps3)" by (cases "airy_re_ast_new ps2")
    have r: "(if right = [] then Some ([], ps2) else if \<not> ok then Some ([], ps3)
        else re_alt_loop f [AIRY_RE_A_ALT left right] ps3) = Some r"
      using a True 1 3 by (simp split: if_splits)
    have s3: "suffix (ps_p ps3) (ps_p ps)" using p ast_new_p [OF 3] by (simp add: parsed_ok_def)
    have "parsed_ok N ps3 r" if "re_alt_loop f [AIRY_RE_A_ALT left right] ps3 = Some r"
      using loop_specD [OF l that] a p n suffix_length_le [OF s3] by (simp add: parsed_ok_def)
    then show ?thesis using r p s3 parsed_ok_trans [of N ps3 r ps] by (auto simp: parsed_ok_def split: if_splits)
  qed
qed

lemma concat_step:
  assumes at: "atom_spec N f" and c: "concat_spec N f"
  shows "concat_spec N (Suc f)"
  unfolding concat_spec_def
proof (intro allI impI)
  fix acc ps r
  let ?ch = "airy_re_peek ps"
  assume a: "airy_re_parse_concat (Suc f) acc ps = Some r \<and> length acc + length (ps_p ps) \<le> N \<and> list_all (re_shape N) acc"
  show "parsed_ok N ps r"
  proof (cases "?ch < 0 \<or> ?ch = code (CHR '')'') \<or> ?ch = code (CHR ''|'')")
    case True
    then show ?thesis using a by (auto simp: parsed_ok_def Let_def)
  next
    case False
    obtain atom ps1 where 1: "airy_re_atom f ?ch ps = Some (atom, ps1)"
      using a False by (auto simp: Let_def bind_eq_Some_conv)
    have p: "atom_ok N ps (atom, ps1)" using atom_specD [OF at 1] a False by simp
    show ?thesis
    proof (cases atom)
      case None
      then show ?thesis using a False 1 p by (auto simp: Let_def parsed_ok_def atom_ok_def)
    next
      case (Some x)
      obtain y ps2 where 2: "airy_re_repeat ps1 x = Some (y, ps2)"
        using a False 1 Some by (auto simp: Let_def bind_eq_Some_conv)
      have q: "suffix (ps_p ps2) (ps_p ps1) \<and> (\<forall>x. y = Some x \<longrightarrow> re_shape N x)"
        using parse_repeat_ok [OF 2, of N] p Some by (simp add: atom_ok_def)
      have s2: "suffix (ps_p ps2) (ps_p ps)" using p q by (auto simp: atom_ok_def intro: suffix_order.trans)
      have less: "length (ps_p ps2) < length (ps_p ps)"
        using p q Some by (auto simp: atom_ok_def dest: suffix_length_le)
      show ?thesis
      proof (cases y)
        case None
        then show ?thesis using a False 1 Some 2 s2 by (auto simp: Let_def parsed_ok_def)
      next
        case y: (Some z)
        have 3: "airy_re_parse_concat f (acc @ [z]) ps2 = Some r" using a False 1 Some 2 y by (simp add: Let_def)
        have "parsed_ok N ps2 r" using concat_specD [OF c 3] a q y less by simp
        then show ?thesis using s2 by (rule parsed_ok_trans)
      qed
    qed
  qed
qed

lemma atom_step: "group_spec N f \<Longrightarrow> atom_spec N (Suc f)"
  unfolding atom_spec_def
proof (intro allI impI)
  fix ps r
  assume g: "group_spec N f"
    and a: "airy_re_atom (Suc f) (airy_re_peek ps) ps = Some r \<and> 0 \<le> airy_re_peek ps \<and> length (ps_p ps) \<le> N"
  have n: "length (ps_p (snd (airy_re_next ps))) < length (ps_p ps)" using a next_shorter by simp
  show "atom_ok N ps r"
  proof (cases "airy_re_peek ps = code (CHR ''('')")
    case True
    then have 1: "airy_re_group f (snd (airy_re_next ps)) = Some r" using a by simp
    have r: "suffix (ps_p (snd r)) (ps_p (snd (airy_re_next ps)))" "\<forall>x. fst r = Some x \<longrightarrow> re_atomic x \<and> re_shape N x"
      using group_specD [OF g 1] a n by (auto simp: atom_fwd_def)
    then have "suffix (ps_p (snd r)) (ps_p ps)" "length (ps_p (snd r)) < length (ps_p ps)"
      using next_suffix n suffix_length_le [OF r(1)] by (auto intro: suffix_order.trans)
    then show ?thesis using r(2) by (auto simp: atom_ok_def)
  next
    case False
    then have "r = re_simple_atom ps (airy_re_peek ps)" using a by simp
    then show ?thesis using simple_atom_ok [of ps "fst r" "snd r" N] a by (auto simp: atom_ok_def)
  qed
qed

lemma group_step:
  assumes al: "alt_spec N f"
  shows "group_spec N (Suc f)"
  unfolding group_spec_def
proof (intro allI impI)
  fix ps r
  assume a: "airy_re_group (Suc f) ps = Some r \<and> length (ps_p ps) \<le> N"
  show "atom_fwd N ps r"
  proof (cases "ngroups ps \<ge> AIRY_RE_MAX_GROUPS - 1")
    case True
    then show ?thesis using a by (auto simp: atom_fwd_def)
  next
    case False
    obtain inner ps1 where 1: "airy_re_parse_alt f (ps\<lparr>ngroups := ngroups ps + 1\<rparr>) = Some (inner, ps1)"
      using a False by (auto simp: Let_def bind_eq_Some_conv)
    have p: "parsed_ok N ps (inner, ps1)" using alt_specD [OF al 1] a by (simp add: parsed_ok_def)
    obtain ok ps2 where 2: "airy_re_ast_new (snd (airy_re_next ps1)) = (ok, ps2)"
      by (cases "airy_re_ast_new (snd (airy_re_next ps1))")
    have "suffix (ps_p ps2) (ps_p ps1)" using ast_new_p [OF 2] next_suffix by simp
    then have "suffix (ps_p ps2) (ps_p ps)" using p by (auto simp: parsed_ok_def intro: suffix_order.trans)
    moreover have "ngroups ps + 1 < AIRY_RE_MAX_GROUPS" using False by linarith
    ultimately show ?thesis using a False 1 2 p by (auto simp: Let_def parsed_ok_def atom_fwd_def split: if_splits)
  qed
qed

lemma parser_specs: "alt_spec N f \<and> loop_spec N f \<and> concat_spec N f \<and> atom_spec N f \<and> group_spec N f"
proof (induction f)
  case 0
  show ?case by (simp add: alt_spec_def loop_spec_def concat_spec_def atom_spec_def group_spec_def)
next
  case (Suc f)
  then show ?case by (simp add: alt_step loop_step concat_step atom_step group_step)
qed

subsection \<open>The parser returns\<close>

text \<open>No decimal number of the text exceeds \<open>INT_MAX\<close>.\<close>

definition re_ints_ok :: "cstr \<Rightarrow> bool" where
  "re_ints_ok cs = list_all (\<lambda>k. re_digits_loop 0 (drop k cs) \<noteq> None) [0..<length cs]"

lemma ints_ok_iff: "re_ints_ok cs \<longleftrightarrow> (\<forall>k < length cs. re_digits_loop 0 (drop k cs) \<noteq> None)"
  unfolding re_ints_ok_def list_all_iff by auto

lemma ints_ok_suffix: "re_ints_ok cs \<Longrightarrow> suffix ds cs \<Longrightarrow> re_ints_ok ds"
proof -
  assume a: "re_ints_ok cs" "suffix ds cs"
  then obtain pre where cs: "cs = pre @ ds" by (auto simp: suffix_def)
  have "re_digits_loop 0 (drop k ds) \<noteq> None" if "k < length ds" for k
  proof -
    have "drop (length pre + k) cs = drop k ds" by (simp add: cs)
    moreover have "length pre + k < length cs" using that by (simp add: cs)
    ultimately show ?thesis using a(1) unfolding ints_ok_iff by metis
  qed
  then show ?thesis unfolding ints_ok_iff by blast
qed

lemma ints_ok_digits: "re_ints_ok cs \<Longrightarrow> re_digits_loop 0 cs \<noteq> None"
  unfolding ints_ok_iff by (cases cs) (force simp del: re_digits_loop.simps(2))+

lemma digits_returns: "re_ints_ok (ps_p ps) \<Longrightarrow> \<exists>n ps'. airy_re_digits ps = Some (n, ps')"
  using ints_ok_digits by (fastforce simp: airy_re_digits_def)

lemma bounds_returns: "re_ints_ok (ps_p ps) \<Longrightarrow> \<exists>b ps'. airy_re_bounds ps = Some (b, ps')"
proof -
  assume ok: "re_ints_ok (ps_p ps)"
  then obtain n ps1 where 1: "airy_re_digits ps = Some (n, ps1)" using digits_returns by blast
  then have "re_ints_ok (ps_p (snd (airy_re_next ps1)))"
    using digits_suffix [OF 1] next_suffix ints_ok_suffix ok by blast
  then obtain m ps2 where 2: "airy_re_digits (snd (airy_re_next ps1)) = Some (m, ps2)" using digits_returns by blast
  show ?thesis using 1 2 by (auto simp: airy_re_bounds_def)
qed

lemma repeat_returns:
  assumes "re_ints_ok (ps_p ps)"
  shows "\<exists>r ps'. airy_re_repeat ps a = Some (r, ps')"
proof -
  obtain ok ps2 where new: "airy_re_ast_new (snd (airy_re_next ps)) = (ok, ps2)"
    by (cases "airy_re_ast_new (snd (airy_re_next ps))")
  have "re_ints_ok (ps_p ps2)" using ast_new_p [OF new] ints_ok_suffix [OF assms next_suffix] by simp
  then obtain b ps3 where b: "airy_re_bounds ps2 = Some (b, ps3)" using bounds_returns by blast
  let ?B = "if airy_re_peek ps = code (CHR ''*'') then Some (Some (0, - 1), ps2)
      else if airy_re_peek ps = code (CHR ''+'') then Some (Some (1, - 1), ps2)
      else if airy_re_peek ps = code (CHR ''?'') then Some (Some (0, 1), ps2) else airy_re_bounds ps2"
  have "?B \<noteq> None" by (simp add: b)
  then obtain b' ps4 where b': "?B = Some (b', ps4)" by fast
  show ?thesis
    unfolding airy_re_repeat_def Let_def new prod.case b' bind_simps
    by (cases b') (simp_all add: split_beta)
qed

definition fuel_enough :: "nat \<Rightarrow> bool" where
  "fuel_enough f = (\<forall>ps. re_ints_ok (ps_p ps) \<longrightarrow>
     (5 * length (ps_p ps) + 4 \<le> f \<longrightarrow> airy_re_parse_alt f ps \<noteq> None) \<and>
     (5 * length (ps_p ps) + 3 \<le> f \<longrightarrow> (\<forall>left. re_alt_loop f left ps \<noteq> None)) \<and>
     (5 * length (ps_p ps) + 3 \<le> f \<longrightarrow> (\<forall>acc. airy_re_parse_concat f acc ps \<noteq> None)) \<and>
     (5 * length (ps_p ps) + 2 \<le> f \<and> 0 \<le> airy_re_peek ps \<longrightarrow> airy_re_atom f (airy_re_peek ps) ps \<noteq> None) \<and>
     (5 * length (ps_p ps) + 5 \<le> f \<longrightarrow> airy_re_group f ps \<noteq> None))"

lemma fuel_enoughD:
  assumes "fuel_enough f" and "re_ints_ok (ps_p ps)"
  shows "5 * length (ps_p ps) + 4 \<le> f \<Longrightarrow> \<exists>r ps'. airy_re_parse_alt f ps = Some (r, ps')"
    and "5 * length (ps_p ps) + 3 \<le> f \<Longrightarrow> \<exists>r ps'. re_alt_loop f left ps = Some (r, ps')"
    and "5 * length (ps_p ps) + 3 \<le> f \<Longrightarrow> \<exists>r ps'. airy_re_parse_concat f acc ps = Some (r, ps')"
    and "5 * length (ps_p ps) + 2 \<le> f \<Longrightarrow> 0 \<le> airy_re_peek ps \<Longrightarrow> \<exists>r ps'. airy_re_atom f (airy_re_peek ps) ps = Some (r, ps')"
    and "5 * length (ps_p ps) + 5 \<le> f \<Longrightarrow> \<exists>r ps'. airy_re_group f ps = Some (r, ps')"
  using assms unfolding fuel_enough_def by auto

lemma concat_suffix: "airy_re_parse_concat f [] ps = Some (r, ps') \<Longrightarrow> suffix (ps_p ps') (ps_p ps)"
  using concat_specD [of "length (ps_p ps)" f "[]" ps] parser_specs by (simp add: parsed_ok_def)

lemma alt_fuel:
  assumes F: "fuel_enough f" and ok: "re_ints_ok (ps_p ps)" and f: "5 * length (ps_p ps) + 4 \<le> Suc f"
  shows "airy_re_parse_alt (Suc f) ps \<noteq> None"
proof -
  obtain left ps1 where 1: "airy_re_parse_concat f [] ps = Some (left, ps1)" using fuel_enoughD(3) [OF F ok, of "[]"] f by auto
  note s = concat_suffix [OF 1]
  have "5 * length (ps_p ps1) + 3 \<le> f" using f suffix_length_le [OF s] by simp
  then show ?thesis using 1 fuel_enoughD(2) [OF F ints_ok_suffix [OF ok s], of left] by auto
qed

lemma loop_fuel:
  assumes F: "fuel_enough f" and ok: "re_ints_ok (ps_p ps)" and f: "5 * length (ps_p ps) + 3 \<le> Suc f"
  shows "re_alt_loop (Suc f) left ps \<noteq> None"
proof (cases "airy_re_peek ps = code (CHR ''|'')")
  case True
  let ?ps1 = "snd (airy_re_next ps)"
  have "0 \<le> airy_re_peek ps" unfolding True by (simp add: code_def)
  then have n: "length (ps_p ?ps1) < length (ps_p ps)" by (rule next_shorter)
  note ok1 = ints_ok_suffix [OF ok next_suffix]
  obtain right ps2 where 2: "airy_re_parse_concat f [] ?ps1 = Some (right, ps2)"
    using fuel_enoughD(3) [OF F ok1, of "[]"] f n by auto
  note s = concat_suffix [OF 2]
  obtain ok' ps3 where 3: "airy_re_ast_new ps2 = (ok', ps3)" by (cases "airy_re_ast_new ps2")
  have ok3: "re_ints_ok (ps_p ps3)" using ast_new_p [OF 3] ints_ok_suffix [OF ok1 s] by simp
  have "5 * length (ps_p ps3) + 3 \<le> f" using f n suffix_length_le [OF s] ast_new_p [OF 3] by simp
  then show ?thesis using True 2 3 fuel_enoughD(2) [OF F ok3, of "[AIRY_RE_A_ALT left right]"] by auto
qed simp

lemma concat_fuel:
  assumes F: "fuel_enough f" and ok: "re_ints_ok (ps_p ps)" and f: "5 * length (ps_p ps) + 3 \<le> Suc f"
  shows "airy_re_parse_concat (Suc f) acc ps \<noteq> None"
proof (cases "airy_re_peek ps < 0 \<or> airy_re_peek ps = code (CHR '')'') \<or> airy_re_peek ps = code (CHR ''|'')")
  case False
  obtain atom ps1 where 1: "airy_re_atom f (airy_re_peek ps) ps = Some (atom, ps1)"
    using fuel_enoughD(4) [OF F ok] f False by auto
  have p: "atom_ok (length (ps_p ps)) ps (atom, ps1)" using atom_specD [OF _ 1] parser_specs False by simp
  show ?thesis
  proof (cases atom)
    case (Some x)
    have ok1: "re_ints_ok (ps_p ps1)" using p ints_ok_suffix [OF ok] by (simp add: atom_ok_def)
    obtain y ps2 where 2: "airy_re_repeat ps1 x = Some (y, ps2)" using repeat_returns [OF ok1] by blast
    have s2: "suffix (ps_p ps2) (ps_p ps1)" using parse_repeat_ok [OF 2, of "length (ps_p ps)"] p Some by (simp add: atom_ok_def)
    have "length (ps_p ps2) < length (ps_p ps)" using p Some suffix_length_le [OF s2] by (simp add: atom_ok_def)
    then show ?thesis using 1 2 Some False f fuel_enoughD(3) [OF F ints_ok_suffix [OF ok1 s2], of "acc @ [the y]"]
      by (cases y) (auto simp: Let_def)
  qed (use 1 in \<open>simp add: Let_def\<close>)
qed (simp add: Let_def)

lemma atom_fuel:
  assumes F: "fuel_enough f" and ok: "re_ints_ok (ps_p ps)" and f: "5 * length (ps_p ps) + 2 \<le> Suc f" "0 \<le> airy_re_peek ps"
  shows "airy_re_atom (Suc f) (airy_re_peek ps) ps \<noteq> None"
  using fuel_enoughD(5) [OF F ints_ok_suffix [OF ok next_suffix]] next_shorter [OF f(2)] f(1) by fastforce

lemma group_fuel:
  assumes F: "fuel_enough f" and ok: "re_ints_ok (ps_p ps)" and f: "5 * length (ps_p ps) + 5 \<le> Suc f"
  shows "airy_re_group (Suc f) ps \<noteq> None"
proof -
  let ?ps1 = "ps\<lparr>ngroups := ngroups ps + 1\<rparr>"
  have "re_ints_ok (ps_p ?ps1)" "5 * length (ps_p ?ps1) + 4 \<le> f" using ok f by simp_all
  then obtain r ps2 where "airy_re_parse_alt f ?ps1 = Some (r, ps2)" using fuel_enoughD(1) [OF F] by blast
  then show ?thesis by (auto simp: Let_def split_beta)
qed

lemma parser_fuel: "fuel_enough f"
proof (induction f)
  case 0
  show ?case by (simp add: fuel_enough_def)
next
  case (Suc f)
  note steps = alt_fuel [OF Suc] loop_fuel [OF Suc] concat_fuel [OF Suc] atom_fuel [OF Suc] group_fuel [OF Suc]
  show ?case unfolding fuel_enough_def using steps by blast
qed

lemma parse_returns: "re_ints_ok (ps_p ps) \<Longrightarrow> \<exists>r ps'. airy_re_parse_alt (re_fuel (ps_p ps)) ps = Some (r, ps')"
  using fuel_enoughD(1) [OF parser_fuel] by (simp add: re_fuel_def)

end
