(* ===== verification/Regex_Match.thy ===== *)
theory Regex_Match
  imports Regex_Vm Regex_Syntax
begin

section \<open>Regular expressions: what the interface promises\<close>

text \<open>
  Parser, compiler and executor together: \<open>regcomp\<close> and \<open>regexec\<close> return on every input, and the answer of
  \<open>regexec\<close> is the one that the syntax tree of the pattern calls for.
\<close>

subsection \<open>Long sequences\<close>

text \<open>The compiler reads at most 256 nodes of a sequence; \<open>re_cut\<close> is the tree it sees.\<close>

fun re_cut :: "re_ast \<Rightarrow> re_ast" where
  "re_cut (AIRY_RE_A_ALT xs ys) = AIRY_RE_A_ALT (take 256 (map re_cut xs)) (take 256 (map re_cut ys))"
| "re_cut (AIRY_RE_A_GROUP gid xs) = AIRY_RE_A_GROUP gid (take 256 (map re_cut xs))"
| "re_cut (AIRY_RE_A_REPEAT x lo hi g) = AIRY_RE_A_REPEAT (re_cut x) lo hi g"
| "re_cut x = x"

definition re_cuts :: "re_ast list \<Rightarrow> re_ast list" where
  "re_cuts xs = take 256 (map re_cut xs)"

lemma cut_atomic: "re_atomic (re_cut x) = re_atomic x"
  by (cases x) simp_all

lemma cut_shape: "re_shape N x \<Longrightarrow> re_shape 256 (re_cut x)"
proof (induction x)
  case (AIRY_RE_A_ALT xs ys)
  then show ?case by (auto simp: list_all_iff dest!: in_set_takeD)
next
  case (AIRY_RE_A_GROUP gid xs)
  then show ?case by (auto simp: list_all_iff dest!: in_set_takeD)
qed (auto simp: cut_atomic)

lemma cut_id: "re_shape N x \<Longrightarrow> N \<le> 256 \<Longrightarrow> re_cut x = x"
proof (induction x)
  case (AIRY_RE_A_ALT xs ys)
  then have "map re_cut xs = xs" "map re_cut ys = ys" by (auto simp: list_all_iff intro!: map_idI)
  then show ?case using AIRY_RE_A_ALT by simp
next
  case (AIRY_RE_A_GROUP gid xs)
  then have "map re_cut xs = xs" by (auto simp: list_all_iff intro!: map_idI)
  then show ?case using AIRY_RE_A_GROUP by simp
qed auto

lemma nodes_cut:
  "(\<And>x co cont. x \<in> set xs \<Longrightarrow> airy_re_compile_one co (re_cut x) cont = airy_re_compile_one co x cont) \<Longrightarrow>
   re_compile_nodes co (map re_cut xs) after = re_compile_nodes co xs after"
proof (induction xs arbitrary: co after)
  case (Cons x xs)
  have "airy_re_compile_one co (re_cut x) cont = airy_re_compile_one co x cont" for co cont using Cons.prems by simp
  moreover have "re_compile_nodes co (map re_cut xs) after = re_compile_nodes co xs after"
    using Cons.IH Cons.prems by simp
  ultimately show ?case by (simp cong: if_cong)
qed simp

lemma seq_cut:
  assumes "\<And>x co cont. x \<in> set xs \<Longrightarrow> airy_re_compile_one co (re_cut x) cont = airy_re_compile_one co x cont"
  shows "airy_re_compile_seq co (take 256 (map re_cut xs)) after = airy_re_compile_seq co xs after"
  using nodes_cut [of "take 256 xs" co after] assms by (auto simp: take_map dest: in_set_takeD)

lemma compile_cut: "airy_re_compile_one co (re_cut x) after = airy_re_compile_one co x after"
proof (induction x arbitrary: co after)
  case (AIRY_RE_A_ALT xs ys)
  have "airy_re_compile_seq co (take 256 (map re_cut xs)) after = airy_re_compile_seq co xs after"
    "airy_re_compile_seq co (take 256 (map re_cut ys)) after = airy_re_compile_seq co ys after" for co after
    using AIRY_RE_A_ALT.IH by (intro seq_cut; blast)+
  then show ?case unfolding re_cut.simps airy_re_compile_one.simps by presburger
next
  case (AIRY_RE_A_GROUP gid xs)
  have "airy_re_compile_seq co (take 256 (map re_cut xs)) after = airy_re_compile_seq co xs after" for co after
    using AIRY_RE_A_GROUP.IH by (intro seq_cut; blast)
  then show ?case unfolding re_cut.simps airy_re_compile_one.simps by presburger
next
  case (AIRY_RE_A_REPEAT x lo hi g)
  then show ?case by simp
qed simp_all

lemma compile_seq_cuts:
  assumes "list_all (re_shape N) xs"
  shows "seq_ok co (re_cuts xs) after" and "airy_re_compile_seq co (re_cuts xs) after = airy_re_compile_seq co xs after"
proof -
  have "re_shape 256 (re_cut x)" if "x \<in> set xs" for x
    using assms that cut_shape by (simp add: list_all_iff) blast
  then have "list_all (re_shape 256) (re_cuts xs)" by (auto simp: re_cuts_def list_all_iff dest!: in_set_takeD)
  then show "seq_ok co (re_cuts xs) after" by (rule compile_seq_ok) (simp add: re_cuts_def)
  show "airy_re_compile_seq co (re_cuts xs) after = airy_re_compile_seq co xs after"
    unfolding re_cuts_def by (rule seq_cut) (simp add: compile_cut)
qed

lemma cuts_id: "list_all (re_shape N) xs \<Longrightarrow> length xs \<le> N \<Longrightarrow> N \<le> 256 \<Longrightarrow> re_cuts xs = xs"
  by (auto simp: re_cuts_def list_all_iff cut_id intro!: map_idI)

subsection \<open>regcomp\<close>

definition re_parsed :: "nat \<Rightarrow> cstr \<Rightarrow> (re_ast list \<times> re_parser) option" where
  "re_parsed mem pat = airy_re_parse_alt (re_fuel pat) \<lparr>ps_p = pat, ngroups = 0, ps_error = False, ps_mem = mem - 1\<rparr>"

lemma re_parsed_shape:
  "re_parsed mem pat = Some (root, ps) \<Longrightarrow> list_all (re_shape (length pat)) root \<and> length root \<le> length pat"
  unfolding re_parsed_def using alt_specD [of "length pat"] parser_specs [of "length pat"]
  by (fastforce simp: parsed_ok_def)

lemma regcomp_program:
  assumes "airy_re_regcomp mem (Some re0) (Some pat) cflags = Some (0, Some re)"
  shows "\<exists>root ps. re_parsed mem pat = Some (root, ps) \<and>
    re_program (re_insts re) (re_tables re) (re_prog re) (\<lambda>s. re_matches s (re_cuts root))
      (list_all re_stars_ok (re_cuts root)) (\<lambda>n. re_costs n (re_cuts root))"
proof -
  let ?co = "\<lambda>ps. \<lparr>co_all = [], co_tables = [], co_error = False, co_mem = ps_mem ps\<rparr>"
  obtain root ps where p: "re_parsed mem pat = Some (root, ps)" and ne: "\<not> (root = [] \<or> ps_error ps)"
    using assms by (auto simp: airy_re_regcomp_def re_parsed_def bind_eq_Some_conv split: if_splits)
  note sh = compile_seq_cuts [OF conjunct1 [OF re_parsed_shape [OF p]], of "?co ps" None]
  obtain prog co where c: "airy_re_compile_seq (?co ps) root None = Some (prog, co)"
    and re: "prog \<noteq> None" "re_prog re = prog" "re_insts re = co_all co" "re_tables re = co_tables co"
    using assms p ne by (auto simp: airy_re_regcomp_def re_parsed_def bind_eq_Some_conv split: if_splits)
  have "compiled (?co ps) co prog None (\<lambda>s. re_matches s (re_cuts root)) (list_all re_stars_ok (re_cuts root))
      (\<lambda>n. re_costs n (re_cuts root)) False"
    using sh(1) c re(1) unfolding seq_ok_def sh(2) by simp
  from compiled_program [OF this _ _ re(1)] show ?thesis using p re by auto
qed

lemma regcomp_returns:
  assumes "re_ints_ok pat"
  shows "\<exists>ret re. airy_re_regcomp mem (Some re0) (Some pat) cflags = Some (ret, Some re) \<and> (ret = 0 \<or> ret = - 1)"
proof -
  let ?ps = "\<lparr>ps_p = pat, ngroups = 0, ps_error = False, ps_mem = mem - 1\<rparr>"
  obtain root ps where p: "airy_re_parse_alt (re_fuel pat) ?ps = Some (root, ps)"
    using parse_returns [of ?ps] assms by auto
  have "re_parsed mem pat = Some (root, ps)" using p by (simp add: re_parsed_def)
  note sh = compile_seq_cuts [OF conjunct1 [OF re_parsed_shape [OF this]],
      of "\<lparr>co_all = [], co_tables = [], co_error = False, co_mem = ps_mem ps\<rparr>" None]
  obtain prog co where "airy_re_compile_seq \<lparr>co_all = [], co_tables = [], co_error = False, co_mem = ps_mem ps\<rparr> root None = Some (prog, co)"
    using sh unfolding seq_ok_def by auto
  then show ?thesis using p by (simp add: airy_re_regcomp_def del: airy_re_compile_seq.simps)
qed

lemma regexec_program:
  assumes p: "re_program (re_insts re) (re_tables re) (re_prog re) R C c"
  shows "\<exists>ret m. airy_re_regexec (Some re) (Some s) nmatch = Some (ret, m) \<and> ret \<in> {0, REG_NOMATCH, - 1} \<and>
    (ret = 0 \<longrightarrow> re_found R s 0 \<and> length m = min nmatch AIRY_RE_MAX_GROUPS) \<and> (ret = REG_NOMATCH \<longrightarrow> \<not> re_found R s 0) \<and>
    (C \<and> 1 + c (length s) \<le> AIRY_RE_MAX_DEPTH \<longrightarrow> ret \<noteq> - 1)"
proof -
  obtain ret caps where s: "re_search re s 0 = Some (ret, caps)"
    and f: "ret \<in> {0, REG_NOMATCH, - 1}" "ret = 0 \<longrightarrow> re_found R s 0" "ret = REG_NOMATCH \<longrightarrow> \<not> re_found R s 0"
      "C \<and> 1 + c (length s) \<le> AIRY_RE_MAX_DEPTH \<longrightarrow> ret \<noteq> - 1"
    using search_ok [OF p, of 0 s] by blast
  have "re_prog re \<noteq> None" using p by (simp add: re_program_def)
  then have "\<exists>m. airy_re_regexec (Some re) (Some s) nmatch = Some (ret, m) \<and> (ret = 0 \<longrightarrow> length m = min nmatch AIRY_RE_MAX_GROUPS)"
    using s by (auto simp: airy_re_regexec_def)
  then show ?thesis using f by blast
qed

subsection \<open>Properties\<close>

text \<open>C2: \<open>regcomp\<close> followed by \<open>regexec\<close> decides matching. Let a pattern of at most 256 characters compile, and
  let its tree have no unbounded repeat of something that can match the empty string, with few enough
  branches for the length of the subject. Then \<open>regexec\<close> returns 0 exactly when some stretch of the subject
  matches the tree, and \<open>REG_NOMATCH\<close> otherwise.\<close>

theorem regexec_decides:
  assumes "airy_re_regcomp mem (Some re0) (Some pat) cflags = Some (0, Some re)" and "length pat \<le> 256"
    and "re_parsed mem pat = Some (root, ps)" and "list_all re_stars_ok root"
    and "1 + re_costs (length s) root \<le> AIRY_RE_MAX_DEPTH"
  shows "map_option fst (airy_re_regexec (Some re) (Some s) nmatch) =
    Some (if \<exists>i j. i \<le> length s \<and> re_matches s root i j then 0 else REG_NOMATCH)"
proof -
  have "re_cuts root = root" using cuts_id re_parsed_shape [OF assms(3)] assms(2) by blast
  then have "re_program (re_insts re) (re_tables re) (re_prog re) (\<lambda>s. re_matches s root)
      (list_all re_stars_ok root) (\<lambda>n. re_costs n root)"
    using regcomp_program [OF assms(1)] assms(3) by auto
  from regexec_program [OF this, of s nmatch] show ?thesis
    using assms(4,5) by (auto simp: re_found_def REG_NOMATCH_def)
qed

text \<open>C28: the engine always returns. Every pattern whose numbers fit an \<open>int\<close> is compiled or refused, and every
  compiled pattern is executed on every subject: the loops over instructions end, the recursion stops at the
  depth limit. The result is 0 with the capture pairs that were asked for, \<open>REG_NOMATCH\<close> or -1.\<close>

theorem regex_returns:
  assumes "re_ints_ok pat"
  shows "\<exists>ret re. airy_re_regcomp mem (Some re0) (Some pat) cflags = Some (ret, Some re) \<and> (ret = 0 \<or> ret = - 1) \<and>
    (\<forall>s nmatch. \<exists>ret' m. airy_re_regexec (Some re) (Some s) nmatch = Some (ret', m) \<and>
       (ret' = 0 \<and> length m = min nmatch AIRY_RE_MAX_GROUPS \<or> ret' = REG_NOMATCH \<or> ret' = - 1))"
proof -
  obtain ret re where r: "airy_re_regcomp mem (Some re0) (Some pat) cflags = Some (ret, Some re)" "ret = 0 \<or> ret = - 1"
    using regcomp_returns [OF assms] by blast
  have "\<exists>ret' m. airy_re_regexec (Some re) (Some s) nmatch = Some (ret', m) \<and>
      (ret' = 0 \<and> length m = min nmatch AIRY_RE_MAX_GROUPS \<or> ret' = REG_NOMATCH \<or> ret' = - 1)" for s nmatch
  proof (cases "ret = 0")
    case True
    then obtain R C c where "re_program (re_insts re) (re_tables re) (re_prog re) R C c"
      using regcomp_program r(1) by blast
    from regexec_program [OF this, of s nmatch] show ?thesis by auto
  next
    case False
    then have "re = zero_regex" using r
      by (auto simp: airy_re_regcomp_def bind_eq_Some_conv split: if_splits)
    then show ?thesis by (simp add: airy_re_regexec_def zero_regex_def)
  qed
  then show ?thesis using r by blast
qed

text \<open>C29: the verdicts are right even when the depth limit strikes, without any condition on the repeats of the
  tree, for a pattern of at most 256 characters. \<open>regexec\<close> returns 0 only if the tree matches somewhere in the
  subject and \<open>REG_NOMATCH\<close> only if it matches nowhere. It returns the error -1 exactly when the search from some
  start position is cut by the limit while from no earlier position the tree matches or the search is cut; and a
  search is cut only if the program really has a path from that position with more branch points than the
  limit allows.\<close>

theorem regexec_sound:
  assumes "airy_re_regcomp mem (Some re0) (Some pat) cflags = Some (0, Some re)" and "length pat \<le> 256"
    and "re_parsed mem pat = Some (root, ps)"
  shows "\<exists>ret m. airy_re_regexec (Some re) (Some s) nmatch = Some (ret, m) \<and> ret \<in> {0, REG_NOMATCH, - 1} \<and>
    (ret = 0 \<longrightarrow> (\<exists>i j. i \<le> length s \<and> re_matches s root i j)) \<and>
    (ret = REG_NOMATCH \<longrightarrow> (\<forall>i j. i \<le> length s \<longrightarrow> \<not> re_matches s root i j)) \<and>
    (ret = - 1 \<longleftrightarrow> (\<exists>k \<le> length s. re_cut_short re s k \<and> (\<forall>i < k. \<not> re_cut_short re s i \<and> (\<nexists>j. re_matches s root i j)))) \<and>
    (\<forall>k. re_cut_short re s k \<longrightarrow>
       \<not> deep_ok (re_insts re) (re_tables re) s (re_prog re) k (AIRY_RE_MAX_DEPTH - 1))"
proof -
  have "re_cuts root = root" using cuts_id re_parsed_shape [OF assms(3)] assms(2) by blast
  then obtain C c where p: "re_program (re_insts re) (re_tables re) (re_prog re) (\<lambda>s. re_matches s root) C c"
    using regcomp_program [OF assms(1)] assms(3) by auto
  from regexec_program [OF p, of s nmatch] obtain ret m where
    r: "airy_re_regexec (Some re) (Some s) nmatch = Some (ret, m)" "ret \<in> {0, REG_NOMATCH, - 1}"
    and v: "ret = 0 \<longrightarrow> (\<exists>i j. i \<le> length s \<and> re_matches s root i j)"
      "ret = REG_NOMATCH \<longrightarrow> (\<forall>i j. i \<le> length s \<longrightarrow> \<not> re_matches s root i j)"
    by (auto simp: re_found_def)
  have "re_prog re \<noteq> None" using p by (simp add: re_program_def)
  then obtain caps where "re_search re s 0 = Some (ret, caps)" using r(1) by (auto simp: airy_re_regexec_def)
  from search_cut [OF p _ this] have "ret = - 1 \<longleftrightarrow>
      (\<exists>k \<le> length s. re_cut_short re s k \<and> (\<forall>i < k. \<not> re_cut_short re s i \<and> (\<nexists>j. re_matches s root i j)))" by auto
  with r v cut_short_deep [OF p, of s] show ?thesis by blast
qed

text \<open>C30: the trees that the parser builds have the shape that compiler and executor rely on: a quantifier
  applies to a single atom and its bounds are in order, a group number is below the size of the capture
  array, and no sequence is longer than the pattern.\<close>

theorem parse_shape:
  "airy_re_parse_alt fuel ps = Some (root, ps') \<Longrightarrow>
     list_all (re_shape (length (ps_p ps))) root \<and> length root \<le> length (ps_p ps) \<and> suffix (ps_p ps') (ps_p ps)"
  using alt_specD [of "length (ps_p ps)" fuel ps] parser_specs [of "length (ps_p ps)"] by (auto simp: parsed_ok_def)

subsection \<open>Instances\<close>

definition sample_pattern :: cstr where "sample_pattern = ''a[bc]*(d|e)''"

definition sample_regex :: airy_regex where
  "sample_regex = the (snd (the (airy_re_regcomp 100 (Some zero_regex) (Some sample_pattern) 0)))"

definition sample_tree :: "re_ast list \<times> re_parser" where
  "sample_tree = the (re_parsed 100 sample_pattern)"

lemma sample_compiles: "airy_re_regcomp 100 (Some zero_regex) (Some sample_pattern) 0 = Some (0, Some sample_regex)"
  by code_simp

lemma sample_parses: "re_parsed 100 sample_pattern = Some (fst sample_tree, snd sample_tree)"
  by code_simp

theorem regexec_decides_witness:
  "map_option fst (airy_re_regexec (Some sample_regex) (Some ''xabcbe'') 2) =
     Some (if \<exists>i j. i \<le> length ''xabcbe'' \<and> re_matches ''xabcbe'' (fst sample_tree) i j then 0 else REG_NOMATCH) \<and>
   map_option fst (airy_re_regexec (Some sample_regex) (Some ''xabcbe'') 2) = Some 0"
proof -
  have "length sample_pattern \<le> 256" by code_simp
  moreover have "list_all re_stars_ok (fst sample_tree)" by code_simp
  moreover have "1 + re_costs (length ''xabcbe'') (fst sample_tree) \<le> AIRY_RE_MAX_DEPTH" by code_simp
  moreover have "map_option fst (airy_re_regexec (Some sample_regex) (Some ''xabcbe'') 2) = Some 0" by code_simp
  ultimately show ?thesis using regexec_decides [OF sample_compiles _ sample_parses] by blast
qed

theorem regex_returns_witness:
  "\<exists>ret re. airy_re_regcomp 100 (Some zero_regex) (Some sample_pattern) 0 = Some (ret, Some re) \<and> (ret = 0 \<or> ret = - 1) \<and>
    (\<forall>s nmatch. \<exists>ret' m. airy_re_regexec (Some re) (Some s) nmatch = Some (ret', m) \<and>
       (ret' = 0 \<and> length m = min nmatch AIRY_RE_MAX_GROUPS \<or> ret' = REG_NOMATCH \<or> ret' = - 1))"
proof (rule regex_returns)
  show "re_ints_ok sample_pattern" by code_simp
qed

theorem regexec_sound_witness:
  "(\<exists>i j. i \<le> length ''acd'' \<and> re_matches ''acd'' (fst sample_tree) i j) \<and>
   \<not> (\<exists>i j. i \<le> length ''bca'' \<and> re_matches ''bca'' (fst sample_tree) i j)"
proof -
  have l: "length sample_pattern \<le> 256" by code_simp
  have "airy_re_regexec (Some sample_regex) (Some ''acd'') 2 = Some (0, [(0, 0), (2, 3)])"
    "airy_re_regexec (Some sample_regex) (Some ''bca'') 2 = Some (REG_NOMATCH, [])" by code_simp+
  with regexec_sound [OF sample_compiles l sample_parses, of "''acd''" 2]
    regexec_sound [OF sample_compiles l sample_parses, of "''bca''" 2] show ?thesis by auto
qed

theorem parse_shape_witness:
  "list_all (re_shape (length sample_pattern)) (fst sample_tree) \<and> length (fst sample_tree) = 3"
proof -
  have "length (fst sample_tree) = 3" by code_simp
  then show ?thesis using parse_shape [OF sample_parses [unfolded re_parsed_def]] by simp
qed

end
