(* ===== verification/Thread_Pool.thy ===== *)
theory Thread_Pool
  imports Err_Codes "HOL-Library.Multiset"
begin

section \<open>Thread pool\<close>

text \<open>
  The worker threads of \<open>utils/sync/thread_pool.c\<close> and their clients, as a system of interleaved steps. The
  shared fields are only touched under the pool's mutex, so a critical section is one step; between two
  critical sections a worker is at one of the program points of \<open>worker_pc\<close>. Task nodes live in a heap, the
  pool itself is \<open>None\<close> once it is freed, and an access to either after that is a fault (\<open>None\<close>). A condition
  variable wakes at least one waiter on a signal and all on a broadcast, and may wake a waiter at any time;
  which ones is part of the schedule, like the addresses that \<open>calloc\<close> returns and the threads that
  cannot be created. Joining a slot of \<open>threads\<close> that holds no thread is undefined behaviour, hence a fault.
\<close>

subsection \<open>Data\<close>

record thread_pool_config =
  min_threads :: u32
  max_threads :: u32
  queue_size :: u32
  idle_timeout_ms :: u32

record task_node =
  tn_fn :: addr
  tn_arg :: "addr option"
  tn_next :: "addr option"

record thread_pool =
  tp_config :: thread_pool_config
  thread_count :: u32
  queue_head :: "addr option"
  queue_tail :: "addr option"
  queue_count :: u32
  active_count :: u32
  running :: bool
  shutdown :: bool

text \<open>Where a worker is: before \<open>airy_mtx_lock\<close> at the top of its loop (or woken and about to test the
  condition again), in \<open>airy_cond_wait\<close>, before the call of the task, before \<open>AIRY_FREE\<close>, before the second
  \<open>airy_mtx_lock\<close>, or returned.\<close>

datatype worker_pc = W_top | W_wait | W_task addr | W_called addr | W_dec | W_exited

text \<open>The thread in \<open>thread_pool_destroy\<close>: not there yet, before joining slot \<open>k\<close>, or returned.\<close>

datatype destroy_pc = D_idle | D_join nat | D_done

type_synonym pool_task = "addr \<times> addr option"

text \<open>The slots of \<open>threads\<close> with the state of their thread. \<open>pw_accepted\<close> and \<open>pw_called\<close> record the submissions
  that returned 0 and the calls of task functions.\<close>

record pool_world =
  pw_heap :: "addr \<Rightarrow> task_node option"
  pw_pool :: "thread_pool option"
  pw_threads :: "worker_pc option list"
  pw_destroy :: destroy_pc
  pw_accepted :: "pool_task list"
  pw_called :: "pool_task list"

subsection \<open>Operations\<close>

definition thread_pool_get_default_config :: thread_pool_config where
  "thread_pool_get_default_config =
     \<lparr>min_threads = 2, max_threads = 8, queue_size = 256, idle_timeout_ms = 30000\<rparr>"

definition num_threads :: "thread_pool_config \<Rightarrow> u32" where
  "num_threads cfg =
     (let n = (if min_threads cfg < 1 then 1 else min_threads cfg)
      in if max_threads cfg < n then max_threads cfg else n)"

text \<open>\<open>mem\<close> and \<open>mem'\<close>: the two allocations succeed; \<open>rc i\<close>: thread \<open>i\<close> is created. \<open>None\<close> is a NULL result.\<close>

definition thread_pool_create ::
  "bool \<Rightarrow> bool \<Rightarrow> (nat \<Rightarrow> bool) \<Rightarrow> thread_pool_config option \<Rightarrow> pool_world option" where
  "thread_pool_create mem mem' rc config =
     (if \<not> mem then None
      else
        let cfg = (case config of Some c \<Rightarrow> c | None \<Rightarrow> thread_pool_get_default_config)
        in if \<not> mem' then None
           else
             let created = filter rc [0..<unat (num_threads cfg)]
             in if created = [] then None
                else Some \<lparr>pw_heap = (\<lambda>_. None),
                       pw_pool = Some \<lparr>tp_config = cfg, thread_count = of_nat (length created),
                         queue_head = None, queue_tail = None, queue_count = 0, active_count = 0,
                         running = True, shutdown = False\<rparr>,
                       pw_threads = map (\<lambda>i. if rc i then Some W_top else None) [0..<unat (num_threads cfg)],
                       pw_destroy = D_idle, pw_accepted = [], pw_called = []\<rparr>)"

definition pool_set_pc :: "nat \<Rightarrow> worker_pc \<Rightarrow> pool_world \<Rightarrow> pool_world" where
  "pool_set_pc i pc w = w\<lparr>pw_threads := (pw_threads w)[i := Some pc]\<rparr>"

text \<open>The first critical section of the worker's loop.\<close>

definition worker_take :: "nat \<Rightarrow> thread_pool \<Rightarrow> pool_world \<Rightarrow> pool_world option" where
  "worker_take i p w =
     (if queue_count p = 0 \<and> \<not> shutdown p then Some (pool_set_pc i W_wait w)
      else if shutdown p \<and> queue_count p = 0 then Some (pool_set_pc i W_exited w)
      else
        (case queue_head p of
           None \<Rightarrow> Some (pool_set_pc i W_top w)
         | Some a \<Rightarrow>
             (case pw_heap w a of
                None \<Rightarrow> None
              | Some n \<Rightarrow>
                  Some (pool_set_pc i (W_task a)
                    (w\<lparr>pw_pool := Some (p\<lparr>queue_head := tn_next n,
                                        queue_tail := (if tn_next n = None then None else queue_tail p),
                                        queue_count := queue_count p - 1,
                                        active_count := active_count p + 1\<rparr>)\<rparr>)))))"

text \<open>One step of worker \<open>i\<close>.\<close>

definition worker_thread_func :: "nat \<Rightarrow> pool_world \<Rightarrow> pool_world option" where
  "worker_thread_func i w =
     (case pw_threads w ! i of
        Some W_top \<Rightarrow> (case pw_pool w of None \<Rightarrow> None | Some p \<Rightarrow> worker_take i p w)
      | Some (W_task a) \<Rightarrow>
          (case pw_heap w a of
             None \<Rightarrow> None
           | Some n \<Rightarrow> Some (pool_set_pc i (W_called a) (w\<lparr>pw_called := pw_called w @ [(tn_fn n, tn_arg n)]\<rparr>)))
      | Some (W_called a) \<Rightarrow>
          (case pw_heap w a of
             None \<Rightarrow> None
           | Some n \<Rightarrow> Some (pool_set_pc i W_dec (w\<lparr>pw_heap := (pw_heap w)(a := None)\<rparr>)))
      | Some W_dec \<Rightarrow>
          (case pw_pool w of
             None \<Rightarrow> None
           | Some p \<Rightarrow> Some (pool_set_pc i W_top (w\<lparr>pw_pool := Some (p\<lparr>active_count := active_count p - 1\<rparr>)\<rparr>)))
      | _ \<Rightarrow> Some w)"

text \<open>The waiters in \<open>is\<close> leave \<open>airy_cond_wait\<close>.\<close>

definition pool_wake :: "nat list \<Rightarrow> pool_world \<Rightarrow> pool_world" where
  "pool_wake is w = w\<lparr>pw_threads := map (\<lambda>i. if i \<in> set is \<and> pw_threads w ! i = Some W_wait
                                          then Some W_top else pw_threads w ! i) [0..<length (pw_threads w)]\<rparr>"

definition pool_waiters :: "pool_world \<Rightarrow> nat list" where
  "pool_waiters w = filter (\<lambda>i. pw_threads w ! i = Some W_wait) [0..<length (pw_threads w)]"

text \<open>
  \<open>mem\<close> is the new node, \<open>woken\<close> the waiters that the signal wakes; \<open>pool = None\<close> is a NULL handle. The call is one
  step, at the moment it holds the lock. What it does before is independent of the other threads:
  \<open>running\<close> is set once by \<open>thread_pool_create\<close> and never changed, and the new node is known to the caller
  only. The read of \<open>queue_count\<close> after the unlock of a full queue goes into the log message and nowhere else.
\<close>

definition thread_pool_submit ::
  "addr option \<Rightarrow> nat list \<Rightarrow> pool_world \<Rightarrow> unit option \<Rightarrow> addr option \<Rightarrow> addr option \<Rightarrow>
     (airy_err \<times> pool_world) option" where
  "thread_pool_submit mem woken w pool task arg =
     (case (pool, task) of
        (Some _, Some fn) \<Rightarrow>
          (case pw_pool w of
             None \<Rightarrow> None
           | Some p \<Rightarrow>
               if \<not> running p then Some (AIRY_ERR_UNKNOWN, w)
               else
                 (case mem of
                    None \<Rightarrow> Some (AIRY_ERR_OUT_OF_MEMORY, w)
                  | Some node \<Rightarrow>
                      let h = (pw_heap w)(node := Some \<lparr>tn_fn = fn, tn_arg = arg, tn_next = None\<rparr>);
                          p' = p\<lparr>queue_tail := Some node, queue_count := queue_count p + 1\<rparr>;
                          acc = pw_accepted w @ [(fn, arg)]
                      in if shutdown p then Some (AIRY_ERR_UNKNOWN, w)
                         else if queue_size (tp_config p) \<le> queue_count p then Some (AIRY_ERR_OVERFLOW, w)
                         else
                           (case queue_tail p of
                              None \<Rightarrow>
                                Some (0, pool_wake woken (w\<lparr>pw_heap := h, pw_pool := Some (p'\<lparr>queue_head := Some node\<rparr>),
                                                            pw_accepted := acc\<rparr>))
                            | Some t \<Rightarrow>
                                (case h t of
                                   None \<Rightarrow> None
                                 | Some n \<Rightarrow>
                                     Some (0, pool_wake woken (w\<lparr>pw_heap := h(t := Some (n\<lparr>tn_next := Some node\<rparr>)),
                                                                 pw_pool := Some p', pw_accepted := acc\<rparr>))))))
      | _ \<Rightarrow> Some (AIRY_ERR_INVALID_PARAM, w))"

definition thread_pool_active_count :: "pool_world \<Rightarrow> unit option \<Rightarrow> u32 option" where
  "thread_pool_active_count w pool =
     (case pool of None \<Rightarrow> Some 0 | Some _ \<Rightarrow> map_option active_count (pw_pool w))"

definition thread_pool_pending_count :: "pool_world \<Rightarrow> unit option \<Rightarrow> u32 option" where
  "thread_pool_pending_count w pool =
     (case pool of None \<Rightarrow> Some 0 | Some _ \<Rightarrow> map_option queue_count (pw_pool w))"

definition thread_pool_is_running :: "pool_world \<Rightarrow> unit option \<Rightarrow> bool option" where
  "thread_pool_is_running w pool =
     (case pool of None \<Rightarrow> Some False | Some _ \<Rightarrow> map_option running (pw_pool w))"

text \<open>The loop of \<open>thread_pool_destroy\<close> that frees the nodes left in the queue.\<close>

partial_function (option) free_queue ::
  "(addr \<Rightarrow> task_node option) \<Rightarrow> addr option \<Rightarrow> (addr \<Rightarrow> task_node option) option" where
  "free_queue h node =
     (case node of
        None \<Rightarrow> Some h
      | Some a \<Rightarrow> (case h a of None \<Rightarrow> None | Some n \<Rightarrow> free_queue (h(a := None)) (tn_next n)))"

declare free_queue.simps [code]

text \<open>\<open>thread_pool_destroy\<close> on a pool, one step at a time: the critical section with the broadcast, each join
  once its thread has returned, and what follows the last join.\<close>

definition thread_pool_destroy :: "pool_world \<Rightarrow> pool_world option" where
  "thread_pool_destroy w =
     (case pw_pool w of
        None \<Rightarrow> None
      | Some p \<Rightarrow>
          (case pw_destroy w of
             D_idle \<Rightarrow>
               Some (pool_wake (pool_waiters w) (w\<lparr>pw_pool := Some (p\<lparr>shutdown := True\<rparr>), pw_destroy := D_join 0\<rparr>))
           | D_join k \<Rightarrow>
               if k < unat (thread_count p) then
                 (case pw_threads w ! k of
                    None \<Rightarrow> None
                  | Some _ \<Rightarrow> Some (w\<lparr>pw_destroy := D_join (Suc k)\<rparr>))
               else
                 (case free_queue (pw_heap w) (queue_head p) of
                    None \<Rightarrow> None
                  | Some h \<Rightarrow> Some (w\<lparr>pw_heap := h, pw_pool := None, pw_destroy := D_done\<rparr>))
           | D_done \<Rightarrow> Some w))"

subsection \<open>Schedules\<close>

datatype pool_action =
    Submit "addr option" "nat list" addr "addr option"
  | Worker nat
  | Spurious nat
  | Destroy

text \<open>What can happen next. A thread is joined when it has returned; a client does not use the pool after
  \<open>thread_pool_destroy\<close> has returned, nor calls it twice.\<close>

fun pool_enabled :: "pool_world \<Rightarrow> pool_action \<Rightarrow> bool" where
  "pool_enabled w (Submit mem woken task arg) =
     (pw_destroy w \<noteq> D_done \<and> (case mem of None \<Rightarrow> True | Some a \<Rightarrow> pw_heap w a = None) \<and>
      set woken \<subseteq> set (pool_waiters w) \<and> (woken = [] \<longrightarrow> pool_waiters w = []))"
| "pool_enabled w (Worker i) =
     (i < length (pw_threads w) \<and> pw_threads w ! i \<notin> {None, Some W_wait, Some W_exited})"
| "pool_enabled w (Spurious i) = (i \<in> set (pool_waiters w))"
| "pool_enabled w Destroy =
     (case pw_destroy w of
        D_idle \<Rightarrow> True
      | D_done \<Rightarrow> False
      | D_join k \<Rightarrow>
          (case pw_pool w of
             None \<Rightarrow> True
           | Some p \<Rightarrow> k < unat (thread_count p) \<longrightarrow> pw_threads w ! k \<in> {None, Some W_exited}))"

fun pool_exec :: "pool_world \<Rightarrow> pool_action \<Rightarrow> pool_world option" where
  "pool_exec w (Submit mem woken task arg) = map_option snd (thread_pool_submit mem woken w (Some ()) (Some task) arg)"
| "pool_exec w (Worker i) = worker_thread_func i w"
| "pool_exec w (Spurious i) = Some (pool_wake [i] w)"
| "pool_exec w Destroy = thread_pool_destroy w"

inductive pool_steps :: "pool_world \<Rightarrow> pool_action list \<Rightarrow> pool_world \<Rightarrow> bool" where
  steps_nil: "pool_steps w [] w"
| steps_snoc: "pool_steps w as w' \<Longrightarrow> pool_enabled w' a \<Longrightarrow> pool_exec w' a = Some w'' \<Longrightarrow>
     pool_steps w (as @ [a]) w''"

text \<open>The schedule as a function, for concrete runs.\<close>

fun pool_run :: "pool_world \<Rightarrow> pool_action list \<Rightarrow> pool_world option" where
  "pool_run w [] = Some w"
| "pool_run w (a # as) =
     (if pool_enabled w a then (case pool_exec w a of None \<Rightarrow> None | Some w' \<Rightarrow> pool_run w' as) else None)"

end
