(* ===== verification/Bags.thy ===== *)
theory Bags
  imports Airy_Prelude "HOL-Library.Multiset"
begin

section \<open>Bags over a list of owners\<close>

text \<open>
  Components in which several threads own heap cells: \<open>bag f xs\<close> collects what the owners \<open>xs\<close> hold, and
  the heap has no leak and no shared cell when its domain, as a bag, is what is held.
\<close>

definition bag :: "('a \<Rightarrow> 'b multiset) \<Rightarrow> 'a list \<Rightarrow> 'b multiset" where
  "bag f xs = \<Sum>\<^sub># (mset (map f xs))"

lemma bag_update: "i < length xs \<Longrightarrow> bag f (xs[i := x]) + f (xs ! i) = bag f xs + f x"
proof (induction xs arbitrary: i)
  case (Cons y ys)
  then show ?case by (cases i) (auto simp: bag_def ac_simps)
qed simp

lemma bag_update_same: "i < length xs \<Longrightarrow> f (xs ! i) = f x \<Longrightarrow> bag f (xs[i := x]) = bag f xs"
  using bag_update [of i xs f x] by simp

lemma bag_cong: "length xs = length ys \<Longrightarrow> (\<And>i. i < length ys \<Longrightarrow> f (xs ! i) = f (ys ! i)) \<Longrightarrow> bag f xs = bag f ys"
  unfolding bag_def by (metis (no_types, lifting) length_map nth_equalityI nth_map)

lemma bag_member: "i < length xs \<Longrightarrow> x \<in># f (xs ! i) \<Longrightarrow> x \<in># bag f xs"
  unfolding bag_def using nth_mem by fastforce

lemma bag_replicate_empty: "f x = {#} \<Longrightarrow> bag f (replicate n x) = {#}"
  by (induction n) (simp_all add: bag_def)

lemma mset_set_member: "mset_set A = M \<Longrightarrow> finite A \<Longrightarrow> a \<in> A \<longleftrightarrow> a \<in># M"
  by auto

end
