(* ===== verification/Pool_Runs.thy ===== *)
theory Pool_Runs
  imports Thread_Pool Bags
begin

section \<open>Runs of a thread pool\<close>

text \<open>
  Every schedule of a pool whose threads were all created is free of faults, calls each accepted task once,
  in no state leaves a queued task without a worker that is awake, and shuts down in bounded time after
  running everything it accepted. A pool in which an early thread could not be created does not: the
  destructor joins the wrong slots.
\<close>

subsection \<open>What the workers hold\<close>

text \<open>The node a worker holds, the one it holds and has not called yet, and whether it counts as active.\<close>

fun held :: "worker_pc option \<Rightarrow> addr multiset" where
  "held (Some (W_task a)) = {#a#}"
| "held (Some (W_called a)) = {#a#}"
| "held _ = {#}"

fun uncalled :: "worker_pc option \<Rightarrow> addr multiset" where
  "uncalled (Some (W_task a)) = {#a#}"
| "uncalled _ = {#}"

fun busy :: "worker_pc option \<Rightarrow> bool" where
  "busy (Some (W_task a)) = True"
| "busy (Some (W_called a)) = True"
| "busy (Some W_dec) = True"
| "busy _ = False"

definition awake :: "worker_pc option \<Rightarrow> bool" where
  "awake x \<longleftrightarrow> x \<notin> {None, Some W_wait, Some W_exited}"

lemma busy_awake: "busy x \<Longrightarrow> awake x"
  by (cases x rule: busy.cases) (simp_all add: awake_def)

subsection \<open>Invariant\<close>

definition task_at :: "(addr \<Rightarrow> task_node option) \<Rightarrow> addr \<Rightarrow> pool_task" where
  "task_at h a = (case h a of None \<Rightarrow> (0, None) | Some n \<Rightarrow> (tn_fn n, tn_arg n))"

definition next_of :: "(addr \<Rightarrow> task_node option) \<Rightarrow> addr \<rightharpoonup> addr option" where
  "next_of h a = map_option tn_next (h a)"

definition queue_inv :: "pool_world \<Rightarrow> thread_pool \<Rightarrow> addr list \<Rightarrow> bool" where
  "queue_inv w p q \<longleftrightarrow>
     hchain (next_of (pw_heap w)) (queue_head p) q \<and> queue_tail p = (if q = [] then None else Some (last q)) \<and>
     queue_count p = of_nat (length q) \<and> length q \<le> unat (queue_size (tp_config p))"

definition heap_inv :: "pool_world \<Rightarrow> addr list \<Rightarrow> bool" where
  "heap_inv w q \<longleftrightarrow> finite (dom (pw_heap w)) \<and> mset_set (dom (pw_heap w)) = mset q + bag held (pw_threads w)"

definition tasks_inv :: "pool_world \<Rightarrow> addr list \<Rightarrow> bool" where
  "tasks_inv w q \<longleftrightarrow>
     (\<exists>taken. pw_accepted w = taken @ map (task_at (pw_heap w)) q \<and>
        mset taken = mset (pw_called w) + image_mset (task_at (pw_heap w)) (bag uncalled (pw_threads w)))"

definition threads_inv :: "pool_world \<Rightarrow> thread_pool \<Rightarrow> bool" where
  "threads_inv w p \<longleftrightarrow> running p \<and> 0 < thread_count p \<and> unat (thread_count p) \<le> length (pw_threads w) \<and>
     (\<forall>i < length (pw_threads w). pw_threads w ! i \<noteq> None \<longleftrightarrow> i < unat (thread_count p)) \<and>
     active_count p = of_nat (length (filter busy (pw_threads w)))"

definition wake_inv :: "pool_world \<Rightarrow> thread_pool \<Rightarrow> addr list \<Rightarrow> bool" where
  "wake_inv w p q \<longleftrightarrow> (q \<noteq> [] \<longrightarrow> (\<exists>i < length (pw_threads w). awake (pw_threads w ! i))) \<and>
     (shutdown p \<longrightarrow> Some W_wait \<notin> set (pw_threads w)) \<and>
     (Some W_exited \<in> set (pw_threads w) \<longrightarrow> shutdown p \<and> q = []) \<and>
     (case pw_destroy w of
        D_idle \<Rightarrow> \<not> shutdown p
      | D_join k \<Rightarrow> shutdown p \<and> k \<le> unat (thread_count p) \<and> (\<forall>i < k. pw_threads w ! i = Some W_exited)
      | D_done \<Rightarrow> False)"

definition pool_live :: "pool_world \<Rightarrow> thread_pool \<Rightarrow> addr list \<Rightarrow> bool" where
  "pool_live w p q \<longleftrightarrow> pw_pool w = Some p \<and> queue_inv w p q \<and> heap_inv w q \<and> tasks_inv w q \<and> threads_inv w p \<and> wake_inv w p q"

definition pool_finished :: "pool_world \<Rightarrow> bool" where
  "pool_finished w \<longleftrightarrow> pw_pool w = None \<and> pw_destroy w = D_done \<and> pw_heap w = (\<lambda>_. None) \<and>
     set (pw_threads w) \<subseteq> {None, Some W_exited} \<and> mset (pw_accepted w) = mset (pw_called w)"

definition pool_inv :: "pool_world \<Rightarrow> bool" where
  "pool_inv w \<longleftrightarrow> pool_finished w \<or> (\<exists>p q. pool_live w p q)"

lemmas pool_inv_defs = pool_live_def queue_inv_def heap_inv_def tasks_inv_def threads_inv_def wake_inv_def

lemma queue_count_0:
  assumes "queue_inv w p q"
  shows "queue_count p = 0 \<longleftrightarrow> q = []"
proof -
  have "length q < 2 ^ 32" using assms u32_lt [of "queue_size (tp_config p)"] by (simp add: queue_inv_def)
  then have "unat (queue_count p) = length q" using assms by (simp add: queue_inv_def unat_of_nat32)
  then show ?thesis by (metis length_0_conv unat_0 unsigned_0 unsigned_eq_0_iff)
qed

lemma set_pc_sel [simp]:
  "pw_heap (pool_set_pc i pc w) = pw_heap w" "pw_pool (pool_set_pc i pc w) = pw_pool w"
  "pw_threads (pool_set_pc i pc w) = (pw_threads w)[i := Some pc]" "pw_destroy (pool_set_pc i pc w) = pw_destroy w"
  "pw_accepted (pool_set_pc i pc w) = pw_accepted w" "pw_called (pool_set_pc i pc w) = pw_called w"
  by (simp_all add: pool_set_pc_def)

lemma wake_sel [simp]:
  "pw_heap (pool_wake is w) = pw_heap w" "pw_pool (pool_wake is w) = pw_pool w"
  "length (pw_threads (pool_wake is w)) = length (pw_threads w)" "pw_destroy (pool_wake is w) = pw_destroy w"
  "pw_accepted (pool_wake is w) = pw_accepted w" "pw_called (pool_wake is w) = pw_called w"
  by (simp_all add: pool_wake_def)

lemma wake_nth:
  "i < length (pw_threads w) \<Longrightarrow> pw_threads (pool_wake is w) ! i =
     (if i \<in> set is \<and> pw_threads w ! i = Some W_wait then Some W_top else pw_threads w ! i)"
  by (simp add: pool_wake_def)

lemma waiters_iff: "i \<in> set (pool_waiters w) \<longleftrightarrow> i < length (pw_threads w) \<and> pw_threads w ! i = Some W_wait"
  by (auto simp: pool_waiters_def)

subsection \<open>Worker steps\<close>

lemma uncalled_held: "bag uncalled xs \<subseteq># bag held xs"
proof (induction xs)
  case (Cons x xs)
  have "uncalled x \<subseteq># held x" by (cases x rule: held.cases) simp_all
  with Cons show ?case by (simp add: bag_def subset_mset.add_mono)
qed (simp add: bag_def)

lemma busy_update:
  "i < length xs \<Longrightarrow> length (filter busy (xs[i := x])) =
     length (filter busy xs) + (if busy x then 1 else 0) - (if busy (xs ! i) then 1 else 0)"
  using length_filter_update [of i xs busy x] by (auto split: if_splits)

lemma busy_pos: "i < length xs \<Longrightarrow> busy (xs ! i) \<Longrightarrow> 0 < length (filter busy xs)"
  by (metis filter_empty_conv length_greater_0_conv nth_mem)

lemma heap_once: "heap_inv w q \<Longrightarrow> count (mset q) a + count (bag held (pw_threads w)) a \<le> 1"
  by (metis count_mset_set(1,2,3) count_union heap_inv_def le_refl zero_le)

lemma heap_dom: "heap_inv w q \<Longrightarrow> pw_heap w a \<noteq> None \<longleftrightarrow> a \<in> set q \<or> a \<in># bag held (pw_threads w)"
proof -
  assume h: "heap_inv w q"
  then have f: "finite (dom (pw_heap w))" and m: "mset_set (dom (pw_heap w)) = mset q + bag held (pw_threads w)"
    by (simp_all add: heap_inv_def)
  have "dom (pw_heap w) = set_mset (mset_set (dom (pw_heap w)))" using f by simp
  also have "\<dots> = set q \<union> set_mset (bag held (pw_threads w))" unfolding m by simp
  finally have "a \<in> dom (pw_heap w) \<longleftrightarrow> a \<in> set q \<or> a \<in># bag held (pw_threads w)" by blast
  then show ?thesis by (simp add: dom_def)
qed

lemma threads_set_pc:
  assumes "threads_inv w p" "i < length (pw_threads w)" "pw_threads w ! i \<noteq> None"
    and "active_count p' = of_nat (length (filter busy ((pw_threads w)[i := Some pc])))"
    and "running p' = running p" "thread_count p' = thread_count p" "pw_threads w' = (pw_threads w)[i := Some pc]"
  shows "threads_inv w' p'"
  using assms by (auto simp: threads_inv_def nth_list_update)

lemma wake_set_pc:
  assumes "wake_inv w p q" "i < length (pw_threads w)" "awake (pw_threads w ! i)" "awake (Some pc)"
    and "shutdown p' = shutdown p" "thread_count p' = thread_count p" "q = [] \<longrightarrow> q' = []"
    and "pw_threads w' = (pw_threads w)[i := Some pc]" "pw_destroy w' = pw_destroy w"
  shows "wake_inv w' p' q'"
proof -
  let ?ts = "(pw_threads w)[i := Some pc]"
  have s: "x \<in> set ?ts \<longleftrightarrow> x \<in> set (pw_threads w)" if "\<not> awake x" for x
    using that assms(2-4) by (metis in_set_conv_nth length_list_update nth_list_update_eq nth_list_update_neq)
  have n: "awake (?ts ! i)" "i < length ?ts" using assms(2,4) by simp_all
  have j: "?ts ! j = Some W_exited" if "pw_threads w ! j = Some W_exited" for j
    using that assms(2,3) by (cases "j = i") (auto simp: awake_def)
  have "\<not> awake (Some W_wait)" "\<not> awake (Some W_exited)" by (simp_all add: awake_def)
  with assms(1) s n assms(5-9) show ?thesis
    unfolding wake_inv_def by (auto split: destroy_pc.splits intro: j)
qed

lemma tasks_keep:
  assumes "tasks_inv w q" "pw_accepted w' = pw_accepted w" "pw_called w' = pw_called w"
    and "bag uncalled (pw_threads w') = bag uncalled (pw_threads w)"
    and "\<And>a. a \<in> set q \<or> a \<in># bag uncalled (pw_threads w) \<Longrightarrow> task_at (pw_heap w') a = task_at (pw_heap w) a"
  shows "tasks_inv w' q"
proof -
  have "map (task_at (pw_heap w')) q = map (task_at (pw_heap w)) q" using assms(5) by simp
  moreover have "image_mset (task_at (pw_heap w')) (bag uncalled (pw_threads w)) =
      image_mset (task_at (pw_heap w)) (bag uncalled (pw_threads w))"
    using assms(5) by (intro image_mset_cong) auto
  ultimately show ?thesis using assms(1-4) unfolding tasks_inv_def by metis
qed

lemma live_call:
  assumes "pool_live w p q" "i < length (pw_threads w)" "pw_threads w ! i = Some (W_task a)" "pw_heap w a = Some n"
  shows "pool_live (pool_set_pc i (W_called a) (w\<lparr>pw_called := pw_called w @ [(tn_fn n, tn_arg n)]\<rparr>)) p q"
    (is "pool_live ?w p q")
proof -
  have u: "bag uncalled (pw_threads w) = add_mset a (bag uncalled ((pw_threads w)[i := Some (W_called a)]))"
    using bag_update [OF assms(2), of uncalled "Some (W_called a)"] assms(3) by simp
  have h: "bag held ((pw_threads w)[i := Some (W_called a)]) = bag held (pw_threads w)"
    using assms(2,3) by (intro bag_update_same) auto
  have "tasks_inv ?w q" using assms(1,4) u by (auto simp: pool_live_def tasks_inv_def task_at_def)
  moreover have "wake_inv ?w p q"
    by (rule wake_set_pc [of w p q i "W_called a"]) (use assms(1-3) in \<open>simp_all add: pool_live_def awake_def\<close>)
  moreover have "threads_inv ?w p"
    by (rule threads_set_pc [of w p i p "W_called a"]) (use assms(1-3) busy_update [OF assms(2), of "Some (W_called a)"] in \<open>simp_all add: pool_live_def threads_inv_def\<close>)
  ultimately show ?thesis using assms(1) h by (simp add: pool_live_def queue_inv_def heap_inv_def)
qed

lemma live_free:
  assumes "pool_live w p q" "i < length (pw_threads w)" "pw_threads w ! i = Some (W_called a)"
  shows "pool_live (pool_set_pc i W_dec (w\<lparr>pw_heap := (pw_heap w)(a := None)\<rparr>)) p q" (is "pool_live ?w p q")
proof -
  let ?ts = "(pw_threads w)[i := Some W_dec]"
  have h: "bag held (pw_threads w) = add_mset a (bag held ?ts)"
    using bag_update [OF assms(2), of held "Some W_dec"] assms(3) by simp
  have u: "bag uncalled ?ts = bag uncalled (pw_threads w)" using assms(2,3) by (intro bag_update_same) auto
  have hi: "heap_inv w q" using assms(1) by (simp add: pool_live_def)
  have a: "a \<notin> set q" "a \<notin># bag held ?ts" using heap_once [OF hi, of a] h by (auto simp: count_eq_zero_iff)
  then have a': "a \<notin># bag uncalled ?ts" using uncalled_held [of ?ts] by (meson mset_subset_eqD)
  have d: "dom (pw_heap ?w) = dom (pw_heap w) - {a}" by auto
  have "a \<in> dom (pw_heap w)" using heap_dom [OF hi, of a] h by auto
  then have "heap_inv ?w q" using hi h unfolding heap_inv_def d by (simp add: mset_set_Diff)
  moreover have "hchain (next_of (pw_heap ?w)) (queue_head p) q = hchain (next_of (pw_heap w)) (queue_head p) q"
    using a(1) by (intro hchain_cong) (auto simp: next_of_def)
  then have "queue_inv ?w p q" using assms(1) by (simp add: pool_live_def queue_inv_def)
  moreover have "tasks_inv ?w q"
    by (rule tasks_keep [of w]) (use assms(1) u a(1) a' in \<open>auto simp: pool_live_def task_at_def\<close>)
  moreover have "wake_inv ?w p q"
    by (rule wake_set_pc [of w p q i W_dec]) (use assms(1-3) in \<open>simp_all add: pool_live_def awake_def\<close>)
  moreover have "threads_inv ?w p"
    by (rule threads_set_pc [of w p i p W_dec]) (use assms(1-3) busy_update [OF assms(2), of "Some W_dec"] in \<open>simp_all add: pool_live_def threads_inv_def\<close>)
  ultimately show ?thesis using assms(1) by (simp add: pool_live_def)
qed

lemma live_dec:
  assumes "pool_live w p q" "i < length (pw_threads w)" "pw_threads w ! i = Some W_dec"
  shows "pool_live (pool_set_pc i W_top (w\<lparr>pw_pool := Some (p\<lparr>active_count := active_count p - 1\<rparr>)\<rparr>))
           (p\<lparr>active_count := active_count p - 1\<rparr>) q" (is "pool_live ?w ?p q")
proof -
  have b: "bag f ((pw_threads w)[i := Some W_top]) = bag f (pw_threads w)" if "f (Some W_dec) = f (Some W_top)" for f :: "_ \<Rightarrow> addr multiset"
    using assms(2,3) that by (intro bag_update_same) auto
  obtain m where b0: "length (filter busy (pw_threads w)) = Suc m"
    using busy_pos [OF assms(2)] assms(3) gr0_implies_Suc by fastforce
  have "threads_inv ?w ?p"
    by (rule threads_set_pc [of w p i ?p W_top]) (use assms(1-3) b0 busy_update [OF assms(2), of "Some W_top"] in \<open>simp_all add: pool_live_def threads_inv_def of_nat_diff\<close>)
  moreover have "wake_inv ?w ?p q"
    by (rule wake_set_pc [of w p q i W_top]) (use assms(1-3) in \<open>simp_all add: pool_live_def awake_def\<close>)
  ultimately show ?thesis using assms(1) b [of held] b [of uncalled] by (simp add: pool_live_def queue_inv_def heap_inv_def tasks_inv_def)
qed

lemma live_take:
  assumes "pool_live w p q" "i < length (pw_threads w)" "pw_threads w ! i = Some W_top" "queue_count p \<noteq> 0"
  shows "\<exists>w' p'. worker_take i p w = Some w' \<and> pool_live w' p' (tl q) \<and> pw_destroy w' = pw_destroy w \<and> q \<noteq> [] \<and>
    pw_threads w' = (pw_threads w)[i := Some (W_task (hd q))] \<and> thread_count p' = thread_count p \<and> shutdown p' = shutdown p"
proof -
  have Q: "queue_inv w p q" using assms(1) by (simp add: pool_live_def)
  then obtain a r where q: "q = a # r" using assms(4) queue_count_0 [OF Q] by (cases q) auto
  then obtain n where n: "pw_heap w a = Some n" "queue_head p = Some a" "hchain (next_of (pw_heap w)) (tn_next n) r"
    using Q by (auto simp: queue_inv_def next_of_def)
  have t: "(tn_next n = None) = (r = [])" using n(3) by (cases r) auto
  let ?p = "p\<lparr>queue_head := tn_next n, queue_tail := (if tn_next n = None then None else queue_tail p),
             queue_count := queue_count p - 1, active_count := active_count p + 1\<rparr>"
  let ?ts = "(pw_threads w)[i := Some (W_task a)]"
  let ?w = "pool_set_pc i (W_task a) (w\<lparr>pw_pool := Some ?p\<rparr>)"
  have w: "worker_take i p w = Some ?w" using assms(4) n by (simp add: worker_take_def)
  have b: "bag held ?ts = add_mset a (bag held (pw_threads w))" "bag uncalled ?ts = add_mset a (bag uncalled (pw_threads w))"
    using bag_update [OF assms(2), of held "Some (W_task a)"] bag_update [OF assms(2), of uncalled "Some (W_task a)"] assms(3) by simp_all
  have "queue_inv ?w ?p r" using Q n(3) t q by (auto simp: queue_inv_def)
  moreover have "heap_inv ?w r" using assms(1) q b by (simp add: pool_live_def heap_inv_def)
  moreover have "tasks_inv ?w r"
  proof -
    obtain taken where "pw_accepted w = taken @ map (task_at (pw_heap w)) q"
      "mset taken = mset (pw_called w) + image_mset (task_at (pw_heap w)) (bag uncalled (pw_threads w))"
      using assms(1) by (auto simp: pool_live_def tasks_inv_def)
    then show ?thesis unfolding tasks_inv_def by (intro exI [of _ "taken @ [task_at (pw_heap w) a]"]) (simp add: q b)
  qed
  moreover have "threads_inv ?w ?p"
    by (rule threads_set_pc [of w p i ?p "W_task a"])
       (use assms(1-3) busy_update [OF assms(2), of "Some (W_task a)"] in \<open>simp_all add: pool_live_def threads_inv_def\<close>)
  moreover have "wake_inv ?w ?p r"
    by (rule wake_set_pc [of w p q i "W_task a"]) (use assms(1-3) q in \<open>simp_all add: pool_live_def awake_def\<close>)
  ultimately have "pool_live ?w ?p r" by (simp add: pool_live_def)
  with w q show ?thesis by auto
qed

text \<open>A worker with nothing to do goes to sleep, or returns once the pool shuts down.\<close>

lemma live_idle:
  assumes "pool_live w p []" "i < length (pw_threads w)" "pw_threads w ! i = Some W_top"
    and "pc = (if shutdown p then W_exited else W_wait)"
  shows "pool_live (pool_set_pc i pc w) p []" (is "pool_live ?w p []")
proof -
  have b: "bag f ((pw_threads w)[i := Some pc]) = bag f (pw_threads w)" if "f (Some W_top) = f (Some pc)" for f :: "_ \<Rightarrow> addr multiset"
    using assms(2,3) that by (intro bag_update_same) auto
  have "threads_inv ?w p"
    by (rule threads_set_pc [of w p i p pc])
       (use assms busy_update [OF assms(2), of "Some pc"] in \<open>simp_all add: pool_live_def threads_inv_def\<close>)
  moreover have "wake_inv ?w p []"
  proof -
    have s: "set ((pw_threads w)[i := Some pc]) \<subseteq> insert (Some pc) (set (pw_threads w))" by (rule set_update_subset_insert)
    have j: "(pw_threads w)[i := Some pc] ! j = Some W_exited" if "pw_threads w ! j = Some W_exited" for j
      using that assms(3) by (cases "j = i") auto
    show ?thesis using assms s j by (auto simp: pool_live_def wake_inv_def split: destroy_pc.splits)
  qed
  moreover have "held (Some W_top) = held (Some pc)" "uncalled (Some W_top) = uncalled (Some pc)" using assms(4) by simp_all
  ultimately show ?thesis
    using assms(1) b [of held] b [of uncalled] by (simp add: pool_live_def queue_inv_def heap_inv_def tasks_inv_def)
qed

subsection \<open>Waking, submitting, destroying\<close>

lemma bag_wake: "f (Some W_top) = f (Some W_wait) \<Longrightarrow> bag f (pw_threads (pool_wake js w)) = bag f (pw_threads w)"
  by (rule bag_cong) (auto simp: wake_nth)

lemma busy_wake: "length (filter busy (pw_threads (pool_wake js w))) = length (filter busy (pw_threads w))"
proof -
  have "{i. i < length (pw_threads w) \<and> busy (pw_threads (pool_wake js w) ! i)} = {i. i < length (pw_threads w) \<and> busy (pw_threads w ! i)}"
    by (auto simp: wake_nth split: if_splits)
  then show ?thesis by (simp add: length_filter_conv_card)
qed

lemma wake_keeps [simp]:
  "queue_inv (pool_wake js w) p q = queue_inv w p q" "heap_inv (pool_wake js w) q = heap_inv w q"
  "tasks_inv (pool_wake js w) q = tasks_inv w q" "threads_inv (pool_wake js w) p = threads_inv w p"
  by (auto simp: queue_inv_def heap_inv_def tasks_inv_def threads_inv_def bag_wake busy_wake wake_nth split: if_splits)

lemma wake_set:
  "Some W_exited \<in> set (pw_threads (pool_wake js w)) \<longleftrightarrow> Some W_exited \<in> set (pw_threads w)"
  "Some W_wait \<in> set (pw_threads (pool_wake js w)) \<Longrightarrow> Some W_wait \<in> set (pw_threads w)"
  by (auto simp: in_set_conv_nth wake_nth split: if_splits)

lemma wake_wake:
  assumes "wake_inv w p q" "threads_inv w p"
  shows "wake_inv (pool_wake js w) p q"
proof -
  have a: "awake (pw_threads (pool_wake js w) ! i)" if "i < length (pw_threads w)" "awake (pw_threads w ! i)" for i
    using that by (auto simp: wake_nth awake_def)
  have e: "pw_threads (pool_wake js w) ! i = Some W_exited"
    if "i < unat (thread_count p)" "pw_threads w ! i = Some W_exited" for i
    using that assms(2) by (simp add: wake_nth threads_inv_def)
  show ?thesis
    using assms(1) unfolding wake_inv_def wake_set wake_sel
    by (auto split: destroy_pc.splits intro: a e dest: wake_set(2))
qed

lemma threads_pos: "threads_inv w p \<Longrightarrow> 0 < unat (thread_count p)"
  by (simp add: threads_inv_def word_less_nat_alt)

text \<open>After a signal somebody is awake: a waiter if there is one, else every thread, since none has returned.\<close>

lemma wake_signal:
  assumes "threads_inv w p" "\<not> shutdown p" "wake_inv w' p q" "pw_threads w' = pw_threads w" "pw_destroy w' = pw_destroy w"
    and "set js \<subseteq> set (pool_waiters w)" "js = [] \<longrightarrow> pool_waiters w = []"
  shows "wake_inv (pool_wake js w) p q'"
proof -
  have i0: "0 < length (pw_threads w)" "pw_threads w ! 0 \<noteq> None"
    using assms(1) threads_pos [OF assms(1)] unfolding threads_inv_def by (meson less_le_trans)+
  have "\<exists>i < length (pw_threads w). awake (pw_threads (pool_wake js w) ! i)"
  proof (cases js)
    case (Cons j ks)
    then have "j < length (pw_threads w)" "pw_threads w ! j = Some W_wait" using assms(6) by (auto simp: waiters_iff)
    then show ?thesis using Cons by (intro exI [of _ j]) (simp add: wake_nth awake_def)
  next
    case Nil
    then have "0 \<notin> set (pool_waiters w)" using assms(7) by simp
    moreover have "pw_threads w ! 0 \<noteq> Some W_exited"
      using assms(2-4) i0 by (metis nth_mem wake_inv_def)
    ultimately show ?thesis using i0 Nil by (intro exI [of _ 0]) (simp add: wake_nth awake_def waiters_iff)
  qed
  moreover have "Some W_exited \<notin> set (pw_threads (pool_wake js w))"
    using assms(2-4) by (auto simp: wake_inv_def wake_set)
  ultimately show ?thesis using assms(2,3,5) by (auto simp: wake_inv_def split: destroy_pc.splits)
qed

lemma heap_distinct:
  assumes "heap_inv w q"
  shows "distinct q"
  unfolding distinct_count_atmost_1
proof
  fix a
  have "count (mset q) a \<le> 1" using heap_once [OF assms, of a] by linarith
  moreover have "a \<in> set q \<longleftrightarrow> count (mset q) a > 0" by simp
  ultimately show "count (mset q) a = (if a \<in> set q then 1 else 0)"
    by (cases "count (mset q) a"; cases "a \<in> set q") (simp_all only: le_Suc_eq One_nat_def, simp_all)
qed

lemma heap_fresh: "heap_inv w q \<Longrightarrow> pw_heap w a = None \<Longrightarrow> a \<notin> set q \<and> a \<notin># bag held (pw_threads w) \<and> a \<notin># bag uncalled (pw_threads w)"
  using heap_dom [of w q a] uncalled_held [of "pw_threads w"] by (auto dest: mset_subset_eqD)

text \<open>Appending a node: \<open>h\<close> is the heap with the new node and the tail's pointer set.\<close>

lemma live_append:
  assumes "pool_live w p q" "pw_heap w a = None" "queue_count p < queue_size (tp_config p)"
    and "w' = w\<lparr>pw_heap := h, pw_pool := Some p', pw_accepted := pw_accepted w @ [(f, x)]\<rparr>"
    and "p' = p\<lparr>queue_head := (if q = [] then Some a else queue_head p), queue_tail := Some a, queue_count := queue_count p + 1\<rparr>"
    and "next_of h = (if q = [] then (next_of (pw_heap w))(a \<mapsto> None) else (next_of (pw_heap w))(last q \<mapsto> Some a, a \<mapsto> None))"
    and "task_at h = (task_at (pw_heap w))(a := (f, x))" "dom h = insert a (dom (pw_heap w))"
  shows "queue_inv w' p' (q @ [a])" "heap_inv w' (q @ [a])" "tasks_inv w' (q @ [a])" "threads_inv w' p'"
proof -
  have Q: "queue_inv w p q" and H: "heap_inv w q" and T: "tasks_inv w q" and R: "threads_inv w p"
    using assms(1) by (simp_all add: pool_live_def)
  have a: "a \<notin> set q" "a \<notin># bag uncalled (pw_threads w)" using heap_fresh [OF H assms(2)] by simp_all
  have "distinct q" by (rule heap_distinct [OF H])
  then have "hchain (next_of h) (queue_head p') (q @ [a])"
    using Q assms(5,6) a(1) hchain_append [of "next_of (pw_heap w)" "queue_head p" q a] by (auto simp: queue_inv_def)
  moreover have "length q < unat (queue_size (tp_config p))"
    using Q assms(3) u32_lt [of "queue_size (tp_config p)"] by (simp add: queue_inv_def word_less_nat_alt unat_of_nat32)
  ultimately show "queue_inv w' p' (q @ [a])" using Q assms(4,5) by (simp add: queue_inv_def)
  have "finite (dom (pw_heap w))" "mset_set (dom (pw_heap w)) = mset q + bag held (pw_threads w)" "a \<notin> dom (pw_heap w)"
    using H assms(2) by (auto simp: heap_inv_def)
  then show "heap_inv w' (q @ [a])" using assms(4,8) by (simp add: heap_inv_def)
  show "threads_inv w' p'" using R assms(4,5) by (simp add: threads_inv_def)
  obtain taken where "pw_accepted w = taken @ map (task_at (pw_heap w)) q"
    "mset taken = mset (pw_called w) + image_mset (task_at (pw_heap w)) (bag uncalled (pw_threads w))"
    using T by (auto simp: tasks_inv_def)
  moreover have "map (task_at h) q = map (task_at (pw_heap w)) q" using a(1) assms(7) by auto
  moreover have "image_mset (task_at h) (bag uncalled (pw_threads w)) = image_mset (task_at (pw_heap w)) (bag uncalled (pw_threads w))"
    using a(2) assms(7) by (intro image_mset_cong) auto
  ultimately show "tasks_inv w' (q @ [a])" unfolding tasks_inv_def using assms(4,7) by (intro exI [of _ taken]) simp
qed

lemma live_submit:
  assumes L: "pool_live w p q" and E: "pool_enabled w (Submit mem js f x)"
  shows "\<exists>w' p' q'. pool_exec w (Submit mem js f x) = Some w' \<and> pool_live w' p' q' \<and> (shutdown p \<longrightarrow> w' = w)"
proof (cases "mem = None \<or> shutdown p \<or> queue_size (tp_config p) \<le> queue_count p")
  case True
  then have "pool_exec w (Submit mem js f x) = Some w"
    using L by (cases mem) (auto simp: thread_pool_submit_def pool_live_def threads_inv_def Let_def)
  with L show ?thesis by blast
next
  case False
  then obtain a where m: "mem = Some a" "\<not> shutdown p" "queue_count p < queue_size (tp_config p)" by auto
  have a: "pw_heap w a = None" using E m by simp
  let ?n = "\<lparr>tn_fn = f, tn_arg = x, tn_next = None\<rparr>"
  let ?p = "p\<lparr>queue_head := (if q = [] then Some a else queue_head p), queue_tail := Some a, queue_count := queue_count p + 1\<rparr>"
  have P: "pw_pool w = Some p" "running p" "queue_tail p = (if q = [] then None else Some (last q))" "\<not> queue_size (tp_config p) \<le> queue_count p"
    using L m by (auto simp: pool_live_def threads_inv_def queue_inv_def)
  define h where "h = (if q = [] then (pw_heap w)(a \<mapsto> ?n) else
     (pw_heap w)(a \<mapsto> ?n, last q \<mapsto> (the (pw_heap w (last q)))\<lparr>tn_next := Some a\<rparr>))"
  define w1 where "w1 = w\<lparr>pw_heap := h, pw_pool := Some ?p, pw_accepted := pw_accepted w @ [(f, x)]\<rparr>"
  have H: "heap_inv w q" using L by (simp add: pool_live_def)
  have l: "pw_heap w (last q) \<noteq> None" "last q \<noteq> a" if "q \<noteq> []"
    using heap_dom [OF H, of "last q"] heap_fresh [OF H a] that by (metis last_in_set)+
  have "pool_exec w (Submit mem js f x) = Some (pool_wake js w1)"
    using m P l by (cases p) (auto simp: thread_pool_submit_def w1_def h_def Let_def)
  moreover have "pool_live (pool_wake js w1) ?p (q @ [a])"
  proof -
    have "next_of h = (if q = [] then (next_of (pw_heap w))(a \<mapsto> None) else (next_of (pw_heap w))(last q \<mapsto> Some a, a \<mapsto> None))"
      using l by (auto simp: h_def next_of_def fun_eq_iff)
    moreover have "task_at h = (task_at (pw_heap w))(a := (f, x))"
      using l by (auto simp: h_def task_at_def fun_eq_iff)
    moreover have "dom h = insert a (dom (pw_heap w))" using l by (auto simp: h_def)
    ultimately have I: "queue_inv w1 ?p (q @ [a])" "heap_inv w1 (q @ [a])" "tasks_inv w1 (q @ [a])" "threads_inv w1 ?p"
      using live_append [OF L a m(3) w1_def] by simp_all
    have V: "wake_inv w ?p q" using L by (simp add: pool_live_def wake_inv_def cong: destroy_pc.case_cong)
    have "wake_inv (pool_wake js w1) ?p (q @ [a])"
      by (rule wake_signal [OF I(4) _ V]) (use m E in \<open>simp_all add: w1_def pool_waiters_def\<close>)
    with I show ?thesis by (simp add: pool_live_def w1_def)
  qed
  ultimately show ?thesis using m(2) by blast
qed

lemma live_spurious:
  assumes "pool_live w p q"
  shows "pool_live (pool_wake js w) p q"
  using assms wake_wake by (simp add: pool_live_def)

lemma live_shutdown:
  assumes L: "pool_live w p q" and d: "pw_destroy w = D_idle"
  shows "\<exists>w' p'. thread_pool_destroy w = Some w' \<and> pool_live w' p' q \<and> pw_destroy w' = D_join 0"
proof -
  let ?p = "p\<lparr>shutdown := True\<rparr>"
  let ?w = "w\<lparr>pw_pool := Some ?p, pw_destroy := D_join 0\<rparr>"
  let ?w' = "pool_wake (pool_waiters w) ?w"
  have w: "thread_pool_destroy w = Some ?w'" using L d by (simp add: thread_pool_destroy_def pool_live_def)
  have P: "queue_inv w p q" "heap_inv w q" "tasks_inv w q" "threads_inv w p" "wake_inv w p q"
    using L by (simp_all add: pool_live_def)
  then have "\<not> shutdown p" using d by (simp add: wake_inv_def)
  note P = P this
  have "Some W_wait \<notin> set (pw_threads ?w')"
  proof
    assume "Some W_wait \<in> set (pw_threads ?w')"
    then obtain i where "i < length (pw_threads w)" "pw_threads ?w' ! i = Some W_wait" by (auto simp: in_set_conv_nth [of "Some W_wait"])
    then show False by (auto simp: wake_nth waiters_iff split: if_splits)
  qed
  moreover have "Some W_exited \<notin> set (pw_threads ?w')" using P(5,6) by (simp add: wake_set wake_inv_def)
  moreover have "\<exists>i < length (pw_threads w). awake (pw_threads ?w' ! i)" if ne: "q \<noteq> []"
  proof -
    obtain i where "i < length (pw_threads w)" "awake (pw_threads w ! i)" using P(5) ne by (auto simp: wake_inv_def)
    then show ?thesis by (intro exI [of _ i]) (simp add: wake_nth awake_def)
  qed
  ultimately have "wake_inv ?w' ?p q" by (auto simp: wake_inv_def)
  moreover have "queue_inv ?w ?p q" "heap_inv ?w q" "tasks_inv ?w q" "threads_inv ?w ?p"
    using P(1-4) by (simp_all add: queue_inv_def heap_inv_def tasks_inv_def threads_inv_def)
  ultimately have "pool_live ?w' ?p q" by (simp add: pool_live_def)
  with w show ?thesis by auto
qed

lemma live_join:
  assumes L: "pool_live w p q" and d: "pw_destroy w = D_join k" and E: "pool_enabled w Destroy" and k: "k < unat (thread_count p)"
  shows "thread_pool_destroy w = Some (w\<lparr>pw_destroy := D_join (Suc k)\<rparr>) \<and> pool_live (w\<lparr>pw_destroy := D_join (Suc k)\<rparr>) p q"
proof -
  have "pw_threads w ! k \<noteq> None" using L k by (auto simp: pool_live_def threads_inv_def)
  then have e: "pw_threads w ! k = Some W_exited" using E L d k by (auto simp: pool_live_def)
  then have "wake_inv (w\<lparr>pw_destroy := D_join (Suc k)\<rparr>) p q"
    using L d k by (auto simp: pool_live_def wake_inv_def less_Suc_eq)
  then show ?thesis
    using L d k e by (simp add: thread_pool_destroy_def pool_live_def queue_inv_def heap_inv_def tasks_inv_def threads_inv_def)
qed

lemma live_release:
  assumes L: "pool_live w p q" and d: "pw_destroy w = D_join k" and k: "\<not> k < unat (thread_count p)"
  shows "\<exists>w'. thread_pool_destroy w = Some w' \<and> pool_finished w'"
proof -
  have R: "threads_inv w p" and W: "wake_inv w p q" using L by (simp_all add: pool_live_def)
  have k': "k = unat (thread_count p)" using W d k by (simp add: wake_inv_def)
  have e: "pw_threads w ! i \<in> {None, Some W_exited}" if "i < length (pw_threads w)" for i
  proof (cases "i < k")
    case True
    with W d show ?thesis by (simp add: wake_inv_def)
  next
    case False
    with R k' that show ?thesis by (auto simp: threads_inv_def)
  qed
  then have s: "set (pw_threads w) \<subseteq> {None, Some W_exited}" by (metis in_set_conv_nth subsetI)
  have "pw_threads w ! 0 = Some W_exited" "0 < length (pw_threads w)"
    using W d k' threads_pos [OF R] R by (simp_all add: wake_inv_def threads_inv_def del: length_greater_0_conv)
  then have q: "q = []" using W nth_mem [of 0 "pw_threads w"] by (simp add: wake_inv_def)
  have b: "bag f (pw_threads w) = {#}" if "f None = {#}" "f (Some W_exited) = {#}" for f :: "_ \<Rightarrow> addr multiset"
  proof -
    have "f x = {#}" if "x \<in> set (pw_threads w)" for x using s that \<open>f None = {#}\<close> \<open>f (Some W_exited) = {#}\<close> by auto
    then show ?thesis by (induction "pw_threads w") (auto simp: bag_def)
  qed
  have "heap_inv w q" using L by (simp add: pool_live_def)
  then have h: "pw_heap w = (\<lambda>_. None)" using heap_dom [of w q] q b [of held] by auto
  have "mset (pw_accepted w) = mset (pw_called w)"
    using L q b [of uncalled] by (auto simp: pool_live_def tasks_inv_def)
  then show ?thesis
    using L d k h q s by (simp add: thread_pool_destroy_def pool_live_def queue_inv_def pool_finished_def free_queue.simps)
qed

subsection \<open>Every schedule\<close>

lemma inv_liveI: "pool_live w p q \<Longrightarrow> pool_inv w"
  by (auto simp: pool_inv_def)

lemma exec_inv:
  assumes "pool_inv w" "pool_enabled w a"
  shows "\<exists>w'. pool_exec w a = Some w' \<and> pool_inv w'"
proof (cases "pool_finished w")
  case True
  then have "\<not> pool_enabled w a"
    by (cases a) (auto simp: pool_finished_def waiters_iff dest!: nth_mem)
  with assms(2) show ?thesis by simp
next
  case False
  then obtain p q where L: "pool_live w p q" using assms(1) by (auto simp: pool_inv_def)
  then have P: "pw_pool w = Some p" and Q: "queue_inv w p q" by (simp_all add: pool_live_def)
  show ?thesis
  proof (cases a)
    case (Submit mem js f x)
    with live_submit [OF L, of mem js f x] assms(2) inv_liveI show ?thesis by metis
  next
    case (Worker i)
    then have i: "i < length (pw_threads w)" using assms(2) by simp
    have n: "pw_heap w b \<noteq> None" if "b \<in># held (pw_threads w ! i)" for b
      using L heap_dom [of w q b] bag_member [of i "pw_threads w" b held] i that by (simp add: pool_live_def)
    show ?thesis
    proof (cases "pw_threads w ! i")
      case (Some pc)
      then show ?thesis
      proof (cases pc)
        case W_top
        show ?thesis
        proof (cases "queue_count p = 0")
          case True
          then have "q = []" using queue_count_0 [OF Q] by simp
          with L i W_top Some Worker P True show ?thesis
            using live_idle [of w p i "if shutdown p then W_exited else W_wait"]
            by (auto simp: worker_thread_func_def worker_take_def intro: inv_liveI)
        next
          case False
          with live_take [OF L i] Some W_top Worker P show ?thesis by (auto simp: worker_thread_func_def intro: inv_liveI)
        qed
      next
        case (W_task b)
        with n [of b] live_call [OF L i, of b] Some Worker show ?thesis by (auto simp: worker_thread_func_def intro: inv_liveI)
      next
        case (W_called b)
        with n [of b] live_free [OF L i, of b] Some Worker show ?thesis by (auto simp: worker_thread_func_def intro: inv_liveI)
      next
        case W_dec
        with live_dec [OF L i] Some Worker P show ?thesis by (auto simp: worker_thread_func_def intro: inv_liveI)
      qed (use assms(2) Worker Some in auto)
    qed (use assms(2) Worker in simp)
  next
    case (Spurious i)
    with live_spurious [OF L] show ?thesis by (auto simp: pool_inv_def)
  next
    case Destroy
    then show ?thesis
    proof (cases "pw_destroy w")
      case D_idle
      with live_shutdown [OF L] Destroy show ?thesis by (auto simp: pool_inv_def)
    next
      case (D_join k)
      with live_join [OF L] live_release [OF L] Destroy assms(2) show ?thesis
        by (cases "k < unat (thread_count p)") (auto simp: pool_inv_def)
    next
      case D_done
      with assms(2) Destroy show ?thesis by simp
    qed
  qed
qed

text \<open>No thread is created after one that could not be.\<close>

definition creation_prefix :: "(nat \<Rightarrow> bool) \<Rightarrow> bool" where
  "creation_prefix rc \<longleftrightarrow> (\<forall>i j. i < j \<longrightarrow> rc j \<longrightarrow> rc i)"

lemma creation_prefix_filter:
  assumes "creation_prefix rc"
  shows "i < n \<Longrightarrow> rc i \<longleftrightarrow> i < length (filter rc [0..<n])"
proof (induction n)
  case (Suc n)
  have f: "filter rc [0..<n] = [0..<n]" if "rc n"
    using that assms by (auto simp: creation_prefix_def filter_id_conv)
  show ?case
  proof (cases "i = n")
    case True
    have "length (filter rc [0..<n]) \<le> n" using length_filter_le [of rc "[0..<n]"] by simp
    with True f show ?thesis by auto
  next
    case False
    with Suc f show ?thesis by (cases "rc n") auto
  qed
qed simp

lemma create_inv:
  assumes "thread_pool_create mem mem' rc config = Some w" "creation_prefix rc"
  shows "pool_inv w"
proof -
  obtain cfg n where n: "n < 2 ^ 32" "filter rc [0..<n] \<noteq> []" and
    w: "w = \<lparr>pw_heap = (\<lambda>_. None), pw_pool = Some \<lparr>tp_config = cfg, thread_count = of_nat (length (filter rc [0..<n])),
          queue_head = None, queue_tail = None, queue_count = 0, active_count = 0, running = True, shutdown = False\<rparr>,
          pw_threads = map (\<lambda>i. if rc i then Some W_top else None) [0..<n], pw_destroy = D_idle, pw_accepted = [], pw_called = []\<rparr>"
    using assms(1) u32_lt unfolding thread_pool_create_def by (auto simp: Let_def split: if_splits)
  let ?p = "the (pw_pool w)"
  have l: "length (filter rc [0..<n]) \<le> n" using length_filter_le [of rc "[0..<n]"] by simp
  then have t: "unat (thread_count ?p) = length (filter rc [0..<n])" using w n(1) by (simp add: unat_of_nat32)
  have b: "bag f (pw_threads w) = {#}" if "f None = {#}" "f (Some W_top) = {#}" for f :: "_ \<Rightarrow> addr multiset"
    using that by (induction n) (simp_all add: w bag_def)
  have "filter busy (pw_threads w) = []" by (auto simp: w filter_empty_conv)
  moreover have "pw_threads w ! i \<noteq> None \<longleftrightarrow> i < unat (thread_count ?p)" if "i < length (pw_threads w)" for i
    using that creation_prefix_filter [OF assms(2), of i n] unfolding t by (simp add: w)
  moreover have "unat (thread_count ?p) \<le> length (pw_threads w)" using l unfolding t by (simp add: w)
  moreover have "0 < thread_count ?p" using n(2) t by (simp add: word_less_nat_alt)
  moreover have "running ?p" "active_count ?p = 0" by (simp_all add: w)
  ultimately have "threads_inv w ?p" by (simp add: threads_inv_def)
  moreover have "wake_inv w ?p []" by (auto simp: wake_inv_def w)
  ultimately have "pool_live w ?p []"
    using b [of held] b [of uncalled] by (simp add: pool_live_def queue_inv_def heap_inv_def tasks_inv_def w)
  then show ?thesis by (rule inv_liveI)
qed

lemma steps_inv: "pool_steps w as w' \<Longrightarrow> pool_inv w \<Longrightarrow> pool_inv w'"
  by (induction rule: pool_steps.induct) (use exec_inv in fastforce)+

lemma run_steps: "pool_run w as = Some w' \<Longrightarrow> pool_steps w0 bs w \<Longrightarrow> pool_steps w0 (bs @ as) w'"
proof (induction as arbitrary: w bs)
  case (Cons a as)
  then obtain v where "pool_enabled w a" "pool_exec w a = Some v" "pool_run v as = Some w'" by (auto split: if_splits option.splits)
  with Cons.IH [of v "bs @ [a]"] steps_snoc [OF Cons.prems(2)] show ?case by simp
qed simp

lemmas steps_of_run = run_steps [OF _ steps_nil, simplified]

subsection \<open>Shutting down\<close>

text \<open>What is left to do: four steps for a queued task, what is left of a worker's round, the joins.\<close>

fun pc_work :: "worker_pc option \<Rightarrow> nat" where
  "pc_work (Some W_top) = 1"
| "pc_work (Some W_wait) = 1"
| "pc_work (Some (W_task a)) = 4"
| "pc_work (Some (W_called a)) = 3"
| "pc_work (Some W_dec) = 2"
| "pc_work _ = 0"

definition pool_work :: "pool_world \<Rightarrow> nat" where
  "pool_work w =
     (case pw_pool w of
        None \<Rightarrow> 0
      | Some p \<Rightarrow> 4 * unat (queue_count p) + sum_list (map pc_work (pw_threads w)) +
          (case pw_destroy w of D_join k \<Rightarrow> Suc (unat (thread_count p) - k) | _ \<Rightarrow> 0))"

fun thread_action :: "pool_action \<Rightarrow> bool" where
  "thread_action (Worker i) = True"
| "thread_action Destroy = True"
| "thread_action _ = False"

lemma work_update: "i < length xs \<Longrightarrow> sum_list (map pc_work (xs[i := x])) + pc_work (xs ! i) = sum_list (map pc_work xs) + pc_work x"
proof (induction xs arbitrary: i)
  case (Cons y ys)
  then show ?case by (cases i) (auto simp: ac_simps)
qed simp

lemma queue_count_length: "queue_inv w p q \<Longrightarrow> unat (queue_count p) = length q"
  using u32_lt [of "queue_size (tp_config p)"] by (simp add: queue_inv_def unat_of_nat32)

lemma work_worker:
  assumes L: "pool_live w p q" and S: "shutdown p" and E: "pool_enabled w (Worker i)" and X: "pool_exec w (Worker i) = Some w'"
  shows "pool_work w' < pool_work w"
proof -
  have i: "i < length (pw_threads w)" using E by simp
  have P: "pw_pool w = Some p" and Q: "queue_inv w p q" using L by (simp_all add: pool_live_def)
  note u = work_update [OF i]
  obtain pc where pc: "pw_threads w ! i = Some pc" "pc \<noteq> W_wait" "pc \<noteq> W_exited" using E by auto
  show ?thesis
  proof (cases pc)
    case W_top
    show ?thesis
    proof (cases "queue_count p = 0")
      case True
      then show ?thesis
        using X P pc W_top S u [of "Some W_exited"] by (auto simp: worker_thread_func_def worker_take_def pool_work_def)
    next
      case False
      then obtain w1 p1 where T: "worker_take i p w = Some w1" "pool_live w1 p1 (tl q)" "pw_destroy w1 = pw_destroy w" "q \<noteq> []"
        "pw_threads w1 = (pw_threads w)[i := Some (W_task (hd q))]" "thread_count p1 = thread_count p"
        using live_take [OF L i] pc W_top by blast
      then have "unat (queue_count p1) = length q - 1" "pw_pool w1 = Some p1" "w1 = w'"
        using queue_count_length [of w1 p1 "tl q"] X P pc W_top by (auto simp: pool_live_def worker_thread_func_def)
      with T P pc W_top u [of "Some (W_task (hd q))"] queue_count_length [OF Q] show ?thesis
        by (cases q) (auto simp: pool_work_def split: destroy_pc.splits)
    qed
  next
    case (W_task a)
    with X P pc u [of "Some (W_called a)"] show ?thesis by (auto simp: worker_thread_func_def pool_work_def split: option.splits)
  next
    case (W_called a)
    with X P pc u [of "Some W_dec"] show ?thesis by (auto simp: worker_thread_func_def pool_work_def split: option.splits)
  next
    case W_dec
    with X P pc u [of "Some W_top"] show ?thesis by (auto simp: worker_thread_func_def pool_work_def split: option.splits destroy_pc.splits)
  qed (use pc in auto)
qed

lemma work_step:
  assumes I: "pool_inv w" and d: "pw_destroy w \<noteq> D_idle" and E: "pool_enabled w a" and X: "pool_exec w a = Some w'"
  shows "if thread_action a then pool_work w' < pool_work w else w' = w" "pw_destroy w' \<noteq> D_idle"
proof -
  have "\<not> pool_finished w" using E by (cases a) (auto simp: pool_finished_def waiters_iff dest!: nth_mem)
  then obtain p q where L: "pool_live w p q" using I by (auto simp: pool_inv_def)
  then obtain k where k: "pw_destroy w = D_join k" using d by (cases "pw_destroy w") (auto simp: pool_live_def wake_inv_def)
  have S: "shutdown p" and nw: "Some W_wait \<notin> set (pw_threads w)" and P: "pw_pool w = Some p" and kn: "k \<le> unat (thread_count p)"
    using L k by (auto simp: pool_live_def wake_inv_def)
  have "(if thread_action a then pool_work w' < pool_work w else w' = w) \<and> pw_destroy w' \<noteq> D_idle"
  proof (cases a)
    case (Submit mem js f x)
    with live_submit [OF L, of mem js f x] E X S d show ?thesis by auto
  next
    case (Worker i)
    have "pw_destroy w' = pw_destroy w"
      using X Worker by (auto simp: worker_thread_func_def worker_take_def split: option.splits worker_pc.splits if_splits)
    with work_worker [OF L S] E X Worker d show ?thesis by simp
  next
    case (Spurious i)
    with E nw show ?thesis by (auto simp: waiters_iff dest!: nth_mem)
  next
    case Destroy
    with X P k kn live_join [OF L k] E show ?thesis
      by (cases "k < unat (thread_count p)") (auto simp: pool_work_def thread_pool_destroy_def split: option.splits)
  qed
  then show "if thread_action a then pool_work w' < pool_work w else w' = w" "pw_destroy w' \<noteq> D_idle" by simp_all
qed

lemma work_steps:
  "pool_steps w as w' \<Longrightarrow> pool_inv w \<Longrightarrow> pw_destroy w \<noteq> D_idle \<Longrightarrow>
     length (filter thread_action as) + pool_work w' \<le> pool_work w \<and> pw_destroy w' \<noteq> D_idle"
proof (induction rule: pool_steps.induct)
  case (steps_snoc w as w' a w'')
  then have I: "pool_inv w'" using steps_inv by blast
  show ?case using work_step [OF I _ steps_snoc.hyps(2,3)] steps_snoc by (auto split: if_splits)
qed simp

lemma shutdown_progress:
  assumes L: "pool_live w p q" and k: "pw_destroy w = D_join k"
  shows "pool_enabled w (Worker k) \<or> pool_enabled w Destroy"
proof (cases "k < unat (thread_count p)")
  case True
  have R: "threads_inv w p" and nw: "Some W_wait \<notin> set (pw_threads w)" using L k by (simp_all add: pool_live_def wake_inv_def)
  have kl: "k < length (pw_threads w)" "pw_threads w ! k \<noteq> None" using True R by (auto simp: threads_inv_def)
  moreover have "pw_threads w ! k \<noteq> Some W_wait" using nw kl(1) by (metis nth_mem)
  ultimately have "k < length (pw_threads w)" "pw_threads w ! k \<noteq> None" "pw_threads w ! k \<noteq> Some W_wait" by simp_all
  with L k show ?thesis by (auto simp: pool_live_def)
next
  case False
  with L k show ?thesis by (simp add: pool_live_def)
qed

lemma tasks_taken:
  assumes "pool_live w p q"
  shows "\<exists>taken. pw_accepted w = taken @ map (task_at (pw_heap w)) q \<and> mset (pw_called w) \<subseteq># mset taken"
  using assms by (auto simp: pool_live_def tasks_inv_def)

subsection \<open>Properties\<close>

text \<open>C3: In every schedule of a pool whose created threads occupy the first slots, whatever the clients submit
  and whichever waiters are woken: no step touches freed memory; the tasks are taken from the queue in the
  order in which they were accepted, and no more of them are called than were taken, each as often as it was accepted;
  the number of pending tasks is reported exactly and never exceeds the queue size; and when
  \<open>thread_pool_destroy\<close> has returned, exactly the accepted tasks have been called, all workers have
  returned and no task node is left allocated.\<close>

theorem pool_tasks_once:
  assumes "thread_pool_create mem mem' rc config = Some w0" "creation_prefix rc" "pool_steps w0 as w"
  shows "(pool_enabled w a \<longrightarrow> pool_exec w a \<noteq> None) \<and>
    (\<exists>taken pending. pw_accepted w = taken @ pending \<and> mset (pw_called w) \<subseteq># mset taken \<and>
       (\<forall>p. pw_pool w = Some p \<longrightarrow> thread_pool_pending_count w (Some ()) = Some (of_nat (length pending)) \<and>
          length pending \<le> unat (queue_size (tp_config p)))) \<and>
    (pw_destroy w = D_done \<longrightarrow> mset (pw_called w) = mset (pw_accepted w) \<and> pw_heap w = (\<lambda>_. None) \<and>
       set (pw_threads w) \<subseteq> {None, Some W_exited})"
proof (cases "pool_finished w")
  case True
  have "pool_inv w" using steps_inv [OF assms(3)] create_inv [OF assms(1,2)] .
  then have "pool_enabled w a \<longrightarrow> pool_exec w a \<noteq> None" using exec_inv by blast
  moreover have "pw_accepted w = pw_accepted w @ []" by simp
  ultimately show ?thesis using True unfolding pool_finished_def
    by (metis option.distinct(1) subset_mset.order_refl)
next
  case False
  have I: "pool_inv w" using steps_inv [OF assms(3)] create_inv [OF assms(1,2)] .
  then have e: "pool_enabled w a \<longrightarrow> pool_exec w a \<noteq> None" using exec_inv by blast
  obtain p q where L: "pool_live w p q" using False I by (auto simp: pool_inv_def)
  then obtain taken where t: "pw_accepted w = taken @ map (task_at (pw_heap w)) q" "mset (pw_called w) \<subseteq># mset taken"
    using tasks_taken by blast
  have "\<exists>taken pending. pw_accepted w = taken @ pending \<and> mset (pw_called w) \<subseteq># mset taken \<and>
       (\<forall>p. pw_pool w = Some p \<longrightarrow> thread_pool_pending_count w (Some ()) = Some (of_nat (length pending)) \<and>
          length pending \<le> unat (queue_size (tp_config p)))"
    using L t by (intro exI [of _ taken] exI [of _ "map (task_at (pw_heap w)) q"])
      (auto simp: pool_live_def queue_inv_def thread_pool_pending_count_def)
  moreover have "pw_destroy w \<noteq> D_done" using L by (auto simp: pool_live_def wake_inv_def)
  ultimately show ?thesis using e by simp
qed

text \<open>Two tasks on the default pool: one worker goes to sleep and is woken by the first submission.\<close>

definition sample_schedule :: "pool_action list" where
  "sample_schedule = [Worker 1, Submit (Some 0) [1] 7 None, Submit (Some 1) [] 8 (Some 3), Worker 0, Worker 0, Worker 1,
     Worker 0, Worker 0, Destroy, Worker 1, Worker 1, Worker 1, Worker 0, Worker 1, Destroy, Destroy, Destroy]"

definition sample_pool :: pool_world where
  "sample_pool = the (thread_pool_create True True (\<lambda>_. True) None)"

lemma sample_create: "thread_pool_create True True (\<lambda>_. True) None = Some sample_pool"
  by (simp add: sample_pool_def thread_pool_create_def thread_pool_get_default_config_def num_threads_def)

lemma sample_run: "pool_run sample_pool sample_schedule \<noteq> None \<and>
    pw_destroy (the (pool_run sample_pool sample_schedule)) = D_done \<and>
    pw_accepted (the (pool_run sample_pool sample_schedule)) = [(7, None), (8, Some 3)]"
  by code_simp

lemma sample_shutdown_run: "pool_run sample_pool (take 9 sample_schedule) \<noteq> None \<and>
    pw_destroy (the (pool_run sample_pool (take 9 sample_schedule))) = D_join 0"
  by code_simp

lemma creation_prefix_all: "creation_prefix (\<lambda>_. True)"
  by (simp add: creation_prefix_def)

theorem pool_tasks_once_witness:
  "\<exists>w. pool_steps sample_pool sample_schedule w \<and> mset (pw_called w) = {#(7, None), (8, Some 3)#}"
proof -
  obtain w where r: "pool_run sample_pool sample_schedule = Some w" using sample_run by blast
  then have "pool_steps sample_pool sample_schedule w" by (rule steps_of_run)
  with pool_tasks_once [OF sample_create creation_prefix_all this] sample_run r show ?thesis by auto
qed

text \<open>C33: No wake-up is lost and shutdown completes. In every reachable state of such a pool with a queued task
  some worker is running or can run. Once \<open>thread_pool_destroy\<close> has set the flag, some thread can take its next step until the
  function has returned, and the threads take at most \<open>pool_work w\<close> steps altogether, whatever is submitted
  meanwhile: the destructor returns, provided that the task functions do.\<close>

theorem pool_shutdown_completes:
  assumes "thread_pool_create mem mem' rc config = Some w0" "creation_prefix rc" "pool_steps w0 as w"
  shows "(pw_pool w \<noteq> None \<and> thread_pool_pending_count w (Some ()) \<noteq> Some 0 \<longrightarrow> (\<exists>i. pool_enabled w (Worker i))) \<and>
    (\<forall>k. pw_destroy w = D_join k \<longrightarrow> (\<exists>a. thread_action a \<and> pool_enabled w a \<and> pool_exec w a \<noteq> None)) \<and>
    (\<forall>bs w'. pw_destroy w \<noteq> D_idle \<and> pool_steps w bs w' \<longrightarrow> length (filter thread_action bs) \<le> pool_work w)"
proof -
  have I: "pool_inv w" using steps_inv [OF assms(3)] create_inv [OF assms(1,2)] .
  have "\<exists>i. pool_enabled w (Worker i)" if h: "pw_pool w \<noteq> None" "thread_pool_pending_count w (Some ()) \<noteq> Some 0"
  proof -
    obtain p q where L: "pool_live w p q" using I h(1) by (auto simp: pool_inv_def pool_finished_def)
    then have "q \<noteq> []" using h(2) by (auto simp: pool_live_def queue_inv_def thread_pool_pending_count_def)
    then obtain i where "i < length (pw_threads w)" "awake (pw_threads w ! i)" using L by (auto simp: pool_live_def wake_inv_def)
    then show ?thesis by (intro exI [of _ i]) (simp add: awake_def)
  qed
  moreover have "\<exists>a. thread_action a \<and> pool_enabled w a \<and> pool_exec w a \<noteq> None" if k: "pw_destroy w = D_join k" for k
  proof -
    obtain p q where L: "pool_live w p q" using I k by (auto simp: pool_inv_def pool_finished_def)
    then obtain a where "thread_action a" "pool_enabled w a" using shutdown_progress [OF L k] thread_action.simps(1,2) by blast
    with exec_inv [OF I] show ?thesis by blast
  qed
  moreover have "length (filter thread_action bs) \<le> pool_work w" if "pw_destroy w \<noteq> D_idle" "pool_steps w bs w'" for bs w'
    using work_steps [OF that(2) I that(1)] by simp
  ultimately show ?thesis by blast
qed

theorem pool_shutdown_completes_witness:
  "\<exists>w. pool_steps sample_pool (take 9 sample_schedule) w \<and> pw_destroy w = D_join 0 \<and>
     (\<exists>a. thread_action a \<and> pool_enabled w a \<and> pool_exec w a \<noteq> None)"
proof -
  obtain w where r: "pool_run sample_pool (take 9 sample_schedule) = Some w" using sample_shutdown_run by blast
  then have s: "pool_steps sample_pool (take 9 sample_schedule) w" by (rule steps_of_run)
  have "pw_destroy w = D_join 0" using sample_shutdown_run r by simp
  with s pool_shutdown_completes [OF sample_create creation_prefix_all s] show ?thesis by blast
qed

text \<open>C34: If the first thread cannot be created but a later one can, \<open>thread_pool_create\<close> returns a pool whose
  destructor joins slot 0, which holds no thread: undefined behaviour, although every call is legal.\<close>

theorem pool_partial_create:
  assumes "thread_pool_create mem mem' rc config = Some w" "\<not> rc 0"
  shows "\<exists>w'. pool_enabled w Destroy \<and> pool_exec w Destroy = Some w' \<and> pool_enabled w' Destroy \<and> pool_exec w' Destroy = None"
proof -
  obtain p where p: "pw_pool w = Some p" "pw_destroy w = D_idle" "pw_threads w ! 0 = None" "0 < length (pw_threads w)"
    and t: "0 < unat (thread_count p)"
  proof -
    obtain cfg where n: "filter rc [0..<unat (num_threads cfg)] \<noteq> []" and
      w: "pw_pool w = Some \<lparr>tp_config = cfg, thread_count = of_nat (length (filter rc [0..<unat (num_threads cfg)])),
          queue_head = None, queue_tail = None, queue_count = 0, active_count = 0, running = True, shutdown = False\<rparr>"
         "pw_threads w = map (\<lambda>i. if rc i then Some W_top else None) [0..<unat (num_threads cfg)]" "pw_destroy w = D_idle"
      using assms(1) unfolding thread_pool_create_def by (auto simp: Let_def split: if_splits)
    have "length (filter rc [0..<unat (num_threads cfg)]) < 2 ^ 32"
      using length_filter_le [of rc "[0..<unat (num_threads cfg)]"] u32_lt [of "num_threads cfg"] by simp
    then have "0 < unat (of_nat (length (filter rc [0..<unat (num_threads cfg)])) :: u32)" using n by (simp add: unat_of_nat32)
    moreover have "0 < unat (num_threads cfg)" using n by (cases "unat (num_threads cfg)") auto
    ultimately show ?thesis using w assms(2) by (intro that [of "the (pw_pool w)"]) simp_all
  qed
  then show ?thesis
    by (intro exI [of _ "the (thread_pool_destroy w)"]) (simp add: thread_pool_destroy_def wake_nth)
qed

theorem pool_partial_create_witness:
  "\<exists>w w'. thread_pool_create True True (\<lambda>i. i = 1) None = Some w \<and> pool_exec w Destroy = Some w' \<and> pool_exec w' Destroy = None"
proof -
  have "thread_pool_create True True (\<lambda>i. i = 1) None \<noteq> None" by code_simp
  then obtain w where w: "thread_pool_create True True (\<lambda>i. i = 1) None = Some w" by blast
  from w pool_partial_create [OF this] show ?thesis by auto
qed

end
