(* ===== verification/Log_Sanitizer.thy ===== *)
theory Log_Sanitizer
  imports Err_Codes C_Strings "HOL-Library.Sublist"
begin

section \<open>Log sanitizer\<close>

text \<open>
  The filter of \<open>utils/security/log_sanitizer.c\<close> that masks the values of sensitive fields in log lines. A
  pointer into the message is the rest of the message from there. The output buffer is what has been
  written to it so far, and a write outside its \<open>buffer_size\<close> bytes makes the call \<open>None\<close>, as does a scan that
  steps over the terminator of the message, or a pattern stored through a NULL array. The characters
  beyond ASCII, which \<open>char\<close> makes negative, are no spaces.

  Shown: a line built from plain text and sensitive fields comes out with exactly the values of the fields
  replaced, cut to the buffer; two lines that differ in the value of a field only give the same output. The
  limits of the filter are shown as well: a value is only the next word, so the credentials of an
  \<open>Authorization: Bearer\<close> header are copied to the log; behind a quoted name the value is copied; and the
  boundary the README asks for in front of a name is not checked.
\<close>

subsection \<open>State\<close>

record sensitive_field =
  sf_pattern :: cstr
  sf_replacement :: cstr

text \<open>\<open>g_patterns\<close> up to \<open>g_pattern_count\<close> (\<open>None\<close>: NULL), its capacity and \<open>g_initialized\<close>.\<close>

record log_sanitizer =
  g_patterns :: "sensitive_field list option"
  g_pattern_capacity :: nat
  g_initialized :: bool

definition DEFAULT_REPLACEMENT :: cstr where "DEFAULT_REPLACEMENT = ''***''"

definition MAX_LINE_LENGTH :: nat where "MAX_LINE_LENGTH = 4096"

definition default_patterns :: "sensitive_field list" where
  "default_patterns = map (\<lambda>p. \<lparr>sf_pattern = p, sf_replacement = ''***''\<rparr>)
     [''api_key'', ''apikey'', ''api-key'', ''password'', ''passwd'', ''secret'', ''token'', ''access_token'',
      ''refresh_token'', ''auth_token'', ''bearer'', ''credential'', ''private_key'', ''authorization'', ''x-api-key'']"

definition sanitizer0 :: log_sanitizer where
  "sanitizer0 = \<lparr>g_patterns = None, g_pattern_capacity = 0, g_initialized = False\<rparr>"

text \<open>\<open>mem\<close>: the allocation succeeds.\<close>

definition ensure_initialized :: "bool \<Rightarrow> log_sanitizer \<Rightarrow> log_sanitizer" where
  "ensure_initialized mem g =
     (if g_initialized g then g
      else if \<not> mem then g\<lparr>g_patterns := None, g_pattern_capacity := 32\<rparr>
      else \<lparr>g_patterns = Some default_patterns, g_pattern_capacity = 32, g_initialized = True\<rparr>)"

definition log_sanitizer_init :: "bool \<Rightarrow> nat \<Rightarrow> log_sanitizer option" where
  "log_sanitizer_init mem max_fields =
     (let cap = (if 0 < max_fields then max_fields else 32)
      in if \<not> mem then None
         else Some \<lparr>g_patterns = Some (take cap default_patterns), g_pattern_capacity = cap, g_initialized = True\<rparr>)"

definition log_sanitizer_destroy :: "log_sanitizer \<Rightarrow> log_sanitizer" where
  "log_sanitizer_destroy g = \<lparr>g_patterns = None, g_pattern_capacity = 0, g_initialized = False\<rparr>"

definition g_pattern_count :: "log_sanitizer \<Rightarrow> nat" where
  "g_pattern_count g = (case g_patterns g of None \<Rightarrow> 0 | Some ps \<Rightarrow> length ps)"

definition log_sanitizer_add_pattern ::
  "bool \<Rightarrow> log_sanitizer \<Rightarrow> cstr option \<Rightarrow> cstr option \<Rightarrow> (bool \<times> log_sanitizer) option" where
  "log_sanitizer_add_pattern mem g pattern replacement =
     (case pattern of
        None \<Rightarrow> Some (False, g)
      | Some p \<Rightarrow>
          let g1 = ensure_initialized mem g
          in if g_pattern_capacity g1 \<le> g_pattern_count g1 then Some (False, g1)
             else
               (case g_patterns g1 of
                  None \<Rightarrow> None
                | Some ps \<Rightarrow>
                    Some (True, g1\<lparr>g_patterns := Some (ps @ [\<lparr>sf_pattern = p,
                      sf_replacement = (case replacement of Some r \<Rightarrow> r | None \<Rightarrow> DEFAULT_REPLACEMENT)\<rparr>])\<rparr>)))"

definition log_get_default_patterns :: "sensitive_field list" where
  "log_get_default_patterns = default_patterns"

subsection \<open>Searching\<close>

text \<open>The inner loop over \<open>j\<close>: the needle, case ignored, starts the text.\<close>

definition case_prefix :: "cstr \<Rightarrow> cstr \<Rightarrow> bool" where
  "case_prefix n s = (length n \<le> length s \<and> map tolower (take (length n) s) = map tolower n)"

text \<open>The offset of the first match.\<close>

fun strcasestr_from :: "nat \<Rightarrow> cstr \<Rightarrow> cstr \<Rightarrow> nat option" where
  "strcasestr_from i h n =
     (if length h < length n then None
      else if case_prefix n h then Some i
      else (case h of [] \<Rightarrow> None | _ # hs \<Rightarrow> strcasestr_from (Suc i) hs n))"

declare strcasestr_from.simps [simp del]

definition log_strcasestr :: "cstr option \<Rightarrow> cstr option \<Rightarrow> nat option" where
  "log_strcasestr haystack needle =
     (case (haystack, needle) of (Some h, Some n) \<Rightarrow> strcasestr_from 0 h n | _ \<Rightarrow> None)"

definition prev_ok :: "char \<Rightarrow> bool" where
  "prev_ok c = (isspace c \<or> c \<in> {CHR 0x22, CHR 0x27, CHR '',''})"

definition after_ok :: "cstr \<Rightarrow> bool" where
  "after_ok s = (s = [] \<or> hd s \<in> {CHR ''='', CHR '':'', CHR '' '', CHR 0x22, CHR 0x27, CHR 0x0A, CHR ''&''})"

lemma strcasestr_bound: "strcasestr_from i h n = Some j \<Longrightarrow> i \<le> j \<and> j - i + length n \<le> length h"
proof (induction h arbitrary: i)
  case Nil
  then show ?case by (simp add: strcasestr_from.simps [of i "[]"] split: if_splits)
next
  case (Cons c h)
  show ?case
  proof (cases "case_prefix n (c # h)")
    case True
    with Cons.prems show ?thesis by (auto simp: strcasestr_from.simps [of i "c # h"] split: if_splits)
  next
    case False
    then have "strcasestr_from (Suc i) h n = Some j"
      using Cons.prems by (auto simp: strcasestr_from.simps [of i "c # h"] split: if_splits)
    with Cons.IH [of "Suc i"] show ?thesis by auto
  qed
qed

text \<open>The loop of \<open>find_pattern\<close>, with \<open>pos\<close> at offset \<open>i\<close> of the message. The outer \<open>None\<close> is a read behind the
  terminator, the inner one a NULL result.\<close>

function find_pattern_from :: "cstr \<Rightarrow> cstr \<Rightarrow> nat \<Rightarrow> nat option option" where
  "find_pattern_from message p i =
     (if length message < i then None
      else
        (case log_strcasestr (Some (drop i message)) (Some p) of
           None \<Rightarrow> Some None
         | Some k \<Rightarrow>
             let pos = i + k
             in if 0 < pos \<and> \<not> prev_ok (message ! (pos - 1)) then find_pattern_from message p (Suc pos)
                else if \<not> after_ok (drop (pos + length p) message) then find_pattern_from message p (Suc pos)
                else Some (Some pos)))"
  by pat_completeness auto
termination
  by (relation "measure (\<lambda>(m, p, i). Suc (length m) - i)") auto

declare find_pattern_from.simps [simp del]

definition find_pattern :: "cstr \<Rightarrow> sensitive_field \<Rightarrow> nat option option" where
  "find_pattern message p = find_pattern_from message (sf_pattern p) 0"

text \<open>What is left of the message behind the value, or NULL.\<close>

definition find_value_end :: "cstr \<Rightarrow> cstr option" where
  "find_value_end s =
     (case s of
        [] \<Rightarrow> None
      | c # cs \<Rightarrow>
          if c = CHR 0x22 \<or> c = CHR 0x27 then
            (case dropWhile (\<lambda>d. d \<noteq> c) cs of [] \<Rightarrow> None | _ # r \<Rightarrow> Some r)
          else Some (dropWhile (\<lambda>d. \<not> isspace d \<and> d \<notin> {CHR '','', CHR ''&'', CHR 0x22}) s))"

subsection \<open>Sanitizing\<close>

text \<open>Writing \<open>cs\<close> behind what the buffer of \<open>n\<close> bytes holds.\<close>

definition buf_put :: "nat \<Rightarrow> cstr \<Rightarrow> cstr \<Rightarrow> cstr option" where
  "buf_put n out cs = (if length out + length cs \<le> n then Some (out @ cs) else None)"

text \<open>The loop over the patterns at \<open>pos\<close>, up to the first that matches there.\<close>

fun first_match :: "sensitive_field list \<Rightarrow> cstr \<Rightarrow> sensitive_field option option" where
  "first_match [] pos = Some None"
| "first_match (p # ps) pos =
     (case find_pattern pos p of
        None \<Rightarrow> None
      | Some m \<Rightarrow> if m = Some 0 then Some (Some p) else first_match ps pos)"

definition value_start :: "cstr \<Rightarrow> cstr" where
  "value_start s = dropWhile (\<lambda>c. isspace c \<or> c = CHR ''='' \<or> c = CHR '':'') s"

definition value_rest :: "cstr \<Rightarrow> cstr" where
  "value_rest s = (case find_value_end (value_start s) of None \<Rightarrow> [] | Some r \<Rightarrow> r)"

text \<open>The output loop. The result is the code and the text in the buffer.\<close>

function sanitize_loop :: "sensitive_field list \<Rightarrow> nat \<Rightarrow> cstr \<Rightarrow> cstr \<Rightarrow> (airy_err \<times> cstr) option" where
  "sanitize_loop ps bsize pos out =
     (if pos = [] \<or> bsize \<le> Suc (length out) then
        (case buf_put bsize out [CHR 0x00] of None \<Rightarrow> None | Some _ \<Rightarrow> Some (int (length out), out))
      else
        (case first_match ps pos of
           None \<Rightarrow> None
         | Some None \<Rightarrow>
             (case buf_put bsize out [hd pos] of None \<Rightarrow> None | Some out' \<Rightarrow> sanitize_loop ps bsize (tl pos) out')
         | Some (Some p) \<Rightarrow>
             let name = take (length (sf_pattern p)) pos;
                 needed = length name + 1 + length (sf_replacement p) + 1
             in if bsize - 1 - length out < needed then
                  (case buf_put bsize out [CHR 0x00] of None \<Rightarrow> None | Some _ \<Rightarrow> Some (AIRY_ERR_OVERFLOW, out))
                else
                  (case buf_put bsize out (name @ [CHR ''='']  @ sf_replacement p @ [CHR 0x00]) of
                     None \<Rightarrow> None
                   | Some _ \<Rightarrow>
                       sanitize_loop ps bsize (value_rest (drop (length (sf_pattern p)) pos))
                         (out @ name @ [CHR ''=''] @ sf_replacement p))))"
  by pat_completeness auto
termination
  by (relation "measure (\<lambda>(ps, bsize, pos, out). bsize - length out)") (auto simp: buf_put_def split: if_splits)

declare sanitize_loop.simps [simp del]

definition sanitize_core ::
  "bool \<Rightarrow> log_sanitizer \<Rightarrow> cstr option \<Rightarrow> nat option \<Rightarrow> (airy_err \<times> cstr \<times> log_sanitizer) option" where
  "sanitize_core mem g message buffer_size =
     (case (message, buffer_size) of
        (Some m, Some n) \<Rightarrow>
          if n = 0 then Some (AIRY_ERR_INVALID_PARAM, [], g)
          else
            let g1 = ensure_initialized mem g;
                ps = (case g_patterns g1 of None \<Rightarrow> [] | Some ps \<Rightarrow> ps)
            in (case sanitize_loop ps n m [] of None \<Rightarrow> None | Some (r, out) \<Rightarrow> Some (r, out, g1))
      | _ \<Rightarrow> Some (AIRY_ERR_INVALID_PARAM, [], g))"

text \<open>\<open>buffer_size = None\<close> is a NULL buffer.\<close>

definition log_sanitize ::
  "bool \<Rightarrow> log_sanitizer \<Rightarrow> cstr option \<Rightarrow> nat option \<Rightarrow> (airy_err \<times> cstr \<times> log_sanitizer) option" where
  "log_sanitize mem g message buffer_size = sanitize_core mem g message buffer_size"

text \<open>\<open>mem'\<close>: the buffer can be allocated.\<close>

definition log_sanitize_dup ::
  "bool \<Rightarrow> bool \<Rightarrow> log_sanitizer \<Rightarrow> cstr option \<Rightarrow> (cstr option \<times> log_sanitizer) option" where
  "log_sanitize_dup mem mem' g message =
     (case message of
        None \<Rightarrow> Some (None, g)
      | Some m \<Rightarrow>
          let alloc_size = max (length m + 1) MAX_LINE_LENGTH
          in if \<not> mem' then Some (None, g)
             else
               (case sanitize_core mem g message (Some alloc_size) of
                  None \<Rightarrow> None
                | Some (r, out, g1) \<Rightarrow> Some (if r < 0 then None else Some out, g1)))"

fun any_pattern :: "sensitive_field list \<Rightarrow> cstr \<Rightarrow> bool option" where
  "any_pattern [] m = Some False"
| "any_pattern (p # ps) m =
     (case find_pattern m p of None \<Rightarrow> None | Some None \<Rightarrow> any_pattern ps m | Some (Some _) \<Rightarrow> Some True)"

definition log_contains_sensitive :: "bool \<Rightarrow> log_sanitizer \<Rightarrow> cstr option \<Rightarrow> (bool \<times> log_sanitizer) option" where
  "log_contains_sensitive mem g message =
     (case message of
        None \<Rightarrow> Some (False, g)
      | Some m \<Rightarrow>
          let g1 = ensure_initialized mem g
          in map_option (\<lambda>b. (b, g1)) (any_pattern (case g_patterns g1 of None \<Rightarrow> [] | Some ps \<Rightarrow> ps) m))"

subsection \<open>Names and values\<close>

text \<open>The characters that are skipped between a name and its value, and those a bare value consists of.\<close>

definition sep_char :: "char \<Rightarrow> bool" where
  "sep_char c \<longleftrightarrow> isspace c \<or> c = CHR ''='' \<or> c = CHR '':''"

definition value_char :: "char \<Rightarrow> bool" where
  "value_char c \<longleftrightarrow> \<not> isspace c \<and> c \<notin> {CHR '','', CHR ''&'', CHR 0x22}"

text \<open>The patterns a client may add: not empty, and without the characters that end a field name.\<close>

definition pattern_ok :: "sensitive_field \<Rightarrow> bool" where
  "pattern_ok p \<longleftrightarrow> sf_pattern p \<noteq> [] \<and>
     list_all (\<lambda>c. \<not> sep_char c \<and> c \<notin> {CHR 0x22, CHR 0x27, CHR ''&''}) (sf_pattern p)"

definition matches :: "cstr \<Rightarrow> sensitive_field \<Rightarrow> bool" where
  "matches s p \<longleftrightarrow> case_prefix (sf_pattern p) s \<and> after_ok (drop (length (sf_pattern p)) s)"

subsection \<open>The loop without its buffer\<close>

lemma value_rest_le: "length (value_rest s) \<le> length s"
proof -
  have d: "length (dropWhile P t) \<le> length t" for P and t :: cstr by (rule length_dropWhile_le)
  have "length r \<le> length t" if e: "find_value_end t = Some r" for t r
  proof -
    obtain c cs where t: "t = c # cs" using e by (cases t) (auto simp: find_value_end_def)
    show ?thesis
    proof (cases "c = CHR 0x22 \<or> c = CHR 0x27")
      case True
      then obtain u where "dropWhile (\<lambda>d. d \<noteq> c) cs = u # r"
        using e t by (auto simp: find_value_end_def split: list.splits)
      then show ?thesis using d [of "\<lambda>d. d \<noteq> c" cs] t by simp
    next
      case False
      then have "r = dropWhile (\<lambda>d. \<not> isspace d \<and> d \<notin> {CHR '','', CHR ''&'', CHR 0x22}) t"
        using e t by (simp add: find_value_end_def del: dropWhile.simps)
      then show ?thesis using d by simp
    qed
  qed
  then show ?thesis
    unfolding value_rest_def using d [of _ s] by (auto simp: value_start_def split: option.splits intro: order_trans)
qed

text \<open>The text \<open>sanitize_core\<close> would write to a buffer without end.\<close>

function loop_text :: "sensitive_field list \<Rightarrow> cstr \<Rightarrow> cstr" where
  "loop_text ps s =
     (if s = [] then []
      else
        (case find (matches s) ps of
           None \<Rightarrow> hd s # loop_text ps (tl s)
         | Some p \<Rightarrow>
             if sf_pattern p = [] then []
             else take (length (sf_pattern p)) s @ [CHR ''=''] @ sf_replacement p @
                    loop_text ps (value_rest (drop (length (sf_pattern p)) s))))"
  by pat_completeness auto
termination
proof (relation "measure (\<lambda>(ps, s). length s)")
  fix ps s p
  assume s: "s \<noteq> []" and p: "find (matches s) ps = Some p" "sf_pattern p \<noteq> []"
  have "length (value_rest (drop (length (sf_pattern p)) s)) \<le> length s - length (sf_pattern p)"
    using value_rest_le [of "drop (length (sf_pattern p)) s"] by simp
  also have "\<dots> < length s" using s p(2) by simp
  finally show "((ps, value_rest (drop (length (sf_pattern p)) s)), ps, s) \<in> measure (\<lambda>(ps, s). length s)" by simp
qed auto

declare loop_text.simps [simp del]

subsection \<open>The search\<close>

lemma strcasestr_0: "strcasestr_from 0 h n = Some 0 \<longleftrightarrow> case_prefix n h"
proof
  assume "strcasestr_from 0 h n = Some 0"
  then show "case_prefix n h"
    using strcasestr_bound [of "Suc 0" "tl h" n 0]
    by (subst (asm) strcasestr_from.simps) (auto split: if_splits list.splits)
qed (auto simp: strcasestr_from.simps [of 0] case_prefix_def)

lemma find_pattern_from_ge: "find_pattern_from m p i = Some (Some j) \<Longrightarrow> i \<le> j"
proof (induction m p i rule: find_pattern_from.induct)
  case (1 m p i)
  show ?case
  proof (cases "log_strcasestr (Some (drop i m)) (Some p)")
    case None
    with "1.prems" show ?thesis by (subst (asm) find_pattern_from.simps) (simp split: if_splits)
  next
    case (Some k)
    note IH = "1.IH" [OF _ Some refl]
    from "1.prems" Some show ?thesis
      by (subst (asm) find_pattern_from.simps) (auto simp: Let_def split: if_splits dest: IH)
  qed
qed

lemma find_pattern_from_total:
  assumes "p \<noteq> []" "i \<le> length m"
  shows "find_pattern_from m p i \<noteq> None"
  using assms
proof (induction m p i rule: find_pattern_from.induct)
  case (1 m p i)
  show ?case
  proof (cases "log_strcasestr (Some (drop i m)) (Some p)")
    case None
    with "1.prems" show ?thesis by (subst find_pattern_from.simps) simp
  next
    case (Some k)
    then have "k + length p \<le> length m - i" using strcasestr_bound [of 0 "drop i m" p k] by (simp add: log_strcasestr_def)
    then have "Suc (i + k) \<le> length m" using "1.prems" by (cases p) auto
    with "1.IH" [OF _ Some refl] "1.prems" Some show ?thesis
      by (subst find_pattern_from.simps) (auto simp: Let_def)
  qed
qed

lemma find_pattern_0: "find_pattern s p = Some (Some 0) \<longleftrightarrow> matches s p"
proof -
  let ?k = "strcasestr_from 0 s (sf_pattern p)"
  have ge: "find_pattern_from s (sf_pattern p) (Suc j) \<noteq> Some (Some 0)" for j
    using find_pattern_from_ge [of s "sf_pattern p" "Suc j" 0] by auto
  show ?thesis
    using ge strcasestr_0 [of s "sf_pattern p"]
    by (cases ?k) (auto simp: find_pattern_def find_pattern_from.simps [of s _ 0] log_strcasestr_def matches_def Let_def)
qed

lemma first_match_find: "list_all (\<lambda>p. sf_pattern p \<noteq> []) ps \<Longrightarrow> first_match ps s = Some (find (matches s) ps)"
proof (induction ps)
  case (Cons p ps)
  then obtain m where "find_pattern s p = Some m"
    using find_pattern_from_total [of "sf_pattern p" 0 s] by (auto simp: find_pattern_def)
  with Cons find_pattern_0 [of s p] show ?case by auto
qed simp

subsection \<open>The output\<close>

lemma sanitize_loop_spec:
  assumes "list_all (\<lambda>p. sf_pattern p \<noteq> []) ps" "length out < bsize"
  shows "\<exists>r out'. sanitize_loop ps bsize pos out = Some (r, out') \<and> length out' < bsize \<and>
    (r = int (length out') \<or> r = AIRY_ERR_OVERFLOW) \<and> prefix out' (out @ loop_text ps pos) \<and>
    (length (out @ loop_text ps pos) + 2 \<le> bsize \<longrightarrow> r = int (length out') \<and> out' = out @ loop_text ps pos)"
  using assms
proof (induction ps bsize pos out rule: sanitize_loop.induct)
  case (1 ps bsize pos out)
  have fm: "first_match ps pos = Some (find (matches pos) ps)" using first_match_find "1.prems"(1) .
  consider (stop) "pos = [] \<or> bsize \<le> Suc (length out)" | (copy) "pos \<noteq> []" "Suc (length out) < bsize" "find (matches pos) ps = None"
    | (field) p where "pos \<noteq> []" "Suc (length out) < bsize" "find (matches pos) ps = Some p"
    by fastforce
  then show ?case
  proof cases
    case stop
    then show ?thesis using "1.prems"(2)
      by (subst sanitize_loop.simps) (auto simp: buf_put_def loop_text.simps)
  next
    case copy
    have b: "buf_put bsize out [hd pos] = Some (out @ [hd pos])" using copy(2) by (simp add: buf_put_def)
    have e: "sanitize_loop ps bsize pos out = sanitize_loop ps bsize (tl pos) (out @ [hd pos])"
      using copy fm b by (subst sanitize_loop.simps) simp
    have r: "loop_text ps pos = hd pos # loop_text ps (tl pos)" using copy by (subst loop_text.simps) simp
    show ?thesis using "1.IH"(1) [OF _ fm copy(3) b] copy "1.prems" unfolding e r by simp
  next
    case (field p)
    have p: "sf_pattern p \<noteq> []" using field(3) "1.prems"(1) by (auto simp: find_Some_iff list_all_length)
    let ?n = "take (length (sf_pattern p)) pos" and ?r = "value_rest (drop (length (sf_pattern p)) pos)"
    let ?o = "out @ ?n @ [CHR ''=''] @ sf_replacement p"
    have r: "loop_text ps pos = ?n @ [CHR ''=''] @ sf_replacement p @ loop_text ps ?r"
      using field p by (subst loop_text.simps) simp
    show ?thesis
    proof (cases "bsize - 1 - length out < length ?n + 1 + length (sf_replacement p) + 1")
      case True
      then have "sanitize_loop ps bsize pos out = Some (AIRY_ERR_OVERFLOW, out)"
        using field fm "1.prems"(2) by (subst sanitize_loop.simps) (simp add: buf_put_def Let_def)
      with True r "1.prems"(2) show ?thesis by auto
    next
      case False
      have b: "buf_put bsize out (?n @ [CHR ''=''] @ sf_replacement p @ [CHR 0x00]) = Some (?o @ [CHR 0x00])"
        using False by (simp add: buf_put_def)
      have e: "sanitize_loop ps bsize pos out = sanitize_loop ps bsize ?r ?o"
        using field fm False b by (subst sanitize_loop.simps) (simp add: Let_def)
      show ?thesis using "1.IH"(2) [OF _ fm field(3) refl refl _ b] field False "1.prems" unfolding e r by simp
    qed
  qed
qed

subsection \<open>What the output depends on\<close>

lemma tolower_other: "tolower d = tolower c \<Longrightarrow> \<not> (65 \<le> (of_char c :: int) \<and> (of_char c :: int) \<le> 90) \<Longrightarrow>
    \<not> (97 \<le> (of_char c :: int) \<and> (of_char c :: int) \<le> 122) \<Longrightarrow> d = c"
proof -
  assume h: "tolower d = tolower c" and c: "\<not> (65 \<le> (of_char c :: int) \<and> (of_char c :: int) \<le> 90)"
    "\<not> (97 \<le> (of_char c :: int) \<and> (of_char c :: int) \<le> 122)"
  show "d = c"
  proof (cases "65 \<le> (of_char d :: int) \<and> (of_char d :: int) \<le> 90")
    case True
    then have "char_of ((of_char d :: int) + 32) = c" using h c(1) by (simp add: tolower_def Let_def)
    then have "(of_char (char_of ((of_char d :: int) + 32)) :: int) = of_char c" by simp
    then have "(of_char d :: int) + 32 = of_char c" using True by (simp add: of_char_of)
    with True c(2) show ?thesis by linarith
  next
    case False
    with h c(1) show ?thesis by (auto simp: tolower_def Let_def split: if_splits)
  qed
qed

definition special :: "char \<Rightarrow> bool" where
  "special c \<longleftrightarrow> sep_char c \<or> c \<in> {CHR 0x22, CHR 0x27, CHR ''&''}"

lemma special_tolower: "special c \<Longrightarrow> tolower d = tolower c \<Longrightarrow> d = c"
  by (rule tolower_other) (auto simp: special_def sep_char_def isspace_def Let_def)

lemma after_ok_special: "after_ok s \<Longrightarrow> s \<noteq> [] \<Longrightarrow> special (hd s)"
  by (auto simp: after_ok_def special_def sep_char_def isspace_def Let_def)

lemma case_prefix_nth: "case_prefix n s \<Longrightarrow> i < length n \<Longrightarrow> i < length s \<and> tolower (s ! i) = tolower (n ! i)"
  unfolding case_prefix_def by (metis length_take less_le_trans min.absorb2 nth_map nth_take)

text \<open>A pattern never matches across a special character.\<close>

lemma match_length:
  assumes "pattern_ok q" "case_prefix (sf_pattern q) (u @ c # x)" "special c"
  shows "length (sf_pattern q) \<le> length u"
proof (rule ccontr)
  assume "\<not> length (sf_pattern q) \<le> length u"
  then have l: "length u < length (sf_pattern q)" by simp
  then have "tolower (sf_pattern q ! length u) = tolower c" using case_prefix_nth [OF assms(2) l] by simp
  then have "sf_pattern q ! length u = c" using special_tolower [OF assms(3)] by simp
  with assms(1,3) l show False by (auto simp: pattern_ok_def special_def list_all_length)
qed

lemma matches_special:
  assumes "pattern_ok q" "special c"
  shows "matches (u @ c # x) q = matches (u @ c # y) q"
proof (cases "length (sf_pattern q) \<le> length u")
  case True
  then have "hd (drop (length (sf_pattern q)) (u @ c # x)) = hd (drop (length (sf_pattern q)) (u @ c # y))"
    by (cases "drop (length (sf_pattern q)) u") simp_all
  with True show ?thesis by (auto simp: matches_def case_prefix_def after_ok_def)
next
  case False
  with match_length [OF assms(1) _ assms(2), of u] show ?thesis by (auto simp: matches_def)
qed

lemma find_special:
  assumes "list_all pattern_ok ps" "special c"
  shows "find (matches (u @ c # x)) ps = find (matches (u @ c # y)) ps"
  using assms matches_special by (intro find_cong) (auto simp: list_all_iff)

subsubsection \<open>Values\<close>

text \<open>A bare value is a non-empty word that is followed by a terminator; a quoted value ends at its quote.\<close>

definition field_value :: "cstr \<Rightarrow> cstr \<Rightarrow> bool" where
  "field_value v rest \<longleftrightarrow>
     (v \<noteq> [] \<and> list_all value_char v \<and> \<not> special (hd v) \<and> (rest = [] \<or> \<not> value_char (hd rest))) \<or>
     (\<exists>q body. q \<in> {CHR 0x22, CHR 0x27} \<and> v = q # body @ [q] \<and> q \<notin> set body)"

lemma value_rest_value:
  assumes "list_all sep_char sep" "field_value v rest"
  shows "value_rest (sep @ v @ rest) = rest"
proof -
  have s: "value_start (sep @ t) = value_start t" for t
    using assms(1) by (induction sep) (auto simp: value_start_def sep_char_def)
  from assms(2) consider (bare) "v \<noteq> []" "list_all value_char v" "\<not> special (hd v)" "rest = [] \<or> \<not> value_char (hd rest)"
    | (quoted) q body where "q \<in> {CHR 0x22, CHR 0x27}" "v = q # body @ [q]" "q \<notin> set body"
    unfolding field_value_def by blast
  then show ?thesis
  proof cases
    case bare
    obtain c w where v: "v = c # w" using bare(1) by (cases v) auto
    have "value_start (v @ rest) = v @ rest" using bare(3) v by (simp add: value_start_def special_def sep_char_def)
    moreover have "value_char = (\<lambda>d. \<not> isspace d \<and> d \<notin> {CHR '','', CHR ''&'', CHR 0x22})"
      by (simp add: fun_eq_iff value_char_def)
    then have "find_value_end (v @ rest) = Some (dropWhile value_char (v @ rest))"
      using bare(3) v by (simp add: find_value_end_def special_def del: dropWhile.simps)
    moreover have "dropWhile value_char (v @ rest) = rest"
      using bare(2,4) by (simp add: list_all_iff dropWhile_append2) (cases rest; simp)
    ultimately show ?thesis by (simp add: value_rest_def s)
  next
    case quoted
    have "value_start (v @ rest) = v @ rest" using quoted by (auto simp: value_start_def isspace_def Let_def)
    moreover have "dropWhile (\<lambda>d. d \<noteq> q) ((body @ [q]) @ rest) = q # rest"
      using quoted(3) by (induction body) auto
    ultimately show ?thesis using quoted by (auto simp: value_rest_def s find_value_end_def)
  qed
qed

lemma pattern_ok_nonempty: "list_all pattern_ok ps \<Longrightarrow> list_all (\<lambda>p. sf_pattern p \<noteq> []) ps"
  by (auto simp: list_all_iff pattern_ok_def)

text \<open>At a field name that is followed by a separator exactly the patterns that spell the name match.\<close>

definition spells :: "cstr \<Rightarrow> sensitive_field \<Rightarrow> bool" where
  "spells nm p \<longleftrightarrow> map tolower nm = map tolower (sf_pattern p)"

lemma spells_length: "spells nm p \<Longrightarrow> length nm = length (sf_pattern p)"
  unfolding spells_def by (metis length_map)

lemma matches_name:
  assumes p: "pattern_ok p" "spells nm p" and c: "special c" "after_ok (c # x)" and q: "pattern_ok q"
  shows "matches (nm @ c # x) q \<longleftrightarrow> spells nm q"
proof
  assume m: "matches (nm @ c # x) q"
  let ?k = "length (sf_pattern q)"
  have le: "?k \<le> length nm" using match_length [OF q _ c(1)] m by (auto simp: matches_def)
  have "\<not> ?k < length nm"
  proof
    assume k: "?k < length nm"
    then have "special (nm ! ?k)"
      using m after_ok_special [of "drop ?k (nm @ c # x)"] by (auto simp: matches_def hd_append hd_drop_conv_nth)
    moreover have "tolower (sf_pattern p ! ?k) = tolower (nm ! ?k)"
      using p(2) k spells_length [OF p(2)] unfolding spells_def by (metis nth_map)
    ultimately have "special (sf_pattern p ! ?k)" using special_tolower by metis
    with p(1) k spells_length [OF p(2)] show False by (auto simp: pattern_ok_def special_def list_all_length)
  qed
  with le m show "spells nm q" by (simp add: matches_def case_prefix_def spells_def)
next
  assume "spells nm q"
  with c(2) spells_length [OF this] show "matches (nm @ c # x) q"
    by (simp add: matches_def case_prefix_def spells_def)
qed

lemma name_find:
  assumes ps: "list_all pattern_ok ps" and p: "p \<in> set ps" "spells nm p" and c: "special c" "after_ok (c # x)"
  shows "find (matches (nm @ c # x)) ps = find (spells nm) ps"
proof (rule find_cong)
  fix q assume "q \<in> set ps"
  with ps p(1) have "pattern_ok q" "pattern_ok p" by (auto simp: list_all_iff)
  with matches_name [OF _ p(2) c] show "matches (nm @ c # x) q = spells nm q" by blast
qed simp

lemma name_match:
  assumes "list_all pattern_ok ps" "p \<in> set ps" "spells nm p" "special c" "after_ok (c # x)"
  shows "\<exists>q. find (matches (nm @ c # x)) ps = Some q \<and> length (sf_pattern q) = length nm"
proof -
  obtain q where q: "find (spells nm) ps = Some q" using assms(2,3) by (metis find_None_iff option.exhaust)
  then have "spells nm q" by (auto simp: find_Some_iff)
  with q name_find [OF assms] spells_length [of nm q] show ?thesis by simp
qed

lemma sanitize_hides:
  assumes ps: "list_all pattern_ok ps" and p: "p \<in> set ps" "spells nm p"
    and sep: "sep \<noteq> []" "list_all sep_char sep" "after_ok sep" and v: "field_value v rest" "field_value v' rest"
    and pre: "\<And>k. k < length pre \<Longrightarrow> find (matches (drop k (pre @ nm @ sep))) ps = None"
  shows "sanitize_loop ps n (pre @ nm @ sep @ v @ rest) out = sanitize_loop ps n (pre @ nm @ sep @ v' @ rest) out"
  using pre
proof (induction pre arbitrary: out)
  case Nil
  obtain c t where ct: "sep = c # t" using sep(1) by (cases sep) auto
  have c: "special c" "\<And>x. after_ok (c # x)" using sep ct by (simp_all add: special_def after_ok_def)
  have "sf_pattern p \<noteq> []" using p(1) ps by (simp add: list_all_iff pattern_ok_def)
  then have nm: "nm \<noteq> []" using spells_length [OF p(2)] by auto
  obtain q where q: "find (matches (nm @ sep @ v @ rest)) ps = Some q" "length (sf_pattern q) = length nm"
    using name_match [OF ps p c(1) c(2), of "t @ v @ rest"] ct by auto
  have q': "find (matches (nm @ sep @ v' @ rest)) ps = Some q"
    using q(1) find_special [OF ps c(1), of nm "t @ v @ rest" "t @ v' @ rest"] ct by simp
  note fm = first_match_find [OF pattern_ok_nonempty [OF ps]]
  show ?case
    using q q' nm value_rest_value [OF sep(2) v(1)] value_rest_value [OF sep(2) v(2)]
    by (subst (1 2) sanitize_loop.simps) (simp add: fm Let_def split: option.split)
next
  case (Cons a pre)
  obtain c t where ct: "sep = c # t" using sep(1) by (cases sep) auto
  have c: "special c" using sep ct by (simp add: special_def)
  have f: "find (matches ((a # pre) @ nm @ sep @ y)) ps = None" for y
    using Cons.prems [of 0] find_special [OF ps c, of "(a # pre) @ nm" t "t @ y"] ct by simp
  have "\<And>k. k < length pre \<Longrightarrow> find (matches (drop k (pre @ nm @ sep))) ps = None" using Cons.prems [of "Suc k" for k] by simp
  note IH = Cons.IH [OF this]
  note fm = first_match_find [OF pattern_ok_nonempty [OF ps]]
  show ?case
    using f [of "v @ rest"] f [of "v' @ rest"] by (subst (1 2) sanitize_loop.simps) (auto simp: fm IH split: option.splits)
qed

lemma loop_text_copy:
  "(\<And>k. k < length t \<Longrightarrow> find (matches (drop k (t @ r))) ps = None) \<Longrightarrow> loop_text ps (t @ r) = t @ loop_text ps r"
proof (induction t)
  case (Cons c t)
  have "find (matches (drop k (t @ r))) ps = None" if "k < length t" for k using Cons.prems [of "Suc k"] that by simp
  then have "loop_text ps (t @ r) = t @ loop_text ps r" using Cons.IH by blast
  then show ?case using Cons.prems [of 0] by (subst loop_text.simps) simp
qed simp

lemma loop_text_Nil [simp]: "loop_text ps [] = []"
  by (simp add: loop_text.simps)

lemma loop_text_field:
  assumes ps: "list_all pattern_ok ps" and p: "p \<in> set ps" "spells nm p"
    and sep: "sep \<noteq> []" "list_all sep_char sep" "after_ok sep" and v: "field_value v rest"
  shows "\<exists>q. find (spells nm) ps = Some q \<and>
    loop_text ps (nm @ sep @ v @ rest) = nm @ [CHR ''=''] @ sf_replacement q @ loop_text ps rest"
proof -
  obtain c t where ct: "sep = c # t" using sep(1) by (cases sep) auto
  have c: "special c" "after_ok (c # t @ v @ rest)" using sep ct by (simp_all add: special_def after_ok_def)
  obtain q where q: "find (matches (nm @ sep @ v @ rest)) ps = Some q" "length (sf_pattern q) = length nm"
    using name_match [OF ps p c] ct by auto
  have "sf_pattern q \<noteq> []" using q(1) ps by (auto simp: find_Some_iff list_all_length pattern_ok_def)
  then have "loop_text ps (nm @ sep @ v @ rest) = nm @ [CHR ''=''] @ sf_replacement q @ loop_text ps rest"
    using q sep(1) value_rest_value [OF sep(2) v] by (subst loop_text.simps) simp
  with q(1) name_find [OF ps p c] ct show ?thesis by auto
qed

subsection \<open>Lines built from fields\<close>

text \<open>
  A log line as its writer builds it: plain text, and sensitive fields made of a name, separators and a
  value. \<open>render\<close> is the line, \<open>masked\<close> the line a log may hold: per field the name, \<open>=\<close> and the replacement
  of the first pattern that spells the name up to case, everything else as it is.
\<close>

datatype log_piece = Plain cstr | Secret cstr cstr cstr

fun piece_text :: "log_piece \<Rightarrow> cstr" where
  "piece_text (Plain t) = t"
| "piece_text (Secret nm sep v) = nm @ sep @ v"

definition render :: "log_piece list \<Rightarrow> cstr" where
  "render xs = concat (map piece_text xs)"

fun mask_piece :: "sensitive_field list \<Rightarrow> log_piece \<Rightarrow> cstr" where
  "mask_piece ps (Plain t) = t"
| "mask_piece ps (Secret nm sep v) =
     nm @ [CHR ''=''] @ (case find (spells nm) ps of None \<Rightarrow> [] | Some p \<Rightarrow> sf_replacement p)"

definition masked :: "sensitive_field list \<Rightarrow> log_piece list \<Rightarrow> cstr" where
  "masked ps xs = concat (map (mask_piece ps) xs)"

text \<open>
  The rules of the README, with \<open>pre\<close> the line before the pieces: a field name stands at the start of the
  line or behind a blank, a quote or a comma, and is followed by \<open>=\<close>, \<open>:\<close>, a space or a newline; more
  separators may follow; the value is a word or a quoted text. No name that ends at a boundary starts in the
  plain text, not even inside a longer word.
\<close>

fun log_line :: "sensitive_field list \<Rightarrow> cstr \<Rightarrow> log_piece list \<Rightarrow> bool" where
  "log_line ps pre [] \<longleftrightarrow> True"
| "log_line ps pre (Plain t # xs) \<longleftrightarrow>
     list_all (\<lambda>k. \<not> list_ex (matches (drop k (t @ render xs))) ps) [0..<length t] \<and> log_line ps (pre @ t) xs"
| "log_line ps pre (Secret nm sep v # xs) \<longleftrightarrow>
     (pre = [] \<or> prev_ok (last pre)) \<and> list_ex (spells nm) ps \<and> sep \<noteq> [] \<and> list_all sep_char sep \<and>
     after_ok sep \<and> field_value v (render xs) \<and> log_line ps (pre @ nm @ sep @ v) xs"

lemma loop_text_line: "list_all pattern_ok ps \<Longrightarrow> log_line ps pre xs \<Longrightarrow> loop_text ps (render xs) = masked ps xs"
proof (induction ps pre xs rule: log_line.induct)
  case (1 ps pre)
  then show ?case by (simp add: render_def masked_def)
next
  case (2 ps pre t xs)
  then have "find (matches (drop k (t @ render xs))) ps = None" if "k < length t" for k
    using that by (auto simp: find_None_iff list_all_iff list_ex_iff)
  from loop_text_copy [OF this] 2 show ?case by (simp add: render_def masked_def)
next
  case (3 ps pre nm sep v xs)
  then obtain p where "p \<in> set ps" "spells nm p" by (auto simp: list_ex_iff)
  from loop_text_field [OF "3.prems"(1) this, of sep v "render xs"] 3 show ?case
    by (auto simp: render_def masked_def)
qed

subsection \<open>Properties\<close>

text \<open>C35: For every line built from plain text and sensitive fields after the rules of the README, and every
  non-empty buffer, the sanitizer returns without writing outside the buffer; what it leaves there is terminated
  and is the beginning of the line with the value of every field, and nothing else, replaced; it reports the length or
  an overflow, and if the masked line fits with one byte to spare the output is exactly the masked line. Field names
  are unquoted, the patterns are not empty and hold no separators, and no sensitive name ends a longer word of the plain
  text.\<close>

theorem log_sanitize_redacts:
  assumes "g_initialized g" "g_patterns g = Some ps" "list_all pattern_ok ps" "log_line ps [] xs" "0 < n"
  shows "\<exists>r out. log_sanitize mem g (Some (render xs)) (Some n) = Some (r, out, g) \<and> length out < n \<and>
    prefix out (masked ps xs) \<and> (r = int (length out) \<or> r = AIRY_ERR_OVERFLOW) \<and>
    (length (masked ps xs) + 2 \<le> n \<longrightarrow> r = int (length out) \<and> out = masked ps xs)"
  using sanitize_loop_spec [OF pattern_ok_nonempty [OF assms(3)], of "[]" n "render xs"] assms
  unfolding loop_text_line [OF assms(3,4)]
  by (auto simp: log_sanitize_def sanitize_core_def ensure_initialized_def Let_def)

definition sanitizer_ready :: log_sanitizer where
  "sanitizer_ready = ensure_initialized True sanitizer0"

lemma ready_sel [simp]: "g_initialized sanitizer_ready" "g_patterns sanitizer_ready = Some default_patterns"
  by (simp_all add: sanitizer_ready_def ensure_initialized_def sanitizer0_def)

lemma default_ok: "list_all pattern_ok default_patterns"
  by code_simp

lemma default_password: "list_ex (spells ''password'') default_patterns"
  by code_simp

definition demo_line :: "log_piece list" where
  "demo_line = [Plain ''x '', Secret ''password'' '': '' ''abc'', Plain '', y'']"

lemma demo_line_ok: "log_line default_patterns [] demo_line"
proof -
  have "field_value ''abc'' '', y''" unfolding field_value_def by (intro disjI1) code_simp
  moreover have "list_all (\<lambda>k. \<not> list_ex (matches (drop k ''x password: abc, y'')) default_patterns) [0..<length ''x '']"
    "list_all (\<lambda>k. \<not> list_ex (matches (drop k '', y'')) default_patterns) [0..<length '', y'']"
    "prev_ok (CHR '' '')" "list_all sep_char '': ''" "after_ok '': ''" by code_simp+
  ultimately show ?thesis using default_password by (simp add: demo_line_def render_def)
qed

theorem log_sanitize_redacts_witness:
  "render demo_line = ''x password: abc, y'' \<and>
   (\<exists>r out. log_sanitize True sanitizer_ready (Some (render demo_line)) (Some 64) = Some (r, out, sanitizer_ready) \<and>
     out = ''x password=***, y'')"
proof -
  have "masked default_patterns demo_line = ''x password=***, y''" "render demo_line = ''x password: abc, y''" by code_simp+
  with log_sanitize_redacts [of sanitizer_ready default_patterns demo_line 64 True] default_ok demo_line_ok
  show ?thesis by auto
qed

text \<open>C5: Two log lines that differ in the value of a sensitive field only are sanitized to the same output, for every
  buffer size, so that the output does not depend on the value. The field is a name that some pattern spells up to case,
  unquoted and at a boundary of the README (the start of the line, or behind a blank, a quote or a comma), followed by
  separators (\<open>=\<close>, \<open>:\<close>, blanks) and by a word or a quoted text; no pattern matches earlier in the line. A name
  inside quotes is not covered: its value is copied, as \<open>log_sanitize_quoted_leak\<close> shows.\<close>

theorem log_sanitize_hides:
  assumes "g_initialized g" "g_patterns g = Some ps" "list_all pattern_ok ps"
    and "p \<in> set ps" "spells nm p" "pre = [] \<or> prev_ok (last pre)"
    and "sep \<noteq> []" "list_all sep_char sep" "after_ok sep" "field_value v rest" "field_value v' rest"
    and "list_all (\<lambda>k. find (matches (drop k (pre @ nm @ sep))) ps = None) [0..<length pre]"
  shows "log_sanitize mem g (Some (pre @ nm @ sep @ v @ rest)) (Some n) =
         log_sanitize mem g (Some (pre @ nm @ sep @ v' @ rest)) (Some n)"
proof -
  have "find (matches (drop k (pre @ nm @ sep))) ps = None" if "k < length pre" for k
    using assms(12) that by (simp add: list_all_iff)
  then show ?thesis
    using sanitize_hides [OF assms(3-5,7-11)] assms(1,2)
    by (simp add: log_sanitize_def sanitize_core_def ensure_initialized_def Let_def)
qed

theorem log_sanitize_hides_witness:
  "log_sanitize True sanitizer_ready (Some (''user joe '' @ ''Password'' @ '': '' @ ''hunter2'' @ '', ok'')) (Some 64) =
   log_sanitize True sanitizer_ready (Some (''user joe '' @ ''Password'' @ '': '' @ ''swordfish'' @ '', ok'')) (Some 64)"
proof (rule log_sanitize_hides [of _ default_patterns "\<lparr>sf_pattern = ''password'', sf_replacement = ''***''\<rparr>"])
  show "field_value ''hunter2'' '', ok''" "field_value ''swordfish'' '', ok''"
    unfolding field_value_def by (intro disjI1; code_simp)+
  show "\<lparr>sf_pattern = ''password'', sf_replacement = ''***''\<rparr> \<in> set default_patterns" by (simp add: default_patterns_def)
  show "list_all (\<lambda>k. find (matches (drop k (''user joe '' @ ''Password'' @ '': ''))) default_patterns = None) [0..<length ''user joe '']"
    "list_all sep_char '': ''" "after_ok '': ''" "spells ''Password'' \<lparr>sf_pattern = ''password'', sf_replacement = ''***''\<rparr>"
    "''user joe '' = [] \<or> prev_ok (last ''user joe '')"
    by code_simp+
qed (simp_all add: default_ok)

text \<open>No default pattern begins with a digit.\<close>

lemma digit_no_match:
  assumes "c \<in> set ''0123456789''"
  shows "find (matches (c # t)) default_patterns = None"
proof -
  have d: "list_all (\<lambda>p. sf_pattern p \<noteq> [] \<and> list_all (\<lambda>c. tolower c \<noteq> tolower (hd (sf_pattern p))) ''0123456789'') default_patterns"
    by code_simp
  have "\<not> matches (c # t) p" if "p \<in> set default_patterns" for p
  proof
    assume m: "matches (c # t) p"
    have p: "sf_pattern p \<noteq> []" "tolower c \<noteq> tolower (hd (sf_pattern p))" using d that assms by (auto simp: list_all_iff)
    then have "tolower ((c # t) ! 0) = tolower (sf_pattern p ! 0)"
      using m case_prefix_nth [of "sf_pattern p" "c # t" 0] by (simp add: matches_def)
    with p show False by (simp add: hd_conv_nth)
  qed
  then show ?thesis by (auto simp: find_None_iff)
qed

lemma loop_text_digits:
  assumes "list_all (\<lambda>c. c \<in> set ''0123456789'') t"
  shows "loop_text default_patterns (t @ r) = t @ loop_text default_patterns r"
proof (rule loop_text_copy)
  fix k assume k: "k < length t"
  then have "drop k (t @ r) = t ! k # drop (Suc k) t @ r" by (simp add: Cons_nth_drop_Suc)
  then show "find (matches (drop k (t @ r))) default_patterns = None"
    using digit_no_match [of "t ! k" "drop (Suc k) t @ r"] assms k by (simp add: list_all_length)
qed

lemma loop_text_bearer:
  assumes "list_all (\<lambda>c. c \<in> set ''0123456789'') t"
  shows "loop_text default_patterns (''Authorization: Bearer '' @ t) = ''Authorization=*** '' @ t"
proof -
  let ?p = "\<lparr>sf_pattern = ''authorization'', sf_replacement = ''***''\<rparr>"
  have t: "loop_text default_patterns t = t" using loop_text_digits [OF assms, of "[]"] by simp
  have sp: "special (CHR '' '')" by (simp add: special_def sep_char_def isspace_def)
  have "find (matches '' '') default_patterns = None" by code_simp
  then have "find (matches ('' '' @ t)) default_patterns = None"
    using find_special [OF default_ok sp, of "[]" "[]" t] by simp
  then have b: "loop_text default_patterns ('' '' @ t) = '' '' @ t" using t by (subst loop_text.simps) simp
  have f: "find (spells ''Authorization'') default_patterns = Some ?p" by code_simp
  then have p: "?p \<in> set default_patterns" "spells ''Authorization'' ?p" by (auto simp: find_Some_iff)
  have "field_value ''Bearer'' ('' '' @ t)"
    unfolding field_value_def by (intro disjI1) (simp add: value_char_def special_def sep_char_def isspace_def)
  from loop_text_field [OF default_ok p _ _ _ this, of "'': ''"] f b show ?thesis
    by (simp add: sep_char_def isspace_def after_ok_def)
qed

lemma sanitize_dup_fits:
  assumes "length (loop_text default_patterns m) + 2 \<le> max (length m + 1) MAX_LINE_LENGTH"
  shows "log_sanitize_dup True True sanitizer0 (Some m) = Some (Some (loop_text default_patterns m), sanitizer_ready)"
proof -
  let ?n = "max (length m + 1) MAX_LINE_LENGTH" and ?r = "loop_text default_patterns m"
  have "sanitize_loop default_patterns ?n m [] = Some (int (length ?r), ?r)"
    using sanitize_loop_spec [OF pattern_ok_nonempty [OF default_ok], of "[]" ?n m] assms by auto
  moreover have "ensure_initialized True sanitizer0 = sanitizer_ready" by (simp add: sanitizer_ready_def)
  ultimately have "sanitize_core True sanitizer0 (Some m) (Some ?n) = Some (int (length ?r), ?r, sanitizer_ready)"
    by (simp add: sanitize_core_def Let_def)
  then show ?thesis by (simp add: log_sanitize_dup_def Let_def)
qed

text \<open>C36: The sanitizer only masks the word behind the name, which in an \<open>Authorization: Bearer\<close> header is the scheme: every
  credential of digits is copied to the log unchanged.\<close>

theorem log_sanitize_bearer_leak:
  assumes "list_all (\<lambda>c. c \<in> set ''0123456789'') credential"
  shows "log_sanitize_dup True True sanitizer0 (Some (''Authorization: Bearer '' @ credential)) =
         Some (Some (''Authorization=*** '' @ credential), sanitizer_ready)"
  using sanitize_dup_fits [of "''Authorization: Bearer '' @ credential"] loop_text_bearer [OF assms] by simp

theorem log_sanitize_bearer_leak_witness:
  "log_sanitize_dup True True sanitizer0 (Some (''Authorization: Bearer '' @ ''12345'')) = Some (Some (''Authorization=*** '' @ ''12345''), sanitizer_ready)"
  by (rule log_sanitize_bearer_leak) simp

subsection \<open>Names in quotes and names inside words\<close>

text \<open>
  Behind a quoted name, as in JSON, the closing quote of the name is taken for the opening quote of the
  value, so that \<open>":"\<close> is masked and the value itself is copied to the log.
\<close>

lemma loop_text_quoted:
  assumes "list_all (\<lambda>c. c \<in> set ''0123456789'') t"
  shows "loop_text default_patterns (''{'' @ [CHR 0x22] @ ''password'' @ [CHR 0x22, CHR '':'', CHR 0x22] @ t @ [CHR 0x22] @ ''}'') =
    ''{'' @ [CHR 0x22] @ ''password=***'' @ t @ [CHR 0x22] @ ''}''"
proof -
  let ?q = "CHR 0x22" and ?p = "\<lparr>sf_pattern = ''password'', sf_replacement = ''***''\<rparr>"
  let ?e = "t @ [?q] @ ''}''"
  have sp: "special ?q" by (simp add: special_def)
  have "find (matches [?q, CHR ''}'']) default_patterns = None" "find (matches [CHR ''}'']) default_patterns = None" by code_simp+
  then have "loop_text default_patterns ([?q] @ ''}'') = [?q] @ ''}''"
    by (simp add: loop_text.simps [of _ "[?q, CHR ''}'']"] loop_text.simps [of _ "[CHR ''}'']"])
  then have e: "loop_text default_patterns ?e = ?e" using loop_text_digits [OF assms] by simp
  have f: "find (spells ''password'') default_patterns = Some ?p" by code_simp
  then have p: "?p \<in> set default_patterns" "spells ''password'' ?p" by (auto simp: find_Some_iff)
  have m: "find (matches (''password'' @ ?q # x)) default_patterns = Some ?p" for x
    using name_find [OF default_ok p sp, of x] f by (simp add: after_ok_def)
  have "field_value [?q, CHR '':'', ?q] ?e"
    unfolding field_value_def by (intro disjI2 exI [of _ ?q] exI [of _ "'':''"]) simp
  from value_rest_value [OF _ this, of "[]"] have v: "value_rest ([?q, CHR '':'', ?q] @ ?e) = ?e" by simp
  have w: "loop_text default_patterns (''password'' @ [?q, CHR '':'', ?q] @ ?e) = ''password=***'' @ ?e"
    using m [of "CHR '':'' # ?q # ?e"] v e by (subst loop_text.simps) simp
  have "find (matches (''{'' @ ?q # [])) default_patterns = None" "find (matches ([] @ ?q # [])) default_patterns = None" by code_simp+
  then have n: "find (matches (''{'' @ ?q # x)) default_patterns = None" "find (matches ([] @ ?q # x)) default_patterns = None" for x
    using find_special [OF default_ok sp, of "''{''" x "[]"] find_special [OF default_ok sp, of "[]" x "[]"] by simp_all
  show ?thesis using n w by (subst loop_text.simps, subst loop_text.simps) simp
qed

lemma log_sanitize_quoted_leak:
  assumes "list_all (\<lambda>c. c \<in> set ''0123456789'') secret" "length secret \<le> 4000"
  shows "log_sanitize_dup True True sanitizer0
      (Some (''{'' @ [CHR 0x22] @ ''password'' @ [CHR 0x22, CHR '':'', CHR 0x22] @ secret @ [CHR 0x22] @ ''}'')) =
    Some (Some (''{'' @ [CHR 0x22] @ ''password=***'' @ secret @ [CHR 0x22] @ ''}''), sanitizer_ready)"
  using sanitize_dup_fits [of "''{'' @ [CHR 0x22] @ ''password'' @ [CHR 0x22, CHR '':'', CHR 0x22] @ secret @ [CHR 0x22] @ ''}''"]
    loop_text_quoted [OF assms(1)] assms(2) by (simp add: MAX_LINE_LENGTH_def)

text \<open>
  The search restarts at every position of the line, where there is no previous character to look at: a name
  at the end of a longer word is masked too, although \<open>log_contains_sensitive\<close>, which searches the whole
  line, does not count it.
\<close>

lemma log_sanitize_inside_word:
  "log_sanitize_dup True True sanitizer0 (Some ''mypassword=1'') = Some (Some ''mypassword=***'', sanitizer_ready)"
  "any_pattern default_patterns ''mypassword=1'' = Some False"
proof -
  have "loop_text default_patterns ''mypassword=1'' = ''mypassword=***''" by code_simp
  with sanitize_dup_fits [of "''mypassword=1''"]
  show "log_sanitize_dup True True sanitizer0 (Some ''mypassword=1'') = Some (Some ''mypassword=***'', sanitizer_ready)"
    by (simp add: MAX_LINE_LENGTH_def)
  show "any_pattern default_patterns ''mypassword=1'' = Some False" by code_simp
qed

end
