(* ===== verification/Error_Catalog.thy ===== *)
theory Error_Catalog
  imports Err_Codes C_Strings
begin

section \<open>Error catalogue and error classes\<close>

text \<open>
  The table of \<open>utils/error/error_catalog.c\<close> with the three lookups of \<open>handler.c\<close> that read it, and the
  classification of \<open>utils/error/err_class.c\<close>. The codes of the table are the values of the macros it names;
  the Chinese descriptions are left out. The JSON form of a classified error, which goes through a
  third-party library, is not modelled.
\<close>

subsection \<open>Catalogue\<close>

datatype airy_err_severity =
    AIRY_ERR_SEVERITY_INFO
  | AIRY_ERR_SEVERITY_WARNING
  | AIRY_ERR_SEVERITY_ERROR
  | AIRY_ERR_SEVERITY_CRITICAL

record error_info =
  ei_code :: airy_err
  ei_name :: cstr
  ei_description_en :: cstr
  ei_severity :: airy_err_severity

definition g_error_info :: "error_info list" where
  "g_error_info = map (\<lambda>(code, name, desc, sev). \<lparr>ei_code = code, ei_name = name, ei_description_en = desc, ei_severity = sev\<rparr>)
     [
      (0, ''OK'', ''Success'', AIRY_ERR_SEVERITY_INFO),
      (-13, ''ERR_EACCES'', ''Operation not permitted'', AIRY_ERR_SEVERITY_ERROR),
      (-17, ''ERR_EEXIST'', ''File exists'', AIRY_ERR_SEVERITY_ERROR),
      (-14, ''ERR_EFAULT'', ''Bad address'', AIRY_ERR_SEVERITY_ERROR),
      (-4, ''ERR_EINTR'', ''Interrupted system call'', AIRY_ERR_SEVERITY_WARNING),
      (-22, ''ERR_EINVAL'', ''Invalid argument'', AIRY_ERR_SEVERITY_ERROR),
      (-5, ''ERR_EIO'', ''I/O error'', AIRY_ERR_SEVERITY_ERROR),
      (-21, ''ERR_EISDIR'', ''Is a directory'', AIRY_ERR_SEVERITY_ERROR),
      (-2, ''ERR_ENOENT'', ''No such file or directory'', AIRY_ERR_SEVERITY_ERROR),
      (-12, ''ERR_ENOMEM'', ''Out of memory'', AIRY_ERR_SEVERITY_CRITICAL),
      (-28, ''ERR_ENOSPC'', ''No space left on device'', AIRY_ERR_SEVERITY_ERROR),
      (-95, ''ERR_ENOTSUP'', ''Operation not supported'', AIRY_ERR_SEVERITY_ERROR),
      (-1, ''ERR_EPERM'', ''Operation not permitted'', AIRY_ERR_SEVERITY_ERROR),
      (-34, ''ERR_ERANGE'', ''Result too large'', AIRY_ERR_SEVERITY_ERROR),
      (-16, ''ERR_EBUSY'', ''Device or resource busy'', AIRY_ERR_SEVERITY_WARNING),
      (-125, ''ERR_ECANCELED'', ''Operation canceled'', AIRY_ERR_SEVERITY_INFO),
      (-11, ''ERR_EAGAIN'', ''Try again'', AIRY_ERR_SEVERITY_WARNING),
      (-41, ''ERR_EIPC_MAGIC'', ''Invalid IPC magic'', AIRY_ERR_SEVERITY_ERROR),
      (-42, ''ERR_EIPC_OPCODE'', ''Unknown IPC opcode'', AIRY_ERR_SEVERITY_ERROR),
      (-43, ''ERR_EIPC_PAYLOAD'', ''IPC payload out of bounds'', AIRY_ERR_SEVERITY_ERROR),
      (-52, ''ERR_EIPC_TIMEOUT'', ''IPC timeout'', AIRY_ERR_SEVERITY_WARNING),
      (-99, ''ERR_UNKNOWN'', ''Unknown error'', AIRY_ERR_SEVERITY_ERROR),
      (-36, ''ERR_INVALID_PARAM'', ''Invalid parameter'', AIRY_ERR_SEVERITY_ERROR),
      (-3, ''ERR_NULL_POINTER'', ''Null pointer'', AIRY_ERR_SEVERITY_ERROR),
      (-59, ''ERR_OUT_OF_MEMORY'', ''Out of memory'', AIRY_ERR_SEVERITY_CRITICAL),
      (-37, ''ERR_BUFFER_TOO_SMALL'', ''Buffer too small'', AIRY_ERR_SEVERITY_ERROR),
      (-6, ''ERR_NOT_FOUND'', ''Not found'', AIRY_ERR_SEVERITY_ERROR),
      (-38, ''ERR_ALREADY_EXISTS'', ''Already exists'', AIRY_ERR_SEVERITY_WARNING),
      (-8, ''ERR_TIMEOUT'', ''Timeout'', AIRY_ERR_SEVERITY_WARNING),
      (-9, ''ERR_NOT_SUPPORTED'', ''Not supported'', AIRY_ERR_SEVERITY_ERROR),
      (-39, ''ERR_PERMISSION_DENIED'', ''Permission denied'', AIRY_ERR_SEVERITY_ERROR),
      (-40, ''ERR_IO'', ''I/O error'', AIRY_ERR_SEVERITY_ERROR),
      (-55, ''ERR_PARSE_ERROR'', ''Parse error'', AIRY_ERR_SEVERITY_ERROR),
      (-56, ''ERR_STATE_ERROR'', ''State error'', AIRY_ERR_SEVERITY_ERROR),
      (-60, ''ERR_OVERFLOW'', ''Overflow'', AIRY_ERR_SEVERITY_ERROR),
      (-15, ''ERR_UNDERFLOW'', ''Underflow'', AIRY_ERR_SEVERITY_ERROR),
      (-57, ''ERR_CANCELED'', ''Canceled'', AIRY_ERR_SEVERITY_INFO),
      (-58, ''ERR_BUSY'', ''Busy'', AIRY_ERR_SEVERITY_WARNING),
      (-18, ''ERR_WOULD_BLOCK'', ''Would block'', AIRY_ERR_SEVERITY_WARNING),
      (-19, ''ERR_INTERRUPTED'', ''Interrupted'', AIRY_ERR_SEVERITY_WARNING),
      (-101, ''ERR_SYS_NOT_INIT'', ''System not initialized'', AIRY_ERR_SEVERITY_ERROR),
      (-102, ''ERR_SYS_RESOURCE'', ''System resource error'', AIRY_ERR_SEVERITY_ERROR),
      (-103, ''ERR_SYS_DEADLOCK'', ''Deadlock'', AIRY_ERR_SEVERITY_CRITICAL),
      (-120, ''ERR_SYS_THREAD'', ''Thread error'', AIRY_ERR_SEVERITY_ERROR),
      (-105, ''ERR_SYS_MUTEX'', ''Mutex error'', AIRY_ERR_SEVERITY_ERROR),
      (-106, ''ERR_SYS_SEMAPHORE'', ''Semaphore error'', AIRY_ERR_SEVERITY_ERROR),
      (-121, ''ERR_SYS_CONDITION'', ''Condition variable error'', AIRY_ERR_SEVERITY_ERROR),
      (-108, ''ERR_SYS_ATOMIC'', ''Atomic operation error'', AIRY_ERR_SEVERITY_ERROR),
      (-109, ''ERR_SYS_SOCKET'', ''Socket error'', AIRY_ERR_SEVERITY_ERROR),
      (-122, ''ERR_SYS_PIPE'', ''Pipe error'', AIRY_ERR_SEVERITY_ERROR),
      (-123, ''ERR_SYS_PROCESS'', ''Process error'', AIRY_ERR_SEVERITY_ERROR),
      (-112, ''ERR_SYS_FILE'', ''File error'', AIRY_ERR_SEVERITY_ERROR),
      (-113, ''ERR_SYS_TIME'', ''Time error'', AIRY_ERR_SEVERITY_ERROR),
      (-201, ''ERR_KERN_IPC'', ''IPC error'', AIRY_ERR_SEVERITY_ERROR),
      (-202, ''ERR_KERN_TASK'', ''Task error'', AIRY_ERR_SEVERITY_ERROR),
      (-203, ''ERR_KERN_SYNC'', ''Synchronization error'', AIRY_ERR_SEVERITY_ERROR),
      (-204, ''ERR_KERN_LOCK'', ''Lock error'', AIRY_ERR_SEVERITY_ERROR),
      (-205, ''ERR_KERN_MEM'', ''Memory error'', AIRY_ERR_SEVERITY_ERROR),
      (-206, ''ERR_KERN_SCHED'', ''Scheduler error'', AIRY_ERR_SEVERITY_ERROR),
      (-207, ''ERR_KERN_TIMER'', ''Timer error'', AIRY_ERR_SEVERITY_ERROR),
      (-208, ''ERR_KERN_INTERRUPT'', ''Interrupt error'', AIRY_ERR_SEVERITY_ERROR),
      (-301, ''ERR_SVC_NOT_READY'', ''Service not ready'', AIRY_ERR_SEVERITY_WARNING),
      (-302, ''ERR_SVC_BUSY'', ''Service busy'', AIRY_ERR_SEVERITY_WARNING),
      (-303, ''ERR_SVC_STOPPED'', ''Service stopped'', AIRY_ERR_SEVERITY_ERROR),
      (-304, ''ERR_SVC_CONFIG'', ''Service configuration error'', AIRY_ERR_SEVERITY_ERROR),
      (-305, ''ERR_SVC_DEPENDENCY'', ''Service dependency error'', AIRY_ERR_SEVERITY_ERROR),
      (-306, ''ERR_SVC_HEALTH'', ''Service health error'', AIRY_ERR_SEVERITY_ERROR),
      (-307, ''ERR_SVC_LOADBALANCE'', ''Load balance error'', AIRY_ERR_SEVERITY_ERROR),
      (-308, ''ERR_SVC_CYCLE'', ''Service dependency cycle detected'', AIRY_ERR_SEVERITY_ERROR),
      (-401, ''ERR_LLM_NO_PROVIDER'', ''No LLM provider'', AIRY_ERR_SEVERITY_ERROR),
      (-402, ''ERR_LLM_PROVIDER_FAIL'', ''LLM provider failure'', AIRY_ERR_SEVERITY_ERROR),
      (-403, ''ERR_LLM_RATE_LIMIT'', ''Rate limit exceeded'', AIRY_ERR_SEVERITY_WARNING),
      (-404, ''ERR_LLM_CONTEXT_LEN'', ''Context length exceeded'', AIRY_ERR_SEVERITY_ERROR),
      (-405, ''ERR_LLM_INVALID_MODEL'', ''Invalid model'', AIRY_ERR_SEVERITY_ERROR),
      (-406, ''ERR_LLM_AUTH_FAIL'', ''Authentication failed'', AIRY_ERR_SEVERITY_ERROR),
      (-407, ''ERR_LLM_TOKEN_LIMIT'', ''Token limit exceeded'', AIRY_ERR_SEVERITY_ERROR),
      (-408, ''ERR_LLM_PARSE_RESP'', ''Failed to parse response'', AIRY_ERR_SEVERITY_ERROR),
      (-409, ''ERR_LLM_EMPTY_RESP'', ''Empty response'', AIRY_ERR_SEVERITY_ERROR),
      (-410, ''ERR_LLM_COST_EXCEED'', ''Cost exceeded'', AIRY_ERR_SEVERITY_WARNING),
      (-412, ''ERR_LLM_BAD_REQUEST'', ''Provider rejected request body'', AIRY_ERR_SEVERITY_ERROR),
      (-413, ''ERR_LLM_STREAM_UNDONE'', ''Stream ended without [DONE]'', AIRY_ERR_SEVERITY_ERROR),
      (-414, ''ERR_LLM_TRUNCATED'', ''Output truncated by token limit'', AIRY_ERR_SEVERITY_ERROR),
      (-415, ''ERR_LLM_NO_FINISH'', ''Missing finish_reason'', AIRY_ERR_SEVERITY_ERROR),
      (-416, ''ERR_LLM_CONTENT_FILTERED'', ''Blocked by content filter'', AIRY_ERR_SEVERITY_ERROR),
      (-501, ''ERR_EXEC_NOT_FOUND'', ''Executor not found'', AIRY_ERR_SEVERITY_ERROR),
      (-502, ''ERR_EXEC_FAIL'', ''Execution failed'', AIRY_ERR_SEVERITY_ERROR),
      (-503, ''ERR_EXEC_TIMEOUT'', ''Execution timeout'', AIRY_ERR_SEVERITY_WARNING),
      (-504, ''ERR_EXEC_VALIDATION'', ''Execution validation failed'', AIRY_ERR_SEVERITY_ERROR),
      (-505, ''ERR_EXEC_SANDBOX'', ''Sandbox error'', AIRY_ERR_SEVERITY_ERROR),
      (-506, ''ERR_EXEC_PERMISSION'', ''Execution permission denied'', AIRY_ERR_SEVERITY_ERROR),
      (-507, ''ERR_EXEC_ARGS'', ''Invalid execution arguments'', AIRY_ERR_SEVERITY_ERROR),
      (-508, ''ERR_EXEC_ENV'', ''Execution environment error'', AIRY_ERR_SEVERITY_ERROR),
      (-509, ''ERR_EXEC_CYCLE'', ''Plan dependency cycle'', AIRY_ERR_SEVERITY_ERROR),
      (-511, ''ERR_EXEC_INPUT'', ''Plan input binding unresolved'', AIRY_ERR_SEVERITY_ERROR),
      (-601, ''ERR_MEM_WRITE'', ''Memory write error'', AIRY_ERR_SEVERITY_ERROR),
      (-602, ''ERR_MEM_READ'', ''Memory read error'', AIRY_ERR_SEVERITY_ERROR),
      (-603, ''ERR_MEM_QUERY'', ''Memory query error'', AIRY_ERR_SEVERITY_ERROR),
      (-604, ''ERR_MEM_EVOLVE'', ''Memory evolution error'', AIRY_ERR_SEVERITY_ERROR),
      (-605, ''ERR_MEM_FULL'', ''Memory full'', AIRY_ERR_SEVERITY_ERROR),
      (-606, ''ERR_MEM_CORRUPT'', ''Memory corruption'', AIRY_ERR_SEVERITY_CRITICAL),
      (-607, ''ERR_MEM_NOT_INIT'', ''Memory not initialized'', AIRY_ERR_SEVERITY_ERROR),
      (-701, ''ERR_SEC_VIOLATION'', ''Security violation'', AIRY_ERR_SEVERITY_CRITICAL),
      (-702, ''ERR_SEC_SANITIZE'', ''Sanitization error'', AIRY_ERR_SEVERITY_ERROR),
      (-703, ''ERR_SEC_AUDIT'', ''Audit error'', AIRY_ERR_SEVERITY_ERROR),
      (-704, ''ERR_SEC_PERMISSION'', ''Security permission error'', AIRY_ERR_SEVERITY_ERROR),
      (-705, ''ERR_SEC_VALIDATION'', ''Security validation error'', AIRY_ERR_SEVERITY_ERROR),
      (-706, ''ERR_SEC_QUOTA'', ''Quota exceeded'', AIRY_ERR_SEVERITY_WARNING),
      (-707, ''ERR_SEC_TEMP_DIR'', ''Temporary directory error'', AIRY_ERR_SEVERITY_ERROR),
      (-708, ''ERR_SEC_SYMLINK'', ''Symbolic link error'', AIRY_ERR_SEVERITY_ERROR),
      (-709, ''ERR_SEC_PATH_TRAV'', ''Path traversal detected'', AIRY_ERR_SEVERITY_CRITICAL),
      (-710, ''ERR_ESECURITY'', ''Security error'', AIRY_ERR_SEVERITY_CRITICAL),
      (-711, ''ERR_ESANITIZE'', ''Sanitization error'', AIRY_ERR_SEVERITY_ERROR),
      (-801, ''ERR_COORD_PLAN_FAIL'', ''Planning failed'', AIRY_ERR_SEVERITY_ERROR),
      (-802, ''ERR_COORD_SYNC_FAIL'', ''Synchronization failed'', AIRY_ERR_SEVERITY_ERROR),
      (-803, ''ERR_COORD_DISPATCH'', ''Dispatch error'', AIRY_ERR_SEVERITY_ERROR),
      (-804, ''ERR_COORD_INTENT'', ''Intent error'', AIRY_ERR_SEVERITY_ERROR),
      (-805, ''ERR_COORD_COMPENSATE'', ''Compensation error'', AIRY_ERR_SEVERITY_ERROR),
      (-806, ''ERR_COORD_RETRY_EXCEED'', ''Retry limit exceeded'', AIRY_ERR_SEVERITY_ERROR),
      (-900, ''ERR_PROTOCOL'', ''Protocol violation (magic/version/reserved)'', AIRY_ERR_SEVERITY_ERROR),
      (-901, ''ERR_CHECKSUM'', ''Checksum mismatch (CRC32)'', AIRY_ERR_SEVERITY_ERROR)
     ]"

definition airy_err_find :: "airy_err \<Rightarrow> error_info option" where
  "airy_err_find norm = find (\<lambda>e. ei_code e = norm) g_error_info"

definition airy_err_str :: "airy_err \<Rightarrow> cstr" where
  "airy_err_str code =
     (case airy_err_find (AIRY_ERR_NEG code) of Some info \<Rightarrow> ei_description_en info | None \<Rightarrow> ''Unknown error'')"

definition airy_err_code_name :: "airy_err \<Rightarrow> cstr" where
  "airy_err_code_name code =
     (case airy_err_find (AIRY_ERR_NEG code) of Some info \<Rightarrow> ei_name info | None \<Rightarrow> ''ERR_UNKNOWN'')"

definition airy_err_get_severity :: "airy_err \<Rightarrow> airy_err_severity" where
  "airy_err_get_severity code =
     (case airy_err_find (AIRY_ERR_NEG code) of Some info \<Rightarrow> ei_severity info | None \<Rightarrow> AIRY_ERR_SEVERITY_ERROR)"

subsection \<open>Classes\<close>

datatype airy_err_class =
    AIRY_ERR_CLASS_OK
  | AIRY_ERR_CLASS_TRANSPORT
  | AIRY_ERR_CLASS_BUSINESS
  | AIRY_ERR_CLASS_POLICY
  | AIRY_ERR_CLASS_CONFIG
  | AIRY_ERR_CLASS_INTERNAL

definition err_classes :: "airy_err_class list" where
  "err_classes = [AIRY_ERR_CLASS_OK, AIRY_ERR_CLASS_TRANSPORT, AIRY_ERR_CLASS_BUSINESS, AIRY_ERR_CLASS_POLICY,
     AIRY_ERR_CLASS_CONFIG, AIRY_ERR_CLASS_INTERNAL]"

primrec airy_err_class_name :: "airy_err_class \<Rightarrow> cstr" where
  "airy_err_class_name AIRY_ERR_CLASS_OK = ''ok''"
| "airy_err_class_name AIRY_ERR_CLASS_TRANSPORT = ''transport''"
| "airy_err_class_name AIRY_ERR_CLASS_BUSINESS = ''business''"
| "airy_err_class_name AIRY_ERR_CLASS_POLICY = ''policy''"
| "airy_err_class_name AIRY_ERR_CLASS_CONFIG = ''config''"
| "airy_err_class_name AIRY_ERR_CLASS_INTERNAL = ''internal''"

definition airy_err_class_parse :: "cstr option \<Rightarrow> airy_err_class" where
  "airy_err_class_parse name =
     (case name of
        None \<Rightarrow> AIRY_ERR_CLASS_BUSINESS
      | Some n \<Rightarrow>
          (case find (\<lambda>c. n = airy_err_class_name c) err_classes of Some c \<Rightarrow> c | None \<Rightarrow> AIRY_ERR_CLASS_BUSINESS))"

definition k_err_map :: "(airy_err \<times> airy_err_class) list" where
  "k_err_map =
     map (\<lambda>c. (c, AIRY_ERR_CLASS_TRANSPORT))
       [AIRY_ERR_TIMEOUT, AIRY_ECONNRESET, AIRY_ENOTCONN, AIRY_ETIMEDOUT, AIRY_ECONNREFUSED, AIRY_ERR_SYS_SOCKET,
        AIRY_ERR_SYS_PIPE, AIRY_ERR_SVC_NOT_READY, AIRY_ERR_SVC_BUSY, AIRY_ERR_SVC_STOPPED, AIRY_ERR_SVC_DEPENDENCY,
        AIRY_ERR_SVC_HEALTH, AIRY_ERR_SVC_LOADBALANCE, AIRY_ERR_LLM_NO_PROVIDER, AIRY_ERR_LLM_PROVIDER_FAIL,
        AIRY_ERR_LLM_RATE_LIMIT, AIRY_ERR_PROTOCOL, AIRY_ERR_CHECKSUM] @
     map (\<lambda>c. (c, AIRY_ERR_CLASS_CONFIG))
       [AIRY_ERR_SVC_CONFIG, AIRY_ERR_EXEC_ENV, AIRY_ERR_LLM_INVALID_MODEL, AIRY_ERR_LLM_AUTH_FAIL] @
     map (\<lambda>c. (c, AIRY_ERR_CLASS_POLICY))
       [AIRY_EPERM, AIRY_EACCES, AIRY_ERR_PERMISSION_DENIED, AIRY_ERR_EXEC_SANDBOX, AIRY_ERR_EXEC_PERMISSION] @
     map (\<lambda>c. (c, AIRY_ERR_CLASS_INTERNAL))
       [AIRY_ERR_NULL_POINTER, AIRY_ERR_NOT_IMPLEMENTED, AIRY_ERR_SYS_DEADLOCK, AIRY_ERR_MEM_CORRUPT]"

definition err_map_find :: "airy_err \<Rightarrow> airy_err_class" where
  "err_map_find c = (case map_of k_err_map c of Some cls \<Rightarrow> cls | None \<Rightarrow> AIRY_ERR_CLASS_BUSINESS)"

definition airy_err_class_of :: "airy_err \<Rightarrow> airy_err_class" where
  "airy_err_class_of code =
     (let c = (if code > 0 then - code else code)
      in if c = 0 then AIRY_ERR_CLASS_OK
         else if c \<le> - AIRY_FAULT_CAP_FORGED \<and> - AIRY_FAULT_VM_FAULT \<le> c then AIRY_ERR_CLASS_INTERNAL
         else if c \<le> AIRY_ERR_SEC_VIOLATION \<and> AIRY_ERR_CUPOLAS_CERT_EXPIRED \<le> c then AIRY_ERR_CLASS_POLICY
         else if c \<le> - AIRY_EIPC_MAGIC \<and> - AIRY_EIPC_FROZEN \<le> c then AIRY_ERR_CLASS_TRANSPORT
         else if c \<le> AIRY_ERR_KERN_BASE \<and> AIRY_ERR_KERN_INTERRUPT \<le> c then
           (if c = AIRY_ERR_KERN_IPC then AIRY_ERR_CLASS_TRANSPORT else AIRY_ERR_CLASS_INTERNAL)
         else err_map_find c)"

subsection \<open>Properties\<close>

lemma catalog_codes: "distinct (map ei_code g_error_info) \<and> list_all (\<lambda>e. ei_code e \<le> 0) g_error_info"
  by (simp add: g_error_info_def)

lemma airy_err_find_entry:
  assumes "e \<in> set g_error_info"
  shows "airy_err_find (ei_code e) = Some e"
proof -
  have i: "inj_on ei_code (set g_error_info)" using catalog_codes by (simp add: distinct_map)
  have "find (\<lambda>x. ei_code x = ei_code e) g_error_info \<noteq> None" using assms by (auto simp: find_None_iff)
  then obtain e' where e': "find (\<lambda>x. ei_code x = ei_code e) g_error_info = Some e'" by blast
  then have "e' \<in> set g_error_info" "ei_code e' = ei_code e" by (auto simp: find_Some_iff)
  with i assms e' show ?thesis by (simp add: airy_err_find_def inj_on_def)
qed

lemma class_parse_name: "airy_err_class_parse (Some (airy_err_class_name c)) = c"
  by (cases c) (simp_all add: airy_err_class_parse_def err_classes_def)

text \<open>The catalogue is consistent: no two entries share a code, every entry is found under its code and, as
  the lookups promise, under the positive form of it, with its own name, description and severity. The
  class of an error does not depend on the sign of the code, success alone is of class ok, and class names
  can be read back.\<close>

theorem err_catalog_lookup:
  assumes "e \<in> set g_error_info"
  shows "airy_err_code_name (ei_code e) = ei_name e \<and> airy_err_code_name (- ei_code e) = ei_name e \<and>
    airy_err_str (ei_code e) = ei_description_en e \<and> airy_err_get_severity (- ei_code e) = ei_severity e \<and>
    airy_err_class_of (- code) = airy_err_class_of code \<and> (airy_err_class_of code = AIRY_ERR_CLASS_OK \<longleftrightarrow> code = 0) \<and>
    airy_err_class_parse (Some (airy_err_class_name cls)) = cls"
proof -
  have n: "AIRY_ERR_NEG (ei_code e) = ei_code e" "AIRY_ERR_NEG (- ei_code e) = ei_code e"
    using catalog_codes assms by (auto simp: AIRY_ERR_NEG_def list_all_iff)
  have "err_map_find c \<noteq> AIRY_ERR_CLASS_OK" for c
    by (auto simp: err_map_find_def k_err_map_def split: option.splits dest!: map_of_SomeD)
  then have "airy_err_class_of code = AIRY_ERR_CLASS_OK \<longleftrightarrow> code = 0" by (auto simp: airy_err_class_of_def Let_def)
  moreover have "airy_err_class_of (- code) = airy_err_class_of code" by (simp add: airy_err_class_of_def)
  ultimately show ?thesis
    using airy_err_find_entry [OF assms] n class_parse_name
    by (simp add: airy_err_code_name_def airy_err_str_def airy_err_get_severity_def)
qed

theorem err_catalog_lookup_witness:
  "airy_err_code_name (- 22) = ''ERR_EINVAL'' \<and> airy_err_code_name 22 = ''ERR_EINVAL''"
proof -
  have "\<lparr>ei_code = - 22, ei_name = ''ERR_EINVAL'', ei_description_en = ''Invalid argument'', ei_severity = AIRY_ERR_SEVERITY_ERROR\<rparr>
      \<in> set g_error_info" by (simp add: g_error_info_def)
  from err_catalog_lookup [OF this] show ?thesis by simp
qed

text \<open>The positive codes of \<open>include/airymax/error.h\<close> are other errors after the change of sign: 9, there the code for
  lack of memory, is described as an unsupported operation, and the configuration error 103 is
  classified as an internal error since it shares its value with a deadlock.\<close>

lemma err_str_collision: "airy_err_str 9 = ''Not supported'' \<and> airy_err_class_of 103 = AIRY_ERR_CLASS_INTERNAL"
  by code_simp

end
