(* ===== verification/Error_Chain.thy ===== *)
theory Error_Chain
  imports Error_Catalog
begin

section \<open>Error chains\<close>

text \<open>
  The error handling of \<open>utils/error/handler.c\<close>: the chain of error contexts that every thread keeps, the
  statistics all threads share, the languages, and the two renderings of a chain. The messages of a
  chain are copies on the heap; freeing one that is not allocated makes the call \<open>None\<close>. Threads are
  numbered; \<open>mem\<close> says that the state of a thread can be allocated, \<open>msg\<close> is the copy of the message that
  \<open>AIRY_STRDUP\<close> returns (\<open>None\<close> on failure), \<open>text\<close> the message that \<open>vsnprintf\<close> formats. The POSIX branch
  is modelled; the statistics are updated under a mutex, the chain belongs to one thread, so a call is one step.
  The Chinese descriptions of the catalogue are the parameter \<open>zh\<close>.
\<close>

subsection \<open>Data\<close>

definition AIRY_ERROR_CONTEXT_MAX_DEPTH :: nat where "AIRY_ERROR_CONTEXT_MAX_DEPTH = 16"

text \<open>The type of \<open>message\<close> is a parameter: an address in a chain, a string in the chain a caller reads.\<close>

record 'm err_context_entry =
  ec_file :: "cstr option"
  ec_line :: int
  ec_function :: "cstr option"
  ec_message :: "'m option"
  ec_error_code :: airy_err
  ec_timestamp_ns :: u64

record 'm err_chain =
  ch_code :: airy_err
  ch_depth :: nat
  ch_contexts :: "'m err_context_entry list"

record err_stats =
  es_total_errors :: u64
  es_errors_by_severity :: "u64 list"
  es_last_error_time :: u64
  es_last_error :: airy_err

record err_i18n_entry =
  ie_error_code :: airy_err
  ie_descriptions :: "cstr option list"

record err_world =
  ew_heap :: "addr \<Rightarrow> cstr option"
  ew_threads :: "addr err_chain option list"
  ew_stats :: err_stats
  ew_language :: int
  ew_i18n :: "err_i18n_entry list"

definition zero_context :: "'m err_context_entry" where
  "zero_context = \<lparr>ec_file = None, ec_line = 0, ec_function = None, ec_message = None, ec_error_code = 0, ec_timestamp_ns = 0\<rparr>"

definition zero_chain :: "'m err_chain" where
  "zero_chain = \<lparr>ch_code = 0, ch_depth = 0, ch_contexts = replicate AIRY_ERROR_CONTEXT_MAX_DEPTH zero_context\<rparr>"

definition zero_err_stats :: err_stats where
  "zero_err_stats = \<lparr>es_total_errors = 0, es_errors_by_severity = [0, 0, 0, 0], es_last_error_time = 0, es_last_error = 0\<rparr>"

text \<open>A process with \<open>n\<close> threads, before the first error.\<close>

definition err_world0 :: "nat \<Rightarrow> err_world" where
  "err_world0 n = \<lparr>ew_heap = (\<lambda>_. None), ew_threads = replicate n None, ew_stats = zero_err_stats, ew_language = 0, ew_i18n = []\<rparr>"

subsection \<open>Thread state\<close>

definition get_thread_error_state :: "bool \<Rightarrow> nat \<Rightarrow> err_world \<Rightarrow> addr err_chain option" where
  "get_thread_error_state mem t w =
     (case ew_threads w ! t of Some c \<Rightarrow> Some c | None \<Rightarrow> if mem then Some zero_chain else None)"

definition err_set_chain :: "nat \<Rightarrow> addr err_chain option \<Rightarrow> err_world \<Rightarrow> err_world" where
  "err_set_chain t c w = w\<lparr>ew_threads := (ew_threads w)[t := c]\<rparr>"

text \<open>\<open>AIRY_FREE\<close> of a message.\<close>

definition free_message :: "addr option \<Rightarrow> (addr \<Rightarrow> cstr option) \<Rightarrow> (addr \<Rightarrow> cstr option) option" where
  "free_message m h = (case m of None \<Rightarrow> Some h | Some a \<Rightarrow> if h a = None then None else Some (h(a := None)))"

text \<open>The loop over the contexts up to the depth.\<close>

fun free_contexts :: "addr err_context_entry list \<Rightarrow> (addr \<Rightarrow> cstr option) \<Rightarrow> (addr \<Rightarrow> cstr option) option" where
  "free_contexts [] h = Some h"
| "free_contexts (e # es) h = (case free_message (ec_message e) h of None \<Rightarrow> None | Some h' \<Rightarrow> free_contexts es h')"

definition drop_message :: "addr err_context_entry \<Rightarrow> addr err_context_entry" where
  "drop_message e = e\<lparr>ec_message := None\<rparr>"

definition airy_err_clear :: "bool \<Rightarrow> nat \<Rightarrow> err_world \<Rightarrow> err_world option" where
  "airy_err_clear mem t w =
     (case get_thread_error_state mem t w of
        None \<Rightarrow> Some w
      | Some c \<Rightarrow>
          (case free_contexts (take (ch_depth c) (ch_contexts c)) (ew_heap w) of
             None \<Rightarrow> None
           | Some h \<Rightarrow>
               Some (err_set_chain t (Some \<lparr>ch_code = AIRY_SUCCESS, ch_depth = 0,
                   ch_contexts = map drop_message (take (ch_depth c) (ch_contexts c)) @ drop (ch_depth c) (ch_contexts c)\<rparr>)
                 (w\<lparr>ew_heap := h\<rparr>))))"

definition tls_state_destroy :: "addr err_chain option \<Rightarrow> (addr \<Rightarrow> cstr option) \<Rightarrow> (addr \<Rightarrow> cstr option) option" where
  "tls_state_destroy p h = (case p of None \<Rightarrow> Some h | Some c \<Rightarrow> free_contexts (take (ch_depth c) (ch_contexts c)) h)"

definition airy_err_thread_cleanup :: "nat \<Rightarrow> err_world \<Rightarrow> err_world option" where
  "airy_err_thread_cleanup t w =
     (case tls_state_destroy (ew_threads w ! t) (ew_heap w) of
        None \<Rightarrow> None
      | Some h \<Rightarrow> Some (err_set_chain t None (w\<lparr>ew_heap := h\<rparr>)))"

subsection \<open>Pushing an error\<close>

primrec severity_index :: "airy_err_severity \<Rightarrow> nat" where
  "severity_index AIRY_ERR_SEVERITY_INFO = 0"
| "severity_index AIRY_ERR_SEVERITY_WARNING = 1"
| "severity_index AIRY_ERR_SEVERITY_ERROR = 2"
| "severity_index AIRY_ERR_SEVERITY_CRITICAL = 3"

definition err_count :: "airy_err \<Rightarrow> u64 \<Rightarrow> err_stats \<Rightarrow> err_stats" where
  "err_count code now st =
     (let i = severity_index (airy_err_get_severity code)
      in st\<lparr>es_total_errors := es_total_errors st + 1,
            es_errors_by_severity := (es_errors_by_severity st)[i := es_errors_by_severity st ! i + 1],
            es_last_error_time := now, es_last_error := code\<rparr>)"

text \<open>The copy of the formatted message, which \<open>vsnprintf\<close> cut to its buffer.\<close>

definition strdup_message :: "addr option \<Rightarrow> cstr \<Rightarrow> (addr \<Rightarrow> cstr option) \<Rightarrow> addr \<Rightarrow> cstr option" where
  "strdup_message msg text h = (case msg of None \<Rightarrow> h | Some a \<Rightarrow> h(a := Some (take 1023 text)))"

text \<open>\<open>now\<close> and \<open>now'\<close>: the time when the statistics are updated and the later one when the entry is filled in.\<close>

definition airy_err_push_ex ::
  "bool \<Rightarrow> addr option \<Rightarrow> u64 \<Rightarrow> u64 \<Rightarrow> nat \<Rightarrow> err_world \<Rightarrow> airy_err \<Rightarrow> cstr option \<Rightarrow> int \<Rightarrow> cstr option \<Rightarrow> cstr \<Rightarrow> err_world option" where
  "airy_err_push_ex mem msg now now' t w code file line func text =
     (case get_thread_error_state mem t w of
        None \<Rightarrow> Some w
      | Some c \<Rightarrow>
          let st = err_count code now (ew_stats w);
              entry = \<lparr>ec_file = file, ec_line = line, ec_function = func, ec_message = msg, ec_error_code = code,
                       ec_timestamp_ns = now'\<rparr>
          in if ch_depth c < AIRY_ERROR_CONTEXT_MAX_DEPTH then
               Some (err_set_chain t (Some (c\<lparr>ch_contexts := (ch_contexts c)[ch_depth c := entry], ch_depth := ch_depth c + 1,
                                           ch_code := code\<rparr>))
                 (w\<lparr>ew_stats := st, ew_heap := strdup_message msg text (ew_heap w)\<rparr>))
             else
               (case free_message (ec_message (ch_contexts c ! 0)) (ew_heap w) of
                  None \<Rightarrow> None
                | Some h \<Rightarrow>
                    Some (err_set_chain t (Some (c\<lparr>ch_contexts := tl (ch_contexts c) @ [entry], ch_code := code\<rparr>))
                      (w\<lparr>ew_stats := st, ew_heap := strdup_message msg text h\<rparr>))))"

subsection \<open>Statistics and languages\<close>

text \<open>The first four counters of \<open>errors_by_code\<close>; the other 28 are not written.\<close>

definition airy_err_get_stats :: "err_world \<Rightarrow> err_stats" where
  "airy_err_get_stats w = ew_stats w"

definition airy_err_reset_stats :: "err_world \<Rightarrow> err_world" where
  "airy_err_reset_stats w = w\<lparr>ew_stats := zero_err_stats\<rparr>"

definition airy_err_set_language :: "int \<Rightarrow> err_world \<Rightarrow> airy_err \<times> err_world" where
  "airy_err_set_language lang w =
     (if lang < 0 \<or> 7 < lang then (AIRY_ERR_INVALID_PARAM, w) else (AIRY_SUCCESS, w\<lparr>ew_language := lang\<rparr>))"

definition airy_err_get_language :: "err_world \<Rightarrow> int" where
  "airy_err_get_language w = ew_language w"

definition airy_err_register_i18n :: "bool \<Rightarrow> err_i18n_entry list option \<Rightarrow> err_world \<Rightarrow> airy_err \<times> err_world" where
  "airy_err_register_i18n mem entries w =
     (case entries of
        None \<Rightarrow> (AIRY_ERR_INVALID_PARAM, w)
      | Some es \<Rightarrow>
          if es = [] then (AIRY_ERR_INVALID_PARAM, w)
          else if \<not> mem then (AIRY_ERR_OUT_OF_MEMORY, w\<lparr>ew_i18n := []\<rparr>)
          else (AIRY_SUCCESS, w\<lparr>ew_i18n := es\<rparr>))"

text \<open>The first registered entry with the code that has a description in the language.\<close>

fun i18n_find :: "err_i18n_entry list \<Rightarrow> airy_err \<Rightarrow> int \<Rightarrow> cstr option" where
  "i18n_find [] norm lang = None"
| "i18n_find (e # es) norm lang =
     (if ie_error_code e = norm \<and> ie_descriptions e ! nat lang \<noteq> None then ie_descriptions e ! nat lang
      else i18n_find es norm lang)"

definition airy_err_str_i18n :: "(airy_err \<Rightarrow> cstr option) \<Rightarrow> err_world \<Rightarrow> airy_err \<Rightarrow> int \<Rightarrow> cstr" where
  "airy_err_str_i18n zh w code lang =
     (let lang1 = (if lang < 0 then ew_language w else lang);
          use_lang = (if lang1 < 0 \<or> 7 < lang1 then 0 else lang1);
          norm = AIRY_ERR_NEG code
      in case i18n_find (ew_i18n w) norm use_lang of
           Some desc \<Rightarrow> desc
         | None \<Rightarrow>
             (case airy_err_find norm of
                Some info \<Rightarrow>
                  if use_lang = 1 then (case zh norm of Some d \<Rightarrow> d | None \<Rightarrow> ei_description_en info)
                  else ei_description_en info
              | None \<Rightarrow> airy_err_str code))"

subsection \<open>Reading a chain\<close>

text \<open>When the state cannot be allocated, \<open>AIRY_ERROR_NULL\<close> pushes an error, which tries to allocate it again (\<open>mem'\<close>).\<close>

definition airy_err_get_chain ::
  "bool \<Rightarrow> bool \<Rightarrow> addr option \<Rightarrow> u64 \<Rightarrow> u64 \<Rightarrow> cstr \<Rightarrow> nat \<Rightarrow> err_world \<Rightarrow> (addr err_chain option \<times> err_world) option" where
  "airy_err_get_chain mem mem' msg now now' src t w =
     (case get_thread_error_state mem t w of
        Some c \<Rightarrow> Some (Some c, err_set_chain t (Some c) w)
      | None \<Rightarrow> map_option (Pair None)
          (airy_err_push_ex mem' msg now now' t w (AIRY_ERR_NEG AIRY_ERR_UNKNOWN) (Some src) 186
             (Some ''airy_err_get_chain'') ''validation failed''))"

definition airy_err_chain_get_depth :: "'m err_chain option \<Rightarrow> nat" where
  "airy_err_chain_get_depth chain = (case chain of None \<Rightarrow> 0 | Some c \<Rightarrow> ch_depth c)"

definition airy_err_chain_get_root_error :: "'m err_chain option \<Rightarrow> airy_err" where
  "airy_err_chain_get_root_error chain =
     (case chain of None \<Rightarrow> AIRY_SUCCESS | Some c \<Rightarrow> if ch_depth c = 0 then AIRY_SUCCESS else ec_error_code (ch_contexts c ! 0))"

definition airy_err_latest :: "'m err_chain option \<Rightarrow> airy_err" where
  "airy_err_latest chain = (case chain of None \<Rightarrow> AIRY_SUCCESS | Some c \<Rightarrow> ch_code c)"

text \<open>An iterator points to the chain of a thread, as \<open>airy_err_get_chain\<close> hands it out (\<open>None\<close>: NULL).\<close>

record err_chain_iterator =
  it_chain :: "nat option"
  it_current_index :: nat

definition airy_err_chain_iter_init :: "nat option \<Rightarrow> err_chain_iterator option \<Rightarrow> err_chain_iterator option" where
  "airy_err_chain_iter_init chain iter = map_option (\<lambda>_. \<lparr>it_chain = chain, it_current_index = 0\<rparr>) iter"

text \<open>
  Called by thread \<open>t\<close>: the entry, the iterator and the world afterwards. At the end of the chain, as without
  one, \<open>AIRY_ERROR_NULL\<close> pushes an error to the chain of the caller; \<open>src\<close> is what \<open>__FILE__\<close> stands for.
  \<open>None\<close> is a read of the freed chain of a thread that cleaned up.
\<close>

definition airy_err_chain_iter_next ::
  "bool \<Rightarrow> addr option \<Rightarrow> u64 \<Rightarrow> u64 \<Rightarrow> cstr \<Rightarrow> nat \<Rightarrow> err_world \<Rightarrow> err_chain_iterator option \<Rightarrow>
   (addr err_context_entry option \<times> err_chain_iterator option \<times> err_world) option" where
  "airy_err_chain_iter_next mem msg now now' src t w iter =
     (let fail = (\<lambda>line. map_option (\<lambda>w'. (None, iter, w'))
            (airy_err_push_ex mem msg now now' t w (AIRY_ERR_NEG AIRY_ERR_INVALID_PARAM) (Some src) line
               (Some ''airy_err_chain_iter_next'') ''null parameter''))
      in case iter of
           None \<Rightarrow> fail 505
         | Some it \<Rightarrow>
             (case it_chain it of
                None \<Rightarrow> fail 505
              | Some i \<Rightarrow>
                  (case ew_threads w ! i of
                     None \<Rightarrow> None
                   | Some c \<Rightarrow>
                       if ch_depth c \<le> it_current_index it then fail 509
                       else Some (Some (ch_contexts c ! it_current_index it),
                                  Some (it\<lparr>it_current_index := it_current_index it + 1\<rparr>), w))))"

definition airy_err_chain_iter_reset :: "err_chain_iterator option \<Rightarrow> err_chain_iterator option" where
  "airy_err_chain_iter_reset iter = map_option (\<lambda>it. it\<lparr>it_current_index := 0\<rparr>) iter"

text \<open>
  Reading its own chain to the end changes the chain: the call that reports the end appends an entry and
  replaces the latest code.
\<close>

lemma iter_end_pushes:
  assumes "ew_threads w ! t = Some c" "t < length (ew_threads w)"
    and "ch_depth c \<le> it_current_index it" "it_chain it = Some t" "ch_depth c < AIRY_ERROR_CONTEXT_MAX_DEPTH"
  shows "\<exists>w' c'. airy_err_chain_iter_next mem msg now now' src t w (Some it) = Some (None, Some it, w') \<and>
    ew_threads w' ! t = Some c' \<and> ch_depth c' = ch_depth c + 1 \<and> ch_code c' = AIRY_ERR_NEG AIRY_ERR_INVALID_PARAM"
  using assms
  by (simp add: airy_err_chain_iter_next_def airy_err_push_ex_def get_thread_error_state_def err_set_chain_def Let_def)

text \<open>A chain with the texts of its messages, which a caller reads through the pointers.\<close>

definition context_view :: "(addr \<Rightarrow> cstr option) \<Rightarrow> addr err_context_entry \<Rightarrow> cstr err_context_entry" where
  "context_view h e = \<lparr>ec_file = ec_file e, ec_line = ec_line e, ec_function = ec_function e,
     ec_message = Option.bind (ec_message e) h, ec_error_code = ec_error_code e, ec_timestamp_ns = ec_timestamp_ns e\<rparr>"

subsection \<open>Rendering\<close>

text \<open>\<open>snprintf (buf + offset, size - offset, ...)\<close> of the text \<open>s\<close> into a buffer of \<open>size\<close> bytes that holds \<open>out\<close>: the
  text in the buffer, which \<open>n\<close> bytes are cut to leave room for the terminator.\<close>

definition snprintf_at :: "nat \<Rightarrow> cstr \<Rightarrow> cstr \<Rightarrow> cstr" where
  "snprintf_at n out s = out @ take (n - 1 - length out) s"

definition opt_text :: "cstr \<Rightarrow> cstr option \<Rightarrow> cstr" where
  "opt_text d x = (case x of None \<Rightarrow> d | Some s \<Rightarrow> s)"

text \<open>The loop that escapes a message into \<open>escaped_msg\<close>, whose last byte becomes the terminator.\<close>

fun escape_loop :: "nat \<Rightarrow> cstr \<Rightarrow> cstr" where
  "escape_loop k [] = []"
| "escape_loop k (c # cs) =
     (if k < 2047 then
        (if c = CHR 0x22 \<or> c = CHR 0x5C then CHR 0x5C # c # escape_loop (k + 2) cs else c # escape_loop (k + 1) cs)
      else [])"

definition escaped_msg :: "cstr \<Rightarrow> cstr" where
  "escaped_msg msg = take 2047 (escape_loop 0 msg)"

definition json_context :: "bool \<Rightarrow> cstr err_context_entry \<Rightarrow> cstr" where
  "json_context first e =
     (if first then [] else '', '') @ ''{'' @ [CHR 0x22] @ ''file'' @ [CHR 0x22] @ '': '' @ [CHR 0x22] @ opt_text [] (ec_file e) @
     [CHR 0x22] @ '', '' @ [CHR 0x22] @ ''line'' @ [CHR 0x22] @ '': '' @ dec_int (ec_line e) @ '', '' @ [CHR 0x22] @ ''function'' @
     [CHR 0x22] @ '': '' @ [CHR 0x22] @ opt_text [] (ec_function e) @ [CHR 0x22] @ '', '' @ [CHR 0x22] @ ''code'' @ [CHR 0x22] @
     '': '' @ dec_int (ec_error_code e) @ '', '' @ [CHR 0x22] @ ''message'' @ [CHR 0x22] @ '': '' @ [CHR 0x22] @
     escaped_msg (opt_text [] (ec_message e)) @ [CHR 0x22] @ ''}''"

definition json_header :: "cstr err_chain \<Rightarrow> cstr \<Rightarrow> cstr" where
  "json_header c description =
     ''{'' @ [CHR 0x22] @ ''code'' @ [CHR 0x22] @ '': '' @ dec_int (ch_code c) @ '', '' @ [CHR 0x22] @ ''message'' @ [CHR 0x22] @
     '': '' @ [CHR 0x22] @ description @ [CHR 0x22] @ '', '' @ [CHR 0x22] @ ''depth'' @ [CHR 0x22] @ '': '' @
     dec_int (int (ch_depth c)) @ '', '' @ [CHR 0x22] @ ''contexts'' @ [CHR 0x22] @ '': [''"

text \<open>\<open>offset\<close> after a call that produced \<open>s\<close>: the end of the buffer once something did not fit. The result of
  the loop is the buffer's text and the offset.\<close>

definition json_offset :: "nat \<Rightarrow> nat \<Rightarrow> cstr \<Rightarrow> nat" where
  "json_offset n offset s = (if n - offset \<le> length s then n else offset + length s)"

fun json_contexts :: "nat \<Rightarrow> bool \<Rightarrow> cstr err_context_entry list \<Rightarrow> cstr \<Rightarrow> nat \<Rightarrow> cstr \<times> nat" where
  "json_contexts n first [] out offset = (out, offset)"
| "json_contexts n first (e # es) out offset =
     (if offset < n then
        let s = json_context first e
        in json_contexts n False es (snprintf_at n out s) (json_offset n offset s)
      else (out, offset))"

text \<open>\<open>None\<close>: the buffer cannot be allocated; the error that is pushed then is an \<open>airy_err_push_ex\<close> of its own.\<close>

definition airy_err_chain_to_json_i18n ::
  "(airy_err \<Rightarrow> cstr option) \<Rightarrow> bool \<Rightarrow> err_world \<Rightarrow> cstr err_chain option \<Rightarrow> int \<Rightarrow> cstr option" where
  "airy_err_chain_to_json_i18n zh mem w chain lang =
     (if \<not> mem then None
      else
        (case chain of
           None \<Rightarrow> Some (''{'' @ [CHR 0x22] @ ''error'' @ [CHR 0x22] @ '': '' @ [CHR 0x22] @ ''null'' @ [CHR 0x22] @ ''}'')
         | Some c \<Rightarrow>
             let n = 4096;
                 s = json_header c (airy_err_str_i18n zh w (ch_code c) (if lang < 0 then ew_language w else lang));
                 (out, offset) = json_contexts n True (take (ch_depth c) (ch_contexts c)) (snprintf_at n [] s) (json_offset n 0 s)
             in Some (if offset < n then snprintf_at n out '']}'' else out)))"

definition airy_err_chain_to_json ::
  "(airy_err \<Rightarrow> cstr option) \<Rightarrow> bool \<Rightarrow> err_world \<Rightarrow> cstr err_chain option \<Rightarrow> cstr option" where
  "airy_err_chain_to_json zh mem w chain =
     (case chain of
        None \<Rightarrow> if mem then Some (''{'' @ [CHR 0x22] @ ''error'' @ [CHR 0x22] @ '': '' @ [CHR 0x22] @ ''null chain'' @ [CHR 0x22] @ ''}'') else None
      | Some c \<Rightarrow> airy_err_chain_to_json_i18n zh mem w (Some c) (- 1))"

definition format_context :: "nat \<Rightarrow> cstr err_context_entry \<Rightarrow> cstr" where
  "format_context i e = ''  ['' @ dec_nat (i + 1) @ ''] '' @ opt_text ''?'' (ec_file e) @ '':'' @ dec_int (ec_line e) @ '' in '' @
     opt_text ''?'' (ec_function e) @ ''(): '' @ opt_text [] (ec_message e) @ [CHR 0x0A]"

text \<open>\<open>offset\<close> adds up what would have been printed.\<close>

fun format_contexts :: "nat \<Rightarrow> nat \<Rightarrow> cstr err_context_entry list \<Rightarrow> cstr \<Rightarrow> nat \<Rightarrow> cstr" where
  "format_contexts n i [] out offset = out"
| "format_contexts n i (e # es) out offset =
     (if offset < n - 1 then
        let s = format_context i e in format_contexts n (i + 1) es (snprintf_at n out s) (offset + length s)
      else out)"

definition airy_err_chain_format :: "bool \<Rightarrow> cstr err_chain option \<Rightarrow> cstr option" where
  "airy_err_chain_format mem chain =
     (if \<not> mem then None
      else
        (case chain of
           None \<Rightarrow> Some ''(null chain)''
         | Some c \<Rightarrow>
             let n = 4096;
                 s = ''Error chain (depth='' @ dec_int (int (ch_depth c)) @ '', code='' @ dec_int (ch_code c) @ ''):'' @ [CHR 0x0A]
             in Some (format_contexts n 0 (take (ch_depth c) (ch_contexts c)) (snprintf_at n [] s) (length s))))"

end
