(* ===== verification/Error_Runs.thy ===== *)
theory Error_Runs
  imports Error_Chain Bags
begin

section \<open>Runs of the error handler\<close>

text \<open>
  Whatever the threads do, in any order, the chain of a thread holds its own last sixteen errors since it
  was cleared, the messages on the heap are exactly those the chains point to, and the statistics count every
  error. The two renderings of a chain are the full text, cut to the buffer.
\<close>

subsection \<open>Messages on the heap\<close>

definition entry_msg :: "addr err_context_entry \<Rightarrow> addr multiset" where
  "entry_msg e = (case ec_message e of None \<Rightarrow> {#} | Some a \<Rightarrow> {#a#})"

definition live_contexts :: "'m err_chain \<Rightarrow> 'm err_context_entry list" where
  "live_contexts c = take (ch_depth c) (ch_contexts c)"

definition chain_msgs :: "addr err_chain option \<Rightarrow> addr multiset" where
  "chain_msgs x = (case x of None \<Rightarrow> {#} | Some c \<Rightarrow> bag entry_msg (live_contexts c))"

lemma bag_Nil [simp]: "bag f [] = {#}"
  by (simp add: bag_def)

lemma bag_Cons [simp]: "bag f (x # xs) = f x + bag f xs"
  by (simp add: bag_def)

lemma bag_append [simp]: "bag f (xs @ ys) = bag f xs + bag f ys"
  by (simp add: bag_def)

lemma free_message_ok:
  assumes "finite (dom h)" "mset_set (dom h) = entry_msg e + M"
  shows "\<exists>h'. free_message (ec_message e) h = Some h' \<and> finite (dom h') \<and> mset_set (dom h') = M \<and> (\<forall>a. a \<in># M \<longrightarrow> h' a = h a)"
proof (cases "ec_message e")
  case None
  with assms show ?thesis by (simp add: free_message_def entry_msg_def)
next
  case (Some a)
  then have m: "mset_set (dom h) = add_mset a M" using assms(2) by (simp add: entry_msg_def)
  then have a: "a \<in> dom h" using mset_set_member [OF m assms(1), of a] by simp
  have n: "a \<notin># M"
  proof
    assume "a \<in># M"
    then have "2 \<le> count (mset_set (dom h)) a" unfolding m by (simp add: Suc_le_eq)
    then show False by (simp add: count_mset_set' split: if_splits)
  qed
  have "mset_set (dom h - {a}) = mset_set (dom h) - {#a#}" using a assms(1) by (simp add: mset_set_Diff)
  then have "mset_set (dom (h(a := None))) = M" using m by simp
  with Some a n assms(1) show ?thesis by (auto simp: free_message_def)
qed

lemma free_contexts_ok:
  assumes "finite (dom h)" "mset_set (dom h) = bag entry_msg es + M"
  shows "\<exists>h'. free_contexts es h = Some h' \<and> finite (dom h') \<and> mset_set (dom h') = M \<and> (\<forall>a. a \<in># M \<longrightarrow> h' a = h a)"
  using assms
proof (induction es arbitrary: h)
  case (Cons e es)
  then obtain h1 where h1: "free_message (ec_message e) h = Some h1" "finite (dom h1)"
    "mset_set (dom h1) = bag entry_msg es + M" "\<forall>a. a \<in># bag entry_msg es + M \<longrightarrow> h1 a = h a"
    using free_message_ok [of h e "bag entry_msg es + M"] by (auto simp: ac_simps)
  from Cons.IH [OF h1(2,3)] h1 show ?case by auto
qed simp

subsection \<open>Operations and their specification\<close>

datatype err_op =
    Err_push nat bool "addr option" u64 u64 airy_err "cstr option" int "cstr option" cstr
  | Err_clear nat bool
  | Err_cleanup nat
  | Err_reset
  | Err_language int

fun err_step :: "err_world \<Rightarrow> err_op \<Rightarrow> err_world option" where
  "err_step w (Err_push t mem msg now now' code file line func text) = airy_err_push_ex mem msg now now' t w code file line func text"
| "err_step w (Err_clear t mem) = airy_err_clear mem t w"
| "err_step w (Err_cleanup t) = airy_err_thread_cleanup t w"
| "err_step w Err_reset = Some (airy_err_reset_stats w)"
| "err_step w (Err_language lang) = Some (snd (airy_err_set_language lang w))"

text \<open>The address that \<open>AIRY_STRDUP\<close> returns is not in use, after a full chain has released its oldest message.\<close>

definition push_heap :: "nat \<Rightarrow> err_world \<Rightarrow> addr \<Rightarrow> cstr option" where
  "push_heap t w =
     (case ew_threads w ! t of
        Some c \<Rightarrow> if ch_depth c < AIRY_ERROR_CONTEXT_MAX_DEPTH then ew_heap w
                 else (case free_message (ec_message (ch_contexts c ! 0)) (ew_heap w) of Some h \<Rightarrow> h | None \<Rightarrow> ew_heap w)
      | None \<Rightarrow> ew_heap w)"

fun err_legal :: "err_world \<Rightarrow> err_op \<Rightarrow> bool" where
  "err_legal w (Err_push t mem msg now now' code file line func text) \<longleftrightarrow>
     t < length (ew_threads w) \<and> (case msg of None \<Rightarrow> True | Some a \<Rightarrow> push_heap t w a = None)"
| "err_legal w (Err_clear t mem) \<longleftrightarrow> t < length (ew_threads w)"
| "err_legal w (Err_cleanup t) \<longleftrightarrow> t < length (ew_threads w)"
| "err_legal w _ \<longleftrightarrow> True"

text \<open>A run: \<open>None\<close> for an illegal operation, \<open>Some None\<close> for a fault.\<close>

fun err_run :: "err_world \<Rightarrow> err_op list \<Rightarrow> err_world option option" where
  "err_run w [] = Some (Some w)"
| "err_run w (op # ops) =
     (if err_legal w op then (case err_step w op of None \<Rightarrow> Some None | Some w' \<Rightarrow> err_run w' ops) else None)"

text \<open>The chain of thread \<open>t\<close>: its code and its contexts, of which only the last sixteen are kept.\<close>

type_synonym chain_spec = "(airy_err \<times> cstr err_context_entry list) option"

fun spec_op :: "nat \<Rightarrow> chain_spec \<Rightarrow> err_op \<Rightarrow> chain_spec" where
  "spec_op t s (Err_push t' mem msg now now' code file line func text) =
     (if t' \<noteq> t then s
      else
        (case (if s = None \<and> mem then Some (0, []) else s) of
           None \<Rightarrow> None
         | Some (_, es) \<Rightarrow>
             let es' = es @ [\<lparr>ec_file = file, ec_line = line, ec_function = func,
                             ec_message = map_option (\<lambda>_. take 1023 text) msg, ec_error_code = code, ec_timestamp_ns = now'\<rparr>]
             in Some (code, drop (length es' - AIRY_ERROR_CONTEXT_MAX_DEPTH) es')))"
| "spec_op t s (Err_clear t' mem) = (if t' \<noteq> t then s else if s = None \<and> \<not> mem then None else Some (0, []))"
| "spec_op t s (Err_cleanup t') = (if t' \<noteq> t then s else None)"
| "spec_op t s _ = s"

definition spec_chain :: "nat \<Rightarrow> err_op list \<Rightarrow> chain_spec" where
  "spec_chain t ops = foldl (spec_op t) None ops"

definition chain_of :: "err_world \<Rightarrow> nat \<Rightarrow> chain_spec" where
  "chain_of w t = map_option (\<lambda>c. (ch_code c, map (context_view (ew_heap w)) (live_contexts c))) (ew_threads w ! t)"

definition chain_shape :: "addr err_chain option \<Rightarrow> bool" where
  "chain_shape x \<longleftrightarrow> (case x of None \<Rightarrow> True
     | Some c \<Rightarrow> length (ch_contexts c) = AIRY_ERROR_CONTEXT_MAX_DEPTH \<and> ch_depth c \<le> AIRY_ERROR_CONTEXT_MAX_DEPTH)"

definition err_inv :: "err_world \<Rightarrow> bool" where
  "err_inv w \<longleftrightarrow> finite (dom (ew_heap w)) \<and> mset_set (dom (ew_heap w)) = bag chain_msgs (ew_threads w) \<and>
     list_all chain_shape (ew_threads w)"

text \<open>The views of a chain depend on the messages it owns only.\<close>

lemma view_cong: "(\<And>a. a \<in># entry_msg e \<Longrightarrow> h' a = h a) \<Longrightarrow> context_view h' e = context_view h e"
  by (cases "ec_message e") (simp_all add: context_view_def entry_msg_def)

lemma views_cong:
  "(\<And>a. a \<in># bag entry_msg es \<Longrightarrow> h' a = h a) \<Longrightarrow> map (context_view h') es = map (context_view h) es"
  by (induction es) (auto intro: view_cong)

lemma chain_of_other:
  assumes "t' \<noteq> t" "\<And>a. a \<in># bag chain_msgs ((ew_threads w)[t := None]) \<Longrightarrow> h a = ew_heap w a" "t' < length (ew_threads w)"
  shows "chain_of (err_set_chain t c (w\<lparr>ew_heap := h\<rparr>)) t' = chain_of w t'"
proof (cases "ew_threads w ! t'")
  case (Some d)
  have "a \<in># bag chain_msgs ((ew_threads w)[t := None])" if "a \<in># bag entry_msg (live_contexts d)" for a
    using bag_member [of t' "(ew_threads w)[t := None]" a chain_msgs] assms(1,3) Some that by (simp add: chain_msgs_def)
  then have "map (context_view h) (live_contexts d) = map (context_view (ew_heap w)) (live_contexts d)"
    using assms(2) by (intro views_cong) simp
  with Some assms(1) show ?thesis by (simp add: chain_of_def err_set_chain_def)
qed (use assms in \<open>simp add: chain_of_def err_set_chain_def\<close>)

subsection \<open>Every step\<close>

abbreviation rest_msgs :: "nat \<Rightarrow> err_world \<Rightarrow> addr multiset" where
  "rest_msgs t w \<equiv> bag chain_msgs ((ew_threads w)[t := None])"

lemma rest_bag:
  assumes "t < length (ew_threads w)"
  shows "bag chain_msgs ((ew_threads w)[t := x]) = rest_msgs t w + chain_msgs x"
    "bag chain_msgs (ew_threads w) = rest_msgs t w + chain_msgs (ew_threads w ! t)"
proof -
  have n: "chain_msgs None = {#}" by (simp add: chain_msgs_def)
  have b: "rest_msgs t w + chain_msgs (ew_threads w ! t) = bag chain_msgs (ew_threads w)"
    using bag_update [OF assms, of chain_msgs None] by (simp add: n)
  then show "bag chain_msgs (ew_threads w) = rest_msgs t w + chain_msgs (ew_threads w ! t)" by simp
  have "bag chain_msgs ((ew_threads w)[t := x]) + chain_msgs (ew_threads w ! t) = rest_msgs t w + chain_msgs x + chain_msgs (ew_threads w ! t)"
    using bag_update [OF assms, of chain_msgs x] b by (simp add: ac_simps)
  then show "bag chain_msgs ((ew_threads w)[t := x]) = rest_msgs t w + chain_msgs x" by simp
qed

lemma set_chain_inv:
  assumes "err_inv w" "t < length (ew_threads w)" "finite (dom h)" "mset_set (dom h) = rest_msgs t w + chain_msgs x" "chain_shape x"
    and "\<And>a. a \<in># rest_msgs t w \<Longrightarrow> h a = ew_heap w a"
    and "ew_threads w' = (ew_threads w)[t := x]" "ew_heap w' = h"
  shows "err_inv w'" "\<And>t'. t' \<noteq> t \<Longrightarrow> t' < length (ew_threads w) \<Longrightarrow> chain_of w' t' = chain_of w t'"
proof -
  have "list_all chain_shape ((ew_threads w)[t := x])"
    using assms(1,5) set_update_subset_insert [of "ew_threads w" t x] by (auto simp: err_inv_def list_all_iff)
  then show "err_inv w'" using assms(3,4,7,8) rest_bag(1) [OF assms(2), of x] by (simp add: err_inv_def)
  fix t' assume "t' \<noteq> t" "t' < length (ew_threads w)"
  then have "chain_of (err_set_chain t x (w\<lparr>ew_heap := h\<rparr>)) t' = chain_of w t'" using assms(6) by (intro chain_of_other) auto
  then show "chain_of w' t' = chain_of w t'" using assms(7,8) by (simp add: chain_of_def err_set_chain_def)
qed

text \<open>What a step must do: keep the invariant, and let every chain follow its specification.\<close>

definition err_ok :: "err_world \<Rightarrow> err_op \<Rightarrow> err_world \<Rightarrow> bool" where
  "err_ok w op w' \<longleftrightarrow> err_inv w' \<and> length (ew_threads w') = length (ew_threads w) \<and>
     (\<forall>t < length (ew_threads w). chain_of w' t = spec_op t (chain_of w t) op)"

lemma inv_at:
  assumes "err_inv w" "t < length (ew_threads w)"
  shows "chain_shape (ew_threads w ! t)" "finite (dom (ew_heap w))"
    "mset_set (dom (ew_heap w)) = chain_msgs (ew_threads w ! t) + rest_msgs t w"
  using assms rest_bag(2) [OF assms(2)] by (auto simp: err_inv_def list_all_length ac_simps)

lemma zero_chain_facts:
  "chain_shape (Some zero_chain)" "chain_msgs (Some zero_chain) = {#}" "live_contexts zero_chain = []" "ch_code zero_chain = 0"
  by (simp_all add: chain_shape_def chain_msgs_def live_contexts_def zero_chain_def)

text \<open>The state a call works on: the chain of the thread, or a fresh one.\<close>

lemma get_state:
  assumes "err_inv w" "t < length (ew_threads w)" "get_thread_error_state mem t w = Some c"
  shows "chain_shape (Some c)" "mset_set (dom (ew_heap w)) = bag entry_msg (live_contexts c) + rest_msgs t w"
    "(if chain_of w t = None \<and> mem then Some (0, []) else chain_of w t) = Some (ch_code c, map (context_view (ew_heap w)) (live_contexts c))"
    "ew_threads w ! t = None \<longrightarrow> c = zero_chain"
  using inv_at [OF assms(1,2)] assms(3) zero_chain_facts
  by (auto simp: get_thread_error_state_def chain_of_def chain_msgs_def split: option.splits if_splits)

lemma step_clear:
  assumes I: "err_inv w" and t: "t < length (ew_threads w)"
  shows "\<exists>w'. airy_err_clear mem t w = Some w' \<and> err_ok w (Err_clear t mem) w'"
proof (cases "get_thread_error_state mem t w")
  case None
  then have "chain_of w t = None" "\<not> mem" by (auto simp: get_thread_error_state_def chain_of_def split: option.splits if_splits)
  with I None show ?thesis by (auto simp: airy_err_clear_def err_ok_def)
next
  case (Some c)
  note g = get_state [OF I t Some]
  let ?c = "\<lparr>ch_code = AIRY_SUCCESS, ch_depth = 0, ch_contexts = map drop_message (live_contexts c) @ drop (ch_depth c) (ch_contexts c)\<rparr>"
  obtain h where h: "free_contexts (live_contexts c) (ew_heap w) = Some h" "finite (dom h)" "mset_set (dom h) = rest_msgs t w"
    "\<forall>a. a \<in># rest_msgs t w \<longrightarrow> h a = ew_heap w a"
    using free_contexts_ok [OF _ g(2)] inv_at(2) [OF I t] by auto
  let ?w = "err_set_chain t (Some ?c) (w\<lparr>ew_heap := h\<rparr>)"
  have l: "live_contexts ?c = []" by (simp add: live_contexts_def)
  have s: "chain_shape (Some ?c)" "chain_msgs (Some ?c) = {#}"
    using g(1) by (simp_all add: chain_shape_def chain_msgs_def l) (simp add: live_contexts_def)
  have "err_inv ?w" "\<And>t'. t' \<noteq> t \<Longrightarrow> t' < length (ew_threads w) \<Longrightarrow> chain_of ?w t' = chain_of w t'"
    using set_chain_inv [OF I t h(2) _ s(1), of ?w] h(3,4) s(2) by (simp_all add: err_set_chain_def)
  moreover have "chain_of ?w t = Some (0, [])" using t l by (simp add: chain_of_def err_set_chain_def AIRY_SUCCESS_def)
  moreover have "airy_err_clear mem t w = Some ?w" using Some h(1) by (simp add: airy_err_clear_def live_contexts_def)
  moreover have "\<not> (chain_of w t = None \<and> \<not> mem)" using g(3) by (auto split: if_splits)
  ultimately show ?thesis by (auto simp: err_ok_def err_set_chain_def)
qed

lemma step_cleanup:
  assumes I: "err_inv w" and t: "t < length (ew_threads w)"
  shows "\<exists>w'. airy_err_thread_cleanup t w = Some w' \<and> err_ok w (Err_cleanup t) w'"
proof -
  have "\<exists>h. tls_state_destroy (ew_threads w ! t) (ew_heap w) = Some h \<and> finite (dom h) \<and> mset_set (dom h) = rest_msgs t w \<and>
      (\<forall>a. a \<in># rest_msgs t w \<longrightarrow> h a = ew_heap w a)"
  proof (cases "ew_threads w ! t")
    case None
    with inv_at [OF I t] show ?thesis by (simp add: tls_state_destroy_def chain_msgs_def)
  next
    case (Some c)
    with inv_at [OF I t] free_contexts_ok [of "ew_heap w" "live_contexts c" "rest_msgs t w"] show ?thesis
      by (simp add: tls_state_destroy_def chain_msgs_def live_contexts_def)
  qed
  then obtain h where h: "tls_state_destroy (ew_threads w ! t) (ew_heap w) = Some h" "finite (dom h)"
    "mset_set (dom h) = rest_msgs t w" "\<And>a. a \<in># rest_msgs t w \<Longrightarrow> h a = ew_heap w a" by blast
  let ?w = "err_set_chain t None (w\<lparr>ew_heap := h\<rparr>)"
  have "err_inv ?w" "\<And>t'. t' \<noteq> t \<Longrightarrow> t' < length (ew_threads w) \<Longrightarrow> chain_of ?w t' = chain_of w t'"
    using set_chain_inv [OF I t h(2), of None ?w] h(3,4) by (simp_all add: err_set_chain_def chain_msgs_def chain_shape_def)
  moreover have "chain_of ?w t = None" using t by (simp add: chain_of_def err_set_chain_def)
  ultimately show ?thesis using h(1) by (auto simp: airy_err_thread_cleanup_def err_ok_def err_set_chain_def)
qed

lemma strdup_ok:
  assumes "finite (dom h)" "mset_set (dom h) = M" "case msg of None \<Rightarrow> True | Some a \<Rightarrow> h a = None"
    and "ec_message e = msg" "h' = strdup_message msg text h"
  shows "finite (dom h')" "mset_set (dom h') = entry_msg e + M" "\<And>a. a \<in># M \<Longrightarrow> h' a = h a"
    "context_view h' e = \<lparr>ec_file = ec_file e, ec_line = ec_line e, ec_function = ec_function e,
       ec_message = map_option (\<lambda>_. take 1023 text) msg, ec_error_code = ec_error_code e, ec_timestamp_ns = ec_timestamp_ns e\<rparr>"
proof -
  show "finite (dom h')" using assms(1,5) by (cases msg) (simp_all add: strdup_message_def)
  show "context_view h' e = \<lparr>ec_file = ec_file e, ec_line = ec_line e, ec_function = ec_function e,
       ec_message = map_option (\<lambda>_. take 1023 text) msg, ec_error_code = ec_error_code e, ec_timestamp_ns = ec_timestamp_ns e\<rparr>"
    using assms(4,5) by (cases msg) (simp_all add: strdup_message_def context_view_def)
  show "mset_set (dom h') = entry_msg e + M"
  proof (cases msg)
    case (Some a)
    then have "dom h' = insert a (dom h)" "a \<notin> dom h" using assms(3,5) by (auto simp: strdup_message_def)
    then show ?thesis using assms(1,2,4) Some by (simp add: entry_msg_def)
  qed (use assms in \<open>simp add: strdup_message_def entry_msg_def\<close>)
  fix a assume "a \<in># M"
  then have "a \<in> dom h" using mset_set_member [OF assms(2,1)] by simp
  then show "h' a = h a" using assms(3,5) by (cases msg) (auto simp: strdup_message_def)
qed

lemma step_push:
  assumes I: "err_inv w" and L: "err_legal w (Err_push t mem msg now now' code file line func text)"
  shows "\<exists>w'. airy_err_push_ex mem msg now now' t w code file line func text = Some w' \<and>
    err_ok w (Err_push t mem msg now now' code file line func text) w'"
proof (cases "get_thread_error_state mem t w")
  case None
  then have "chain_of w t = None" "\<not> mem" by (auto simp: get_thread_error_state_def chain_of_def split: option.splits if_splits)
  with I None show ?thesis by (auto simp: airy_err_push_ex_def err_ok_def)
next
  case (Some c)
  have t: "t < length (ew_threads w)" using L by simp
  note g = get_state [OF I t Some]
  let ?D = AIRY_ERROR_CONTEXT_MAX_DEPTH
  let ?e = "\<lparr>ec_file = file, ec_line = line, ec_function = func, ec_message = msg, ec_error_code = code, ec_timestamp_ns = now'\<rparr>"
  have len: "length (ch_contexts c) = ?D" "ch_depth c \<le> ?D" using g(1) by (simp_all add: chain_shape_def)
  define old where "old = (if ch_depth c < ?D then [] else [ch_contexts c ! 0])"
  define kept where "kept = (if ch_depth c < ?D then live_contexts c else tl (ch_contexts c))"
  define c' where "c' = (if ch_depth c < ?D then c\<lparr>ch_contexts := (ch_contexts c)[ch_depth c := ?e], ch_depth := ch_depth c + 1, ch_code := code\<rparr>
    else c\<lparr>ch_contexts := tl (ch_contexts c) @ [?e], ch_code := code\<rparr>)"
  have D: "0 < ?D" by (simp add: AIRY_ERROR_CONTEXT_MAX_DEPTH_def)
  have lv: "live_contexts c = old @ kept"
    using len D by (auto simp: old_def kept_def live_contexts_def) (metis Nil_is_append_conv hd_Cons_tl hd_conv_nth length_0_conv less_irrefl take_all_iff)
  have lv': "live_contexts c' = kept @ [?e]"
    using len D by (auto simp: c'_def kept_def live_contexts_def take_Suc_conv_app_nth)
  have drop: "map f kept @ [x] = drop (length (map f (live_contexts c) @ [x]) - ?D) (map f (live_contexts c) @ [x])" for f x
    using len D by (auto simp: lv old_def kept_def live_contexts_def drop_Suc map_tl)
  obtain h where h: "free_contexts old (ew_heap w) = Some h" "finite (dom h)" "mset_set (dom h) = bag entry_msg kept + rest_msgs t w"
    "\<forall>a. a \<in># bag entry_msg kept + rest_msgs t w \<longrightarrow> h a = ew_heap w a"
    using free_contexts_ok [of "ew_heap w" old "bag entry_msg kept + rest_msgs t w"] g(2) inv_at(2) [OF I t] by (auto simp: lv ac_simps)
  have "push_heap t w = h"
    using h(1) g(4) D by (cases "ew_threads w ! t")
      (use Some in \<open>auto simp: push_heap_def old_def get_thread_error_state_def zero_chain_def split: option.splits if_splits\<close>)
  then have fresh: "case msg of None \<Rightarrow> True | Some a \<Rightarrow> h a = None" using L by (auto split: option.splits)
  define h' where "h' = strdup_message msg text h"
  note st = strdup_ok [OF h(2,3) fresh _ h'_def, of ?e, simplified]
  let ?w = "err_set_chain t (Some c') (w\<lparr>ew_stats := err_count code now (ew_stats w), ew_heap := h'\<rparr>)"
  have p: "airy_err_push_ex mem msg now now' t w code file line func text = Some ?w"
    using Some h(1) by (auto simp: airy_err_push_ex_def c'_def h'_def old_def Let_def split: option.splits if_splits)
  have cm: "chain_msgs (Some c') = entry_msg ?e + bag entry_msg kept" using lv' by (simp add: chain_msgs_def ac_simps)
  have cs: "chain_shape (Some c')" using len D by (auto simp: chain_shape_def c'_def)
  have inv: "err_inv ?w" "\<And>t'. t' \<noteq> t \<Longrightarrow> t' < length (ew_threads w) \<Longrightarrow> chain_of ?w t' = chain_of w t'"
    using set_chain_inv [OF I t st(1) _ cs, of ?w] st(2,3) h(4) cm by (simp_all add: err_set_chain_def ac_simps)
  have k: "map (context_view h') kept = map (context_view (ew_heap w)) kept" using st(3) h(4) by (intro views_cong) simp
  have "ch_code c' = code" by (simp add: c'_def)
  then have "chain_of ?w t = Some (code, map (context_view h') (live_contexts c'))" using t by (simp add: chain_of_def err_set_chain_def)
  also have "map (context_view h') (live_contexts c') = map (context_view (ew_heap w)) kept @ [context_view h' ?e]" by (simp only: lv' map_append k list.map)
  also have "\<dots> = drop (length (map (context_view (ew_heap w)) (live_contexts c) @ [context_view h' ?e]) - ?D)
      (map (context_view (ew_heap w)) (live_contexts c) @ [context_view h' ?e])" by (rule drop)
  finally have "chain_of ?w t = spec_op t (chain_of w t) (Err_push t mem msg now now' code file line func text)"
    unfolding spec_op.simps g(3) by (simp only: st(4) Let_def if_False prod.case option.case simp_thms)
  with p inv show ?thesis by (auto simp: err_ok_def err_set_chain_def)
qed

lemma step_ok:
  assumes "err_inv w" "err_legal w op"
  shows "\<exists>w'. err_step w op = Some w' \<and> err_ok w op w'"
proof (cases op)
  case (Err_push t mem msg now now' code fl ln fn tx)
  with step_push [OF assms(1)] assms(2) show ?thesis by simp
next
  case (Err_clear t mem)
  with step_clear [OF assms(1)] assms(2) show ?thesis by simp
next
  case (Err_cleanup t)
  with step_cleanup [OF assms(1)] assms(2) show ?thesis by simp
next
  case Err_reset
  with assms(1) show ?thesis by (simp add: err_ok_def airy_err_reset_stats_def err_inv_def chain_of_def)
next
  case (Err_language lang)
  with assms(1) show ?thesis by (simp add: err_ok_def airy_err_set_language_def err_inv_def chain_of_def)
qed

lemma err_run_ok:
  "err_run w ops = Some r \<Longrightarrow> err_inv w \<Longrightarrow>
     \<exists>w'. r = Some w' \<and> err_inv w' \<and> length (ew_threads w') = length (ew_threads w) \<and>
       (\<forall>t < length (ew_threads w). chain_of w' t = foldl (spec_op t) (chain_of w t) ops)"
proof (induction ops arbitrary: w)
  case (Cons op ops)
  then have l: "err_legal w op" by (simp split: if_splits)
  obtain w1 where w1: "err_step w op = Some w1" "err_ok w op w1" using step_ok [OF Cons.prems(2) l] by blast
  have "err_run w1 ops = Some r" "err_inv w1" using Cons.prems(1) l w1 by (simp_all add: err_ok_def)
  from Cons.IH [OF this] w1(2) show ?case by (auto simp: err_ok_def)
qed auto

lemma world0_inv: "err_inv (err_world0 n)" "length (ew_threads (err_world0 n)) = n"
  "t < n \<Longrightarrow> chain_of (err_world0 n) t = None"
  by (simp_all add: err_inv_def err_world0_def bag_replicate_empty chain_msgs_def chain_shape_def chain_of_def list_all_length)

subsection \<open>Statistics\<close>

text \<open>The errors that were counted: those of threads that have a state.\<close>

definition severity_total :: "err_stats \<Rightarrow> u64" where
  "severity_total st = sum_list (es_errors_by_severity st)"

lemma sum_list_update_u64: "i < length xs \<Longrightarrow> sum_list (xs[i := x]) = sum_list xs + x - (xs ! i :: u64)"
proof (induction xs arbitrary: i)
  case (Cons y ys)
  then show ?case by (cases i) (auto simp: algebra_simps)
qed simp

lemma count_total:
  assumes "length (es_errors_by_severity st) = 4" "severity_total st = es_total_errors st"
  shows "length (es_errors_by_severity (err_count code now st)) = 4 \<and> severity_total (err_count code now st) = es_total_errors (err_count code now st)"
proof -
  have "severity_index (airy_err_get_severity code) < 4" by (cases "airy_err_get_severity code") simp_all
  then show ?thesis using assms by (simp add: err_count_def severity_total_def Let_def sum_list_update_u64)
qed

lemma step_stats:
  assumes "err_step w op = Some w'" "length (es_errors_by_severity (ew_stats w)) = 4 \<and> severity_total (ew_stats w) = es_total_errors (ew_stats w)"
  shows "length (es_errors_by_severity (ew_stats w')) = 4 \<and> severity_total (ew_stats w') = es_total_errors (ew_stats w')"
  using assms count_total
  by (cases op)
     (auto simp: airy_err_push_ex_def airy_err_clear_def airy_err_thread_cleanup_def airy_err_reset_stats_def airy_err_set_language_def
       err_set_chain_def Let_def zero_err_stats_def severity_total_def split: option.splits if_splits)

lemma run_stats:
  "err_run w ops = Some (Some w') \<Longrightarrow> length (es_errors_by_severity (ew_stats w)) = 4 \<and> severity_total (ew_stats w) = es_total_errors (ew_stats w) \<Longrightarrow>
     severity_total (ew_stats w') = es_total_errors (ew_stats w')"
proof (induction ops arbitrary: w)
  case (Cons op ops)
  then obtain w1 where "err_step w op = Some w1" "err_run w1 ops = Some (Some w')" by (auto split: if_splits option.splits)
  with Cons step_stats show ?case by blast
qed simp

subsection \<open>Renderings\<close>

fun json_texts :: "bool \<Rightarrow> cstr err_context_entry list \<Rightarrow> cstr" where
  "json_texts first [] = []"
| "json_texts first (e # es) = json_context first e @ json_texts False es"

definition json_text :: "cstr err_chain \<Rightarrow> cstr \<Rightarrow> cstr" where
  "json_text c description = json_header c description @ json_texts True (live_contexts c) @ '']}''"

fun format_texts :: "nat \<Rightarrow> cstr err_context_entry list \<Rightarrow> cstr" where
  "format_texts i [] = []"
| "format_texts i (e # es) = format_context i e @ format_texts (i + 1) es"

definition format_text :: "cstr err_chain \<Rightarrow> cstr" where
  "format_text c = ''Error chain (depth='' @ dec_int (int (ch_depth c)) @ '', code='' @ dec_int (ch_code c) @ ''):'' @ [CHR 0x0A] @
     format_texts 0 (live_contexts c)"

text \<open>The buffer holds the text printed so far, or is full.\<close>

definition json_at :: "nat \<Rightarrow> cstr \<Rightarrow> nat \<Rightarrow> bool" where
  "json_at n out offset \<longleftrightarrow> (offset < n \<and> length out = offset) \<or> (offset = n \<and> Suc (length out) = n)"

lemma snprintf_cut: "snprintf_at n (take (n - 1) x) s = take (n - 1) (x @ s)"
  by (cases "length x \<le> n - 1") (simp_all add: snprintf_at_def)

lemma take_cut: "take m (take m x @ y) = take m (x @ y)"
  by (cases "length x \<le> m") simp_all

lemma json_at_snprintf:
  assumes "offset < n" "json_at n out offset"
  shows "json_at n (snprintf_at n out s) (json_offset n offset s)" "snprintf_at n out s = take (n - 1) (out @ s)"
  using assms by (auto simp: json_at_def snprintf_at_def json_offset_def)

lemma json_contexts_cut:
  "json_at n out offset \<Longrightarrow> json_contexts n first es out offset = (out', offset') \<Longrightarrow>
     json_at n out' offset' \<and> out' = take (n - 1) (out @ json_texts first es)"
proof (induction n first es out offset rule: json_contexts.induct)
  case (1 n first out offset)
  then show ?case by (auto simp: json_at_def)
next
  case (2 n first e es out offset)
  show ?case
  proof (cases "offset < n")
    case True
    let ?s = "json_context first e"
    have j: "json_at n (snprintf_at n out ?s) (json_offset n offset ?s)" "snprintf_at n out ?s = take (n - 1) (out @ ?s)"
      using json_at_snprintf [OF True "2.prems"(1), of ?s] .
    have "json_contexts n False es (snprintf_at n out ?s) (json_offset n offset ?s) = (out', offset')"
      using "2.prems"(2) True by (simp add: Let_def)
    from "2.IH" [OF True refl j(1) this] show ?thesis unfolding j(2) take_cut json_texts.simps append_assoc by blast
  next
    case False
    with "2.prems" show ?thesis by (auto simp: json_at_def)
  qed
qed

lemma format_contexts_cut:
  "0 < n \<Longrightarrow> out = take (n - 1) x \<Longrightarrow> offset = length x \<Longrightarrow> format_contexts n i es out offset = take (n - 1) (x @ format_texts i es)"
proof (induction n i es out offset arbitrary: x rule: format_contexts.induct)
  case (2 n i e es out offset)
  show ?case
  proof (cases "offset < n - 1")
    case True
    let ?s = "format_context i e"
    have "snprintf_at n out ?s = take (n - 1) (x @ ?s)" using snprintf_cut [of n x ?s] "2.prems"(2) by simp
    with "2.IH" [OF True refl "2.prems"(1), of "x @ ?s"] "2.prems"(3) True show ?thesis by (simp add: Let_def)
  next
    case False
    with "2.prems" show ?thesis by simp
  qed
qed simp

lemma json_i18n_cut:
  "airy_err_chain_to_json_i18n zh True w (Some c) lang =
     Some (take 4095 (json_text c (airy_err_str_i18n zh w (ch_code c) (if lang < 0 then ew_language w else lang))))"
proof -
  define s where "s = json_header c (airy_err_str_i18n zh w (ch_code c) (if lang < 0 then ew_language w else lang))"
  obtain out offset where o: "json_contexts 4096 True (live_contexts c) (snprintf_at 4096 [] s) (json_offset 4096 0 s) = (out, offset)"
    by fastforce
  have "json_at 4096 [] 0" by (simp add: json_at_def)
  note a = json_at_snprintf [OF _ this, of s]
  have j0: "json_at 4096 (snprintf_at 4096 [] s) (json_offset 4096 0 s)" by (rule a(1)) simp
  have s0: "snprintf_at 4096 [] s = take 4095 s" using a(2) by simp
  have j: "json_at 4096 out offset" "out = take 4095 (take 4095 s @ json_texts True (live_contexts c))"
    using conjunct1 [OF json_contexts_cut [OF j0 o]] conjunct2 [OF json_contexts_cut [OF j0 o]] unfolding s0 by simp_all
  have "(if offset < 4096 then snprintf_at 4096 out '']}'' else out) = take 4095 (out @ '']}'')"
    using j(1) json_at_snprintf(2) [of offset 4096 out "'']}''"] by (auto simp: json_at_def)
  also have "\<dots> = take 4095 (s @ json_texts True (live_contexts c) @ '']}'')" unfolding j(2) take_cut append_assoc by simp
  finally show ?thesis using o unfolding airy_err_chain_to_json_i18n_def live_contexts_def json_text_def s_def by (simp add: Let_def)
qed

lemma format_cut: "airy_err_chain_format True (Some c) = Some (take 4095 (format_text c))"
proof -
  let ?s = "''Error chain (depth='' @ dec_int (int (ch_depth c)) @ '', code='' @ dec_int (ch_code c) @ ''):'' @ [CHR 0x0A]"
  have "snprintf_at 4096 [] ?s = take 4095 ?s" using snprintf_cut [of 4096 "[]" ?s] by simp
  with format_contexts_cut [of 4096 "take 4095 ?s" ?s _ 0 "live_contexts c"] show ?thesis
    by (simp add: airy_err_chain_format_def format_text_def live_contexts_def Let_def del: append.simps)
qed

subsection \<open>Properties\<close>

text \<open>C8: For every sequence of calls of any number of threads: no message is freed twice; the chain of a thread
  holds its own last sixteen errors since it was cleared, with the texts cut to 1023 characters, independent of
  what the other threads do; the messages that are allocated are exactly those of the chains, so that nothing
  leaks; and the counters of the four severities add up to the total.\<close>

theorem err_run_chains:
  assumes "err_run (err_world0 n) ops = Some r"
  shows "\<exists>w. r = Some w \<and> (\<forall>t < n. chain_of w t = spec_chain t ops) \<and>
    finite (dom (ew_heap w)) \<and> mset_set (dom (ew_heap w)) = bag chain_msgs (ew_threads w) \<and>
    severity_total (airy_err_get_stats w) = es_total_errors (airy_err_get_stats w)"
proof -
  obtain w where w: "r = Some w" "err_inv w" "\<And>t. t < n \<Longrightarrow> chain_of w t = spec_chain t ops"
    using err_run_ok [OF assms world0_inv(1)] world0_inv(2,3) by (auto simp: spec_chain_def)
  have "severity_total (ew_stats w) = es_total_errors (ew_stats w)"
    using run_stats [of "err_world0 n" ops w] assms w(1) by (simp add: err_world0_def zero_err_stats_def severity_total_def)
  with w show ?thesis by (auto simp: err_inv_def airy_err_get_stats_def)
qed

definition sample_errors :: "err_op list" where
  "sample_errors = map (\<lambda>i. Err_push 0 True (Some i) 0 1 0 None (int i) None ''m'') [1..<19] @ [Err_push 1 True None 5 6 0 None 2 None ''x'', Err_clear 1 True]"

theorem err_run_chains_witness:
  "\<exists>w. err_run (err_world0 2) sample_errors = Some (Some w) \<and> chain_of w 1 = Some (0, []) \<and>
     map_option (map ec_line \<circ> snd) (chain_of w 0) = Some (map int [3..<19])"
proof -
  have "err_run (err_world0 2) sample_errors \<noteq> None" by code_simp
  then obtain r where r: "err_run (err_world0 2) sample_errors = Some r" by blast
  have s: "spec_chain 1 sample_errors = Some (0, [])"
    "map_option (map ec_line \<circ> snd) (spec_chain 0 sample_errors) = Some (map int [3..<19])"
    by code_simp+
  from err_run_chains [OF r] obtain w where w: "r = Some w" "\<And>t. t < 2 \<Longrightarrow> chain_of w t = spec_chain t sample_errors" by blast
  with r s w(2) [of 0] w(2) [of 1] show ?thesis by auto
qed

text \<open>Both renderings of a chain print the whole chain cut to the 4095 characters that fit their buffer, whatever
  the length of its texts: no rendering writes outside the buffer or leaves it unterminated.\<close>

theorem err_renderings_cut:
  "airy_err_chain_to_json_i18n zh True w (Some c) lang =
     Some (take 4095 (json_text c (airy_err_str_i18n zh w (ch_code c) (if lang < 0 then ew_language w else lang)))) \<and>
   airy_err_chain_to_json zh True w (Some c) =
     Some (take 4095 (json_text c (airy_err_str_i18n zh w (ch_code c) (ew_language w)))) \<and>
   airy_err_chain_format True (Some c) = Some (take 4095 (format_text c))"
  by (simp add: json_i18n_cut airy_err_chain_to_json_def format_cut)

end
