(* ===== verification/Hall_Event.thy ===== *)
theory Hall_Event
  imports C_Strings
begin

section \<open>Hall events\<close>

text \<open>
  The write side of the event store, \<open>utils/hall/hall_event.c\<close>: the format of event names and files, and
  the global sequence numbers, which processes reserve in blocks through a watermark file. The store is a list of
  event files with their directory, name and text; the watermark file is its text. The processes of
  the system share both; each has its two counters. \<open>hall_evt_write\<close> runs under a mutex, the reservation under a file
  lock, and every outcome of a system call is an argument. The read-back of debug builds is left out.
\<close>

subsection \<open>Names\<close>

definition HALL_EVT_ID_MAX :: nat where "HALL_EVT_ID_MAX = 192"
definition HALL_EVT_HDR_MAX :: nat where "HALL_EVT_HDR_MAX = 1024"
definition HALL_EVT_PATH_MAX :: nat where "HALL_EVT_PATH_MAX = 1024"
definition EVT_WM_BLOCK :: u64 where "EVT_WM_BLOCK = 1024"

text \<open>\<open>None\<close> is a NULL pointer; \<open>content\<close> and the other required fields are tested by the functions that use them.\<close>

record hall_evt =
  he_tenant :: "cstr option"
  he_task :: "cstr option"
  he_category :: "cstr option"
  he_node :: "cstr option"
  he_owner :: "cstr option"
  he_ts_utc :: "cstr option"
  he_content :: "cstr option"
  he_prev :: "cstr option"
  he_seq :: u32
  he_gseq :: u64

record hall_evt_parts =
  hp_tenant :: cstr
  hp_task :: cstr
  hp_category :: cstr
  hp_ts_utc :: cstr
  hp_seq :: cstr

text \<open>The loop of \<open>hall_comp_valid\<close>; \<open>first\<close> says that \<open>p == s\<close>.\<close>

fun comp_scan :: "bool \<Rightarrow> cstr \<Rightarrow> bool" where
  "comp_scan first [] = True"
| "comp_scan first (c # cs) =
     (if c = CHR ''.'' then
        (if cs = [] then comp_scan False cs
         else if first \<or> hd cs = CHR ''.'' then False
         else comp_scan False cs)
      else if (of_char c :: int) < 32 \<or> c \<in> {CHR ''/'', CHR 0x5C, CHR '':'', CHR '' ''} then False
      else comp_scan False cs)"

definition hall_comp_valid :: "cstr option \<Rightarrow> bool" where
  "hall_comp_valid s = (case s of None \<Rightarrow> False | Some t \<Rightarrow> t \<noteq> [] \<and> comp_scan True t)"

definition hall_roles_of :: "cstr option \<Rightarrow> cstr" where
  "hall_roles_of category =
     (if category \<in> {Some ''blueprint'', Some ''command'', Some ''chain''}
      then ''['' @ [CHR 0x22] @ ''cognition'' @ [CHR 0x22] @ '']''
      else ''['' @ [CHR 0x22] @ ''cognition'' @ [CHR 0x22] @ '','' @ [CHR 0x22] @ ''executor'' @ [CHR 0x22] @ '']'')"

text \<open>\<open>%04u\<close>\<close>

definition pad4 :: "cstr \<Rightarrow> cstr" where
  "pad4 s = replicate (4 - length s) (CHR ''0'') @ s"

definition evt_id :: "cstr \<Rightarrow> cstr \<Rightarrow> cstr \<Rightarrow> cstr \<Rightarrow> u32 \<Rightarrow> cstr" where
  "evt_id tenant task category ts seq =
     tenant @ ''.'' @ task @ ''.'' @ category @ ''.'' @ ts @ ''.'' @ pad4 (dec_nat (unat seq)) @ ''.json''"

definition hall_evt_name :: "nat \<Rightarrow> hall_evt \<Rightarrow> cstr option" where
  "hall_evt_name sz evt =
     (case (he_tenant evt, he_task evt, he_category evt, he_ts_utc evt) of
        (Some tenant, Some task, Some category, Some ts) \<Rightarrow>
          let s = evt_id tenant task category ts (he_seq evt)
          in if sz \<le> length s then None else Some s
      | _ \<Rightarrow> None)"

text \<open>The text up to the next dot and what follows it.\<close>

definition dot_cut :: "cstr \<Rightarrow> (cstr \<times> cstr) option" where
  "dot_cut s =
     (case dropWhile (\<lambda>c. c \<noteq> CHR ''.'') s of
        [] \<Rightarrow> None
      | _ # r \<Rightarrow> Some (takeWhile (\<lambda>c. c \<noteq> CHR ''.'') s, r))"

definition hall_evt_parse :: "cstr \<Rightarrow> hall_evt_parts option" where
  "hall_evt_parse name =
     (case dot_cut name of None \<Rightarrow> None | Some (tenant, r1) \<Rightarrow>
     (case dot_cut r1 of None \<Rightarrow> None | Some (task, r2) \<Rightarrow>
     (case dot_cut r2 of None \<Rightarrow> None | Some (category, r3) \<Rightarrow>
     (case dot_cut r3 of None \<Rightarrow> None | Some (ts, r4) \<Rightarrow>
     (case dot_cut r4 of None \<Rightarrow> None | Some (seq, r5) \<Rightarrow>
        if r5 \<noteq> ''json'' then None
        else if tenant = [] \<or> task = [] \<or> category = [] \<or> ts = [] \<or> seq = [] then None
        else Some \<lparr>hp_tenant = tenant, hp_task = task, hp_category = category, hp_ts_utc = ts, hp_seq = seq\<rparr>)))))"

definition is_digit :: "char \<Rightarrow> bool" where
  "is_digit c = (48 \<le> (of_char c :: int) \<and> (of_char c :: int) \<le> 57)"

definition digit_step :: "u64 \<Rightarrow> char \<Rightarrow> u64" where
  "digit_step v c = v * 10 + of_int ((of_char c :: int) - 48)"

definition hall_evt_seq :: "cstr \<Rightarrow> u64" where
  "hall_evt_seq name =
     (case hall_evt_parse name of
        None \<Rightarrow> 0
      | Some parts \<Rightarrow> if list_all is_digit (hp_seq parts) then foldl digit_step 0 (hp_seq parts) else 0)"

subsection \<open>Files\<close>

definition json_field :: "cstr \<Rightarrow> cstr \<Rightarrow> cstr" where
  "json_field k v = [CHR 0x22] @ k @ [CHR 0x22] @ '':'' @ [CHR 0x22] @ v @ [CHR 0x22]"

definition evt_text :: "hall_evt \<Rightarrow> cstr \<Rightarrow> cstr" where
  "evt_text evt ident =
     (let str = (\<lambda>x. case x of None \<Rightarrow> [] | Some s \<Rightarrow> s);
          owner = (case he_owner evt of None \<Rightarrow> ''cognition'' | Some ow \<Rightarrow> if ow = [] then ''cognition'' else ow)
      in ''{'' @ [CHR 0x22] @ ''file'' @ [CHR 0x22] @ '':{'' @ json_field ''id'' ident @ '','' @ json_field ''category'' (str (he_category evt)) @
         '','' @ json_field ''schema'' ''task-file-v1'' @ '','' @ json_field ''tenant_id'' (str (he_tenant evt)) @ '','' @
         json_field ''task_id'' (str (he_task evt)) @ '','' @ json_field ''node_id'' (str (he_node evt)) @ '','' @
         json_field ''ts_utc'' (str (he_ts_utc evt)) @ '','' @ [CHR 0x22] @ ''seq'' @ [CHR 0x22] @ '':'' @ dec_nat (unat (he_seq evt)) @ '','' @
         [CHR 0x22] @ ''gseq'' @ [CHR 0x22] @ '':'' @ dec_nat (unat (he_gseq evt)) @ '','' @ json_field ''prev_file'' (str (he_prev evt)) @ ''},'' @
         [CHR 0x22] @ ''access'' @ [CHR 0x22] @ '':{'' @ json_field ''owner_role'' owner @ '','' @ [CHR 0x22] @ ''write_roles'' @ [CHR 0x22] @ '':'' @
         hall_roles_of (he_category evt) @ '','' @ [CHR 0x22] @ ''read_roles'' @ [CHR 0x22] @ '':['' @ [CHR 0x22] @ ''cognition'' @ [CHR 0x22] @
         '']},'' @ [CHR 0x22] @ ''content'' @ [CHR 0x22] @ '':'' @ str (he_content evt) @ ''}'')"

definition hall_evt_build :: "nat \<Rightarrow> hall_evt \<Rightarrow> cstr option" where
  "hall_evt_build out_sz evt =
     (if out_sz = 0 \<or> he_content evt = None then None
      else
        (case hall_evt_name HALL_EVT_ID_MAX evt of
           None \<Rightarrow> None
         | Some ident \<Rightarrow> let s = evt_text evt ident in if out_sz \<le> length s then None else Some s))"

definition evt_digits :: "cstr \<Rightarrow> u64 option" where
  "evt_digits p = (if p = [] \<or> \<not> is_digit (hd p) then None else Some (foldl digit_step 0 (takeWhile is_digit p)))"

text \<open>The text behind the first occurrence of the tag.\<close>

fun after_tag :: "cstr \<Rightarrow> cstr \<Rightarrow> cstr option" where
  "after_tag t s =
     (if take (length t) s = t then Some (drop (length t) s) else (case s of [] \<Rightarrow> None | _ # cs \<Rightarrow> after_tag t cs))"

declare after_tag.simps [simp del]

definition EVT_GSEQ_TAG :: cstr where "EVT_GSEQ_TAG = [CHR 0x22] @ ''gseq'' @ [CHR 0x22] @ '':''"

definition hall_evt_gseq_of :: "cstr option \<Rightarrow> u64" where
  "hall_evt_gseq_of json =
     (case json of
        None \<Rightarrow> 0
      | Some s \<Rightarrow>
          (case after_tag EVT_GSEQ_TAG s of
             None \<Rightarrow> 0
           | Some p \<Rightarrow>
               (case evt_digits (dropWhile (\<lambda>c. c = CHR '' '' \<or> c = CHR 0x09) p) of Some v \<Rightarrow> v | None \<Rightarrow> 0)))"

subsection \<open>Sequence numbers\<close>

text \<open>
  A directory below \<open><root>/default\<close> is the list of its path components; the component \<open>.\<close>, which
  \<open>hall_comp_valid\<close> lets through, names the directory it stands in.
\<close>

record hall_file =
  hf_dir :: "cstr list"
  hf_name :: cstr
  hf_text :: cstr

record hall_proc =
  g_evt_gseq :: u64
  g_evt_limit :: u64
  hp_pending :: "hall_file option"

record hall_world =
  hw_dirs :: "cstr list list"
  hw_files :: "hall_file list"
  hw_wm :: "cstr option"
  hw_procs :: "hall_proc list"
  hw_given :: "u64 list"

text \<open>
  The outcomes of the calls of one \<open>hall_evt_write\<close>: the time, whether the lock file opens and locks, whether the
  watermark is read and written, how many of the directories on the path exist after \<open>airy_io_mkdir_p\<close>, the order in
  which \<open>readdir\<close> delivers the entries of a directory, and whether the memory is there.
\<close>

record evt_io =
  io_ts :: cstr
  io_open :: bool
  io_lock :: bool
  io_read :: bool
  io_store :: bool
  io_dirs :: nat
  io_ls :: "cstr list \<Rightarrow> cstr list"
  io_mem :: bool

definition dir_key :: "cstr \<Rightarrow> cstr \<Rightarrow> cstr list" where
  "dir_key task category = filter (\<lambda>c. c \<noteq> ''.'') [task, category]"

text \<open>The entries of a directory: its subdirectories and its files.\<close>

definition dir_entries :: "hall_world \<Rightarrow> cstr list \<Rightarrow> cstr list" where
  "dir_entries w d =
     map last (filter (\<lambda>e. e \<noteq> [] \<and> butlast e = d) (hw_dirs w)) @ map hf_name (filter (\<lambda>f. hf_dir f = d) (hw_files w))"

definition file_gseq :: "hall_file \<Rightarrow> u64" where
  "file_gseq f = hall_evt_gseq_of (Some (take 1023 (hf_text f)))"

definition evt_max_step :: "u64 \<Rightarrow> hall_file \<Rightarrow> u64" where
  "evt_max_step max_g f =
     (if (\<exists>c \<in> set (hf_dir f @ [hf_name f]). take 1 c = ''.'') then max_g
      else if hall_evt_parse (hf_name f) = None then max_g
      else if max_g < file_gseq f then file_gseq f else max_g)"

definition evt_max_gseq :: "hall_world \<Rightarrow> u64" where
  "evt_max_gseq w = foldl evt_max_step 0 (hw_files w)"

definition evt_wm_load :: "bool \<Rightarrow> cstr option \<Rightarrow> u64 option" where
  "evt_wm_load rd wm =
     (case wm of
        None \<Rightarrow> None
      | Some buf \<Rightarrow>
          if \<not> rd then None
          else evt_digits (dropWhile (\<lambda>c. c \<in> {CHR '' '', CHR 0x09, CHR 0x0A, CHR 0x0D}) buf))"

definition evt_wm_store :: "bool \<Rightarrow> u64 \<Rightarrow> cstr option \<Rightarrow> cstr option" where
  "evt_wm_store st v wm = (if st then Some (dec_nat (unat v) @ [CHR 0x0A]) else wm)"

definition evt_reserve :: "evt_io \<Rightarrow> u64 \<Rightarrow> hall_world \<Rightarrow> u64 \<times> hall_world" where
  "evt_reserve io floor w =
     (if \<not> io_open io then (floor, w)
      else
        let locked = io_lock io;
            base0 = (if \<not> locked then evt_max_gseq w
                     else (case evt_wm_load (io_read io) (hw_wm w) of None \<Rightarrow> evt_max_gseq w | Some v \<Rightarrow> v));
            base = (if base0 < floor then floor else base0)
        in (base,
            if locked then w\<lparr>hw_wm := evt_wm_store (io_store io) (base + EVT_WM_BLOCK) (hw_wm w)\<rparr> else w))"

text \<open>The next number of process \<open>i\<close>; the world records the numbers handed out.\<close>

definition evt_next_gseq :: "evt_io \<Rightarrow> nat \<Rightarrow> hall_world \<Rightarrow> u64 \<times> hall_world" where
  "evt_next_gseq io i w =
     (let p = hw_procs w ! i;
          (base, lim, w1) = (if g_evt_limit p \<le> g_evt_gseq p
                             then (let (b, w1) = evt_reserve io (g_evt_gseq p) w in (b, b + EVT_WM_BLOCK, w1))
                             else (g_evt_gseq p, g_evt_limit p, w));
          g = base + 1
      in (g, w1\<lparr>hw_procs := (hw_procs w)[i := p\<lparr>g_evt_gseq := g, g_evt_limit := lim\<rparr>],
                hw_given := hw_given w @ [g]\<rparr>))"

text \<open>The loop of \<open>evt_dir_scan\<close>: the largest number, an \<open>unsigned\<close>, and the entry that has it.\<close>

definition evt_dir_step :: "u32 \<times> cstr \<Rightarrow> cstr \<Rightarrow> u32 \<times> cstr" where
  "evt_dir_step x name =
     (let seq = hall_evt_seq name
      in if seq = 0 then x
         else if ucast (fst x) < seq then (ucast seq, str_fit HALL_EVT_ID_MAX name) else x)"

definition evt_dir_scan :: "evt_io \<Rightarrow> hall_world \<Rightarrow> cstr list \<Rightarrow> u32 \<times> cstr" where
  "evt_dir_scan io w d =
     (let (max_seq, prev) = foldl evt_dir_step (0, []) (io_ls io (dir_entries w d)) in (max_seq + 1, prev))"

definition evt_args_ok :: "cstr option \<Rightarrow> cstr option \<Rightarrow> cstr option \<Rightarrow> bool" where
  "evt_args_ok task_id category content_json =
     (task_id \<notin> {None, Some []} \<and> category \<notin> {None, Some []} \<and> content_json \<notin> {None, Some []} \<and>
      hall_comp_valid task_id \<and> hall_comp_valid category)"

subsection \<open>Writing an event\<close>

text \<open>\<open>root\<close> is \<open>g_evt_root\<close>, empty when it could not be created.\<close>

record evt_req =
  rq_task_id :: "cstr option"
  rq_category :: "cstr option"
  rq_node_id :: "cstr option"
  rq_content :: "cstr option"

definition evt_mkdir :: "nat \<Rightarrow> cstr list \<Rightarrow> hall_world \<Rightarrow> hall_world" where
  "evt_mkdir k d w =
     w\<lparr>hw_dirs := hw_dirs w @ filter (\<lambda>e. e \<notin> set (hw_dirs w)) (take k (map (\<lambda>n. take (Suc n) d) [0..<length d]))\<rparr>"

text \<open>The event of a request with its numbers.\<close>

definition evt_of :: "evt_req \<Rightarrow> cstr \<Rightarrow> u32 \<Rightarrow> cstr \<Rightarrow> u64 \<Rightarrow> hall_evt" where
  "evt_of rq ts seq prev g =
     \<lparr>he_tenant = Some ''default'', he_task = rq_task_id rq, he_category = rq_category rq, he_node = rq_node_id rq,
      he_owner = Some ''cognition'', he_ts_utc = Some ts, he_content = rq_content rq, he_prev = Some prev,
      he_seq = seq, he_gseq = g\<rparr>"

text \<open>\<open>hall_evt_write\<close> up to the path of the file: the file to write, if all goes well.\<close>

definition evt_prepare :: "cstr \<Rightarrow> evt_io \<Rightarrow> nat \<Rightarrow> evt_req \<Rightarrow> hall_world \<Rightarrow> hall_file option \<times> hall_world" where
  "evt_prepare root io i rq w =
     (if \<not> evt_args_ok (rq_task_id rq) (rq_category rq) (rq_content rq) then (None, w)
      else if root = [] then (None, w)
      else
        let (g, w1) = evt_next_gseq io i w;
            dir = root @ ''/default/'' @ the (rq_task_id rq) @ ''/'' @ the (rq_category rq);
            key = dir_key (the (rq_task_id rq)) (the (rq_category rq))
        in if HALL_EVT_PATH_MAX \<le> length dir then (None, w1)
           else
             let w2 = evt_mkdir (io_dirs io) key w1
             in if io_dirs io < 2 then (None, w2)
                else
                  let (seq, prev) = evt_dir_scan io w2 key;
                      evt = evt_of rq (io_ts io) seq prev g
                  in (case hall_evt_name HALL_EVT_ID_MAX evt of
                        None \<Rightarrow> (None, w2)
                      | Some ident \<Rightarrow>
                          if \<not> io_mem io then (None, w2)
                          else
                            (case hall_evt_build (length (the (rq_content rq)) + HALL_EVT_HDR_MAX) evt of
                               None \<Rightarrow> (None, w2)
                             | Some json \<Rightarrow>
                                 if HALL_EVT_PATH_MAX \<le> length dir + 1 + length ident then (None, w2)
                                 else (Some \<lparr>hf_dir = key, hf_name = ident, hf_text = json\<rparr>, w2))))"

text \<open>\<open>airy_io_write_file\<close> replaces a file of the same path; \<open>wr\<close> is its outcome.\<close>

definition put_file :: "hall_file \<Rightarrow> hall_file list \<Rightarrow> hall_file list" where
  "put_file f fs = filter (\<lambda>g. \<not> (hf_dir g = hf_dir f \<and> hf_name g = hf_name f)) fs @ [f]"

definition evt_commit :: "bool \<Rightarrow> hall_file option \<Rightarrow> hall_world \<Rightarrow> int \<times> hall_world" where
  "evt_commit wr fo w =
     (case fo of
        None \<Rightarrow> (- 1, w)
      | Some f \<Rightarrow> if \<not> wr then (- 1, w) else (0, w\<lparr>hw_files := put_file f (hw_files w)\<rparr>))"

definition hall_evt_write :: "cstr \<Rightarrow> evt_io \<Rightarrow> bool \<Rightarrow> nat \<Rightarrow> evt_req \<Rightarrow> hall_world \<Rightarrow> int \<times> hall_world" where
  "hall_evt_write root io wr i rq w = (let (fo, w1) = evt_prepare root io i rq w in evt_commit wr fo w1)"

subsection \<open>Processes\<close>

text \<open>
  The mutex of a process keeps its calls apart. Nothing keeps two processes apart but the lock of the watermark, which
  is held within \<open>evt_reserve\<close>: between the numbers of one process and its file another may come.
\<close>

datatype hall_act =
  Prepare nat evt_io evt_req
| Commit nat bool

definition set_pending :: "nat \<Rightarrow> hall_file option \<Rightarrow> hall_world \<Rightarrow> hall_world" where
  "set_pending i fo w = w\<lparr>hw_procs := (hw_procs w)[i := (hw_procs w ! i)\<lparr>hp_pending := fo\<rparr>]\<rparr>"

fun hall_step :: "cstr \<Rightarrow> hall_world \<Rightarrow> hall_act \<Rightarrow> hall_world" where
  "hall_step root w (Prepare i io rq) =
     (if i < length (hw_procs w) \<and> hp_pending (hw_procs w ! i) = None
      then (let (fo, w1) = evt_prepare root io i rq w in set_pending i fo w1) else w)"
| "hall_step root w (Commit i wr) =
     (if i < length (hw_procs w) then set_pending i None (snd (evt_commit wr (hp_pending (hw_procs w ! i)) w)) else w)"

text \<open>A fresh store and \<open>n\<close> processes, each as \<open>evt_ensure\<close> leaves it.\<close>

definition hall_start :: "nat \<Rightarrow> hall_world" where
  "hall_start n =
     \<lparr>hw_dirs = [], hw_files = [], hw_wm = None,
      hw_procs = replicate n \<lparr>g_evt_gseq = 0, g_evt_limit = 0, hp_pending = None\<rparr>, hw_given = []\<rparr>"

end
