(* ===== verification/Hall_Format.thy ===== *)
theory Hall_Format
  imports Hall_Event
begin

section \<open>Names and headers of hall events\<close>

text \<open>
  What the readers of the event store get back from the names and files of \<open>Hall_Event\<close>: the parts and the sequence
  number of a name, the global number of a file.
\<close>

subsection \<open>Decimal numbers\<close>

lemma of_char_digit:
  assumes "d < 10"
  shows "(of_char (char_of (48 + d :: nat) :: char) :: int) = 48 + int d"
proof -
  have "(of_char (char_of (48 + d :: nat) :: char) :: int) = int (of_char (char_of (48 + d) :: char))"
    by (simp only: of_nat_of_char)
  also have "(of_char (char_of (48 + d) :: char) :: nat) = 48 + d" using assms by simp
  finally show ?thesis by simp
qed

lemma is_digit_char: "d < 10 \<Longrightarrow> is_digit (char_of (48 + d :: nat))"
  by (simp add: is_digit_def of_char_digit)

lemma digit_step_char: "d < 10 \<Longrightarrow> digit_step v (char_of (48 + d :: nat)) = v * 10 + of_nat d"
  by (simp add: digit_step_def of_char_digit)

lemma dec_nat_digits: "list_all is_digit (dec_nat n) \<and> dec_nat n \<noteq> []"
proof (induction n rule: dec_nat.induct)
  case (1 n)
  show ?case
    using 1 is_digit_char [of n] is_digit_char [of "n mod 10"] by (subst (1 2) dec_nat.simps) simp
qed

lemma foldl_dec_nat: "foldl digit_step 0 (dec_nat n) = of_nat n"
proof (induction n rule: dec_nat.induct)
  case (1 n)
  show ?case
  proof (cases "n < 10")
    case True
    then show ?thesis by (subst dec_nat.simps) (simp add: digit_step_char)
  next
    case False
    have "(of_nat n :: u64) = of_nat (n div 10 * 10 + n mod 10)" by simp
    also have "\<dots> = of_nat (n div 10) * 10 + of_nat (n mod 10)" by (simp only: of_nat_add of_nat_mult of_nat_numeral)
    finally show ?thesis using False 1 by (subst dec_nat.simps) (simp add: digit_step_char)
  qed
qed

lemma foldl_zeros: "foldl digit_step 0 (replicate k (CHR ''0'')) = 0"
  by (induction k) (simp_all add: digit_step_def)

lemma pad4_digits: "list_all is_digit (pad4 (dec_nat n))" "pad4 (dec_nat n) \<noteq> []"
  using dec_nat_digits [of n] by (auto simp: pad4_def list_all_iff is_digit_def)

lemma foldl_pad4: "foldl digit_step 0 (pad4 (dec_nat n)) = of_nat n"
  by (simp add: pad4_def foldl_zeros foldl_dec_nat)

lemma evt_digits_dec:
  assumes "c = [] \<or> \<not> is_digit (hd c)"
  shows "evt_digits (dec_nat n @ c) = Some (of_nat n)"
proof -
  have d: "list_all is_digit (dec_nat n)" "dec_nat n \<noteq> []" using dec_nat_digits by blast+
  then have "is_digit (hd (dec_nat n))" by (cases "dec_nat n") auto
  moreover have "takeWhile is_digit (dec_nat n @ c) = dec_nat n"
    using d(1) assms by (cases c) (auto simp: takeWhile_append2 list_all_iff)
  ultimately show ?thesis using d(2) by (simp add: evt_digits_def foldl_dec_nat)
qed

subsection \<open>Names\<close>

lemma dot_cut_append: "CHR ''.'' \<notin> set a \<Longrightarrow> dot_cut (a @ CHR ''.'' # r) = Some (a, r)"
  by (induction a) (auto simp: dot_cut_def split: list.splits)

lemma dot_cut_SomeD: "dot_cut s = Some (a, r) \<Longrightarrow> s = a @ CHR ''.'' # r \<and> CHR ''.'' \<notin> set a"
proof -
  assume a: "dot_cut s = Some (a, r)"
  then obtain c where d: "dropWhile (\<lambda>c. c \<noteq> CHR ''.'') s = c # r" "a = takeWhile (\<lambda>c. c \<noteq> CHR ''.'') s"
    by (auto simp: dot_cut_def split: list.splits)
  then have "c = CHR ''.''" using hd_dropWhile [of "\<lambda>c. c \<noteq> CHR ''.''" s] by auto
  with d show ?thesis using takeWhile_dropWhile_id [of "\<lambda>c. c \<noteq> CHR ''.''" s] by (auto dest: set_takeWhileD)
qed

lemma digits_no_dot: "list_all is_digit s \<Longrightarrow> CHR ''.'' \<notin> set s"
  by (auto simp: list_all_iff is_digit_def)

lemma parse_evt_id:
  assumes "CHR ''.'' \<notin> set tenant" "CHR ''.'' \<notin> set task" "CHR ''.'' \<notin> set category" "CHR ''.'' \<notin> set ts"
    and "tenant \<noteq> []" "task \<noteq> []" "category \<noteq> []" "ts \<noteq> []"
  shows "hall_evt_parse (evt_id tenant task category ts seq) =
    Some \<lparr>hp_tenant = tenant, hp_task = task, hp_category = category, hp_ts_utc = ts,
          hp_seq = pad4 (dec_nat (unat seq))\<rparr>"
  using assms pad4_digits [of "unat seq"] digits_no_dot [of "pad4 (dec_nat (unat seq))"]
  by (simp add: hall_evt_parse_def evt_id_def dot_cut_append)

lemma seq_evt_id:
  assumes "CHR ''.'' \<notin> set tenant" "CHR ''.'' \<notin> set task" "CHR ''.'' \<notin> set category" "CHR ''.'' \<notin> set ts"
    and "tenant \<noteq> []" "task \<noteq> []" "category \<noteq> []" "ts \<noteq> []"
  shows "hall_evt_seq (evt_id tenant task category ts seq) = ucast seq"
  using parse_evt_id [OF assms, of seq] pad4_digits(1) [of "unat seq"]
  by (simp add: hall_evt_seq_def foldl_pad4)

text \<open>A name with another number of dots is no event name.\<close>

lemma dot_cut_count:
  "dot_cut s = Some (a, r) \<Longrightarrow> count_list s (CHR ''.'') = Suc (count_list r (CHR ''.''))"
  by (auto dest!: dot_cut_SomeD simp: count_list_append)

lemma parse_dots: "hall_evt_parse s \<noteq> None \<Longrightarrow> count_list s (CHR ''.'') = 5"
  by (auto simp: hall_evt_parse_def dot_cut_count split: option.splits if_splits)

lemma count_list_pos: "x \<in> set xs \<Longrightarrow> 0 < count_list xs x"
  by (metis count_list_0_iff gr0I)

lemma parse_dotted:
  assumes "CHR ''.'' \<in> set task \<or> CHR ''.'' \<in> set category"
  shows "hall_evt_parse (evt_id tenant task category ts seq) = None"
proof (rule ccontr)
  assume "hall_evt_parse (evt_id tenant task category ts seq) \<noteq> None"
  then have "count_list (evt_id tenant task category ts seq) (CHR ''.'') = 5" by (rule parse_dots)
  moreover have "0 < count_list task (CHR ''.'') + count_list category (CHR ''.'')"
    using assms count_list_pos by fastforce
  ultimately show False by (simp add: evt_id_def count_list_append)
qed

lemma seq_dotted:
  "CHR ''.'' \<in> set task \<or> CHR ''.'' \<in> set category \<Longrightarrow> hall_evt_seq (evt_id tenant task category ts seq) = 0"
  by (simp add: hall_evt_seq_def parse_dotted)

subsection \<open>Headers\<close>

lemma length_tag: "length EVT_GSEQ_TAG = 7"
  by (simp add: EVT_GSEQ_TAG_def)

lemma tag_step: "take 7 (c # s) \<noteq> EVT_GSEQ_TAG \<Longrightarrow> after_tag EVT_GSEQ_TAG (c # s) = after_tag EVT_GSEQ_TAG s"
  by (subst after_tag.simps) (simp add: length_tag)

lemma tag_skip: "c \<noteq> CHR 0x22 \<Longrightarrow> after_tag EVT_GSEQ_TAG (c # s) = after_tag EVT_GSEQ_TAG s"
  by (subst after_tag.simps) (simp add: EVT_GSEQ_TAG_def)

lemma tag_skip_list: "CHR 0x22 \<notin> set v \<Longrightarrow> after_tag EVT_GSEQ_TAG (v @ s) = after_tag EVT_GSEQ_TAG s"
  by (induction v) (auto simp: tag_skip)

text \<open>A quoted text without quotes inside is skipped unless it is the tag.\<close>

lemma tag_quoted:
  assumes v: "CHR 0x22 \<notin> set v" and ne: "v \<noteq> ''gseq'' \<or> c \<noteq> CHR '':''" and c: "c \<noteq> CHR ''g''"
  shows "after_tag EVT_GSEQ_TAG (CHR 0x22 # v @ CHR 0x22 # c # s) = after_tag EVT_GSEQ_TAG (c # s)"
proof -
  have "take 7 (CHR 0x22 # v @ CHR 0x22 # c # s) \<noteq> EVT_GSEQ_TAG"
  proof
    assume "take 7 (CHR 0x22 # v @ CHR 0x22 # c # s) = EVT_GSEQ_TAG"
    then have t: "take 6 (v @ CHR 0x22 # c # s) = ''gseq'' @ [CHR 0x22, CHR '':'']" by (simp add: EVT_GSEQ_TAG_def)
    have "takeWhile (\<lambda>x. x \<noteq> CHR 0x22) (v @ CHR 0x22 # c # s) = v" using v by (induction v) auto
    moreover have "takeWhile (\<lambda>x. x \<noteq> CHR 0x22) (v @ CHR 0x22 # c # s) = ''gseq''"
      using t by (subst append_take_drop_id [symmetric, of _ 6]) simp
    ultimately have "v = ''gseq''" by simp
    with t ne show False by simp
  qed
  then have "after_tag EVT_GSEQ_TAG (CHR 0x22 # v @ CHR 0x22 # c # s) = after_tag EVT_GSEQ_TAG (v @ CHR 0x22 # c # s)"
    by (rule tag_step)
  also have "\<dots> = after_tag EVT_GSEQ_TAG (CHR 0x22 # c # s)" by (rule tag_skip_list [OF v])
  also have "\<dots> = after_tag EVT_GSEQ_TAG (c # s)"
    using c by (subst after_tag.simps) (simp add: EVT_GSEQ_TAG_def)
  finally show ?thesis .
qed

lemma tag_field:
  assumes "CHR 0x22 \<notin> set k" "CHR 0x22 \<notin> set v" "k \<noteq> ''gseq''"
  shows "after_tag EVT_GSEQ_TAG (json_field k v @ CHR '','' # s) = after_tag EVT_GSEQ_TAG s"
  using assms by (simp add: json_field_def tag_quoted tag_skip)

lemma tag_found: "after_tag EVT_GSEQ_TAG (EVT_GSEQ_TAG @ s) = Some s"
  by (subst after_tag.simps) simp

definition quote_free :: "cstr option \<Rightarrow> bool" where
  "quote_free x = (case x of None \<Rightarrow> True | Some s \<Rightarrow> CHR 0x22 \<notin> set s)"

lemma quote_free_text: "quote_free x \<Longrightarrow> CHR 0x22 \<notin> set (case x of None \<Rightarrow> [] | Some s \<Rightarrow> s)"
  by (auto simp: quote_free_def split: option.splits)

lemma dec_quote_free: "CHR 0x22 \<notin> set (dec_nat n)"
  using dec_nat_digits [of n] by (auto simp: list_all_iff is_digit_def)

lemma gseq_evt_text:
  assumes "CHR 0x22 \<notin> set ident" "quote_free (he_category evt)" "quote_free (he_tenant evt)" "quote_free (he_task evt)"
    "quote_free (he_node evt)" "quote_free (he_ts_utc evt)"
  shows "hall_evt_gseq_of (Some (evt_text evt ident)) = he_gseq evt"
proof -
  let ?g = "dec_nat (unat (he_gseq evt))"
  note q = assms(1) assms(2-6) [THEN quote_free_text]
  obtain r where r: "after_tag EVT_GSEQ_TAG (evt_text evt ident) = Some (?g @ CHR '','' # r)"
  proof -
    have e: "\<exists>r. evt_text evt ident =
      CHR ''{'' # CHR 0x22 # ''file'' @ CHR 0x22 # CHR '':'' # CHR ''{'' # json_field ''id'' ident @ CHR '','' #
      json_field ''category'' (case he_category evt of None \<Rightarrow> [] | Some s \<Rightarrow> s) @ CHR '','' #
      json_field ''schema'' ''task-file-v1'' @ CHR '','' #
      json_field ''tenant_id'' (case he_tenant evt of None \<Rightarrow> [] | Some s \<Rightarrow> s) @ CHR '','' #
      json_field ''task_id'' (case he_task evt of None \<Rightarrow> [] | Some s \<Rightarrow> s) @ CHR '','' #
      json_field ''node_id'' (case he_node evt of None \<Rightarrow> [] | Some s \<Rightarrow> s) @ CHR '','' #
      json_field ''ts_utc'' (case he_ts_utc evt of None \<Rightarrow> [] | Some s \<Rightarrow> s) @ CHR '','' #
      CHR 0x22 # ''seq'' @ CHR 0x22 # CHR '':'' # dec_nat (unat (he_seq evt)) @ CHR '','' #
      EVT_GSEQ_TAG @ ?g @ CHR '','' # r"
      by (auto simp: evt_text_def Let_def EVT_GSEQ_TAG_def)
    show thesis
      using e q dec_quote_free [of "unat (he_seq evt)"]
      by (elim exE) (rule that, simp del: append_Cons add: tag_skip tag_quoted tag_field tag_skip_list tag_found)
  qed
  have "hd (?g @ CHR '','' # r) \<noteq> CHR '' ''" "hd (?g @ CHR '','' # r) \<noteq> CHR 0x09"
    using dec_nat_digits [of "unat (he_gseq evt)"] by (cases ?g; auto simp: is_digit_def)+
  then have "dropWhile (\<lambda>c. c = CHR '' '' \<or> c = CHR 0x09) (?g @ CHR '','' # r) = ?g @ CHR '','' # r"
    by (cases "?g @ CHR '','' # r") auto
  with r show ?thesis
    using evt_digits_dec [of "CHR '','' # r" "unat (he_gseq evt)"] by (simp add: hall_evt_gseq_of_def is_digit_def)
qed

text \<open>
  C38: What is written can be read back: for an event whose tenant, task, category and time are not empty and have no dot and no
  quote, and whose node has no quote, the readers get the four parts and the sequence number from its
  name, and its global number from its text, although no field of the text is escaped.
\<close>

theorem hall_evt_roundtrip:
  assumes name: "hall_evt_name HALL_EVT_ID_MAX evt = Some name" and json: "hall_evt_build out_sz evt = Some json"
    and fields: "he_tenant evt = Some tenant" "he_task evt = Some task" "he_category evt = Some category"
      "he_ts_utc evt = Some ts"
    and ok: "\<forall>s \<in> {tenant, task, category, ts}. s \<noteq> [] \<and> CHR ''.'' \<notin> set s \<and> CHR 0x22 \<notin> set s"
    and node: "quote_free (he_node evt)"
  shows "hall_evt_parse name =
      Some \<lparr>hp_tenant = tenant, hp_task = task, hp_category = category, hp_ts_utc = ts,
            hp_seq = pad4 (dec_nat (unat (he_seq evt)))\<rparr> \<and>
    hall_evt_seq name = ucast (he_seq evt) \<and> hall_evt_gseq_of (Some json) = he_gseq evt"
proof -
  have n: "name = evt_id tenant task category ts (he_seq evt)"
    using name fields by (auto simp: hall_evt_name_def Let_def split: if_splits)
  have j: "json = evt_text evt name"
    using json name by (auto simp: hall_evt_build_def Let_def split: if_splits)
  have "CHR 0x22 \<notin> set name"
    using ok dec_quote_free [of "unat (he_seq evt)"] by (auto simp: n evt_id_def pad4_def)
  then have "hall_evt_gseq_of (Some json) = he_gseq evt"
    unfolding j using ok fields node by (intro gseq_evt_text) (auto simp: quote_free_def)
  moreover have "hall_evt_parse name =
      Some \<lparr>hp_tenant = tenant, hp_task = task, hp_category = category, hp_ts_utc = ts,
            hp_seq = pad4 (dec_nat (unat (he_seq evt)))\<rparr>"
    unfolding n using ok by (intro parse_evt_id) auto
  moreover have "hall_evt_seq name = ucast (he_seq evt)" unfolding n using ok by (intro seq_evt_id) auto
  ultimately show ?thesis by blast
qed

text \<open>Used by the witnesses.\<close>

definition sample_evt :: hall_evt where
  "sample_evt =
     \<lparr>he_tenant = Some ''default'', he_task = Some ''t1'', he_category = Some ''chain'', he_node = Some ''gseq'', he_owner = None,
      he_ts_utc = Some ''20260101T000000000'', he_content = Some ''{}'', he_prev = None, he_seq = 7, he_gseq = 2048\<rparr>"

theorem hall_evt_roundtrip_witness:
  "\<exists>name json. hall_evt_name HALL_EVT_ID_MAX sample_evt = Some name \<and> hall_evt_build 1026 sample_evt = Some json \<and>
     hall_evt_seq name = 7 \<and> hall_evt_gseq_of (Some json) = 2048"
proof -
  obtain name where n: "hall_evt_name HALL_EVT_ID_MAX sample_evt = Some name"
    by (simp add: sample_evt_def hall_evt_name_def Let_def evt_id_def HALL_EVT_ID_MAX_def pad4_def dec_nat.simps)
  have "hall_evt_build 1026 sample_evt \<noteq> None" by code_simp
  then obtain json where j: "hall_evt_build 1026 sample_evt = Some json" by blast
  show ?thesis
    using n j hall_evt_roundtrip [OF n j, of "''default''" "''t1''" "''chain''" "''20260101T000000000''"]
    by (simp add: sample_evt_def quote_free_def)
qed

end
