(* ===== verification/Hall_Runs.thy ===== *)
theory Hall_Runs
  imports Hall_Format Bags
begin

section \<open>Runs of the event store\<close>

text \<open>
  What processes that write to one store at the same time can rely on: the chain of the events of a directory, the
  global numbers, and where the sequence numbers of a directory give less than the header of the code promises.
\<close>

text \<open>How the steps change the store.\<close>

declare dir_entries_def [model_simps] put_file_def [model_simps] evt_commit_def [model_simps] set_pending_def [model_simps]

subsection \<open>Scanning a directory\<close>

lemma dir_scan_fold:
  assumes "\<forall>x \<in> set xs. hall_evt_seq x < 2 ^ 32"
  shows "(\<forall>x \<in> set xs. hall_evt_seq x \<le> ucast (fst (foldl evt_dir_step (0, []) xs))) \<and>
    (foldl evt_dir_step (0, []) xs = (0, []) \<or>
     (\<exists>x \<in> set xs. hall_evt_seq x = ucast (fst (foldl evt_dir_step (0, []) xs)) \<and>
        snd (foldl evt_dir_step (0, []) xs) = str_fit HALL_EVT_ID_MAX x))"
  using assms
proof (induction xs rule: rev_induct)
  case (snoc x xs)
  let ?r = "foldl evt_dir_step (0, []) xs"
  have x: "(ucast (ucast (hall_evt_seq x) :: u32) :: u64) = hall_evt_seq x"
  proof -
    have "unat (hall_evt_seq x) < 2 ^ 32" using snoc.prems by (simp add: word_less_nat_alt)
    then show ?thesis by (intro word_unat_eq_iff [THEN iffD2]) (simp add: unat_ucast_up unat_ucast_small)
  qed
  show ?case
  proof (cases "hall_evt_seq x = 0 \<or> \<not> ucast (fst ?r) < hall_evt_seq x")
    case True
    then have "evt_dir_step ?r x = ?r" by (auto simp: evt_dir_step_def Let_def)
    moreover have "hall_evt_seq x \<le> ucast (fst ?r)" using True by (auto simp: not_less)
    ultimately show ?thesis using snoc by auto
  next
    case False
    then have "evt_dir_step ?r x = (ucast (hall_evt_seq x), str_fit HALL_EVT_ID_MAX x)"
      by (simp add: evt_dir_step_def Let_def)
    moreover have "\<forall>y \<in> set xs. hall_evt_seq y \<le> hall_evt_seq x" using False snoc by force
    ultimately show ?thesis using x by simp
  qed
qed simp

subsection \<open>What a call prepares\<close>

definition prepared :: "evt_io \<Rightarrow> evt_req \<Rightarrow> hall_world \<Rightarrow> u64 \<Rightarrow> hall_file \<Rightarrow> bool" where
  "prepared io rq w g f =
     (let task = the (rq_task_id rq); category = the (rq_category rq); (seq, prev) = evt_dir_scan io w (dir_key task category)
      in hf_dir f = dir_key task category \<and> hf_name f = evt_id ''default'' task category (io_ts io) seq \<and>
         length (hf_name f) < HALL_EVT_ID_MAX \<and> hf_text f = evt_text (evt_of rq (io_ts io) seq prev g) (hf_name f))"

lemma evt_name_of:
  "rq_task_id rq = Some task \<Longrightarrow> rq_category rq = Some category \<Longrightarrow>
   hall_evt_name sz (evt_of rq ts seq prev g) =
     (if sz \<le> length (evt_id ''default'' task category ts seq) then None else Some (evt_id ''default'' task category ts seq))"
  by (simp add: hall_evt_name_def evt_of_def Let_def)

lemma args_ok_Some:
  assumes "evt_args_ok t c x"
  obtains t' c' x' where "t = Some t'" "c = Some c'" "x = Some x'"
  using assms by (auto simp: evt_args_ok_def)

lemma prepare_shape:
  assumes "evt_prepare root io i rq w = (fo, w')"
  shows "fo = None \<and> w' = w \<or>
    (\<exists>g w1. evt_next_gseq io i w = (g, w1) \<and> evt_args_ok (rq_task_id rq) (rq_category rq) (rq_content rq) \<and>
       w' \<in> {w1, evt_mkdir (io_dirs io) (dir_key (the (rq_task_id rq)) (the (rq_category rq))) w1} \<and>
       (\<forall>f. fo = Some f \<longrightarrow> prepared io rq w' g f))"
proof (cases "evt_args_ok (rq_task_id rq) (rq_category rq) (rq_content rq) \<and> root \<noteq> []")
  case True
  then obtain task category content where
    rq: "rq_task_id rq = Some task" "rq_category rq = Some category" "rq_content rq = Some content"
    by (auto elim: args_ok_Some)
  obtain g w1 where n: "evt_next_gseq io i w = (g, w1)" by fastforce
  let ?w2 = "evt_mkdir (io_dirs io) (dir_key task category) w1"
  obtain seq prev where sc: "evt_dir_scan io ?w2 (dir_key task category) = (seq, prev)" by fastforce
  have b: "hall_evt_build sz (evt_of rq ts seq prev g) = Some js \<Longrightarrow>
      js = evt_text (evt_of rq ts seq prev g) (evt_id ''default'' task category ts seq)" for sz ts js
    using rq by (auto simp: hall_evt_build_def evt_name_of Let_def split: option.splits if_splits)
  show ?thesis
    using True assms rq n sc b
    by (auto simp: evt_prepare_def prepared_def evt_name_of Let_def split: if_splits option.splits)
next
  case False
  then have "evt_prepare root io i rq w = (None, w)" by (auto simp: evt_prepare_def simp del: Let_def)
  with assms show ?thesis by simp
qed

lemma next_gseq_keeps:
  assumes "evt_next_gseq io i w = (g, w1)"
  shows "hw_files w1 = hw_files w" "hw_dirs w1 = hw_dirs w" "hw_given w1 = hw_given w @ [g]"
  using assms by (auto simp: evt_next_gseq_def evt_reserve_def Let_def split: prod.splits if_splits)

lemma next_gseq_procs:
  assumes "evt_next_gseq io i w = (g, w1)"
  obtains p where "hw_procs w1 = (hw_procs w)[i := p]" "hp_pending p = hp_pending (hw_procs w ! i)"
  using assms by (auto simp: evt_next_gseq_def Let_def split: prod.splits if_splits)

lemma mkdir_keeps [simp]:
  "hw_files (evt_mkdir k d w) = hw_files w" "hw_given (evt_mkdir k d w) = hw_given w"
  "hw_procs (evt_mkdir k d w) = hw_procs w" "hw_wm (evt_mkdir k d w) = hw_wm w"
  by (simp_all add: evt_mkdir_def)

lemma mkdir_dirs: "e \<in> set (hw_dirs (evt_mkdir k d w)) \<Longrightarrow> e \<in> set (hw_dirs w) \<or> (\<exists>n. e = take n d)"
  using in_set_takeD [of e k "map (\<lambda>n. take (Suc n) d) [0..<length d]"] by (auto simp: evt_mkdir_def)

lemma set_pending_simps [simp]:
  "hw_files (set_pending i fo w) = hw_files w" "hw_given (set_pending i fo w) = hw_given w"
  "hw_dirs (set_pending i fo w) = hw_dirs w" "hw_wm (set_pending i fo w) = hw_wm w"
  "length (hw_procs (set_pending i fo w)) = length (hw_procs w)"
  by (simp_all add: model_simps)

subsection \<open>Where files come from\<close>

definition event_file :: "hall_file \<Rightarrow> bool" where
  "event_file f = (\<exists>task category ts seq. hf_dir f = dir_key task category \<and> hf_name f = evt_id ''default'' task category ts seq)"

text \<open>All files are events, under a directory of two levels at most.\<close>

definition store_inv :: "hall_world \<Rightarrow> bool" where
  "store_inv w =
     ((\<forall>d \<in> set (hw_dirs w). length d \<le> 2) \<and> (\<forall>f \<in> set (hw_files w). event_file f) \<and>
      (\<forall>p \<in> set (hw_procs w). \<forall>f. hp_pending p = Some f \<longrightarrow> event_file f))"

lemma dir_key_length: "length (dir_key a b) \<le> 2"
  by (simp add: dir_key_def)

lemma prepared_event: "prepared io rq w g f \<Longrightarrow> event_file f"
  by (auto simp: prepared_def event_file_def Let_def split: prod.splits)

lemma put_file_subset: "set (put_file f fs) \<subseteq> insert f (set fs)"
  by (auto simp: put_file_def)

lemma store_prepare:
  assumes inv: "store_inv w" and e: "evt_prepare root io i rq w = (fo, w')" and i: "i < length (hw_procs w)"
  shows "store_inv (set_pending i fo w')"
proof -
  have old: "\<forall>p \<in> set (hw_procs w). \<forall>f. hp_pending p = Some f \<longrightarrow> event_file f" using inv by (simp add: store_inv_def)
  from prepare_shape [OF e] consider "fo = None" "w' = w"
    | g w1 where "evt_next_gseq io i w = (g, w1)"
      "w' \<in> {w1, evt_mkdir (io_dirs io) (dir_key (the (rq_task_id rq)) (the (rq_category rq))) w1}"
      "\<forall>f. fo = Some f \<longrightarrow> prepared io rq w' g f"
    by blast
  then show ?thesis
  proof cases
    case 1
    with inv old i show ?thesis by (auto simp: store_inv_def set_pending_def dest: set_update_subset_insert [THEN subsetD])
  next
    case 2
    from 2(1) obtain p where p: "hw_procs w1 = (hw_procs w)[i := p]" by (rule next_gseq_procs)
    have "hw_procs w' = hw_procs w1" "hw_files w' = hw_files w" using 2(2) next_gseq_keeps [OF 2(1)] by auto
    moreover have "\<forall>d \<in> set (hw_dirs w'). length d \<le> 2"
    proof
      fix d
      assume "d \<in> set (hw_dirs w')"
      then have "d \<in> set (hw_dirs w) \<or> (\<exists>n. d = take n (dir_key (the (rq_task_id rq)) (the (rq_category rq))))"
        using 2(2) next_gseq_keeps(2) [OF 2(1)] mkdir_dirs by fastforce
      then show "length d \<le> 2"
        using inv dir_key_length [of "the (rq_task_id rq)" "the (rq_category rq)"] by (auto simp: store_inv_def)
    qed
    moreover have "\<forall>f. fo = Some f \<longrightarrow> event_file f" using 2(3) prepared_event by blast
    ultimately show ?thesis
      using inv old p by (auto simp: store_inv_def set_pending_def dest!: set_update_subset_insert [THEN subsetD])
  qed
qed

lemma store_step:
  assumes "store_inv w"
  shows "store_inv (hall_step root w a)"
proof (cases a)
  case (Prepare i io rq)
  then show ?thesis using assms store_prepare [OF assms] by (auto split: prod.splits)
next
  case (Commit i wr)
  show ?thesis
  proof (cases "i < length (hw_procs w)")
    case True
    then have "hw_procs w ! i \<in> set (hw_procs w)" by simp
    with assms True Commit show ?thesis
      by (auto simp: store_inv_def set_pending_def evt_commit_def
          dest!: set_update_subset_insert [THEN subsetD] put_file_subset [THEN subsetD] split: option.splits)
  qed (use Commit assms in simp)
qed

lemma store_start: "store_inv (hall_start n)"
  by (simp add: store_inv_def hall_start_def)

lemma store_run: "store_inv w \<Longrightarrow> store_inv (foldl (hall_step root) w acts)"
  by (induction acts arbitrary: w) (simp_all add: store_step)

text \<open>The entries of a directory of two levels are its events.\<close>

lemma dir_key_two: "task \<noteq> ''.'' \<Longrightarrow> category \<noteq> ''.'' \<Longrightarrow> dir_key task category = [task, category]"
  by (simp add: dir_key_def)

lemma dir_key_eq_two: "dir_key a b = [x, y] \<Longrightarrow> a = x \<and> b = y"
  by (auto simp: dir_key_def split: if_splits)

lemma entries_are_events:
  assumes "store_inv w" "x \<in> set (dir_entries w [task, category])"
  shows "\<exists>ts seq. x = evt_id ''default'' task category ts seq"
proof -
  have "\<not> (d \<noteq> [] \<and> butlast d = [task, category])" if "d \<in> set (hw_dirs w)" for d
  proof
    assume "d \<noteq> [] \<and> butlast d = [task, category]"
    then have "length d = 3" by (metis length_butlast length_Cons list.size(3) numeral_3_eq_3 Suc_pred' length_greater_0_conv)
    with that assms(1) show False by (fastforce simp: store_inv_def)
  qed
  with assms obtain f where f: "f \<in> set (hw_files w)" "hf_dir f = [task, category]" "x = hf_name f"
    by (auto simp: dir_entries_def)
  then have "event_file f" using assms(1) by (simp add: store_inv_def)
  then obtain a b ts seq where "hf_dir f = dir_key a b" "hf_name f = evt_id ''default'' a b ts seq"
    unfolding event_file_def by blast
  with f dir_key_eq_two [of a b task category] show ?thesis by auto
qed

lemma dir_scan_no_numbers:
  "\<forall>x \<in> set xs. hall_evt_seq x = 0 \<Longrightarrow> foldl evt_dir_step r xs = r"
  by (induction xs arbitrary: r) (simp_all add: evt_dir_step_def)

subsection \<open>Global numbers\<close>

text \<open>The numbers a process may still hand out without a new reservation.\<close>

definition block :: "hall_proc \<Rightarrow> nat set" where
  "block p = {unat (g_evt_gseq p) <.. unat (g_evt_limit p)}"

text \<open>
  \<open>W\<close> is the watermark: all blocks and all numbers handed out lie below it, and no number is in two of them.
\<close>

definition gseq_inv :: "nat \<Rightarrow> hall_world \<Rightarrow> bool" where
  "gseq_inv W w =
     (W < 2 ^ 64 \<and> (hw_wm w = None \<and> hw_given w = [] \<and> W = 0 \<or> hw_wm w = Some (dec_nat W @ [CHR 0x0A])) \<and>
      (\<forall>p \<in> set (hw_procs w). unat (g_evt_gseq p) \<le> unat (g_evt_limit p) \<and> unat (g_evt_limit p) \<le> W) \<and>
      (\<forall>i < length (hw_procs w). \<forall>j < length (hw_procs w). i \<noteq> j \<longrightarrow> block (hw_procs w ! i) \<inter> block (hw_procs w ! j) = {}) \<and>
      distinct (hw_given w) \<and>
      (\<forall>g \<in> set (hw_given w). unat g \<le> W \<and> (\<forall>p \<in> set (hw_procs w). unat g \<notin> block p)))"

lemma wm_load_dec:
  assumes "W < 2 ^ 64"
  shows "evt_wm_load True (Some (dec_nat W @ [CHR 0x0A])) = Some (of_nat W)"
proof -
  obtain c s where cs: "dec_nat W = c # s" "is_digit c" using dec_nat_digits [of W] by (cases "dec_nat W") auto
  then have "dropWhile (\<lambda>c. c \<in> {CHR '' '', CHR 0x09, CHR 0x0A, CHR 0x0D}) (dec_nat W @ [CHR 0x0A]) = dec_nat W @ [CHR 0x0A]"
    by (auto simp: is_digit_def)
  then show ?thesis using evt_digits_dec [of "[CHR 0x0A]" W] by (simp add: evt_wm_load_def is_digit_def)
qed

text \<open>With the lock, a block starts at the watermark.\<close>

lemma reserve_at_watermark:
  assumes inv: "gseq_inv W w" and fl: "unat fl \<le> W" and io: "io_open io" "io_lock io" "io_read io" "io_store io"
    and W: "W + 1024 < 2 ^ 64" and fs: "hw_given w = [] \<Longrightarrow> hw_files w = []"
  shows "evt_reserve io fl w = (of_nat W, w\<lparr>hw_wm := Some (dec_nat (W + 1024) @ [CHR 0x0A])\<rparr>)"
proof -
  have u: "unat (of_nat W :: u64) = W" using W by (simp add: unat_of_nat)
  have "(case evt_wm_load True (hw_wm w) of None \<Rightarrow> evt_max_gseq w | Some v \<Rightarrow> v) = of_nat W"
    using inv wm_load_dec [of W] W fs by (auto simp: gseq_inv_def evt_wm_load_def [of True None] evt_max_gseq_def)
  moreover have "\<not> (of_nat W :: u64) < fl" using fl u by (simp add: word_less_nat_alt)
  moreover have "unat (of_nat W + EVT_WM_BLOCK :: u64) = W + 1024"
    using W u by (simp add: EVT_WM_BLOCK_def unat_plus_if')
  ultimately show ?thesis using io by (simp add: evt_reserve_def Let_def evt_wm_store_def)
qed

text \<open>Taking the next number of a block that belongs to nobody else.\<close>

lemma take_number:
  assumes inv: "gseq_inv W w" and i: "i < length (hw_procs w)" and W': "W \<le> W'" "W' < 2 ^ 64"
    and b: "unat b < unat l" "unat l \<le> W'" "{unat b <.. unat l} \<subseteq> block (hw_procs w ! i) \<or> W \<le> unat b"
    and w': "hw_wm w' = Some (dec_nat W' @ [CHR 0x0A]) \<or> hw_wm w' = hw_wm w \<and> W' = W"
      "hw_procs w' = (hw_procs w)[i := (hw_procs w ! i)\<lparr>g_evt_gseq := b + 1, g_evt_limit := l\<rparr>]"
      "hw_given w' = hw_given w @ [b + 1]"
  shows "gseq_inv W' w'"
proof -
  let ?p = "(hw_procs w ! i)\<lparr>g_evt_gseq := b + 1, g_evt_limit := l\<rparr>"
  have u: "unat (b + 1) = Suc (unat b)" using b W' by (simp add: unat_plus_if')
  have fresh: "n \<notin> block (hw_procs w ! j)" if "n \<in> {unat b <.. unat l}" "j < length (hw_procs w)" "j \<noteq> i" for n j
  proof -
    have "block (hw_procs w ! i) \<inter> block (hw_procs w ! j) = {}" using inv i that by (auto simp: gseq_inv_def)
    moreover have "unat (g_evt_limit (hw_procs w ! j)) \<le> W" using inv that(2) by (simp add: gseq_inv_def)
    ultimately show ?thesis using b(3) that(1) by (auto simp: block_def)
  qed
  have new: "n \<noteq> unat g" if "n \<in> {unat b <.. unat l}" "g \<in> set (hw_given w)" for n g
  proof -
    have "unat g \<le> W" "unat g \<notin> block (hw_procs w ! i)" using inv i that(2) by (auto simp: gseq_inv_def)
    with b(3) that(1) show ?thesis by auto
  qed
  have blk: "block ?p = {Suc (unat b) <.. unat l}" by (simp add: block_def u)
  have "\<forall>p \<in> set (hw_procs w'). unat (g_evt_gseq p) \<le> unat (g_evt_limit p) \<and> unat (g_evt_limit p) \<le> W'"
    using inv W'(1) b u by (auto simp: w'(2) gseq_inv_def dest!: set_update_subset_insert [THEN subsetD])
  moreover have "block (hw_procs w' ! j) \<inter> block (hw_procs w' ! k) = {}"
    if "j < length (hw_procs w')" "k < length (hw_procs w')" "j \<noteq> k" for j k
    using that inv i fresh blk by (auto simp: w'(2) gseq_inv_def nth_list_update)
  moreover have "distinct (hw_given w')" using inv new [of "unat (b + 1)" "b + 1"] u b(1) by (auto simp: w'(3) gseq_inv_def)
  moreover have "unat g \<le> W'" if "g \<in> set (hw_given w')" for g
    using that inv b u W'(1) by (auto simp: w'(3) gseq_inv_def)
  moreover have "unat g \<notin> block p" if g: "g \<in> set (hw_given w')" and "p \<in> set (hw_procs w')" for g p
  proof -
    from that(2) obtain k where k: "k < length (hw_procs w)" "p = hw_procs w' ! k" by (auto simp: w'(2) in_set_conv_nth)
    show ?thesis
    proof (cases "g = b + 1")
      case True
      then show ?thesis using k i b(1) u blk fresh [of "unat (b + 1)" k] by (cases "k = i") (auto simp: w'(2))
    next
      case False
      then have old: "g \<in> set (hw_given w)" using g by (simp add: w'(3))
      then have "unat g \<notin> block (hw_procs w ! k)" using inv k(1) by (simp add: gseq_inv_def)
      then show ?thesis using k i blk new [OF _ old, of "unat g"] by (cases "k = i") (auto simp: w'(2))
    qed
  qed
  ultimately show ?thesis using inv W' b w'(1) unfolding gseq_inv_def by auto
qed

fun reliable :: "hall_act \<Rightarrow> bool" where
  "reliable (Prepare i io rq) = (io_open io \<and> io_lock io \<and> io_read io \<and> io_store io)"
| "reliable (Commit i wr) = True"

text \<open>The request and the time have no quote.\<close>

fun plain :: "hall_act \<Rightarrow> bool" where
  "plain (Prepare i io rq) =
     (quote_free (rq_task_id rq) \<and> quote_free (rq_category rq) \<and> quote_free (rq_node_id rq) \<and> quote_free (Some (io_ts io)))"
| "plain (Commit i wr) = True"

lemma next_gseq_inv:
  assumes inv: "gseq_inv W w" and i: "i < length (hw_procs w)" and e: "evt_next_gseq io i w = (g, w1)"
    and r: "reliable (Prepare i io rq)" and W: "W + 1024 < 2 ^ 64" and fs: "hw_given w = [] \<Longrightarrow> hw_files w = []"
  shows "\<exists>W' \<le> W + 1024. gseq_inv W' w1"
proof -
  let ?p = "hw_procs w ! i"
  have p: "unat (g_evt_gseq ?p) \<le> unat (g_evt_limit ?p)" "unat (g_evt_limit ?p) \<le> W"
    using inv i by (auto simp: gseq_inv_def)
  show ?thesis
  proof (cases "g_evt_limit ?p \<le> g_evt_gseq ?p")
    case True
    have u: "unat (of_nat W :: u64) = W" "unat (of_nat W + EVT_WM_BLOCK :: u64) = W + 1024"
      using W by (simp_all add: EVT_WM_BLOCK_def unat_plus_if' unat_of_nat)
    have "evt_reserve io (g_evt_gseq ?p) w = (of_nat W, w\<lparr>hw_wm := Some (dec_nat (W + 1024) @ [CHR 0x0A])\<rparr>)"
      using p r W fs by (intro reserve_at_watermark [OF inv]) auto
    with True e have w1: "w1 = w\<lparr>hw_wm := Some (dec_nat (W + 1024) @ [CHR 0x0A]),
        hw_procs := (hw_procs w)[i := ?p\<lparr>g_evt_gseq := of_nat W + 1, g_evt_limit := of_nat W + EVT_WM_BLOCK\<rparr>],
        hw_given := hw_given w @ [of_nat W + 1]\<rparr>"
      by (auto simp: evt_next_gseq_def Let_def)
    have "gseq_inv (W + 1024) w1"
      by (rule take_number [OF inv i, of _ "of_nat W" "of_nat W + EVT_WM_BLOCK"]) (use W u in \<open>simp_all add: w1\<close>)
    then show ?thesis by blast
  next
    case False
    then have w1: "w1 = w\<lparr>hw_procs := (hw_procs w)[i := ?p\<lparr>g_evt_gseq := g_evt_gseq ?p + 1, g_evt_limit := g_evt_limit ?p\<rparr>],
        hw_given := hw_given w @ [g_evt_gseq ?p + 1]\<rparr>"
      using e by (auto simp: evt_next_gseq_def Let_def)
    have "gseq_inv W w1"
      by (rule take_number [OF inv i, of _ "g_evt_gseq ?p" "g_evt_limit ?p"])
        (use False p W in \<open>simp_all add: w1 block_def word_le_nat_alt\<close>)
    then show ?thesis by (intro exI [of _ W]) simp
  qed
qed

text \<open>Steps that leave watermark, numbers and counters alone keep the invariant.\<close>

lemma gseq_inv_cong:
  assumes "hw_wm w' = hw_wm w" "hw_given w' = hw_given w" "length (hw_procs w') = length (hw_procs w)"
    "\<And>i. i < length (hw_procs w) \<Longrightarrow> g_evt_gseq (hw_procs w' ! i) = g_evt_gseq (hw_procs w ! i) \<and>
       g_evt_limit (hw_procs w' ! i) = g_evt_limit (hw_procs w ! i)"
  shows "gseq_inv W w' = gseq_inv W w"
  using assms by (auto simp: gseq_inv_def block_def all_set_conv_all_nth)

lemma gseq_inv_pending: "gseq_inv W (set_pending i fo w) = gseq_inv W w"
  by (rule gseq_inv_cong) (auto simp: model_simps nth_upd)

lemma gseq_inv_mkdir: "gseq_inv W (evt_mkdir k d w) = gseq_inv W w"
  by (rule gseq_inv_cong) auto

subsection \<open>Numbers on disk\<close>

definition file_number :: "hall_file \<Rightarrow> u64" where
  "file_number f = hall_evt_gseq_of (Some (hf_text f))"

definition pending_number :: "hall_proc \<Rightarrow> u64 multiset" where
  "pending_number p = (case hp_pending p of None \<Rightarrow> {#} | Some f \<Rightarrow> {#file_number f#})"

text \<open>Each number handed out is in one file at most.\<close>

definition numbers_inv :: "hall_world \<Rightarrow> bool" where
  "numbers_inv w = (mset (map file_number (hw_files w)) + bag pending_number (hw_procs w) \<subseteq># mset (hw_given w))"

lemma number_prepared:
  assumes pr: "prepared io rq w g f" and q: "plain (Prepare i io rq)"
    and a: "evt_args_ok (rq_task_id rq) (rq_category rq) (rq_content rq)"
  shows "file_number f = g"
proof -
  obtain task category content where
    rq: "rq_task_id rq = Some task" "rq_category rq = Some category" "rq_content rq = Some content"
    using a by (rule args_ok_Some)
  obtain seq prev where f: "hf_name f = evt_id ''default'' task category (io_ts io) seq"
    "hf_text f = evt_text (evt_of rq (io_ts io) seq prev g) (hf_name f)"
    using pr rq by (auto simp: prepared_def Let_def split: prod.splits)
  have "CHR 0x22 \<notin> set (hf_name f)"
    using q rq dec_quote_free [of "unat seq"] by (auto simp: f(1) evt_id_def pad4_def quote_free_def)
  then have "hall_evt_gseq_of (Some (evt_text (evt_of rq (io_ts io) seq prev g) (hf_name f))) =
      he_gseq (evt_of rq (io_ts io) seq prev g)"
    using q by (intro gseq_evt_text) (simp_all add: evt_of_def quote_free_def)
  then show ?thesis by (simp add: file_number_def f(2) evt_of_def)
qed

lemma bag_pending:
  assumes "i < length ps"
  shows "bag pending_number (ps[i := p]) + pending_number (ps ! i) = bag pending_number ps + pending_number p"
  using assms by (rule bag_update)

lemma numbers_prepare:
  assumes inv: "numbers_inv w" and i: "i < length (hw_procs w)" "hp_pending (hw_procs w ! i) = None"
    and e: "evt_prepare root io i rq w = (fo, w')" and q: "plain (Prepare i io rq)"
  shows "numbers_inv (set_pending i fo w')"
proof -
  from prepare_shape [OF e] consider "fo = None" "w' = w"
    | g w1 where "evt_next_gseq io i w = (g, w1)" "evt_args_ok (rq_task_id rq) (rq_category rq) (rq_content rq)"
      "w' \<in> {w1, evt_mkdir (io_dirs io) (dir_key (the (rq_task_id rq)) (the (rq_category rq))) w1}"
      "\<forall>f. fo = Some f \<longrightarrow> prepared io rq w' g f"
    by blast
  then show ?thesis
  proof cases
    case 1
    then have "bag pending_number (hw_procs (set_pending i fo w')) = bag pending_number (hw_procs w)"
      using i by (auto simp: set_pending_def pending_number_def intro: bag_update_same)
    with inv 1 show ?thesis by (simp add: numbers_inv_def)
  next
    case 2
    obtain p where p: "hw_procs w1 = (hw_procs w)[i := p]" using 2(1) by (rule next_gseq_procs)
    define p' where "p' = p\<lparr>hp_pending := fo\<rparr>"
    have w': "hw_procs (set_pending i fo w') = (hw_procs w)[i := p']" "hw_files w' = hw_files w" "hw_given w' = hw_given w @ [g]"
      using 2(3) next_gseq_keeps [OF 2(1)] p i by (auto simp: set_pending_def p'_def)
    have pn: "pending_number p' \<subseteq># {#g#}"
      using 2(2,4) number_prepared [OF _ q] by (auto simp: p'_def pending_number_def split: option.splits)
    have "bag pending_number ((hw_procs w)[i := p']) = bag pending_number (hw_procs w) + pending_number p'"
      using bag_pending [OF i(1), of p'] i(2) by (simp add: pending_number_def)
    with subset_mset.add_mono [OF inv [unfolded numbers_inv_def] pn] show ?thesis
      by (simp add: numbers_inv_def w' union_assoc)
  qed
qed

lemma put_file_numbers: "mset (map file_number (put_file f fs)) \<subseteq># add_mset (file_number f) (mset (map file_number fs))"
  by (simp add: put_file_def image_mset_subseteq_mono multiset_filter_subset)

lemma numbers_commit:
  assumes inv: "numbers_inv w" and i: "i < length (hw_procs w)"
  shows "numbers_inv (hall_step root w (Commit i wr))"
proof -
  let ?p = "hw_procs w ! i"
  let ?w = "snd (evt_commit wr (hp_pending ?p) w)"
  have b: "bag pending_number ((hw_procs w)[i := ?p\<lparr>hp_pending := None\<rparr>]) + pending_number ?p = bag pending_number (hw_procs w)"
    using bag_pending [OF i, of "?p\<lparr>hp_pending := None\<rparr>"] by (simp add: pending_number_def)
  have f: "mset (map file_number (hw_files ?w)) \<subseteq># mset (map file_number (hw_files w)) + pending_number ?p"
    using put_file_numbers by (auto simp: evt_commit_def pending_number_def split: option.splits)
  have "mset (map file_number (hw_files ?w)) + bag pending_number ((hw_procs w)[i := ?p\<lparr>hp_pending := None\<rparr>])
      \<subseteq># mset (map file_number (hw_files w)) + bag pending_number (hw_procs w)"
    unfolding b [symmetric] using subset_mset.add_right_mono [OF f] by (simp add: ac_simps)
  also have "\<dots> \<subseteq># mset (hw_given w)" using inv by (simp add: numbers_inv_def)
  finally show ?thesis
    using i by (simp add: numbers_inv_def model_simps split: option.splits if_splits)
qed

lemma numbers_empty: "numbers_inv w \<Longrightarrow> hw_given w = [] \<Longrightarrow> hw_files w = []"
  by (simp add: numbers_inv_def)

lemma numbers_step:
  assumes "numbers_inv w" "plain a"
  shows "numbers_inv (hall_step root w a)"
proof (cases a)
  case (Prepare i io rq)
  then show ?thesis using assms numbers_prepare [OF assms(1)] by (auto split: prod.splits)
next
  case (Commit i wr)
  then show ?thesis using assms numbers_commit by (cases "i < length (hw_procs w)") auto
qed

lemma gseq_step:
  assumes inv: "gseq_inv W w" "numbers_inv w" and a: "reliable a" and W: "W + 1024 < 2 ^ 64"
  shows "\<exists>W' \<le> W + 1024. gseq_inv W' (hall_step root w a)"
proof (cases a)
  case (Prepare i io rq)
  show ?thesis
  proof (cases "i < length (hw_procs w) \<and> hp_pending (hw_procs w ! i) = None")
    case True
    obtain fo w' where e: "evt_prepare root io i rq w = (fo, w')" by fastforce
    have "\<exists>W' \<le> W + 1024. gseq_inv W' w'"
      using prepare_shape [OF e]
    proof (elim disjE conjE exE)
      assume "w' = w" then show ?thesis using inv(1) by (intro exI [of _ W]) simp
    next
      fix g w1
      assume n: "evt_next_gseq io i w = (g, w1)"
        and w': "w' \<in> {w1, evt_mkdir (io_dirs io) (dir_key (the (rq_task_id rq)) (the (rq_category rq))) w1}"
      have "\<exists>W' \<le> W + 1024. gseq_inv W' w1"
        by (rule next_gseq_inv [OF inv(1) _ n _ W numbers_empty [OF inv(2)], of rq]) (use True a Prepare in auto)
      with w' show ?thesis by (auto simp: gseq_inv_mkdir)
    qed
    with True Prepare e show ?thesis by (simp add: gseq_inv_pending)
  next
    case False
    then show ?thesis using Prepare inv(1) by (intro exI [of _ W]) auto
  qed
next
  case (Commit i wr)
  have "gseq_inv W (snd (evt_commit wr (hp_pending (hw_procs w ! i)) w)) = gseq_inv W w"
    by (rule gseq_inv_cong) (auto simp: model_simps split: option.splits)
  then show ?thesis using Commit inv(1) by (intro exI [of _ W]) (simp add: gseq_inv_pending)
qed

lemma run_unique:
  assumes "gseq_inv W w" "numbers_inv w" "list_all reliable acts" "list_all plain acts" "W + 1024 * length acts < 2 ^ 64"
  shows "\<exists>W'. gseq_inv W' (foldl (hall_step root) w acts)" "numbers_inv (foldl (hall_step root) w acts)"
  using assms
proof (induction acts arbitrary: w W)
  case (Cons a acts)
  {
    case 1
    obtain W' where "W' \<le> W + 1024" "gseq_inv W' (hall_step root w a)"
      using gseq_step [of W w a root] 1 by auto
    then show ?case using Cons.IH(1) [of W' "hall_step root w a"] 1 numbers_step [of w a root] by simp
  next
    case 2
    obtain W' where "W' \<le> W + 1024" "gseq_inv W' (hall_step root w a)"
      using gseq_step [of W w a root] 2 by auto
    then show ?case using Cons.IH(2) [of W' "hall_step root w a"] 2 numbers_step [of w a root] by simp
  }
qed auto

lemma unique_start: "gseq_inv 0 (hall_start n)" "numbers_inv (hall_start n)"
  by (auto simp: gseq_inv_def hall_start_def block_def numbers_inv_def pending_number_def bag_replicate_empty)

lemma distinct_subset_mset:
  assumes "mset xs \<subseteq># mset ys" "distinct ys"
  shows "distinct xs"
proof (rule ccontr)
  assume "\<not> distinct xs"
  then obtain a where "1 < count (mset xs) a"
    by (metis count_mset_0_iff distinct_count_atmost_1 linorder_neqE_nat not_in_iff set_mset_mset less_one)
  then have "1 < count (mset ys) a" using mset_subset_eq_count [OF assms(1), of a] by linarith
  with assms(2) show False by (simp add: distinct_count_atmost_1 split: if_splits)
qed

subsection \<open>The chain of a directory\<close>

lemma scan_dominated:
  assumes "\<forall>x \<in> set xs. hall_evt_seq x < 2 ^ 32" "n \<in> set xs" "0 < hall_evt_seq n"
    and max: "\<And>x. x \<in> set xs \<Longrightarrow> x \<noteq> n \<Longrightarrow> hall_evt_seq x < hall_evt_seq n"
  shows "ucast (fst (foldl evt_dir_step (0, []) xs)) = hall_evt_seq n"
    "snd (foldl evt_dir_step (0, []) xs) = str_fit HALL_EVT_ID_MAX n"
proof -
  let ?r = "foldl evt_dir_step (0, []) xs"
  note F = dir_scan_fold [OF assms(1)]
  have le: "hall_evt_seq n \<le> ucast (fst ?r)" using F assms(2) by blast
  have "?r \<noteq> (0, [])"
  proof
    assume "?r = (0, [])"
    with le assms(3) show False by simp
  qed
  with F obtain x where x: "x \<in> set xs" "hall_evt_seq x = ucast (fst ?r)" "snd ?r = str_fit HALL_EVT_ID_MAX x" by blast
  have "x = n"
  proof (rule ccontr)
    assume "x \<noteq> n"
    from max [OF x(1) this] le show False by (simp add: x(2))
  qed
  with x show "ucast (fst ?r) = hall_evt_seq n" "snd ?r = str_fit HALL_EVT_ID_MAX n" by simp_all
qed

text \<open>A scan finds the number after the largest one.\<close>

lemma scan_next:
  assumes "\<forall>x \<in> set xs. hall_evt_seq x < 2 ^ 32 - 1" "fst (foldl evt_dir_step (0, []) xs) = m"
  shows "unat (m + 1) = Suc (unat m)" "\<forall>x \<in> set xs. hall_evt_seq x < ucast (m + 1)"
proof -
  have lt: "\<forall>x \<in> set xs. hall_evt_seq x < 2 ^ 32"
    using assms(1) by (auto simp: word_less_nat_alt)
  note F = dir_scan_fold [OF lt]
  have "unat m < 2 ^ 32 - 1"
    using F
  proof (elim conjE disjE bexE)
    assume "foldl evt_dir_step (0, []) xs = (0, [])"
    then show ?thesis using assms(2) by simp
  next
    fix x
    assume "x \<in> set xs" "hall_evt_seq x = ucast (fst (foldl evt_dir_step (0, []) xs))"
    then show ?thesis using assms by (auto simp: word_less_nat_alt unat_ucast_up)
  qed
  then show u: "unat (m + 1) = Suc (unat m)" by (simp add: unat_plus_if')
  have "unat (hall_evt_seq x) < unat (ucast (m + 1) :: u64)" if "x \<in> set xs" for x
  proof -
    have "hall_evt_seq x \<le> ucast m" using F that assms(2) by blast
    then have "unat (hall_evt_seq x) \<le> unat (ucast m :: u64)" by (simp add: word_le_nat_alt)
    then show ?thesis using u by (simp add: unat_ucast_up)
  qed
  then show "\<forall>x \<in> set xs. hall_evt_seq x < ucast (m + 1)" by (simp add: word_less_nat_alt)
qed

lemma mkdir_entries:
  assumes "length d \<le> length e"
  shows "dir_entries (evt_mkdir k d w) e = dir_entries w e"
proof -
  have "\<not> (x \<noteq> [] \<and> butlast x = e)" if "x \<in> set (take k (map (\<lambda>n. take (Suc n) d) [0..<length d]))" for x
  proof
    assume x: "x \<noteq> [] \<and> butlast x = e"
    from in_set_takeD [OF that] obtain n where "x = take n d" by auto
    then have "length x \<le> length d" by simp
    moreover from x have "length x = Suc (length e)" by (auto simp: Suc_pred' [symmetric])
    ultimately show False using assms by simp
  qed
  then show ?thesis by (simp add: dir_entries_def evt_mkdir_def filter_empty_conv)
qed

lemma prepare_scan:
  assumes e: "evt_prepare root io i rq w = (Some f, w')" and rq: "rq_task_id rq = Some task" "rq_category rq = Some category"
  obtains g w1 where "evt_next_gseq io i w = (g, w1)" "w' = evt_mkdir (io_dirs io) (dir_key task category) w1" "2 \<le> io_dirs io"
    "prepared io rq w' g f"
proof -
  obtain g w1 where n: "evt_next_gseq io i w = (g, w1)" by fastforce
  have "w' = evt_mkdir (io_dirs io) (dir_key task category) w1 \<and> 2 \<le> io_dirs io"
    using e n rq by (auto simp: evt_prepare_def Let_def split: if_splits option.splits prod.splits)
  moreover have "prepared io rq w' g f" using prepare_shape [OF e] n by auto
  ultimately show thesis using that n by blast
qed

text \<open>A second call finds the directories there.\<close>

lemma mkdir_again:
  assumes "2 \<le> k" "2 \<le> k'" "length d \<le> 2"
    and w: "hw_dirs w' = hw_dirs (evt_mkdir k d w)"
  shows "hw_dirs (evt_mkdir k' d w') = hw_dirs w'"
proof -
  have "take k (map (\<lambda>n. take (Suc n) d) [0..<length d]) = map (\<lambda>n. take (Suc n) d) [0..<length d]"
    "take k' (map (\<lambda>n. take (Suc n) d) [0..<length d]) = map (\<lambda>n. take (Suc n) d) [0..<length d]"
    using assms by simp_all
  then show ?thesis using w by (auto simp: evt_mkdir_def filter_empty_conv)
qed

lemma prepare_twice:
  assumes e: "evt_prepare root io i rq w = (Some f, w1)" "evt_prepare root io' j rq' w1 = (Some f', w2)"
    and same: "rq_task_id rq' = rq_task_id rq" "rq_category rq' = rq_category rq" "io_ts io' = io_ts io" "io_ls io' = io_ls io"
  shows "hf_dir f' = hf_dir f \<and> hf_name f' = hf_name f"
proof -
  obtain task category where rq: "rq_task_id rq = Some task" "rq_category rq = Some category"
    using e(1) by (auto simp: evt_prepare_def split: if_splits elim: args_ok_Some)
  note rq' = same(1) [unfolded rq] same(2) [unfolded rq]
  from e(1) rq obtain g v where a: "evt_next_gseq io i w = (g, v)" "w1 = evt_mkdir (io_dirs io) (dir_key task category) v"
    "2 \<le> io_dirs io" "prepared io rq w1 g f" by (rule prepare_scan)
  from e(2) rq' obtain g' v' where b: "evt_next_gseq io' j w1 = (g', v')"
    "w2 = evt_mkdir (io_dirs io') (dir_key task category) v'" "2 \<le> io_dirs io'" "prepared io' rq' w2 g' f'"
    by (rule prepare_scan)
  have "hw_dirs w2 = hw_dirs v'"
    unfolding b(2) using next_gseq_keeps(2) [OF b(1)] a(2,3) b(3) dir_key_length by (intro mkdir_again) auto
  then have "dir_entries w2 d = dir_entries w1 d" for d
    using next_gseq_keeps(1,2) [OF b(1)] by (simp add: dir_entries_def b(2))
  then have "evt_dir_scan io' w2 d = evt_dir_scan io w1 d" for d by (simp add: evt_dir_scan_def same(4))
  then show ?thesis using a(4) b(4) rq same by (auto simp: prepared_def Let_def split: prod.splits)
qed

text \<open>The scan of a directory to which the next event was added.\<close>

lemma scan_extends:
  assumes small: "\<forall>x \<in> set xs. hall_evt_seq x < 2 ^ 32 - 1" and xs: "foldl evt_dir_step (0, []) xs = (m, prev)"
    and ys: "set ys = insert n (set xs)" and n: "hall_evt_seq n = ucast (m + 1)" "length n < HALL_EVT_ID_MAX"
  shows "foldl evt_dir_step (0, []) ys = (m + 1, n)"
proof -
  note N = scan_next [OF small, of m, simplified xs fst_conv, OF refl]
  have "unat (ucast (m + 1) :: u64) < 2 ^ 32" using u32_lt [of "m + 1"] by (simp add: unat_ucast_up)
  moreover have "unat (hall_evt_seq x) < 2 ^ 32" if "x \<in> set xs" for x
    using small that by (auto simp: word_less_nat_alt)
  ultimately have lt: "\<forall>x \<in> set ys. hall_evt_seq x < 2 ^ 32" by (auto simp: ys n(1) word_less_nat_alt)
  have pos: "0 < hall_evt_seq n" using N(1) by (simp add: n(1) word_less_nat_alt unat_ucast_up)
  have dom: "hall_evt_seq x < hall_evt_seq n" if "x \<in> set ys" "x \<noteq> n" for x
    unfolding n(1) using N(2) that ys by blast
  have "n \<in> set ys" by (simp add: ys)
  then have D: "ucast (fst (foldl evt_dir_step (0, []) ys)) = hall_evt_seq n"
    "snd (foldl evt_dir_step (0, []) ys) = str_fit HALL_EVT_ID_MAX n"
    using scan_dominated [OF lt _ pos] dom by blast+
  have "unat (fst (foldl evt_dir_step (0, []) ys)) = unat (m + 1)"
    using arg_cong [OF D(1), of unat] by (simp add: n(1) unat_ucast_up)
  then have "fst (foldl evt_dir_step (0, []) ys) = m + 1" by (simp only: word_unat_eq_iff)
  moreover have "snd (foldl evt_dir_step (0, []) ys) = n" using D(2) n(2) by (simp add: str_fit_id)
  ultimately show ?thesis by (metis prod.collapse)
qed

lemma written_file:
  assumes ok: "hall_evt_write root io True i rq w = (0, w')"
    and rq: "rq_task_id rq = Some task" "rq_category rq = Some category"
    and dots: "CHR ''.'' \<notin> set task" "CHR ''.'' \<notin> set category"
    and sc: "evt_dir_scan io w [task, category] = (seq, prev)"
  shows "\<exists>f. hw_files w' = put_file f (hw_files w) \<and> hf_dir f = [task, category] \<and>
    hf_name f = evt_id ''default'' task category (io_ts io) seq \<and> length (evt_id ''default'' task category (io_ts io) seq) < HALL_EVT_ID_MAX \<and>
    hf_text f = evt_text (evt_of rq (io_ts io) seq prev (last (hw_given w'))) (evt_id ''default'' task category (io_ts io) seq) \<and>
    task \<noteq> [] \<and> category \<noteq> [] \<and>
    set (dir_entries w' [task, category]) =
      insert (evt_id ''default'' task category (io_ts io) seq) (set (dir_entries w [task, category]))"
proof -
  let ?key = "[task, category]" and ?n = "evt_id ''default'' task category (io_ts io) seq"
  obtain f w2 where e: "evt_prepare root io i rq w = (Some f, w2)" and w': "w' = w2\<lparr>hw_files := put_file f (hw_files w2)\<rparr>"
    using ok by (auto simp: hall_evt_write_def evt_commit_def split: prod.splits option.splits)
  have ne: "task \<noteq> []" "category \<noteq> []"
    using e rq by (auto simp: evt_prepare_def evt_args_ok_def split: if_splits)
  have key: "dir_key task category = ?key" using dots by (intro dir_key_two) auto
  from e rq obtain g w1 where p: "evt_next_gseq io i w = (g, w1)" "w2 = evt_mkdir (io_dirs io) ?key w1" "prepared io rq w2 g f"
    by (rule prepare_scan) (simp add: key)
  note k = next_gseq_keeps [OF p(1)]
  have E: "dir_entries w2 ?key = dir_entries w ?key"
    unfolding p(2) using k(1,2) mkdir_entries [of ?key ?key "io_dirs io" w1] by (simp add: dir_entries_def)
  then have "evt_dir_scan io w2 ?key = (seq, prev)" using sc by (simp add: evt_dir_scan_def)
  then have f: "hf_dir f = ?key" "hf_name f = ?n" "length ?n < HALL_EVT_ID_MAX"
    "hf_text f = evt_text (evt_of rq (io_ts io) seq prev g) ?n"
    using p(3) rq by (auto simp: prepared_def key Let_def)
  have fs: "hw_files w2 = hw_files w" using k(1) by (simp add: p(2))
  have g: "last (hw_given w') = g" using k(3) by (simp add: w' p(2))
  have "dir_entries w' ?key = map last (filter (\<lambda>e. e \<noteq> [] \<and> butlast e = ?key) (hw_dirs w2)) @
      map hf_name (filter (\<lambda>f. hf_dir f = ?key) (put_file f (hw_files w2)))"
    by (simp add: w' dir_entries_def)
  then have "set (dir_entries w' ?key) = insert ?n (set (dir_entries w2 ?key))"
    using f(1,2) by (auto simp: model_simps)
  with f fs g ne E show ?thesis by (intro exI [of _ f]) (simp add: w')
qed

subsection \<open>Properties\<close>

text \<open>
  C4: However the processes that share a store interleave, as long as the watermark can be locked, read and
  written, the task, category, node and time texts of the events contain no quote, and fewer than
  \<open>2 ^ 54\<close> actions run, no global number is handed out twice, and the readers find different numbers in
  all event files, whatever failed on the way to them.
\<close>

theorem hall_gseq_unique:
  assumes "list_all reliable acts" "list_all plain acts" "1024 * length acts < 2 ^ 64"
    and w: "w = foldl (hall_step root) (hall_start n) acts"
  shows "distinct (hw_given w) \<and> distinct (map (\<lambda>f. hall_evt_gseq_of (Some (hf_text f))) (hw_files w))"
proof -
  obtain W where "gseq_inv W w" and nm: "numbers_inv w"
    using run_unique [OF unique_start(1,2) [of n] assms(1,2), of root] assms(3) w by auto
  then have d: "distinct (hw_given w)" by (simp add: gseq_inv_def)
  have "mset (map file_number (hw_files w)) \<subseteq># mset (hw_given w)"
    using subset_mset.order_trans [OF mset_subset_eq_add_left nm [unfolded numbers_inv_def]] .
  from distinct_subset_mset [OF this d] d show ?thesis unfolding file_number_def by blast
qed

definition sample_io :: "cstr \<Rightarrow> evt_io" where
  "sample_io ts =
     \<lparr>io_ts = ts, io_open = True, io_lock = True, io_read = True, io_store = True, io_dirs = 2, io_ls = id, io_mem = True\<rparr>"

definition sample_req :: "cstr \<Rightarrow> evt_req" where
  "sample_req task =
     \<lparr>rq_task_id = Some task, rq_category = Some ''chain'', rq_node_id = None, rq_content = Some ''{}''\<rparr>"

theorem hall_gseq_unique_witness:
  "let w = foldl (hall_step ''/h'') (hall_start 2)
         [Prepare 0 (sample_io ''T'') (sample_req ''t1''), Prepare 1 (sample_io ''T'') (sample_req ''t2''), Commit 1 True, Commit 0 True]
   in hw_given w = [1, 1025] \<and> distinct (hw_given w) \<and> distinct (map (\<lambda>f. hall_evt_gseq_of (Some (hf_text f))) (hw_files w))"
proof -
  let ?acts = "[Prepare 0 (sample_io ''T'') (sample_req ''t1''), Prepare 1 (sample_io ''T'') (sample_req ''t2''), Commit 1 True, Commit 0 True]"
  have "hw_given (foldl (hall_step ''/h'') (hall_start 2) ?acts) = [1, 1025]" by code_simp
  then show ?thesis
    using hall_gseq_unique [OF _ _ _ refl, of ?acts "''/h''" 2] by (simp add: sample_io_def sample_req_def quote_free_def)
qed

text \<open>
  C37: A call that succeeds extends the chain of its directory: the event carries the number after the largest one there
  and names the event that had it, and the next scan, in whatever order the directory is read, finds the new
  event as the last. Numbers stay below the end of their type, and task, category and time have no dot.
\<close>

theorem hall_write_chains:
  assumes ok: "hall_evt_write root io True i rq w = (0, w')"
    and rq: "rq_task_id rq = Some task" "rq_category rq = Some category"
    and dots: "CHR ''.'' \<notin> set task" "CHR ''.'' \<notin> set category" "CHR ''.'' \<notin> set (io_ts io)" "io_ts io \<noteq> []"
    and ls: "\<And>xs. set (io_ls io xs) = set xs" "\<And>xs. set (io_ls io' xs) = set xs"
    and small: "\<forall>x \<in> set (dir_entries w [task, category]). hall_evt_seq x < 2 ^ 32 - 1"
    and sc: "evt_dir_scan io w [task, category] = (seq, prev)"
  shows "evt_dir_scan io' w' [task, category] = (seq + 1, evt_id ''default'' task category (io_ts io) seq) \<and>
    (\<exists>f \<in> set (hw_files w'). hf_dir f = [task, category] \<and> hf_name f = evt_id ''default'' task category (io_ts io) seq \<and>
       hf_text f = evt_text (evt_of rq (io_ts io) seq prev (last (hw_given w'))) (hf_name f))"
proof -
  let ?n = "evt_id ''default'' task category (io_ts io) seq"
  obtain f where f: "hw_files w' = put_file f (hw_files w)" "hf_dir f = [task, category]" "hf_name f = ?n" "length ?n < HALL_EVT_ID_MAX"
    "hf_text f = evt_text (evt_of rq (io_ts io) seq prev (last (hw_given w'))) ?n" "task \<noteq> []" "category \<noteq> []"
    and E: "set (dir_entries w' [task, category]) = insert ?n (set (dir_entries w [task, category]))"
    using written_file [OF ok rq dots(1,2) sc] by blast
  obtain m where m: "foldl evt_dir_step (0, []) (io_ls io (dir_entries w [task, category])) = (m, prev)" "seq = m + 1"
    using sc by (auto simp: evt_dir_scan_def split: prod.splits)
  have "foldl evt_dir_step (0, []) (io_ls io' (dir_entries w' [task, category])) = (m + 1, ?n)"
  proof (rule scan_extends [OF _ m(1)])
    show "hall_evt_seq ?n = ucast (m + 1)" using f(6,7) dots m(2) by (simp add: seq_evt_id)
  qed (use small E ls f(4) in auto)
  moreover have "f \<in> set (hw_files w')" by (simp add: f(1) put_file_def)
  ultimately show ?thesis using f by (auto simp: evt_dir_scan_def m(2))
qed

theorem hall_write_chains_witness:
  "evt_dir_scan (sample_io ''U'') (snd (hall_evt_write ''/h'' (sample_io ''T'') True 0 (sample_req ''t1'') (hall_start 1))) [''t1'', ''chain''] =
     (2, evt_id ''default'' ''t1'' ''chain'' ''T'' 1)"
proof -
  have "fst (hall_evt_write ''/h'' (sample_io ''T'') True 0 (sample_req ''t1'') (hall_start 1)) = 0" by code_simp
  then have ok: "hall_evt_write ''/h'' (sample_io ''T'') True 0 (sample_req ''t1'') (hall_start 1) =
      (0, snd (hall_evt_write ''/h'' (sample_io ''T'') True 0 (sample_req ''t1'') (hall_start 1)))" by (simp add: prod_eq_iff)
  show ?thesis
    using hall_write_chains [OF ok, of "''t1''" "''chain''" "sample_io ''U''" 1 "[]"]
    by (simp add: sample_io_def sample_req_def hall_start_def dir_entries_def evt_dir_scan_def)
qed

text \<open>
  C39: Sequence numbers of a directory are not safe from other processes: when two processes number events of one task
  and category in the same millisecond before either file is written, both events get one name, both calls succeed,
  and the file of the first is gone.
\<close>

theorem hall_race_overwrites:
  assumes "evt_prepare root io i rq w = (Some f, w1)" "evt_prepare root io' j rq' w1 = (Some f', w2)"
    and "rq_task_id rq' = rq_task_id rq" "rq_category rq' = rq_category rq" "io_ts io' = io_ts io" "io_ls io' = io_ls io"
  shows "\<exists>w3 w4. evt_commit True (Some f) w2 = (0, w3) \<and> evt_commit True (Some f') w3 = (0, w4) \<and>
    filter (\<lambda>h. hf_dir h = hf_dir f \<and> hf_name h = hf_name f) (hw_files w4) = [f']"
proof -
  have "hf_dir f' = hf_dir f \<and> hf_name f' = hf_name f" using assms by (rule prepare_twice)
  then show ?thesis by (auto simp: model_simps filter_empty_conv)
qed

theorem hall_race_overwrites_witness:
  "\<exists>f f' w1 w2 w3 w4. evt_prepare ''/h'' (sample_io ''T'') 0 (sample_req ''t1'') (hall_start 2) = (Some f, w1) \<and>
     evt_prepare ''/h'' (sample_io ''T'') 1 (sample_req ''t1'') w1 = (Some f', w2) \<and>
     evt_commit True (Some f) w2 = (0, w3) \<and> evt_commit True (Some f') w3 = (0, w4) \<and>
     filter (\<lambda>h. hf_dir h = hf_dir f \<and> hf_name h = hf_name f) (hw_files w4) = [f']"
proof -
  obtain f w1 where 1: "evt_prepare ''/h'' (sample_io ''T'') 0 (sample_req ''t1'') (hall_start 2) = (Some f, w1)"
  proof -
    have "fst (evt_prepare ''/h'' (sample_io ''T'') 0 (sample_req ''t1'') (hall_start 2)) \<noteq> None" by code_simp
    then show thesis using that by (metis option.exhaust prod.collapse)
  qed
  obtain f' w2 where 2: "evt_prepare ''/h'' (sample_io ''T'') 1 (sample_req ''t1'') w1 = (Some f', w2)"
  proof -
    have "fst (evt_prepare ''/h'' (sample_io ''T'') 1 (sample_req ''t1'')
        (snd (evt_prepare ''/h'' (sample_io ''T'') 0 (sample_req ''t1'') (hall_start 2)))) \<noteq> None" by code_simp
    then show thesis using that 1 by (metis option.exhaust prod.collapse snd_conv)
  qed
  show ?thesis using 1 2 hall_race_overwrites [OF 1 2 refl refl refl refl] by blast
qed

text \<open>
  C40: A dot in a task id passes the validation but breaks the chain: the names of its events are never taken for
  event names, so that, whatever was written before, every event of the task is numbered 1 and has no predecessor.
\<close>

theorem hall_dotted_task_unnumbered:
  assumes w: "w = foldl (hall_step root) (hall_start n) acts" and dot: "CHR ''.'' \<in> set task"
    and ls: "\<And>xs. set (io_ls io xs) = set xs"
  shows "evt_dir_scan io w [task, category] = (1, [])"
proof -
  have "store_inv w" unfolding w by (rule store_run [OF store_start])
  then have "hall_evt_seq x = 0" if "x \<in> set (dir_entries w [task, category])" for x
    using entries_are_events [OF _ that] dot by (auto simp: seq_dotted)
  then show ?thesis by (simp add: evt_dir_scan_def dir_scan_no_numbers ls)
qed

theorem hall_dotted_task_unnumbered_witness:
  "hall_comp_valid (Some ''a.b'') \<and>
   (let w = foldl (hall_step ''/h'') (hall_start 1) [Prepare 0 (sample_io ''T'') (sample_req ''a.b''), Commit 0 True]
    in map hf_name (hw_files w) = [evt_id ''default'' ''a.b'' ''chain'' ''T'' 1] \<and>
       evt_dir_scan (sample_io ''U'') w [''a.b'', ''chain''] = (1, []))"
proof -
  define w where "w = foldl (hall_step ''/h'') (hall_start 1) [Prepare 0 (sample_io ''T'') (sample_req ''a.b''), Commit 0 True]"
  have "evt_dir_scan (sample_io ''U'') w [''a.b'', ''chain''] = (1, [])"
    by (rule hall_dotted_task_unnumbered [OF w_def]) (simp_all add: sample_io_def)
  moreover have "hall_comp_valid (Some ''a.b'') \<and> map hf_name (hw_files w) = [evt_id ''default'' ''a.b'' ''chain'' ''T'' 1]"
    unfolding w_def by code_simp
  ultimately show ?thesis unfolding Let_def w_def [symmetric] by blast
qed

end
