(* ===== verification/Spec2Isabelle.thy ===== *)
theory Spec2Isabelle
  imports Hindex Cache_Lru Utf8_Text Ipc_Backoff Breaker_Machine Breaker_Manager Service_Helper Svc_Registry Regex_Match Pool_Runs Log_Sanitizer Error_Runs Hall_Runs
begin

text \<open>
  Verification of the commons library: the C code under \<open>src/\<close> that the daemons of the system share.

  \<^bold>\<open>Conventions.\<close> A C function becomes an Isabelle function of the same name. A \<open>size_t\<close> that only counts
  elements of a live object is a \<open>nat\<close>; an integer whose wrap-around is observable keeps its width as a word.
  A string is its characters before the terminator (\<open>cstr\<close>), a raw buffer the list of its allocated bytes, a
  nullable pointer an \<open>option\<close>. Where the code manages memory by hand (cache, breaker manager, service
  framework, regular expressions) objects live in a heap or an arena, and an access to a freed or missing
  object makes the whole call \<open>None\<close>; a theorem that a call is \<open>Some\<close> therefore includes memory safety. The clock,
  random numbers, the outcome of allocations, of lock initialisation and of user callbacks are arguments of
  the definitions. A theorem about a run quantifies over them for every operation of the run; where a statement
  fixes one it says so: the cache of the cache theorems was created, the module of the service registry is
  initialised, a binding that is to survive in the cache was stored and copied with success, \<open>destroy\<close> functions do
  not free their service, and the theorems on leaks of the log sanitizer start from a successful
  initialisation. A function that runs under one mutex from its first access to shared data to its last is one
  atomic step. Log output is left out.

  \<^bold>\<open>Shared theories.\<close> \<open>Airy_Prelude\<close> (machine types, lists, rings of slots), \<open>Err_Codes\<close> (the error codes of
  \<open>include/airy_types.h\<close> and \<open>utils/error/error_codes.h\<close>), \<open>C_Strings\<close> (what is used of \<open>string.h\<close>),
  \<open>Slot_Tables\<close> (arrays with a used prefix: search, and removal by moving the last slot), \<open>Svc_State\<close> (the
  service states and their names), \<open>Bags\<close> (what several threads or processes hold, as a multiset).

  \<^bold>\<open>Data structures.\<close>
  \<^item> \<open>Hindex\<close> models \<open>utils/ds/hindex.c\<close>, an open-addressing hash index with tombstones. The probe loops are
    \<open>partial_function\<close>s; they are shown to return, and the table refines a finite map whose
    size the load limit bounds, whatever the allocations give.
  \<^item> \<open>Cache_Common\<close> and \<open>Cache_Lru\<close> model \<open>utils/cache/cache_common.c\<close>: hash chains and a doubly linked list over
    one heap. The two containers are shown to agree, and the cache refines a bounded recency list,
    also when entries or copies cannot be allocated.

  \<^bold>\<open>Text.\<close>
  \<^item> \<open>Safe_String\<close>: the bounded string functions of \<open>utils/string/safe_string_utils.c\<close> on raw buffers.
  \<^item> \<open>Safe_Utf8\<close>, \<open>Utf8_Text\<close>: decoder, validator, sanitizer and prefix cut of \<open>utils/string/safe_utf8.c\<close> against
    the encoding of RFC 3629.
  \<^item> \<open>Regex_Parse\<close>, \<open>Regex_Engine\<close>: the regular expressions of \<open>utils/compat/airy_regex*.c\<close>, that is parser,
    compiler to a linked instruction graph, and backtracking executor with its depth limit. \<open>Regex_Paths\<close> gives the
    denotation of a syntax tree and the paths of a program, \<open>Regex_Fragments\<close> and \<open>Regex_Blocks\<close> the notion of a
    correctly compiled fragment and the blocks it is built from, \<open>Regex_Correct\<close> the induction over the tree,
    \<open>Regex_Vm\<close> the executor, \<open>Regex_Syntax\<close> the parser and \<open>Regex_Match\<close> the properties of all three together.
    The parser is recursive with fuel; \<open>re_fuel\<close> is shown to be enough for every pattern. Verdicts are right whenever
    one is given, and the error -1 is given exactly when the depth limit cuts the search.
  \<^item> \<open>Log_Sanitizer\<close>: the masking of sensitive fields in \<open>utils/security/log_sanitizer.c\<close>. Its output is shown not to
    depend on the masked values, and for a line built from text and fields to be that line with the values
    replaced, cut to the buffer; the specification builds the line and its masked form from the same pieces and uses
    none of the scanning code. Values behind quoted names and bearer credentials are shown to be logged.

  \<^bold>\<open>Errors.\<close>
  \<^item> \<open>Error_Catalog\<close>: the table of \<open>utils/error/error_catalog.c\<close> and the classes of \<open>err_class.c\<close>.
  \<^item> \<open>Error_Chain\<close>, \<open>Error_Runs\<close>: the error chains of the threads, statistics and renderings of \<open>utils/error/handler.c\<close>,
    with the messages on a heap. Runs of all threads refine the list of the last sixteen errors of each, without a leak.

  \<^bold>\<open>Threads and processes.\<close>
  \<^item> \<open>Thread_Pool\<close>, \<open>Pool_Runs\<close>: the pool of \<open>utils/sync/thread_pool.c\<close>, one step per critical section, and its
    interleavings: each task runs once, and a shutdown completes under every fair schedule.
  \<^item> \<open>Hall_Event\<close>, \<open>Hall_Format\<close>, \<open>Hall_Runs\<close>: the event store of \<open>utils/hall/hall_event.c\<close>, its file format, and
    processes that write to it at the same time. A call is split where another process can come between: the numbers
    and the file. Global numbers are shown unique while the watermark works; the sequence numbers of a
    directory form a chain for one writer and are shown to collide for two.

  \<^bold>\<open>IPC.\<close>
  \<^item> \<open>Ipc_Backoff\<close>: backoff and failure aggregation of \<open>utils/ipc/ipc_backoff.c\<close>.
  \<^item> \<open>Circuit_Breaker\<close>, \<open>Breaker_Machine\<close>, \<open>Breaker_Manager\<close>: the breaker of \<open>utils/ipc/circuit_breaker.c\<close>, sequences of
    calls on one breaker, and the manager that owns them.

  \<^bold>\<open>Services.\<close>
  \<^item> \<open>Service_Registry\<close>, \<open>Registry_Facts\<close>: the registry of \<open>utils/sd/service_discovery.c\<close> as a map.
  \<^item> \<open>Service_Lb\<close>: the selection strategies of \<open>service_discovery_lb.c\<close>.
  \<^item> \<open>Service_Discovery\<close>, \<open>Service_Machine\<close>: the public operations over a backend. The backend is a locale, which
    the shared-memory backend (\<open>service_discovery_backend_shm.c\<close>) interprets.
  \<^item> \<open>Service_Helper\<close>: the helper and its heartbeat thread, and the bootstrap of a daemon. Registration, heartbeats and
    shutdown are shown to act on the instance of the helper only.
  \<^item> \<open>Svc_Model\<close>, \<open>Svc_Lifecycle\<close>, \<open>Svc_Registry\<close>: the in-process service framework of \<open>utils/svc\<close>. The life cycle is
    shown to call the functions of a service in a legal order, and the linked registry refines a list of handles, failed creations
    included. Both hold for \<open>destroy\<close> functions that leave the service to the framework; one that frees it, as the
    header file documents, is shown to lead to a use after free.

  \<^bold>\<open>Not modelled.\<close> The platform layer (\<open>platform/\<close>), file access, logging back ends, networking, event loops and the
  locks of \<open>utils/sync\<close> consist of system calls or wrap them; where a modelled component calls them, their outcomes are
  arguments. The file backend of service discovery, JSON-RPC with its dispatcher and the JSON form of error classes
  work on trees of a third-party JSON library. Metrics, alerts, configuration values and YAML scalars are
  floating-point numbers. Checkpoints, traces, the rest of the configuration, the memory statistics, token
  counting, identifiers, cancellation tokens, task descriptors, extensions and the text helpers are
  ordinary code that no theory covers yet. In the modelled components, lock-free reads of single counters
  are taken as atomic, and printing to the log is left out.
\<close>

end
